(* ===== verification/Prelude.thy ===== *)
theory Prelude
  imports Main "HOL-Library.Word"
begin

text \<open>
  What every theory of this development shares: the machine types of \<open>types.h\<close>, the
  constants of \<open>param.h\<close>, the outcome type of kernel code (a value, a \<open>panic()\<close>, a
  call that puts its caller to sleep, or undefined behaviour of C), and the generic lemmas
  about that type, about bytes and about lists which the component proofs use.
\<close>

unbundle bit_operations_syntax

section \<open>Machine types and kernel constants\<close>

type_synonym u8 = "8 word"
type_synonym u16 = "16 word"
type_synonym u32 = "32 word"

text \<open>\<open>param.h\<close>.\<close>

abbreviation (input) NPROC :: nat where "NPROC \<equiv> 64"
abbreviation (input) KSTACKSIZE :: nat where "KSTACKSIZE \<equiv> 4096"
abbreviation (input) NCPU :: nat where "NCPU \<equiv> 8"
abbreviation (input) NOFILE :: nat where "NOFILE \<equiv> 16"
abbreviation (input) NFILE :: nat where "NFILE \<equiv> 100"
abbreviation (input) NINODE :: nat where "NINODE \<equiv> 50"
abbreviation (input) NDEV :: nat where "NDEV \<equiv> 10"
abbreviation (input) ROOTDEV :: nat where "ROOTDEV \<equiv> 1"
abbreviation (input) MAXARG :: nat where "MAXARG \<equiv> 32"
abbreviation (input) MAXOPBLOCKS :: nat where "MAXOPBLOCKS \<equiv> 10"
abbreviation (input) LOGSIZE :: nat where "LOGSIZE \<equiv> 30"
abbreviation (input) NBUF :: nat where "NBUF \<equiv> 30"
abbreviation (input) FSSIZE :: nat where "FSSIZE \<equiv> 3000"

section \<open>Outcomes of kernel code\<close>

text \<open>
  \<open>Ok v\<close>: the call returns \<open>v\<close> (usually with the new state). \<open>Panic m\<close>: it calls
  \<open>panic(m)\<close>, which never returns. \<open>Sleeps\<close>: it goes to sleep and does not complete
  by itself. \<open>Undef\<close>: the C code reads or writes outside its objects, or overflows a signed integer.
\<close>

datatype 'a res = Ok 'a | Panic string | Sleeps | Undef

definition kbind :: "'a res \<Rightarrow> ('a \<Rightarrow> 'b res) \<Rightarrow> 'b res" where
  "kbind m f = (case m of Ok x \<Rightarrow> f x | Panic e \<Rightarrow> Panic e | Sleeps \<Rightarrow> Sleeps | Undef \<Rightarrow> Undef)"

definition is_ok :: "'a res \<Rightarrow> bool" where
  "is_ok m = (case m of Ok _ \<Rightarrow> True | _ \<Rightarrow> False)"

definition assert_or :: "string \<Rightarrow> bool \<Rightarrow> unit res" where
  "assert_or msg b = (if b then Ok () else Panic msg)"

lemma kbind_simps [simp]:
  "kbind (Ok x) f = f x"
  "kbind (Panic e) f = Panic e"
  "kbind Sleeps f = Sleeps"
  "kbind Undef f = Undef"
  by (simp_all add: kbind_def)

lemma kbind_assoc: "kbind (kbind m f) g = kbind m (\<lambda>x. kbind (f x) g)"
  by (cases m) simp_all

lemma kbind_eq_Ok [simp]: "kbind m f = Ok r \<longleftrightarrow> (\<exists>x. m = Ok x \<and> f x = Ok r)"
  by (cases m) simp_all

lemma is_ok_simps [simp]:
  "is_ok (Ok x)" "\<not> is_ok (Panic e)" "\<not> is_ok Sleeps" "\<not> is_ok Undef"
  by (simp_all add: is_ok_def)

lemma is_ok_iff: "is_ok m \<longleftrightarrow> (\<exists>x. m = Ok x)"
  by (cases m) simp_all

lemma assert_or_Ok [simp]: "assert_or msg b = Ok u \<longleftrightarrow> b"
  by (simp add: assert_or_def)

lemma kbind_cong [fundef_cong]:
  "m = m' \<Longrightarrow> (\<And>x. m' = Ok x \<Longrightarrow> f x = f' x) \<Longrightarrow> kbind m f = kbind m' f'"
  by (cases m') simp_all

lemma uint_diff_eq_0 [simp]: "uint (a :: 'a::len word) - uint b = 0 \<longleftrightarrow> a = b"
  by (auto simp: word_uint_eq_iff)

section \<open>Loops over a list of indices\<close>

primrec kfold :: "('a \<Rightarrow> 's \<Rightarrow> 's res) \<Rightarrow> 'a list \<Rightarrow> 's \<Rightarrow> 's res" where
  "kfold f [] s = Ok s"
| "kfold f (x # xs) s = kbind (f x s) (kfold f xs)"

lemma kfold_append: "kfold f (xs @ ys) s = kbind (kfold f xs s) (kfold f ys)"
  by (induction xs arbitrary: s) (simp_all add: kbind_assoc cong: kbind_cong)

lemma kfold_invariant:
  assumes "kfold f xs s = Ok s'" "P s" "\<And>x s s'. x \<in> set xs \<Longrightarrow> P s \<Longrightarrow> f x s = Ok s' \<Longrightarrow> P s'"
  shows "P s'"
  using assms by (induction xs arbitrary: s) auto

section \<open>Little-endian bytes\<close>

definition le16 :: "u16 \<Rightarrow> u8 list" where
  "le16 w = [ucast w, ucast (drop_bit 8 w)]"

definition le32 :: "u32 \<Rightarrow> u8 list" where
  "le32 w = [ucast w, ucast (drop_bit 8 w), ucast (drop_bit 16 w), ucast (drop_bit 24 w)]"

definition rd16 :: "u8 list \<Rightarrow> u16" where
  "rd16 bs = (case bs of b0 # b1 # _ \<Rightarrow> ucast b0 OR push_bit 8 (ucast b1) | _ \<Rightarrow> 0)"

definition rd32 :: "u8 list \<Rightarrow> u32" where
  "rd32 bs = (case bs of b0 # b1 # b2 # b3 # _ \<Rightarrow>
      ucast b0 OR push_bit 8 (ucast b1) OR push_bit 16 (ucast b2) OR push_bit 24 (ucast b3)
    | _ \<Rightarrow> 0)"

lemma length_le16 [simp]: "length (le16 w) = 2"
  by (simp add: le16_def)

lemma length_le32 [simp]: "length (le32 w) = 4"
  by (simp add: le32_def)

lemma rd16_le16 [simp]: "rd16 (le16 w @ bs) = w"
  by (simp add: rd16_def le16_def)
    (rule bit_word_eqI, auto simp: bit_simps)

lemma rd32_le32 [simp]: "rd32 (le32 w @ bs) = w"
proof -
  have "bit (rd32 (le32 w @ bs)) n = bit w n" if "n < 32" for n
  proof -
    consider "n < 8" | "8 \<le> n" "n < 16" | "16 \<le> n" "n < 24" | "24 \<le> n"
      by linarith
    then show ?thesis
      using that by cases (auto simp: rd32_def le32_def bit_simps less_diff_conv2)
  qed
  then show ?thesis
    by (intro bit_word_eqI) simp
qed

end
