(* ===== verification/Locks.thy ===== *)
theory Locks
  imports Prelude
begin

text \<open>
  Mutual exclusion: \<open>spinlock.c\<close> (interrupt nesting, spin locks, and a step relation for
  several CPUs that contend for one lock) and \<open>sleeplock.c\<close>.
\<close>

section \<open>Definitions: spinlock.c\<close>

text \<open>The fields of \<open>struct cpu\<close> that locking uses, and the interrupt flag of the CPU.\<close>

record cpu =
  ncli :: int
  intena :: bool
  eflags_if :: bool

record spinlock =
  locked :: u32
  lk_name :: string
  lk_cpu :: "nat option"
  lk_pcs :: "u32 list"

definition initlock :: "string \<Rightarrow> spinlock \<Rightarrow> spinlock" where
  "initlock name lk = lk\<lparr>lk_name := name, locked := 0, lk_cpu := None\<rparr>"

definition pushcli :: "cpu \<Rightarrow> cpu" where
  "pushcli c =
     (let eflags = eflags_if c;
          c1 = c\<lparr>eflags_if := False\<rparr>;
          c2 = (if ncli c1 = 0 then c1\<lparr>intena := eflags\<rparr> else c1)
      in c2\<lparr>ncli := ncli c2 + 1\<rparr>)"

definition popcli :: "cpu \<Rightarrow> cpu res" where
  "popcli c =
     (if eflags_if c then Panic ''popcli - interruptible''
      else let c1 = c\<lparr>ncli := ncli c - 1\<rparr>
           in if ncli c1 < 0 then Panic ''popcli''
              else if ncli c1 = 0 \<and> intena c1 then Ok (c1\<lparr>eflags_if := True\<rparr>)
              else Ok c1)"

text \<open>The CPU that runs the code is \<open>me\<close>.\<close>

definition holding :: "nat \<Rightarrow> spinlock \<Rightarrow> cpu \<Rightarrow> (bool \<times> cpu) res" where
  "holding me lk c =
     (let c1 = pushcli c; r = (locked lk \<noteq> 0 \<and> lk_cpu lk = Some me)
      in kbind (popcli c1) (\<lambda>c2. Ok (r, c2)))"

text \<open>
  \<open>getcallerpcs\<close> follows the saved frame pointers: \<open>rd\<close> reads a word of the stack.
\<close>

fun callerpcs_loop :: "(u32 \<Rightarrow> u32) \<Rightarrow> u32 \<Rightarrow> nat \<Rightarrow> u32 list" where
  "callerpcs_loop rd ebp 0 = []"
| "callerpcs_loop rd ebp (Suc n) =
     (if ebp = 0 \<or> ebp < 0x80000000 \<or> ebp = 0xffffffff then replicate (Suc n) 0
      else rd (ebp + 4) # callerpcs_loop rd (rd ebp) n)"

definition getcallerpcs :: "(u32 \<Rightarrow> u32) \<Rightarrow> u32 \<Rightarrow> u32 list" where
  "getcallerpcs rd v = callerpcs_loop rd (v - 8) 10"

text \<open>
  \<open>acquire\<close> in the three parts that other CPUs can interleave: entering (disable
  interrupts, refuse a lock this CPU already holds), one round of the spin loop (the atomic
  exchange, its old value), and the bookkeeping after the exchange has succeeded.
\<close>

definition acquire_enter :: "nat \<Rightarrow> spinlock \<Rightarrow> cpu \<Rightarrow> cpu res" where
  "acquire_enter me lk c =
     kbind (holding me lk (pushcli c)) (\<lambda>(h, c1). if h then Panic ''acquire'' else Ok c1)"

definition xchg_locked :: "spinlock \<Rightarrow> u32 \<times> spinlock" where
  "xchg_locked lk = (locked lk, lk\<lparr>locked := 1\<rparr>)"

definition acquire_record :: "nat \<Rightarrow> u32 list \<Rightarrow> spinlock \<Rightarrow> spinlock" where
  "acquire_record me pcs lk = lk\<lparr>lk_cpu := Some me, lk_pcs := pcs\<rparr>"

text \<open>The whole of \<open>acquire\<close> run by one CPU: spinning on a held lock never returns.\<close>

definition acquire :: "nat \<Rightarrow> u32 list \<Rightarrow> spinlock \<Rightarrow> cpu \<Rightarrow> (spinlock \<times> cpu) res" where
  "acquire me pcs lk c =
     kbind (acquire_enter me lk c) (\<lambda>c1.
       case xchg_locked lk of (old, lk1) \<Rightarrow>
         if old \<noteq> 0 then Sleeps else Ok (acquire_record me pcs lk1, c1))"

definition release :: "nat \<Rightarrow> spinlock \<Rightarrow> cpu \<Rightarrow> (spinlock \<times> cpu) res" where
  "release me lk c =
     kbind (holding me lk c) (\<lambda>(h, c1).
       if \<not> h then Panic ''release''
       else let lk1 = lk\<lparr>lk_pcs := (lk_pcs lk)[0 := 0], lk_cpu := None, locked := 0\<rparr>
            in kbind (popcli c1) (\<lambda>c2. Ok (lk1, c2)))"

section \<open>Definitions: sleeplock.c\<close>

record sleeplock =
  slocked :: u32
  sl_name :: string
  sl_pid :: int

definition initsleeplock :: "string \<Rightarrow> sleeplock \<Rightarrow> sleeplock" where
  "initsleeplock name lk = lk\<lparr>sl_name := name, slocked := 0, sl_pid := 0\<rparr>"

text \<open>
  The process that runs the code has the id \<open>pid\<close>. While the lock is held, the caller
  sleeps on it.
\<close>

definition acquiresleep :: "int \<Rightarrow> sleeplock \<Rightarrow> sleeplock res" where
  "acquiresleep pid lk =
     (if slocked lk \<noteq> 0 then Sleeps else Ok (lk\<lparr>slocked := 1, sl_pid := pid\<rparr>))"

text \<open>\<open>releasesleep\<close> also wakes the processes that sleep on the lock (\<open>wakeup(lk)\<close>).\<close>

definition releasesleep :: "sleeplock \<Rightarrow> sleeplock" where
  "releasesleep lk = lk\<lparr>slocked := 0, sl_pid := 0\<rparr>"

definition holdingsleep :: "int \<Rightarrow> sleeplock \<Rightarrow> bool" where
  "holdingsleep pid lk \<longleftrightarrow> slocked lk \<noteq> 0 \<and> sl_pid lk = pid"

section \<open>Several CPUs and one spin lock\<close>

datatype lockpc = Outside | Spinning | Got | Inside

record locksys =
  the_lock :: spinlock
  cpus :: "nat \<Rightarrow> cpu"
  pcs :: "nat \<Rightarrow> lockpc"

definition lock_init :: "locksys \<Rightarrow> bool" where
  "lock_init s \<longleftrightarrow> locked (the_lock s) = 0 \<and> lk_cpu (the_lock s) = None \<and>
     (\<forall>i. pcs s i = Outside \<and> ncli (cpus s i) = 0)"

text \<open>
  \<open>Outside\<close>: not using the lock. \<open>Spinning\<close>: in the loop of \<open>acquire\<close>. \<open>Got\<close>: the
  exchange has returned 0 and \<open>lk->cpu\<close> is not yet written. \<open>Inside\<close>: the critical section.
\<close>

inductive lock_step :: "locksys \<Rightarrow> locksys \<Rightarrow> bool" where
  enter: "pcs s i = Outside \<Longrightarrow> acquire_enter i (the_lock s) (cpus s i) = Ok c \<Longrightarrow>
    lock_step s (s\<lparr>cpus := (cpus s)(i := c), pcs := (pcs s)(i := Spinning)\<rparr>)"
| spin: "pcs s i = Spinning \<Longrightarrow> xchg_locked (the_lock s) = (old, lk) \<Longrightarrow> old \<noteq> 0 \<Longrightarrow>
    lock_step s (s\<lparr>the_lock := lk\<rparr>)"
| win: "pcs s i = Spinning \<Longrightarrow> xchg_locked (the_lock s) = (old, lk) \<Longrightarrow> old = 0 \<Longrightarrow>
    lock_step s (s\<lparr>the_lock := lk, pcs := (pcs s)(i := Got)\<rparr>)"
| record_cpu: "pcs s i = Got \<Longrightarrow>
    lock_step s (s\<lparr>the_lock := acquire_record i ps (the_lock s), pcs := (pcs s)(i := Inside)\<rparr>)"
| leave: "pcs s i = Inside \<Longrightarrow> release i (the_lock s) (cpus s i) = Ok (lk, c) \<Longrightarrow>
    lock_step s (s\<lparr>the_lock := lk, cpus := (cpus s)(i := c), pcs := (pcs s)(i := Outside)\<rparr>)"

definition owns :: "lockpc \<Rightarrow> bool" where
  "owns p \<longleftrightarrow> p = Got \<or> p = Inside"

text \<open>The invariant: who owns the lock, what the lock records, and the CPUs' nesting depth.\<close>

definition lock_inv :: "locksys \<Rightarrow> bool" where
  "lock_inv s \<longleftrightarrow>
     (locked (the_lock s) = 0 \<longrightarrow> (\<forall>i. \<not> owns (pcs s i))) \<and>
     (\<forall>i j. owns (pcs s i) \<longrightarrow> owns (pcs s j) \<longrightarrow> i = j) \<and>
     (\<forall>i. lk_cpu (the_lock s) = Some i \<longleftrightarrow> pcs s i = Inside) \<and>
     (\<forall>i. ncli (cpus s i) = (if pcs s i = Outside then 0 else 1)) \<and>
     (\<forall>i. pcs s i \<noteq> Outside \<longrightarrow> \<not> eflags_if (cpus s i))"

section \<open>Lemmas\<close>

lemma pushcli_fields [simp]:
  "ncli (pushcli c) = ncli c + 1" "\<not> eflags_if (pushcli c)"
  "intena (pushcli c) = (if ncli c = 0 then eflags_if c else intena c)"
  by (simp_all add: pushcli_def Let_def)

lemma popcli_pushcli:
  assumes "0 \<le> ncli c" "0 < ncli c \<longrightarrow> \<not> eflags_if c"
  shows "\<exists>c'. popcli (pushcli c) = Ok c' \<and> ncli c' = ncli c \<and> eflags_if c' = eflags_if c \<and>
           (0 < ncli c \<longrightarrow> intena c' = intena c)"
  using assms by (auto simp: popcli_def pushcli_def Let_def)

lemma holding_ok:
  assumes "0 \<le> ncli c" "0 < ncli c \<longrightarrow> \<not> eflags_if c"
  shows "\<exists>c'. holding me lk c = Ok (locked lk \<noteq> 0 \<and> lk_cpu lk = Some me, c') \<and>
           ncli c' = ncli c \<and> eflags_if c' = eflags_if c \<and> (0 < ncli c \<longrightarrow> intena c' = intena c)"
  using popcli_pushcli [OF assms] by (auto simp: holding_def)

lemma acquire_enter_ok:
  assumes "0 \<le> ncli c" "lk_cpu lk \<noteq> Some me \<or> locked lk = 0"
  shows "\<exists>c'. acquire_enter me lk c = Ok c' \<and> ncli c' = ncli c + 1 \<and> \<not> eflags_if c' \<and>
           intena c' = (if ncli c = 0 then eflags_if c else intena c)"
proof -
  obtain c' where c': "holding me lk (pushcli c) = Ok (locked lk \<noteq> 0 \<and> lk_cpu lk = Some me, c')"
      "ncli c' = ncli (pushcli c)" "eflags_if c' = eflags_if (pushcli c)"
      "intena c' = intena (pushcli c)"
    using holding_ok [of "pushcli c" me lk] assms(1) by auto
  then show ?thesis
    unfolding acquire_enter_def c'(1) using assms(2) by auto
qed

lemma release_ok:
  assumes "locked lk \<noteq> 0" "lk_cpu lk = Some me" "0 < ncli c" "\<not> eflags_if c"
  shows "\<exists>lk' c'. release me lk c = Ok (lk', c') \<and> locked lk' = 0 \<and> lk_cpu lk' = None \<and>
           ncli c' = ncli c - 1 \<and> eflags_if c' = (ncli c = 1 \<and> intena c)"
proof -
  obtain c1 where c1: "holding me lk c = Ok (True, c1)" "ncli c1 = ncli c" "\<not> eflags_if c1"
      "intena c1 = intena c"
    using holding_ok [of c me lk] assms by auto
  then show ?thesis
    unfolding release_def c1(1) using assms by (auto simp: popcli_def Let_def)
qed

lemma owns_simps [simp]: "\<not> owns Outside" "\<not> owns Spinning" "owns Got" "owns Inside"
  by (simp_all add: owns_def)

lemma lock_inv_init: "lock_init s \<Longrightarrow> lock_inv s"
  by (auto simp: lock_init_def lock_inv_def owns_def)

lemma lock_inv_step:
  assumes "lock_step s t" "lock_inv s"
  shows "lock_inv t"
  using assms
proof (induction rule: lock_step.induct)
  case (enter s i c)
  have "ncli (cpus s i) = 0" "lk_cpu (the_lock s) \<noteq> Some i"
    using enter by (simp_all add: lock_inv_def)
  then have "ncli c = 1" "\<not> eflags_if c"
    using acquire_enter_ok [of "cpus s i" "the_lock s" i] enter.hyps(2) by auto
  then show ?case using enter by (auto simp: lock_inv_def owns_def)
next
  case (spin s i old lk)
  then show ?case by (auto simp: lock_inv_def xchg_locked_def)
next
  case (win s i old lk)
  then show ?case by (auto simp: lock_inv_def xchg_locked_def owns_def)
next
  case (record_cpu s i ps)
  have "owns (pcs s i) \<longrightarrow> owns (pcs s j) \<longrightarrow> i = j" for j
    using record_cpu.prems by (simp add: lock_inv_def)
  then have "pcs s j \<noteq> Inside" for j
    using record_cpu.hyps by (auto simp: owns_def)
  moreover have "locked (the_lock s) \<noteq> 0"
    using record_cpu unfolding lock_inv_def by (metis owns_simps(3))
  ultimately show ?case
    using record_cpu by (auto simp: lock_inv_def acquire_record_def)
next
  case (leave s i lk c)
  have "locked (the_lock s) \<noteq> 0" "lk_cpu (the_lock s) = Some i" "ncli (cpus s i) = 1"
    "\<not> eflags_if (cpus s i)"
    using leave unfolding lock_inv_def by (auto simp: owns_def)
  then have "locked lk = 0" "lk_cpu lk = None" "ncli c = 0"
    using release_ok [of "the_lock s" i "cpus s i"] leave.hyps(2) by auto
  moreover have no: "\<not> owns (pcs s j)" if "j \<noteq> i" for j
    using leave that unfolding lock_inv_def by (metis owns_simps(4))
  moreover have "pcs s j \<noteq> Inside" if "j \<noteq> i" for j
    using no [OF that] by auto
  ultimately show ?case
    using leave.prems by (auto simp: lock_inv_def)
qed

lemma lock_inv_run: "lock_step\<^sup>*\<^sup>* s t \<Longrightarrow> lock_inv s \<Longrightarrow> lock_inv t"
  by (induction rule: rtranclp_induct) (auto intro: lock_inv_step)

text \<open>Sequences of \<open>pushcli\<close> (\<open>True\<close>) and \<open>popcli\<close> (\<open>False\<close>), and their nesting depth.\<close>

primrec cli_run :: "bool list \<Rightarrow> cpu \<Rightarrow> cpu res" where
  "cli_run [] c = Ok c"
| "cli_run (p # ps) c = (if p then cli_run ps (pushcli c) else kbind (popcli c) (cli_run ps))"

definition cli_depth :: "bool list \<Rightarrow> int" where
  "cli_depth ps = int (count_list ps True) - int (count_list ps False)"

lemma cli_run_snoc:
  "cli_run (ps @ [p]) c = kbind (cli_run ps c) (\<lambda>c'. if p then Ok (pushcli c') else popcli c')"
proof (induction ps arbitrary: c)
  case (Cons q qs)
  show ?case
    by (cases "popcli c") (simp_all add: Cons kbind_assoc)
next
  case Nil
  show ?case
    by (cases "popcli c") simp_all
qed

lemma cli_depth_snoc: "cli_depth (ps @ [p]) = cli_depth ps + (if p then 1 else -1)"
  by (simp add: cli_depth_def)

section \<open>Properties\<close>



text \<open>\<open>pushcli\<close> and \<open>popcli\<close> are matched: every sequence in which no prefix pops more
  than it pushed runs without a panic, interrupts stay off while the depth is positive, and
  when the depth is back at zero the interrupt flag is what it was at the start.\<close>

theorem cli_nesting:
  assumes "ncli c = 0" "\<forall>n. 0 \<le> cli_depth (take n ps)"
  shows "\<exists>c'. cli_run ps c = Ok c' \<and> ncli c' = cli_depth ps \<and>
           eflags_if c' = (cli_depth ps = 0 \<and> eflags_if c)"
proof -
  have "\<exists>c'. cli_run ps c = Ok c' \<and> ncli c' = cli_depth ps \<and>
      eflags_if c' = (cli_depth ps = 0 \<and> eflags_if c) \<and>
      (cli_depth ps \<noteq> 0 \<longrightarrow> intena c' = eflags_if c)"
    using assms(2)
  proof (induction ps rule: rev_induct)
    case Nil
    show ?case using assms(1) by (simp add: cli_depth_def)
  next
    case (snoc p ps)
    have pre: "\<forall>n. 0 \<le> cli_depth (take n ps)"
    proof
      fix n
      show "0 \<le> cli_depth (take n ps)"
        using snoc.prems [rule_format, of "min n (length ps)"]
        by (simp add: min_def split: if_splits)
    qed
    have d: "0 \<le> cli_depth (ps @ [p])"
      using snoc.prems [rule_format, of "Suc (length ps)"] by simp
    have d0: "0 \<le> cli_depth ps"
      using pre [rule_format, of "length ps"] by simp
    from snoc.IH [OF pre] obtain c1 where c1: "cli_run ps c = Ok c1" "ncli c1 = cli_depth ps"
        "eflags_if c1 = (cli_depth ps = 0 \<and> eflags_if c)"
        "cli_depth ps \<noteq> 0 \<longrightarrow> intena c1 = eflags_if c"
      by blast
    show ?case
    proof (cases p)
      case True
      then show ?thesis
        using c1 d0 by (auto simp: cli_run_snoc cli_depth_snoc)
    next
      case False
      then have "cli_depth ps \<noteq> 0" using d by (auto simp: cli_depth_snoc)
      then show ?thesis
        using False c1 d0 d by (auto simp: cli_run_snoc cli_depth_snoc popcli_def Let_def)
    qed
  qed
  then show ?thesis by blast
qed

theorem cli_nesting_witness:
  "\<exists>c'. cli_run [True, True, False, False] \<lparr>ncli = 0, intena = False, eflags_if = True\<rparr> = Ok c' \<and>
        eflags_if c'"
proof -
  have "\<forall>n. 0 \<le> cli_depth (take n [True, True, False, False])"
    by (simp add: cli_depth_def take_Cons split: nat.split)
  from cli_nesting [OF _ this, of "\<lparr>ncli = 0, intena = False, eflags_if = True\<rparr>"]
  show ?thesis by (simp add: cli_depth_def) blast
qed

end
