(* ===== verification/Bio.thy ===== *)
theory Bio
  imports Locks
begin

text \<open>
  The memory disk driver \<open>memide.c\<close> and the buffer cache \<open>bio.c\<close>. The disk is an array of
  512-byte blocks; \<open>dwrites\<close> records the block writes in the order in which they reach it, so
  that the log layer can speak of a crash between any two of them. Buffers are named by their
  index in \<open>bcache.buf\<close>, and \<open>bcache.head\<close> is the index \<open>NBUF\<close>; the \<open>prev\<close>/\<open>next\<close> links
  are kept as the code has them, and the lemmas relate the ring they form to the list of
  buffers in most-recently-used order. The cache lock is held over each search and each
  relinking, which are single steps here; the sleep lock of a buffer is modelled, and a call
  that must wait for it is the outcome \<open>Sleeps\<close>.
\<close>

section \<open>State\<close>

type_synonym block = "u8 list"

abbreviation (input) BSIZE :: nat where "BSIZE \<equiv> 512"
abbreviation (input) HEAD :: nat where "HEAD \<equiv> 30"

text \<open>\<open>struct buf\<close>: the flags \<open>B_VALID\<close> and \<open>B_DIRTY\<close> are the first two fields. The
  reference count is a natural number: it counts the processes inside \<open>bget\<close>..\<open>brelse\<close> of the
  buffer, so it stays far below \<open>2 ^ 32\<close>.\<close>

record buf =
  b_valid :: bool
  b_dirty :: bool
  b_dev :: u32
  b_blockno :: u32
  b_lock :: sleeplock
  b_refcnt :: nat
  b_prev :: nat
  b_next :: nat
  b_data :: block

text \<open>\<open>curpid\<close> is \<open>myproc()->pid\<close>.\<close>

record disk =
  dblocks :: "nat \<Rightarrow> block"
  disksize :: nat
  dwrites :: "(nat \<times> block) list"
  curpid :: int

record bio = disk +
  bufs :: "nat \<Rightarrow> buf"

definition upd_buf :: "nat \<Rightarrow> (buf \<Rightarrow> buf) \<Rightarrow> 'a bio_scheme \<Rightarrow> 'a bio_scheme" where
  "upd_buf i f s = s\<lparr>bufs := (bufs s)(i := f (bufs s i))\<rparr>"

definition put_block :: "nat \<Rightarrow> block \<Rightarrow> 'a disk_scheme \<Rightarrow> 'a disk_scheme" where
  "put_block n d s = s\<lparr>dblocks := (dblocks s)(n := d), dwrites := dwrites s @ [(n, d)]\<rparr>"

section \<open>memide.c\<close>

definition ideinit :: "block list \<Rightarrow> 'a disk_scheme \<Rightarrow> 'a disk_scheme" where
  "ideinit img s = s\<lparr>dblocks := (\<lambda>n. if n < length img then img ! n else []),
     disksize := length img\<rparr>"

definition iderw :: "nat \<Rightarrow> 'a bio_scheme \<Rightarrow> ('a bio_scheme) res" where
  "iderw i s =
     (let b = bufs s i; n = unat (b_blockno b) in
      if \<not> holdingsleep (curpid s) (b_lock b) then Panic ''iderw: buf not locked''
      else if b_valid b \<and> \<not> b_dirty b then Panic ''iderw: nothing to do''
      else if b_dev b \<noteq> 1 then Panic ''iderw: request not for disk 1''
      else if disksize s \<le> n then Panic ''iderw: block out of range''
      else if b_dirty b then
        Ok (upd_buf i (\<lambda>b. b\<lparr>b_dirty := False, b_valid := True\<rparr>) (put_block n (b_data b) s))
      else Ok (upd_buf i (\<lambda>b. b\<lparr>b_data := dblocks s n, b_valid := True\<rparr>) s))"

section \<open>bio.c\<close>

definition set_next :: "nat \<Rightarrow> nat \<Rightarrow> (nat \<Rightarrow> buf) \<Rightarrow> nat \<Rightarrow> buf" where
  "set_next i j bs = bs(i := (bs i)\<lparr>b_next := j\<rparr>)"

definition set_prev :: "nat \<Rightarrow> nat \<Rightarrow> (nat \<Rightarrow> buf) \<Rightarrow> nat \<Rightarrow> buf" where
  "set_prev i j bs = bs(i := (bs i)\<lparr>b_prev := j\<rparr>)"

text \<open>The four assignments that put a buffer behind the head of the list, in \<open>binit\<close> and in
  \<open>brelse\<close>, and the two that take it out.\<close>

definition link_front :: "nat \<Rightarrow> (nat \<Rightarrow> buf) \<Rightarrow> nat \<Rightarrow> buf" where
  "link_front i bs =
     (let bs = set_next i (b_next (bs HEAD)) bs;
          bs = set_prev i HEAD bs;
          bs = set_prev (b_next (bs HEAD)) i bs
      in set_next HEAD i bs)"

definition unlink_buf :: "nat \<Rightarrow> (nat \<Rightarrow> buf) \<Rightarrow> nat \<Rightarrow> buf" where
  "unlink_buf i bs =
     (let bs = set_prev (b_next (bs i)) (b_prev (bs i)) bs
      in set_next (b_prev (bs i)) (b_next (bs i)) bs)"

definition binit_buf :: "nat \<Rightarrow> (nat \<Rightarrow> buf) \<Rightarrow> nat \<Rightarrow> buf" where
  "binit_buf i bs =
     link_front i (bs(i := (bs i)\<lparr>b_lock := initsleeplock ''buffer'' (b_lock (bs i))\<rparr>))"

definition binit :: "'a bio_scheme \<Rightarrow> 'a bio_scheme" where
  "binit s = s\<lparr>bufs := fold binit_buf [0..<NBUF] (set_next HEAD HEAD (set_prev HEAD HEAD (bufs s)))\<rparr>"

text \<open>The two searches of \<open>bget\<close>, along \<open>next\<close> and along \<open>prev\<close>; the first argument bounds the
  number of buffers visited, and running out of it is the outcome \<open>Undef\<close>.\<close>

definition buf_match :: "u32 \<Rightarrow> u32 \<Rightarrow> buf \<Rightarrow> bool" where
  "buf_match dev blockno b \<longleftrightarrow> b_dev b = dev \<and> b_blockno b = blockno"

definition buf_unused :: "buf \<Rightarrow> bool" where
  "buf_unused b \<longleftrightarrow> b_refcnt b = 0 \<and> \<not> b_dirty b"

fun bget_find :: "nat \<Rightarrow> u32 \<Rightarrow> u32 \<Rightarrow> (nat \<Rightarrow> buf) \<Rightarrow> nat \<Rightarrow> (nat option) res" where
  "bget_find 0 dev blockno bs i = Undef"
| "bget_find (Suc f) dev blockno bs i =
     (if i = HEAD then Ok None
      else if buf_match dev blockno (bs i) then Ok (Some i)
      else bget_find f dev blockno bs (b_next (bs i)))"

fun bget_free :: "nat \<Rightarrow> (nat \<Rightarrow> buf) \<Rightarrow> nat \<Rightarrow> (nat option) res" where
  "bget_free 0 bs i = Undef"
| "bget_free (Suc f) bs i =
     (if i = HEAD then Ok None
      else if buf_unused (bs i) then Ok (Some i)
      else bget_free f bs (b_prev (bs i)))"

text \<open>The critical section of \<open>bget\<close>, up to the call of \<open>acquiresleep\<close>.\<close>

definition bget_pick :: "u32 \<Rightarrow> u32 \<Rightarrow> 'a bio_scheme \<Rightarrow> (nat \<times> 'a bio_scheme) res" where
  "bget_pick dev blockno s =
     kbind (bget_find (Suc NBUF) dev blockno (bufs s) (b_next (bufs s HEAD))) (\<lambda>hit.
       case hit of
         Some i \<Rightarrow> Ok (i, upd_buf i (\<lambda>b. b\<lparr>b_refcnt := b_refcnt b + 1\<rparr>) s)
       | None \<Rightarrow>
           kbind (bget_free (Suc NBUF) (bufs s) (b_prev (bufs s HEAD))) (\<lambda>victim.
             case victim of
               Some i \<Rightarrow> Ok (i, upd_buf i (\<lambda>b. b\<lparr>b_dev := dev, b_blockno := blockno,
                             b_valid := False, b_dirty := False, b_refcnt := 1\<rparr>) s)
             | None \<Rightarrow> Panic ''bget: no buffers''))"

definition lock_buf :: "nat \<Rightarrow> 'a bio_scheme \<Rightarrow> ('a bio_scheme) res" where
  "lock_buf i s =
     kbind (acquiresleep (curpid s) (b_lock (bufs s i))) (\<lambda>lk.
       Ok (upd_buf i (\<lambda>b. b\<lparr>b_lock := lk\<rparr>) s))"

definition bget :: "u32 \<Rightarrow> u32 \<Rightarrow> 'a bio_scheme \<Rightarrow> (nat \<times> 'a bio_scheme) res" where
  "bget dev blockno s =
     kbind (bget_pick dev blockno s) (\<lambda>(i, s). kbind (lock_buf i s) (\<lambda>s. Ok (i, s)))"

definition bread :: "u32 \<Rightarrow> u32 \<Rightarrow> 'a bio_scheme \<Rightarrow> (nat \<times> 'a bio_scheme) res" where
  "bread dev blockno s =
     kbind (bget dev blockno s) (\<lambda>(i, s).
       if \<not> b_valid (bufs s i) then kbind (iderw i s) (\<lambda>s. Ok (i, s)) else Ok (i, s))"

definition bwrite :: "nat \<Rightarrow> 'a bio_scheme \<Rightarrow> ('a bio_scheme) res" where
  "bwrite i s =
     (if \<not> holdingsleep (curpid s) (b_lock (bufs s i)) then Panic ''bwrite''
      else iderw i (upd_buf i (\<lambda>b. b\<lparr>b_dirty := True\<rparr>) s))"

definition brelse :: "nat \<Rightarrow> 'a bio_scheme \<Rightarrow> ('a bio_scheme) res" where
  "brelse i s =
     (if \<not> holdingsleep (curpid s) (b_lock (bufs s i)) then Panic ''brelse''
      else
        let s = upd_buf i (\<lambda>b. b\<lparr>b_lock := releasesleep (b_lock b)\<rparr>) s;
            s = upd_buf i (\<lambda>b. b\<lparr>b_refcnt := b_refcnt b - 1\<rparr>) s
        in if b_refcnt (bufs s i) = 0
           then Ok (s\<lparr>bufs := link_front i (unlink_buf i (bufs s))\<rparr>)
           else Ok s)"

text \<open>A holder of the buffer writes its data.\<close>

definition set_data :: "nat \<Rightarrow> block \<Rightarrow> 'a bio_scheme \<Rightarrow> 'a bio_scheme" where
  "set_data i d s = upd_buf i (\<lambda>b. b\<lparr>b_data := d\<rparr>) s"

section \<open>Specification: the list in most-recently-used order\<close>

fun linked :: "(nat \<Rightarrow> buf) \<Rightarrow> nat list \<Rightarrow> bool" where
  "linked bs (i # j # is) \<longleftrightarrow> b_next (bs i) = j \<and> b_prev (bs j) = i \<and> linked bs (j # is)"
| "linked bs is \<longleftrightarrow> True"

definition mru :: "(nat \<Rightarrow> buf) \<Rightarrow> nat list \<Rightarrow> bool" where
  "mru bs is \<longleftrightarrow> linked bs (HEAD # is @ [HEAD]) \<and> distinct is \<and> set is = {..<NBUF}"

text \<open>What the layers above see: the current contents of a block of disk 1, from the cache if
  it holds the block and from the disk otherwise. The invariant: the list is linked up, a block
  is cached at most once, and a cached block that nobody holds and that is not dirty agrees with
  the disk.\<close>

definition bview :: "'a bio_scheme \<Rightarrow> u32 \<Rightarrow> block" where
  "bview s n =
     (case List.find (\<lambda>i. buf_match 1 n (bufs s i) \<and> b_valid (bufs s i)) [0..<NBUF] of
        Some i \<Rightarrow> b_data (bufs s i)
      | None \<Rightarrow> dblocks s (unat n))"

definition buf_uniq :: "(nat \<Rightarrow> buf) \<Rightarrow> bool" where
  "buf_uniq bs \<longleftrightarrow> (\<forall>i<NBUF. \<forall>j<NBUF. b_dev (bs i) = 1 \<and> b_dev (bs j) = 1 \<and>
     b_blockno (bs i) = b_blockno (bs j) \<longrightarrow> i = j)"

definition buf_ok :: "(nat \<Rightarrow> block) \<Rightarrow> buf \<Rightarrow> bool" where
  "buf_ok dk b \<longleftrightarrow>
     (b_dirty b \<longrightarrow> b_valid b) \<and>
     (b_valid b \<longrightarrow> b_dev b = 1 \<and> length (b_data b) = BSIZE) \<and>
     (b_valid b \<and> \<not> b_dirty b \<and> slocked (b_lock b) = 0 \<longrightarrow> b_data b = dk (unat (b_blockno b))) \<and>
     (slocked (b_lock b) \<noteq> 0 \<longrightarrow> b_refcnt b \<noteq> 0)"

definition bio_ok :: "'a bio_scheme \<Rightarrow> bool" where
  "bio_ok s \<longleftrightarrow> (\<exists>is. mru (bufs s) is) \<and> buf_uniq (bufs s) \<and>
     (\<forall>i<NBUF. buf_ok (dblocks s) (bufs s i)) \<and> (\<forall>n<disksize s. length (dblocks s n) = BSIZE)"

definition same_disk :: "'a bio_scheme \<Rightarrow> 'a bio_scheme \<Rightarrow> bool" where
  "same_disk s s' \<longleftrightarrow> dblocks s' = dblocks s \<and> disksize s' = disksize s \<and>
     dwrites s' = dwrites s \<and> curpid s' = curpid s \<and> bio.more s' = bio.more s"

definition bdirty :: "'a bio_scheme \<Rightarrow> u32 \<Rightarrow> bool" where
  "bdirty s n \<longleftrightarrow> (\<exists>i<NBUF. buf_match 1 n (bufs s i) \<and> b_dirty (bufs s i))"

definition held_buf :: "nat \<Rightarrow> u32 \<Rightarrow> 'a bio_scheme \<Rightarrow> bool" where
  "held_buf i n s \<longleftrightarrow> i < NBUF \<and> buf_match 1 n (bufs s i) \<and> b_valid (bufs s i) \<and>
     holdingsleep (curpid s) (b_lock (bufs s i))"

definition clean_buf :: "nat \<Rightarrow> 'a bio_scheme \<Rightarrow> bool" where
  "clean_buf i s \<longleftrightarrow> b_dirty (bufs s i) \<or> b_data (bufs s i) = dblocks s (unat (b_blockno (bufs s i)))"

definition same_buf :: "buf \<Rightarrow> buf \<Rightarrow> bool" where
  "same_buf b b' \<longleftrightarrow> b' = b\<lparr>b_next := b_next b', b_prev := b_prev b'\<rparr>"

section \<open>Processes interleaved\<close>

text \<open>The cache together with the processes that have taken a reference in \<open>bget\<close> and wait for
  the sleep lock of the buffer: \<open>(pid, i)\<close>. A holder that changes the data writes it to the disk
  or pins it before it releases the buffer.\<close>

definition zero_buf :: buf where
  "zero_buf = \<lparr>b_valid = False, b_dirty = False, b_dev = 0, b_blockno = 0,
     b_lock = \<lparr>slocked = 0, sl_name = [], sl_pid = 0\<rparr>, b_refcnt = 0, b_prev = 0, b_next = 0, b_data = []\<rparr>"

definition bio_boot :: "block list \<Rightarrow> bio" where
  "bio_boot img = binit (ideinit img \<lparr>dblocks = \<lambda>_. [], disksize = 0, dwrites = [], curpid = 0,
     bufs = \<lambda>_. zero_buf\<rparr>)"

inductive bio_step :: "bio \<times> (int \<times> nat) list \<Rightarrow> bio \<times> (int \<times> nat) list \<Rightarrow> bool" where
  switch: "bio_step (s, ws) (s\<lparr>curpid := p\<rparr>, ws)"
| pick: "bget_pick 1 n s = Ok (i, s') \<Longrightarrow> bio_step (s, ws) (s', (curpid s, i) # ws)"
| lock: "(curpid s, i) \<in> set ws \<Longrightarrow> lock_buf i s = Ok s' \<Longrightarrow>
    bio_step (s, ws) (s', remove1 (curpid s, i) ws)"
| fill: "i < NBUF \<Longrightarrow> \<not> b_valid (bufs s i) \<Longrightarrow> iderw i s = Ok s' \<Longrightarrow> bio_step (s, ws) (s', ws)"
| change: "held_buf i n s \<Longrightarrow> length d = BSIZE \<Longrightarrow>
    bio_step (s, ws) (upd_buf i (\<lambda>b. b\<lparr>b_dirty := True\<rparr>) (set_data i d s), ws)"
| flush: "held_buf i n s \<Longrightarrow> length d = BSIZE \<Longrightarrow> bwrite i (set_data i d s) = Ok s' \<Longrightarrow>
    bio_step (s, ws) (s', ws)"
| release: "i < NBUF \<Longrightarrow> clean_buf i s \<Longrightarrow> brelse i s = Ok s' \<Longrightarrow> bio_step (s, ws) (s', ws)"

definition refs_ok :: "'a bio_scheme \<Rightarrow> (int \<times> nat) list \<Rightarrow> bool" where
  "refs_ok s ws \<longleftrightarrow> (\<forall>w\<in>set ws. snd w < NBUF) \<and>
     (\<forall>i<NBUF. b_refcnt (bufs s i) =
        length (filter (\<lambda>w. snd w = i) ws) + (if slocked (b_lock (bufs s i)) = 0 then 0 else 1))"

section \<open>The links form the list\<close>

lemma linked_append:
  "linked bs (is @ i # js) \<longleftrightarrow> linked bs (is @ [i]) \<and> linked bs (i # js)"
  by (induction bs "is" rule: linked.induct) auto

lemma linked_cong:
  assumes "\<And>i. i \<in> set (butlast is) \<Longrightarrow> b_next (bs i) = b_next (bs' i)"
    and "\<And>i. i \<in> set (tl is) \<Longrightarrow> b_prev (bs i) = b_prev (bs' i)"
  shows "linked bs is = linked bs' is"
  using assms by (induction bs "is" rule: linked.induct) auto

lemma set_link_simps [simp]:
  "b_next (set_next i j bs k) = (if k = i then j else b_next (bs k))"
  "b_prev (set_next i j bs k) = b_prev (bs k)"
  "b_prev (set_prev i j bs k) = (if k = i then j else b_prev (bs k))"
  "b_next (set_prev i j bs k) = b_next (bs k)"
  by (simp_all add: set_next_def set_prev_def)

lemma linked_front:
  assumes "linked bs (HEAD # is @ [HEAD])" "i \<notin> set is" "i \<noteq> HEAD" "HEAD \<notin> set is" "distinct is"
  shows "linked (link_front i bs) (HEAD # i # is @ [HEAD])"
proof -
  obtain j js where js: "is @ [HEAD] = j # js" by (cases "is") auto
  have n: "b_next (bs HEAD) = j" "linked bs (j # js)"
    using assms(1) js by auto
  have "j \<noteq> i" "set js \<subseteq> set is \<union> {HEAD}" "j \<notin> set js" "i \<notin> set js"
    using js assms by (cases "is"; auto)+
  moreover have "HEAD \<notin> set (butlast (j # js))"
    using js assms(4) by (metis butlast_snoc)
  moreover have links: "b_next (link_front i bs k) = (if k = HEAD then i else if k = i then j else b_next (bs k))"
    "b_prev (link_front i bs k) = (if k = j then i else if k = i then HEAD else b_prev (bs k))" for k
    using assms(3) by (simp_all add: link_front_def Let_def n)
  ultimately have "linked (link_front i bs) (j # js)"
    using n(2) by (subst linked_cong [of _ _ bs]) (auto simp: links dest: in_set_butlastD split: if_splits)
  then show ?thesis
    using assms(3) \<open>j \<noteq> i\<close> unfolding js by (auto simp: links)
qed

lemma linked_unlink:
  assumes "linked bs (is @ i # js)" "is \<noteq> []" "js \<noteq> []"
    and "last is \<notin> set (butlast is)" "last is \<notin> set (butlast js)"
    and "hd js \<notin> set (tl is)" "hd js \<notin> set (tl js)" "hd js \<noteq> i" "last is \<noteq> i"
  shows "linked (unlink_buf i bs) (is @ js)"
proof -
  obtain is' p where is': "is = is' @ [p]" using assms(2) by (metis rev_exhaust)
  obtain n js' where js': "js = n # js'" using assms(3) by (cases js) auto
  have l: "linked bs (is' @ [p])" "linked bs (n # js')" "b_next (bs p) = i" "b_prev (bs i) = p"
    "b_next (bs i) = n" "b_prev (bs n) = i"
    using iffD1 [OF linked_append, of bs is' p "i # n # js'"] assms(1) unfolding is' js' by simp_all
  have d: "p \<notin> set is'" "p \<notin> set (butlast js)" "n \<notin> set (tl is)" "n \<notin> set js'" "n \<noteq> i" "p \<noteq> i"
    using assms(4-9) unfolding is' js' by simp_all
  have links: "b_next (unlink_buf i bs k) = (if k = p then n else b_next (bs k))"
    "b_prev (unlink_buf i bs k) = (if k = n then p else b_prev (bs k))" for k
    using d by (simp_all add: unlink_buf_def Let_def l)
  have "linked (unlink_buf i bs) (is' @ [p])"
    using l(1) d by (subst linked_cong [of _ _ bs]) (auto simp: links is')
  moreover have "linked (unlink_buf i bs) (n # js')"
    using l(2) d by (subst linked_cong [of _ _ bs]) (auto simp: links js')
  moreover have "b_next (unlink_buf i bs p) = n" "b_prev (unlink_buf i bs n) = p"
    by (simp_all add: links)
  ultimately show ?thesis
    using iffD2 [OF linked_append, of "unlink_buf i bs" is' p "n # js'"] by (simp add: is' js')
qed

lemma distinct_last: "distinct xs \<Longrightarrow> xs \<noteq> [] \<Longrightarrow> last xs \<notin> set (butlast xs)"
  by (induction xs rule: rev_induct) auto

lemma distinct_hd: "distinct xs \<Longrightarrow> xs \<noteq> [] \<Longrightarrow> hd xs \<notin> set (tl xs)"
  by (cases xs) auto

lemma mru_linked_same:
  assumes "\<And>j. b_next (bs' j) = b_next (bs j) \<and> b_prev (bs' j) = b_prev (bs j)"
  shows "mru bs' is = mru bs is"
  unfolding mru_def using linked_cong [of "HEAD # is @ [HEAD]" bs' bs] assms by simp

lemma mru_upd [simp]:
  assumes "b_next b = b_next (bs i)" "b_prev b = b_prev (bs i)"
  shows "mru (bs(i := b)) is = mru bs is"
  using assms by (intro mru_linked_same) simp

lemma mru_release:
  assumes "mru bs is" "i < NBUF"
  shows "mru (link_front i (unlink_buf i bs)) (i # remove1 i is)"
proof -
  have "i \<in> set is" using assms by (auto simp: mru_def)
  then obtain as cs where split: "is = as @ i # cs" "i \<notin> set as"
    by (metis split_list_first)
  have d: "distinct is" "HEAD \<notin> set is" "linked bs ((HEAD # as) @ i # (cs @ [HEAD]))"
    using assms split by (auto simp: mru_def)
  have "linked (unlink_buf i bs) ((HEAD # as) @ (cs @ [HEAD]))"
    by (rule linked_unlink [OF d(3)])
      (use d(1,2) split in \<open>auto simp: hd_append butlast_append distinct_last distinct_hd
         dest: in_set_butlastD last_in_set hd_in_set split: if_splits\<close>)
  then have "linked (link_front i (unlink_buf i bs)) (HEAD # i # (as @ cs) @ [HEAD])"
    using d split by (intro linked_front) auto
  moreover have "remove1 i is = as @ cs" using split by (simp add: remove1_append)
  ultimately show ?thesis
    using d split assms by (auto simp: mru_def)
qed

lemma bget_find_list:
  "linked bs (i # is @ [HEAD]) \<Longrightarrow> HEAD \<notin> set is \<Longrightarrow> length is < f \<Longrightarrow>
     bget_find f dev blockno bs (b_next (bs i)) = Ok (List.find (\<lambda>j. buf_match dev blockno (bs j)) is)"
proof (induction "is" arbitrary: i f)
  case Nil
  then show ?case by (cases f) auto
next
  case (Cons j js)
  then show ?case by (cases f) simp_all
qed

lemma bget_free_list:
  "linked bs (HEAD # is @ [i]) \<Longrightarrow> HEAD \<notin> set is \<Longrightarrow> length is < f \<Longrightarrow>
     bget_free f bs (b_prev (bs i)) = Ok (List.find (\<lambda>j. buf_unused (bs j)) (rev is))"
proof (induction "is" arbitrary: i f rule: rev_induct)
  case Nil
  then show ?case by (cases f) auto
next
  case (snoc j js)
  then have "linked bs ((HEAD # js) @ j # [i])" by simp
  then have "linked bs (HEAD # js @ [j])" "b_prev (bs i) = j"
    using iffD1 [OF linked_append, of bs "HEAD # js" j "[i]"] by simp_all
  with snoc show ?case by (cases f) simp_all
qed

lemma length_mru: "mru bs is \<Longrightarrow> length is = NBUF"
  by (metis mru_def distinct_card card_lessThan)

lemma bget_pick_list:
  assumes "mru (bufs s) is"
  shows "bget_pick dev blockno s =
     (case List.find (\<lambda>j. buf_match dev blockno (bufs s j)) is of
        Some i \<Rightarrow> Ok (i, upd_buf i (\<lambda>b. b\<lparr>b_refcnt := b_refcnt b + 1\<rparr>) s)
      | None \<Rightarrow> (case List.find (\<lambda>j. buf_unused (bufs s j)) (rev is) of
          Some i \<Rightarrow> Ok (i, upd_buf i (\<lambda>b. b\<lparr>b_dev := dev, b_blockno := blockno,
                             b_valid := False, b_dirty := False, b_refcnt := 1\<rparr>) s)
        | None \<Rightarrow> Panic ''bget: no buffers''))"
  using assms length_mru [OF assms]
    bget_find_list [of "bufs s" HEAD "is" "Suc NBUF" dev blockno]
    bget_free_list [of "bufs s" "is" HEAD "Suc NBUF"]
  by (simp add: bget_pick_def mru_def cong: option.case_cong)

section \<open>What the operations do to the contents of the blocks\<close>

lemma upd_buf_simps [simp]:
  "dblocks (upd_buf i f s) = dblocks s" "disksize (upd_buf i f s) = disksize s"
  "dwrites (upd_buf i f s) = dwrites s" "curpid (upd_buf i f s) = curpid s"
  "bio.more (upd_buf i f s) = bio.more s"
  "bufs (upd_buf i f s) = (bufs s)(i := f (bufs s i))"
  by (simp_all add: upd_buf_def)

lemma put_block_simps [simp]:
  "dblocks (put_block n d s) = (dblocks s)(n := d)" "disksize (put_block n d s) = disksize s"
  "dwrites (put_block n d s) = dwrites s @ [(n, d)]" "curpid (put_block n d s) = curpid s"
  by (simp_all add: put_block_def)

lemma put_block_bio [simp]:
  "bufs (put_block n d s) = bufs s" "bio.more (put_block n d s) = bio.more s"
  by (simp_all add: put_block_def)

lemma same_disk_refl [simp]: "same_disk s s"
  by (simp add: same_disk_def)

lemma same_disk_upd [simp]: "same_disk s (upd_buf i f s)"
  by (simp add: same_disk_def)

lemma same_disk_trans: "same_disk s s' \<Longrightarrow> same_disk s' s'' \<Longrightarrow> same_disk s s''"
  by (simp add: same_disk_def)

lemma find_Some_D: "List.find P xs = Some x \<Longrightarrow> x \<in> set xs \<and> P x"
  by (auto simp: find_Some_iff)

lemma bview_cached:
  assumes "buf_uniq (bufs s)" "i < NBUF" "buf_match 1 n (bufs s i)" "b_valid (bufs s i)"
  shows "bview s n = b_data (bufs s i)"
proof -
  let ?P = "\<lambda>i. buf_match 1 n (bufs s i) \<and> b_valid (bufs s i)"
  have "List.find ?P [0..<NBUF] \<noteq> None"
    using assms by (auto simp: find_None_iff)
  then obtain j where j: "List.find ?P [0..<NBUF] = Some j" by auto
  then have "?P j" "j < NBUF" by (auto simp: find_Some_iff)
  then have "j = i" using assms unfolding buf_uniq_def buf_match_def by metis
  with j show ?thesis by (simp add: bview_def)
qed

lemma bview_uncached:
  assumes "\<And>i. i < NBUF \<Longrightarrow> buf_match 1 n (bufs s i) \<Longrightarrow> \<not> b_valid (bufs s i)"
  shows "bview s n = dblocks s (unat n)"
proof -
  have "List.find (\<lambda>i. buf_match 1 n (bufs s i) \<and> b_valid (bufs s i)) [0..<NBUF] = None"
    using assms by (auto simp: find_None_iff)
  then show ?thesis by (simp add: bview_def)
qed

lemma bview_cases:
  obtains (cached) i where "i < NBUF" "buf_match 1 n (bufs s i)" "b_valid (bufs s i)"
    | (uncached) "\<And>i. i < NBUF \<Longrightarrow> buf_match 1 n (bufs s i) \<Longrightarrow> \<not> b_valid (bufs s i)"
  by blast

lemma bview_at:
  assumes "\<And>i. i < NBUF \<Longrightarrow> buf_match 1 n (bufs s i) \<or> buf_match 1 n (bufs s' i) \<Longrightarrow>
             b_dev (bufs s' i) = b_dev (bufs s i) \<and>
             b_blockno (bufs s' i) = b_blockno (bufs s i) \<and> b_valid (bufs s' i) = b_valid (bufs s i) \<and>
             b_data (bufs s' i) = b_data (bufs s i)"
    and "dblocks s' (unat n) = dblocks s (unat n)"
  shows "bview s' n = bview s n"
proof -
  have "List.find (\<lambda>i. buf_match 1 n (bufs s' i) \<and> b_valid (bufs s' i)) [0..<NBUF] =
        List.find (\<lambda>i. buf_match 1 n (bufs s i) \<and> b_valid (bufs s i)) [0..<NBUF]"
  proof (intro find_cong refl)
    fix i assume "i \<in> set [0..<NBUF]"
    then show "(buf_match 1 n (bufs s' i) \<and> b_valid (bufs s' i)) =
               (buf_match 1 n (bufs s i) \<and> b_valid (bufs s i))"
      using assms(1) [of i] unfolding buf_match_def by (metis atLeastLessThan_iff atLeastLessThan_upt)
  qed
  then show "bview s' n = bview s n"
    unfolding bview_def assms(2) using assms(1)
    by (auto dest: find_Some_D split: option.split)
qed

lemma bview_same:
  assumes "\<And>i. i < NBUF \<Longrightarrow> b_dev (bufs s' i) = b_dev (bufs s i) \<and>
             b_blockno (bufs s' i) = b_blockno (bufs s i) \<and> b_valid (bufs s' i) = b_valid (bufs s i) \<and>
             b_data (bufs s' i) = b_data (bufs s i)"
    and "dblocks s' = dblocks s"
  shows "bview s' = bview s"
  using assms by (intro ext bview_at) auto

lemma buf_uniqD:
  "buf_uniq bs \<Longrightarrow> i < NBUF \<Longrightarrow> j < NBUF \<Longrightarrow> buf_match 1 n (bs i) \<Longrightarrow> buf_match 1 n (bs j) \<Longrightarrow> i = j"
  unfolding buf_uniq_def buf_match_def by metis

lemma buf_uniqI:
  "(\<And>i j n. i < NBUF \<Longrightarrow> j < NBUF \<Longrightarrow> buf_match 1 n (bs i) \<Longrightarrow> buf_match 1 n (bs j) \<Longrightarrow> i = j)
     \<Longrightarrow> buf_uniq bs"
  unfolding buf_uniq_def buf_match_def by blast

lemma buf_uniq_same:
  assumes "\<And>n j. buf_match 1 n (bs' j) = buf_match 1 n (bs j)" "buf_uniq bs"
  shows "buf_uniq bs'"
  using buf_uniqD [OF assms(2)] assms(1) by (intro buf_uniqI) blast

lemma bio_okD:
  assumes "bio_ok s"
  shows "buf_uniq (bufs s)" "i < NBUF \<Longrightarrow> buf_ok (dblocks s) (bufs s i)"
    "\<exists>is. mru (bufs s) is" "n < disksize s \<Longrightarrow> length (dblocks s n) = BSIZE"
  using assms by (auto simp: bio_ok_def)

lemma bio_ok_upd:
  assumes "bio_ok s" and "\<And>b. b_next (f b) = b_next b \<and> b_prev (f b) = b_prev b"
    and "b_dev (f (bufs s i)) = b_dev (bufs s i)" "b_blockno (f (bufs s i)) = b_blockno (bufs s i)"
    and "buf_ok (dblocks s) (f (bufs s i))"
  shows "bio_ok (upd_buf i f s)"
proof -
  have "buf_match 1 n (bufs (upd_buf i f s) j) = buf_match 1 n (bufs s j)" for n j
    using assms(3,4) by (simp add: buf_match_def)
  then have "buf_uniq (bufs (upd_buf i f s))"
    by (rule buf_uniq_same [OF _ bio_okD(1) [OF assms(1)]])
  moreover have "\<exists>is. mru (bufs (upd_buf i f s)) is"
    using bio_okD(3) [OF assms(1)] assms(2) by simp
  moreover have "buf_ok (dblocks s) (bufs (upd_buf i f s) j)" if "j < NBUF" for j
    using bio_okD(2) [OF assms(1) that] assms(5) by simp
  ultimately show ?thesis
    using bio_okD(4) [OF assms(1)] by (simp add: bio_ok_def)
qed

lemma bview_recycle:
  assumes ok: "bio_ok s" and fresh: "\<And>j. j < NBUF \<Longrightarrow> \<not> buf_match 1 n (bufs s j)"
    and i: "i < NBUF" "buf_unused (bufs s i)"
  shows "bview (upd_buf i (\<lambda>b. b\<lparr>b_dev := 1, b_blockno := n, b_valid := False, b_dirty := False,
           b_refcnt := 1\<rparr>) s) = bview s"
    (is "bview ?s' = _")
proof
  fix m
  note uniq = bio_okD(1) [OF ok]
  show "bview ?s' m = bview s m"
  proof (cases rule: bview_cases [of m s])
    case (cached j)
    show ?thesis
    proof (cases "j = i")
      case True
      have "bview s m = b_data (bufs s i)" using cached uniq True by (metis bview_cached)
      also have "\<dots> = dblocks s (unat m)"
        using bio_okD(2) [OF ok i(1)] i(2) cached True
        by (auto simp: buf_ok_def buf_unused_def buf_match_def)
      also have "\<dots> = bview ?s' m"
        using uniq cached True fresh i
        by (subst bview_uncached) (auto simp: buf_uniq_def buf_match_def)
      finally show ?thesis by simp
    next
      case False
      then have "buf_uniq (bufs ?s')" using uniq fresh i by (auto simp: buf_uniq_def buf_match_def)
      then have "bview ?s' m = b_data (bufs ?s' j)"
        using False cached by (intro bview_cached) auto
      then show ?thesis using False cached by (simp add: bview_cached [OF uniq])
    qed
  next
    case uncached
    then show ?thesis by (subst (1 2) bview_uncached) auto
  qed
qed

lemma bget_pick_spec:
  assumes ok: "bio_ok s" and r: "bget_pick 1 n s = Ok (i, s')"
  shows "bio_ok s' \<and> i < NBUF \<and> buf_match 1 n (bufs s' i) \<and> bview s' = bview s \<and> same_disk s s' \<and>
         (\<forall>j. j \<noteq> i \<longrightarrow> bufs s' j = bufs s j) \<and>
         (buf_match 1 n (bufs s i) \<and> bufs s' i = (bufs s i)\<lparr>b_refcnt := b_refcnt (bufs s i) + 1\<rparr> \<or>
          (\<forall>j<NBUF. \<not> buf_match 1 n (bufs s j)) \<and> buf_unused (bufs s i) \<and>
          bufs s' i = (bufs s i)\<lparr>b_dev := 1, b_blockno := n, b_valid := False, b_dirty := False,
                                  b_refcnt := 1\<rparr>)"
proof -
  obtain "is" where m: "mru (bufs s) is" using bio_okD(3) [OF ok] by blast
  then have set_is: "set is = {..<NBUF}" by (simp add: mru_def)
  show ?thesis
  proof (cases "List.find (\<lambda>j. buf_match 1 n (bufs s j)) is")
    case (Some j)
    with r m have s': "j = i" "s' = upd_buf i (\<lambda>b. b\<lparr>b_refcnt := b_refcnt b + 1\<rparr>) s"
      by (auto simp: bget_pick_list)
    have i: "i < NBUF" "buf_match 1 n (bufs s i)" using find_Some_D [OF Some] s' set_is by auto
    have "bio_ok s'"
      unfolding s' using bio_okD(2) [OF ok i(1)] by (intro bio_ok_upd [OF ok]) (auto simp: buf_ok_def)
    moreover have "bview s' = bview s" unfolding s' by (rule bview_same) auto
    ultimately show ?thesis using i by (simp add: s' buf_match_def)
  next
    case None
    then have fresh: "\<And>j. j < NBUF \<Longrightarrow> \<not> buf_match 1 n (bufs s j)"
      using set_is by (auto simp: find_None_iff)
    from None r m obtain s': "List.find (\<lambda>j. buf_unused (bufs s j)) (rev is) = Some i"
      "s' = upd_buf i (\<lambda>b. b\<lparr>b_dev := 1, b_blockno := n, b_valid := False, b_dirty := False, b_refcnt := 1\<rparr>) s"
      by (auto simp: bget_pick_list split: option.splits)
    then have i: "i < NBUF" "buf_unused (bufs s i)" using find_Some_D [OF s'(1)] set_is by auto
    have "buf_uniq (bufs s')"
    proof (rule buf_uniqI)
      fix j k x assume *: "j < NBUF" "k < NBUF" "buf_match 1 x (bufs s' j)" "buf_match 1 x (bufs s' k)"
      then show "j = k"
        using buf_uniqD [OF bio_okD(1) [OF ok] *(1,2)] fresh [OF *(1)] fresh [OF *(2)]
        by (auto simp: s'(2) buf_match_def split: if_splits)
    qed
    moreover have "buf_ok (dblocks s) (bufs s' j)" if "j < NBUF" for j
      using bio_okD(2) [OF ok that] i(2) by (cases "j = i") (auto simp: s'(2) buf_ok_def buf_unused_def)
    moreover have "\<exists>is. mru (bufs s') is" using m by (auto simp: s'(2))
    ultimately have "bio_ok s'" using bio_okD(4) [OF ok] by (simp add: bio_ok_def s'(2))
    moreover have "bview s' = bview s"
      unfolding s'(2) using ok fresh i by (rule bview_recycle)
    ultimately show ?thesis using i fresh by (simp add: s' buf_match_def)
  qed
qed

lemma bdirtyI: "i < NBUF \<Longrightarrow> buf_match 1 n (bufs s i) \<Longrightarrow> b_dirty (bufs s i) \<Longrightarrow> bdirty s n"
  by (auto simp: bdirty_def)

lemma bdirty_eq:
  "bio_ok s \<Longrightarrow> i < NBUF \<Longrightarrow> buf_match 1 n (bufs s i) \<Longrightarrow> bdirty s n = b_dirty (bufs s i)"
  using buf_uniqD [OF bio_okD(1)] by (auto simp: bdirty_def)

lemma bdirty_same:
  assumes "\<And>j. j < NBUF \<Longrightarrow> b_dirty (bufs s j) \<or> b_dirty (bufs s' j) \<Longrightarrow>
     b_dirty (bufs s j) = b_dirty (bufs s' j) \<and>
     b_dev (bufs s j) = b_dev (bufs s' j) \<and> b_blockno (bufs s j) = b_blockno (bufs s' j)"
  shows "bdirty s' = bdirty s"
  using assms by (fastforce simp: bdirty_def buf_match_def fun_eq_iff)

text \<open>Filling a buffer from the disk, as \<open>bread\<close> does after \<open>bget\<close>.\<close>

lemma fill_spec:
  assumes ok: "bio_ok s" and i: "i < NBUF" "buf_match 1 n (bufs s i)" "\<not> b_valid (bufs s i)"
    and r: "iderw i s = Ok s'"
  shows "s' = upd_buf i (\<lambda>b. b\<lparr>b_data := dblocks s (unat n), b_valid := True\<rparr>) s \<and> bio_ok s' \<and>
         bview s' = bview s"
proof -
  have nd: "\<not> b_dirty (bufs s i)" using bio_okD(2) [OF ok i(1)] i(3) by (auto simp: buf_ok_def)
  then have s': "s' = upd_buf i (\<lambda>b. b\<lparr>b_data := dblocks s (unat n), b_valid := True\<rparr>) s"
    and n: "unat n < disksize s"
    using r i by (auto simp: iderw_def Let_def buf_match_def split: if_splits)
  have ok': "bio_ok s'"
    unfolding s' using i nd bio_okD(2) [OF ok i(1)] bio_okD(4) [OF ok n]
    by (intro bio_ok_upd [OF ok]) (auto simp: buf_ok_def buf_match_def)
  have "bview s' m = bview s m" for m
  proof (cases "m = n")
    case True
    have "bview s n = dblocks s (unat n)"
      using buf_uniqD [OF bio_okD(1) [OF ok]] i by (intro bview_uncached) blast
    moreover have "bview s' n = b_data (bufs s' i)"
      using i by (intro bview_cached bio_okD(1) [OF ok']) (auto simp: s' buf_match_def)
    ultimately show ?thesis using True by (simp add: s')
  next
    case False
    then show ?thesis
      using i by (intro bview_at) (auto simp: s' buf_match_def)
  qed
  with s' ok' show ?thesis by auto
qed

lemma bread_spec:
  assumes ok: "bio_ok s" and r: "bread 1 n s = Ok (i, s')"
  shows "bio_ok s' \<and> held_buf i n s' \<and> b_data (bufs s' i) = bview s n \<and> clean_buf i s' \<and>
         bview s' = bview s \<and> bdirty s' = bdirty s \<and> same_disk s s' \<and>
         (\<forall>j. j \<noteq> i \<longrightarrow> bufs s' j = bufs s j) \<and> slocked (b_lock (bufs s i)) = 0 \<and>
         (buf_match 1 n (bufs s i) \<and> b_refcnt (bufs s' i) = Suc (b_refcnt (bufs s i)) \<or>
          (\<forall>j<NBUF. \<not> buf_match 1 n (bufs s j)) \<and> buf_unused (bufs s i) \<and> b_refcnt (bufs s' i) = 1)"
proof -
  obtain s1 s2 where p: "bget_pick 1 n s = Ok (i, s1)" and l: "lock_buf i s1 = Ok s2"
    and f: "if b_valid (bufs s2 i) then s' = s2 else iderw i s2 = Ok s'"
    using r by (auto simp: bread_def bget_def split: if_splits)
  note P = bget_pick_spec [OF ok p]
  have s2: "slocked (b_lock (bufs s1 i)) = 0"
    "s2 = upd_buf i (\<lambda>b. b\<lparr>b_lock := (b_lock b)\<lparr>slocked := 1, sl_pid := curpid s1\<rparr>\<rparr>) s1"
    using l by (auto simp: lock_buf_def acquiresleep_def upd_buf_def split: if_splits)
  have sl: "slocked (b_lock (bufs s i)) = 0" using P s2 by auto
  have ok2: "bio_ok s2"
    unfolding s2(2) using P bio_okD(2) [of s1 i] sl by (intro bio_ok_upd) (auto simp: buf_ok_def)
  have v2: "bview s2 = bview s" using P bview_same [of s2 s1] by (simp add: s2(2))
  have S: "bio_ok s'" "bview s' = bview s" "b_valid (bufs s' i)"
    "\<And>j. j \<noteq> i \<Longrightarrow> bufs s' j = bufs s2 j" "same_disk s2 s'" "buf_match 1 n (bufs s' i)"
    "b_lock (bufs s' i) = b_lock (bufs s2 i)" "b_refcnt (bufs s' i) = b_refcnt (bufs s2 i)"
    "b_dirty (bufs s' i) = b_dirty (bufs s2 i)" "clean_buf i s'"
  proof -
    have m2: "i < NBUF" "buf_match 1 n (bufs s2 i)" using P by (auto simp: s2(2) buf_match_def)
    have "bio_ok s' \<and> bview s' = bview s \<and> b_valid (bufs s' i) \<and>
      (\<forall>j. j \<noteq> i \<longrightarrow> bufs s' j = bufs s2 j) \<and> same_disk s2 s' \<and> buf_match 1 n (bufs s' i) \<and>
      b_lock (bufs s' i) = b_lock (bufs s2 i) \<and> b_refcnt (bufs s' i) = b_refcnt (bufs s2 i) \<and>
      b_dirty (bufs s' i) = b_dirty (bufs s2 i) \<and> clean_buf i s'"
    proof (cases "b_valid (bufs s2 i)")
      case True
      then have "s' = s2" "clean_buf i s2"
        using f P bio_okD(2) [of s1 i] s2(1) by (auto simp: s2(2) buf_ok_def clean_buf_def)
      then show ?thesis using True ok2 v2 m2 by simp
    next
      case False
      then show ?thesis
        using fill_spec [OF ok2 m2] f v2 m2 by (auto simp: clean_buf_def buf_match_def)
    qed
    then show "bio_ok s'" "bview s' = bview s" "b_valid (bufs s' i)"
      "\<And>j. j \<noteq> i \<Longrightarrow> bufs s' j = bufs s2 j" "same_disk s2 s'" "buf_match 1 n (bufs s' i)"
      "b_lock (bufs s' i) = b_lock (bufs s2 i)" "b_refcnt (bufs s' i) = b_refcnt (bufs s2 i)"
      "b_dirty (bufs s' i) = b_dirty (bufs s2 i)" "clean_buf i s'"
      by blast+
  qed
  have "b_data (bufs s' i) = bview s n"
    using bview_cached [OF bio_okD(1) [OF S(1)], of i n] S P by simp
  moreover have "bufs s' j = bufs s j" if "j \<noteq> i" for j
    using that P S(4) by (simp add: s2(2))
  moreover have "b_dirty (bufs s' i) = b_dirty (bufs s i)" "b_dirty (bufs s i) \<Longrightarrow> buf_match 1 n (bufs s i)"
    using P S(9) by (auto simp: s2(2) buf_unused_def)
  moreover from calculation have "bdirty s' = bdirty s"
    using P S(6) by (intro bdirty_same) (metis buf_match_def)
  moreover have "same_disk s s'" using P S(5) by (auto simp: same_disk_def s2(2))
  ultimately show ?thesis
    using S(1-3,5-8,10) P sl by (auto simp: held_buf_def s2(2) same_disk_def holdingsleep_def)
qed

lemma same_buf_iff:
  "same_buf b b' \<longleftrightarrow> b_valid b' = b_valid b \<and> b_dirty b' = b_dirty b \<and> b_dev b' = b_dev b \<and>
     b_blockno b' = b_blockno b \<and> b_lock b' = b_lock b \<and> b_refcnt b' = b_refcnt b \<and> b_data b' = b_data b"
  by (cases b; cases b') (auto simp: same_buf_def)

lemma buf_ok_same: "same_buf b b' \<Longrightarrow> buf_ok dk b' = buf_ok dk b"
  by (simp add: same_buf_iff buf_ok_def)

lemma same_buf_set_link [simp]:
  "same_buf b (set_next i k bs j) = same_buf b (bs j)"
  "same_buf b (set_prev i k bs j) = same_buf b (bs j)"
  by (simp_all add: same_buf_iff set_next_def set_prev_def)

lemma relink_same: "same_buf (bs j) (link_front i (unlink_buf i bs) j)"
  unfolding link_front_def unlink_buf_def Let_def same_buf_set_link by (simp add: same_buf_iff)

lemma brelse_spec:
  assumes ok: "bio_ok s" and i: "i < NBUF" "clean_buf i s" and r: "brelse i s = Ok s'"
  shows "bio_ok s' \<and> bview s' = bview s \<and> bdirty s' = bdirty s \<and> same_disk s s' \<and>
         (\<forall>j. j \<noteq> i \<longrightarrow> same_buf (bufs s j) (bufs s' j)) \<and>
         same_buf ((bufs s i)\<lparr>b_lock := releasesleep (b_lock (bufs s i)), b_refcnt := b_refcnt (bufs s i) - 1\<rparr>)
           (bufs s' i)"
proof -
  define s1 where "s1 = upd_buf i (\<lambda>b. b\<lparr>b_lock := releasesleep (b_lock b), b_refcnt := b_refcnt b - 1\<rparr>) s"
  have two: "upd_buf i (\<lambda>b. b\<lparr>b_refcnt := b_refcnt b - 1\<rparr>)
      (upd_buf i (\<lambda>b. b\<lparr>b_lock := releasesleep (b_lock b)\<rparr>) s) = s1"
    by (simp add: s1_def upd_buf_def)
  then have s': "s' = s1 \<or> s' = s1\<lparr>bufs := link_front i (unlink_buf i (bufs s1))\<rparr>"
    using r by (auto simp: brelse_def Let_def two split: if_splits)
  have ok1: "bio_ok s1"
    unfolding s1_def using bio_okD(2) [OF ok i(1)] i(2)
    by (intro bio_ok_upd [OF ok]) (auto simp: buf_ok_def releasesleep_def clean_buf_def)
  have same: "same_buf (bufs s1 j) (bufs s' j)" for j
    using s' relink_same [of "bufs s1" j i] by (auto simp: same_buf_iff)
  have disk: "same_disk s1 s'" using s' by (auto simp: same_disk_def)
  have "bio_ok s'"
  proof -
    obtain "is" where m: "mru (bufs s1) is" using bio_okD(3) [OF ok1] by blast
    have "\<exists>is. mru (bufs s') is"
      using s' m mru_release [OF m i(1)] by auto
    moreover have "buf_uniq (bufs s')"
      by (rule buf_uniq_same [OF _ bio_okD(1) [OF ok1]]) (use same in \<open>simp add: buf_match_def same_buf_iff\<close>)
    ultimately show ?thesis
      using bio_okD(2,4) [OF ok1] buf_ok_same [OF same] disk by (simp add: bio_ok_def same_disk_def)
  qed
  moreover have "bview s' = bview s"
    using same disk by (intro bview_same) (auto simp: same_buf_iff s1_def same_disk_def)
  moreover have "bdirty s' = bdirty s"
    using same by (intro bdirty_same) (auto simp: same_buf_iff s1_def)
  moreover have "same_disk s s'" using disk by (simp add: same_disk_def s1_def)
  moreover have "same_buf (bufs s j) (bufs s' j)" if "j \<noteq> i" for j
    using same [of j] that by (simp add: s1_def)
  ultimately show ?thesis using same [of i] by (simp add: s1_def)
qed

lemma held_upd:
  assumes "held_buf i n s" "\<And>b. b_dev (f b) = b_dev b \<and> b_blockno (f b) = b_blockno b \<and>
      b_valid (f b) = b_valid b \<and> b_lock (f b) = b_lock b"
  shows "held_buf j m (upd_buf i f s) = held_buf j m s"
  using assms by (auto simp: held_buf_def buf_match_def)

lemma set_data_spec:
  assumes ok: "bio_ok s" and h: "held_buf i n s" and d: "length d = BSIZE"
  shows "bio_ok (set_data i d s) \<and> bview (set_data i d s) = (bview s)(n := d) \<and>
         held_buf i n (set_data i d s) \<and> bdirty (set_data i d s) = bdirty s \<and> same_disk s (set_data i d s)"
proof -
  have i: "i < NBUF" "buf_match 1 n (bufs s i)" "b_valid (bufs s i)" "slocked (b_lock (bufs s i)) \<noteq> 0"
    using h by (auto simp: held_buf_def holdingsleep_def)
  have ok': "bio_ok (set_data i d s)"
    unfolding set_data_def using bio_okD(2) [OF ok i(1)] i d
    by (intro bio_ok_upd [OF ok]) (auto simp: buf_ok_def)
  have "bview (set_data i d s) m = ((bview s)(n := d)) m" for m
  proof (cases "m = n")
    case True
    then show ?thesis
      using bview_cached [OF bio_okD(1) [OF ok'], of i n] i by (simp add: set_data_def buf_match_def)
  next
    case False
    then show ?thesis
      using i by (simp, intro bview_at) (auto simp: set_data_def buf_match_def split: if_splits)
  qed
  moreover have "bdirty (set_data i d s) = bdirty s"
    by (intro bdirty_same) (auto simp: set_data_def)
  moreover have "held_buf i n (set_data i d s)" unfolding set_data_def using h by (subst held_upd) auto
  ultimately show ?thesis using ok' by (auto simp: set_data_def)
qed

text \<open>Pinning a held buffer, as \<open>log_write\<close> does.\<close>

lemma pin_spec:
  assumes ok: "bio_ok s" and h: "held_buf i n s"
  defines "s' \<equiv> upd_buf i (\<lambda>b. b\<lparr>b_dirty := True\<rparr>) s"
  shows "bio_ok s' \<and> bview s' = bview s \<and> held_buf i n s' \<and> bdirty s' = (bdirty s)(n := True) \<and>
         clean_buf i s' \<and> same_disk s s'"
proof -
  have i: "i < NBUF" "buf_match 1 n (bufs s i)" "b_valid (bufs s i)" "slocked (b_lock (bufs s i)) \<noteq> 0"
    using h by (auto simp: held_buf_def holdingsleep_def)
  have "bio_ok s'"
    unfolding s'_def using bio_okD(2) [OF ok i(1)] i by (intro bio_ok_upd [OF ok]) (auto simp: buf_ok_def)
  moreover have "bview s' = bview s" by (intro bview_same) (auto simp: s'_def)
  moreover have "bdirty s' m = ((bdirty s)(n := True)) m" for m
    using i by (auto simp: bdirty_def s'_def buf_match_def)
  moreover have "held_buf i n s'" unfolding s'_def using h by (subst held_upd) auto
  ultimately show ?thesis by (auto simp: s'_def clean_buf_def)
qed

lemma bwrite_spec:
  assumes ok: "bio_ok s" and h: "held_buf i n s" and r: "bwrite i s = Ok s'"
  shows "bio_ok s' \<and> bview s' = bview s \<and> held_buf i n s' \<and> bdirty s' = (bdirty s)(n := False) \<and>
         clean_buf i s' \<and> dblocks s' = (dblocks s)(unat n := bview s n) \<and>
         dwrites s' = dwrites s @ [(unat n, bview s n)] \<and> disksize s' = disksize s \<and>
         curpid s' = curpid s \<and> bio.more s' = bio.more s \<and>
         bufs s' = (bufs s)(i := (bufs s i)\<lparr>b_dirty := False, b_valid := True\<rparr>)"
proof -
  have i: "i < NBUF" "buf_match 1 n (bufs s i)" "b_valid (bufs s i)" "slocked (b_lock (bufs s i)) \<noteq> 0"
    using h by (auto simp: held_buf_def holdingsleep_def)
  have v: "bview s n = b_data (bufs s i)" using bview_cached [OF bio_okD(1) [OF ok]] i by blast
  have s': "s' = upd_buf i (\<lambda>b. b\<lparr>b_dirty := False, b_valid := True\<rparr>) (put_block (unat n) (b_data (bufs s i)) s)"
    using r i by (auto simp: bwrite_def iderw_def Let_def buf_match_def upd_buf_def put_block_def split: if_splits)
  have sn: "j = i" if "j < NBUF" "buf_match 1 n (bufs s j)" for j
    using buf_uniqD [OF bio_okD(1) [OF ok] that(1) i(1)] that i by blast
  have len: "length (b_data (bufs s i)) = BSIZE" using bio_okD(2) [OF ok i(1)] i by (auto simp: buf_ok_def)
  have "buf_ok ((dblocks s)(unat n := b_data (bufs s i))) (bufs s' j)" if "j < NBUF" for j
  proof (cases "j = i")
    case True
    then show ?thesis using bio_okD(2) [OF ok i(1)] i by (auto simp: s' buf_ok_def)
  next
    case False
    then have "b_dev (bufs s j) \<noteq> 1 \<or> b_blockno (bufs s j) \<noteq> n" using sn that by (auto simp: buf_match_def)
    then show ?thesis using bio_okD(2) [OF ok that] False by (simp add: s' buf_ok_def word_unat_eq_iff)
  qed
  moreover have "buf_uniq (bufs s')"
    by (rule buf_uniq_same [OF _ bio_okD(1) [OF ok]]) (simp add: s' buf_match_def)
  moreover have "\<exists>is. mru (bufs s') is" using bio_okD(3) [OF ok] by (auto simp: s')
  ultimately have ok': "bio_ok s'"
    using bio_okD(4) [OF ok] len by (auto simp: bio_ok_def s')
  have v': "bview s' m = bview s m" for m
  proof (cases "m = n")
    case True
    then show ?thesis
      using bview_cached [OF bio_okD(1) [OF ok'], of i n] i v by (simp add: s' buf_match_def)
  next
    case False
    then show ?thesis
      using i by (intro bview_at) (auto simp: s' buf_match_def word_unat_eq_iff split: if_splits)
  qed
  have d': "bdirty s' m = ((bdirty s)(n := False)) m" for m
  proof (cases "m = n")
    case True
    then show ?thesis using bdirty_eq [OF ok' i(1), of n] i by (simp add: s' buf_match_def)
  next
    case False
    then show ?thesis using i by (auto simp: bdirty_def s' buf_match_def split: if_splits)
  qed
  have "held_buf i n s'" "clean_buf i s'"
    using i h by (auto simp: s' clean_buf_def held_buf_def buf_match_def)
  with ok' v show ?thesis
    by (intro conjI ext v' d') (simp_all add: s')
qed

lemma bread_returns:
  assumes ok: "bio_ok s" and n: "unat n < disksize s"
    and unlocked: "\<And>i. i < NBUF \<Longrightarrow> buf_match 1 n (bufs s i) \<Longrightarrow> slocked (b_lock (bufs s i)) = 0"
    and room: "\<exists>i<NBUF. buf_match 1 n (bufs s i) \<or> buf_unused (bufs s i)"
  shows "\<exists>i s'. bread 1 n s = Ok (i, s')"
proof -
  obtain "is" where m: "mru (bufs s) is" using bio_okD(3) [OF ok] by blast
  then have set_is: "set is = {..<NBUF}" by (simp add: mru_def)
  have "\<exists>i s1. bget_pick 1 n s = Ok (i, s1)"
  proof (cases "List.find (\<lambda>j. buf_match 1 n (bufs s j)) is")
    case None
    then have "List.find (\<lambda>j. buf_unused (bufs s j)) (rev is) \<noteq> None"
      using room set_is unfolding find_None_iff by auto
    then show ?thesis using m None by (auto simp: bget_pick_list)
  qed (use m in \<open>simp add: bget_pick_list\<close>)
  then obtain i s1 where p: "bget_pick 1 n s = Ok (i, s1)" by blast
  note P = bget_pick_spec [OF ok p]
  have "slocked (b_lock (bufs s1 i)) = 0"
    using P unlocked [of i] bio_okD(2) [OF ok, of i] by (auto simp: buf_ok_def buf_unused_def)
  then have l: "lock_buf i s1 = Ok (upd_buf i (\<lambda>b. b\<lparr>b_lock := (b_lock (bufs s1 i))\<lparr>slocked := 1, sl_pid := curpid s1\<rparr>\<rparr>) s1)"
    by (simp add: lock_buf_def acquiresleep_def)
  have d: "unat (b_blockno (bufs s1 i)) < disksize s1" "b_dev (bufs s1 i) = 1"
    using P n by (auto simp: buf_match_def same_disk_def)
  show ?thesis
    using p l d by (auto simp: bread_def bget_def iderw_def Let_def holdingsleep_def)
qed

lemma brelse_returns: "held_buf i n s \<Longrightarrow> \<exists>s'. brelse i s = Ok s'"
  by (auto simp: brelse_def held_buf_def Let_def)

lemma bwrite_returns: "held_buf i n s \<Longrightarrow> unat n < disksize s \<Longrightarrow> \<exists>s'. bwrite i s = Ok s'"
  by (auto simp: bwrite_def iderw_def held_buf_def Let_def buf_match_def)

text \<open>\<open>binit\<close> leaves the buffers in the order \<open>NBUF - 1, ..., 0\<close>.\<close>

lemma binit_buf_fields [simp]:
  "b_valid (binit_buf i bs j) = b_valid (bs j)" "b_dirty (binit_buf i bs j) = b_dirty (bs j)"
  "b_dev (binit_buf i bs j) = b_dev (bs j)" "b_blockno (binit_buf i bs j) = b_blockno (bs j)"
  "b_refcnt (binit_buf i bs j) = b_refcnt (bs j)" "b_data (binit_buf i bs j) = b_data (bs j)"
  "slocked (b_lock (binit_buf i bs j)) = (if j = i then 0 else slocked (b_lock (bs j)))"
proof -
  define bs1 where "bs1 = bs(i := (bs i)\<lparr>b_lock := initsleeplock ''buffer'' (b_lock (bs i))\<rparr>)"
  have "same_buf (bs1 j) (binit_buf i bs j)"
    unfolding binit_buf_def bs1_def [symmetric] link_front_def Let_def same_buf_set_link
    by (simp add: same_buf_iff)
  then show "b_valid (binit_buf i bs j) = b_valid (bs j)" "b_dirty (binit_buf i bs j) = b_dirty (bs j)"
    "b_dev (binit_buf i bs j) = b_dev (bs j)" "b_blockno (binit_buf i bs j) = b_blockno (bs j)"
    "b_refcnt (binit_buf i bs j) = b_refcnt (bs j)" "b_data (binit_buf i bs j) = b_data (bs j)"
    "slocked (b_lock (binit_buf i bs j)) = (if j = i then 0 else slocked (b_lock (bs j)))"
    by (simp_all add: same_buf_iff bs1_def initsleeplock_def)
qed

lemma binit_links:
  "k \<le> NBUF \<Longrightarrow> linked (fold binit_buf [0..<k] (set_next HEAD HEAD (set_prev HEAD HEAD bs)))
     (HEAD # rev [0..<k] @ [HEAD])"
proof (induction k)
  case (Suc k)
  let ?bs = "fold binit_buf [0..<k] (set_next HEAD HEAD (set_prev HEAD HEAD bs))"
  have "linked (?bs(k := (?bs k)\<lparr>b_lock := initsleeplock ''buffer'' (b_lock (?bs k))\<rparr>)) (HEAD # rev [0..<k] @ [HEAD])"
    using Suc by (subst linked_cong [of _ _ ?bs]) auto
  then have "linked (binit_buf k ?bs) (HEAD # k # rev [0..<k] @ [HEAD])"
    unfolding binit_buf_def using Suc.prems by (intro linked_front) auto
  then show ?case by simp
qed simp

lemma binit_mru: "mru (bufs (binit s)) (rev [0..<NBUF])"
  using binit_links [of NBUF "bufs s"] by (auto simp: mru_def binit_def)

lemma fold_binit_fields:
  "b_valid (fold binit_buf is bs j) = b_valid (bs j)" "b_dirty (fold binit_buf is bs j) = b_dirty (bs j)"
  "b_dev (fold binit_buf is bs j) = b_dev (bs j)" "b_blockno (fold binit_buf is bs j) = b_blockno (bs j)"
  "b_refcnt (fold binit_buf is bs j) = b_refcnt (bs j)" "b_data (fold binit_buf is bs j) = b_data (bs j)"
  "slocked (b_lock (fold binit_buf is bs j)) = (if j \<in> set is then 0 else slocked (b_lock (bs j)))"
  by (induction "is" arbitrary: bs) auto

lemma binit_ok:
  assumes "\<And>i. i < NBUF \<Longrightarrow> \<not> b_valid (bufs s i) \<and> \<not> b_dirty (bufs s i) \<and> b_dev (bufs s i) = 0"
    and "\<And>n. n < disksize s \<Longrightarrow> length (dblocks s n) = BSIZE"
  shows "bio_ok (binit s) \<and> bview (binit s) n = dblocks s (unat n) \<and> (\<forall>m. \<not> bdirty (binit s) m)"
proof -
  have f: "b_valid (bufs (binit s) i) = b_valid (bufs s i)" "b_dirty (bufs (binit s) i) = b_dirty (bufs s i)"
    "b_dev (bufs (binit s) i) = b_dev (bufs s i)" "slocked (b_lock (bufs (binit s) i)) = 0" if "i < NBUF" for i
    using that by (simp_all add: binit_def fold_binit_fields set_next_def set_prev_def)
  have d: "dblocks (binit s) = dblocks s" "disksize (binit s) = disksize s" by (simp_all add: binit_def)
  have "bio_ok (binit s)"
    unfolding bio_ok_def using binit_mru [of s] assms f by (auto simp: buf_uniq_def buf_ok_def d)
  moreover have "bview (binit s) n = dblocks s (unat n)"
    using assms f by (subst bview_uncached) (auto simp: d)
  ultimately show ?thesis using assms f by (auto simp: bdirty_def)
qed

lemma length_filter_remove1:
  "x \<in> set xs \<Longrightarrow> length (filter P (remove1 x xs)) = length (filter P xs) - (if P x then 1 else 0)"
  by (simp add: filter_remove1 length_remove1)

lemma refs_okD: "refs_ok s ws \<Longrightarrow> i < NBUF \<Longrightarrow> b_refcnt (bufs s i) =
    length (filter (\<lambda>w. snd w = i) ws) + (if slocked (b_lock (bufs s i)) = 0 then 0 else 1)"
  by (simp add: refs_ok_def)

lemma refs_ok_same:
  assumes "refs_ok s ws" "\<And>j. j < NBUF \<Longrightarrow> b_refcnt (bufs s' j) = b_refcnt (bufs s j) \<and>
     (slocked (b_lock (bufs s' j)) = 0) = (slocked (b_lock (bufs s j)) = 0)"
  shows "refs_ok s' ws"
  using assms by (simp add: refs_ok_def)

lemma bio_step_lock:
  assumes "bio_ok s" "refs_ok s ws" "(curpid s, i) \<in> set ws" "lock_buf i s = Ok s'"
  shows "bio_ok s' \<and> refs_ok s' (remove1 (curpid s, i) ws)"
proof -
  have i: "i < NBUF" using assms(2,3) by (auto simp: refs_ok_def)
  have s': "slocked (b_lock (bufs s i)) = 0"
    "s' = upd_buf i (\<lambda>b. b\<lparr>b_lock := (b_lock b)\<lparr>slocked := 1, sl_pid := curpid s\<rparr>\<rparr>) s"
    using assms(4) by (auto simp: lock_buf_def acquiresleep_def upd_buf_def split: if_splits)
  have cnt: "length (filter (\<lambda>w. snd w = i) ws) > 0"
    using assms(3) by (force simp: filter_empty_conv)
  then have ref: "b_refcnt (bufs s i) \<noteq> 0" using refs_okD [OF assms(2) i] by simp
  have "bio_ok s'"
    unfolding s'(2) using bio_okD(2) [OF assms(1) i] ref s'(1)
    by (intro bio_ok_upd [OF assms(1)]) (auto simp: buf_ok_def)
  moreover have "refs_ok s' (remove1 (curpid s, i) ws)"
    using assms(2) s'(1) cnt i unfolding refs_ok_def
    by (auto simp: s'(2) length_filter_remove1 [OF assms(3)] dest: notin_set_remove1)
  ultimately show ?thesis by simp
qed

lemma bio_step_pick:
  assumes "bio_ok s" "refs_ok s ws" "bget_pick 1 n s = Ok (i, s')"
  shows "bio_ok s' \<and> refs_ok s' ((curpid s, i) # ws)"
proof -
  note P = bget_pick_spec [OF assms(1,3)]
  have "refs_ok s' ((curpid s, i) # ws)"
    unfolding refs_ok_def
  proof (intro conjI allI impI)
    fix j assume j: "j < NBUF"
    show "b_refcnt (bufs s' j) = length (filter (\<lambda>w. snd w = j) ((curpid s, i) # ws)) +
       (if slocked (b_lock (bufs s' j)) = 0 then 0 else 1)"
      using P refs_okD [OF assms(2) j] by (cases "j = i") (auto simp: buf_unused_def split: if_splits)
  qed (use P assms(2) in \<open>auto simp: refs_ok_def\<close>)
  with P show ?thesis by simp
qed

lemma bio_step_ok:
  "bio_step x y \<Longrightarrow> bio_ok (fst x) \<and> refs_ok (fst x) (snd x) \<Longrightarrow> bio_ok (fst y) \<and> refs_ok (fst y) (snd y)"
proof (induction rule: bio_step.induct)
  case (switch s ws p)
  then show ?case by (simp add: bio_ok_def refs_ok_def)
next
  case (pick n s i s' ws)
  then show ?case using bio_step_pick [of s ws n i s'] by simp
next
  case (lock s i ws s')
  then show ?case using bio_step_lock [of s ws i s'] by simp
next
  case (fill i s s' ws)
  then have "buf_match 1 (b_blockno (bufs s i)) (bufs s i)"
    by (auto simp: iderw_def Let_def buf_match_def split: if_splits)
  then have "s' = upd_buf i (\<lambda>b. b\<lparr>b_data := dblocks s (unat (b_blockno (bufs s i))), b_valid := True\<rparr>) s \<and> bio_ok s'"
    using fill_spec [of s i _ s'] fill by auto
  then show ?case using refs_ok_same [of s ws s'] fill by auto
next
  case (change i n s d ws)
  then have "bio_ok (set_data i d s)" "held_buf i n (set_data i d s)" using set_data_spec by auto
  then have "bio_ok (upd_buf i (\<lambda>b. b\<lparr>b_dirty := True\<rparr>) (set_data i d s))" using pin_spec by blast
  moreover have "refs_ok (upd_buf i (\<lambda>b. b\<lparr>b_dirty := True\<rparr>) (set_data i d s)) ws"
    by (rule refs_ok_same [of s]) (use change in \<open>auto simp: set_data_def\<close>)
  ultimately show ?case by simp
next
  case (flush i n s d s' ws)
  then have "bio_ok (set_data i d s)" "held_buf i n (set_data i d s)" using set_data_spec by auto
  from bwrite_spec [OF this flush(3)] have "bio_ok s'"
    "bufs s' = (bufs (set_data i d s))(i := (bufs (set_data i d s) i)\<lparr>b_dirty := False, b_valid := True\<rparr>)"
    by auto
  then show ?case using refs_ok_same [of s ws s'] flush by (auto simp: set_data_def)
next
  case (release i s s' ws)
  have locked: "slocked (b_lock (bufs s i)) \<noteq> 0"
    using release(3) by (auto simp: brelse_def holdingsleep_def split: if_splits)
  note R = brelse_spec [of s i s'] release
  have "refs_ok s' ws"
    unfolding refs_ok_def
  proof (intro conjI allI impI)
    fix j assume j: "j < NBUF"
    show "b_refcnt (bufs s' j) = length (filter (\<lambda>w. snd w = j) ws) +
       (if slocked (b_lock (bufs s' j)) = 0 then 0 else 1)"
      using R refs_okD [of s ws j] j locked
      by (cases "j = i") (auto simp: same_buf_iff releasesleep_def)
  qed (use release in \<open>auto simp: refs_ok_def\<close>)
  then show ?case using R by auto
qed

lemma bio_boot_ok:
  assumes "\<forall>b\<in>set img. length b = BSIZE"
  shows "bio_ok (bio_boot img) \<and> refs_ok (bio_boot img) []"
proof -
  have "refs_ok (bio_boot img) []"
    by (simp add: refs_ok_def bio_boot_def binit_def fold_binit_fields ideinit_def set_next_def
        set_prev_def zero_buf_def)
  moreover have "bio_ok (bio_boot img)"
    using assms unfolding bio_boot_def by (intro conjunct1 [OF binit_ok]) (auto simp: ideinit_def zero_buf_def)
  ultimately show ?thesis by simp
qed

lemma bio_run_ok:
  "bio_step\<^sup>*\<^sup>* x y \<Longrightarrow> bio_ok (fst x) \<and> refs_ok (fst x) (snd x) \<Longrightarrow> bio_ok (fst y) \<and> refs_ok (fst y) (snd y)"
  by (induction rule: rtranclp_induct) (use bio_step_ok in blast)+

section \<open>Properties\<close>





end
