(* ===== verification/Layout.thy ===== *)
theory Layout
  imports Prelude
begin

text \<open>
  The on-disk format of \<open>fs.h\<close>: fields of a block as little-endian integers at byte offsets, and
  the structures \<open>superblock\<close>, \<open>dinode\<close> and \<open>dirent\<close> with their byte encodings. Every structure
  read back from the bytes it was stored as is the structure that was stored.
\<close>

section \<open>Bytes at offsets\<close>

definition slice :: "nat \<Rightarrow> nat \<Rightarrow> 'a list \<Rightarrow> 'a list" where
  "slice off n d = take n (drop off d)"

definition splice :: "nat \<Rightarrow> 'a list \<Rightarrow> 'a list \<Rightarrow> 'a list" where
  "splice off xs d = take off d @ xs @ drop (off + length xs) d"

definition get16 :: "nat \<Rightarrow> u8 list \<Rightarrow> u16" where
  "get16 off d = rd16 (slice off 2 d)"

definition get32 :: "nat \<Rightarrow> u8 list \<Rightarrow> u32" where
  "get32 off d = rd32 (slice off 4 d)"

definition put32 :: "nat \<Rightarrow> u32 \<Rightarrow> u8 list \<Rightarrow> u8 list" where
  "put32 off w d = splice off (le32 w) d"

section \<open>The structures of fs.h\<close>

record superblock =
  sb_size :: u32
  sb_nblocks :: u32
  sb_ninodes :: u32
  sb_nlog :: u32
  sb_logstart :: u32
  sb_inodestart :: u32
  sb_bmapstart :: u32

abbreviation (input) NDIRECT :: nat where "NDIRECT \<equiv> 12"
abbreviation (input) NINDIRECT :: nat where "NINDIRECT \<equiv> 128"
abbreviation (input) MAXFILE :: nat where "MAXFILE \<equiv> 140"
abbreviation (input) ROOTINO :: u32 where "ROOTINO \<equiv> 1"
abbreviation (input) IPB :: nat where "IPB \<equiv> 8"
abbreviation (input) BPB :: nat where "BPB \<equiv> 4096"
abbreviation (input) DIRSIZ :: nat where "DIRSIZ \<equiv> 14"

record dinode =
  d_type :: u16
  d_major :: u16
  d_minor :: u16
  d_nlink :: u16
  d_size :: u32
  d_addrs :: "u32 list"

record dirent =
  de_inum :: u16
  de_name :: "u8 list"

definition decode_sb :: "u8 list \<Rightarrow> superblock" where
  "decode_sb d = \<lparr>sb_size = get32 0 d, sb_nblocks = get32 4 d, sb_ninodes = get32 8 d,
     sb_nlog = get32 12 d, sb_logstart = get32 16 d, sb_inodestart = get32 20 d,
     sb_bmapstart = get32 24 d\<rparr>"

definition encode_sb :: "superblock \<Rightarrow> u8 list" where
  "encode_sb sb = le32 (sb_size sb) @ le32 (sb_nblocks sb) @ le32 (sb_ninodes sb) @
     le32 (sb_nlog sb) @ le32 (sb_logstart sb) @ le32 (sb_inodestart sb) @ le32 (sb_bmapstart sb)"

definition decode_dinode :: "u8 list \<Rightarrow> dinode" where
  "decode_dinode d = \<lparr>d_type = get16 0 d, d_major = get16 2 d, d_minor = get16 4 d,
     d_nlink = get16 6 d, d_size = get32 8 d, d_addrs = map (\<lambda>i. get32 (12 + 4 * i) d) [0..<13]\<rparr>"

definition encode_dinode :: "dinode \<Rightarrow> u8 list" where
  "encode_dinode di = le16 (d_type di) @ le16 (d_major di) @ le16 (d_minor di) @ le16 (d_nlink di) @
     le32 (d_size di) @ concat (map le32 (d_addrs di))"

definition decode_dirent :: "u8 list \<Rightarrow> dirent" where
  "decode_dirent d = \<lparr>de_inum = get16 0 d, de_name = slice 2 DIRSIZ d\<rparr>"

definition encode_dirent :: "dirent \<Rightarrow> u8 list" where
  "encode_dirent de = le16 (de_inum de) @ de_name de"

definition IBLOCK :: "u32 \<Rightarrow> superblock \<Rightarrow> u32" where
  "IBLOCK i sb = i div 8 + sb_inodestart sb"

definition BBLOCK :: "u32 \<Rightarrow> superblock \<Rightarrow> u32" where
  "BBLOCK b sb = b div 4096 + sb_bmapstart sb"

section \<open>Reading back what was stored\<close>

lemma length_splice [simp]: "off + length xs \<le> length d \<Longrightarrow> length (splice off xs d) = length d"
  by (simp add: splice_def)

lemma length_slice [simp]: "off + n \<le> length d \<Longrightarrow> length (slice off n d) = n"
  by (simp add: slice_def)

lemma slice_nth: "i < n \<Longrightarrow> off + n \<le> length d \<Longrightarrow> slice off n d ! i = d ! (off + i)"
  by (simp add: slice_def)

lemma splice_nth:
  assumes "off + length xs \<le> length d" "i < length d"
  shows "splice off xs d ! i = (if off \<le> i \<and> i < off + length xs then xs ! (i - off) else d ! i)"
  using assms by (auto simp: splice_def nth_append)

lemma slice_splice_same [simp]:
  "off + length xs \<le> length d \<Longrightarrow> n = length xs \<Longrightarrow> slice off n (splice off xs d) = xs"
  by (simp add: slice_def splice_def)

lemma slice_splice_other:
  assumes "off + length xs \<le> length d" "o' + n \<le> off \<or> off + length xs \<le> o'" "o' + n \<le> length d"
  shows "slice o' n (splice off xs d) = slice o' n d"
  using assms by (intro nth_equalityI) (auto simp: slice_nth splice_nth)

lemma get32_put32 [simp]: "off + 4 \<le> length d \<Longrightarrow> get32 off (put32 off w d) = w"
  using rd32_le32 [of w "[]"] by (simp add: get32_def put32_def)

lemma get32_put32_other:
  "off + 4 \<le> length d \<Longrightarrow> o' + 4 \<le> length d \<Longrightarrow> o' + 4 \<le> off \<or> off + 4 \<le> o' \<Longrightarrow>
     get32 o' (put32 off w d) = get32 o' d"
  by (simp add: get32_def put32_def slice_splice_other)

lemma length_put32 [simp]: "off + 4 \<le> length d \<Longrightarrow> length (put32 off w d) = length d"
  by (simp add: put32_def)

lemma rd32_take [simp]: "rd32 (take 4 d) = rd32 d"
  by (cases d; cases "tl d"; cases "tl (tl d)"; cases "tl (tl (tl d))") (auto simp: rd32_def)

lemma rd16_take [simp]: "rd16 (take 2 d) = rd16 d"
  by (cases d; cases "tl d") (auto simp: rd16_def)

lemma get32_alt: "get32 off d = rd32 (drop off d)"
  by (simp add: get32_def slice_def)

lemma get16_alt: "get16 off d = rd16 (drop off d)"
  by (simp add: get16_def slice_def)

lemma drop_le [simp]:
  "4 \<le> k \<Longrightarrow> drop k (le32 w @ d) = drop (k - 4) d"
  "2 \<le> k \<Longrightarrow> drop k (le16 v @ d) = drop (k - 2) d"
  by simp_all

lemma length_concat_le32 [simp]: "length (concat (map le32 ws)) = 4 * length ws"
  by (induction ws) auto

lemma rd32_concat: "i < length ws \<Longrightarrow> rd32 (drop (4 * i) (concat (map le32 ws) @ d)) = ws ! i"
proof (induction ws arbitrary: i)
  case (Cons w ws)
  then show ?case by (cases i) auto
qed simp

lemma rd32_concat' [simp]: "i < length ws \<Longrightarrow> rd32 (drop (4 * i) (concat (map le32 ws)) @ d) = ws ! i"
  using rd32_concat [of i ws d] by simp

lemma decode_encode_sb [simp]: "decode_sb (encode_sb sb @ d) = sb"
  by (simp add: decode_sb_def encode_sb_def get32_alt)

lemma length_encode_dinode [simp]: "length (d_addrs di) = 13 \<Longrightarrow> length (encode_dinode di) = 64"
  by (simp add: encode_dinode_def)

lemma decode_encode_dinode [simp]:
  assumes "length (d_addrs di) = 13"
  shows "decode_dinode (encode_dinode di @ d) = di"
proof -
  have "map (\<lambda>i. rd32 (drop (4 * i) (concat (map le32 (d_addrs di))) @ drop (4 * i - 52) d)) [0..<13] =
        d_addrs di"
    using assms by (intro nth_equalityI) (auto simp del: upt_rec_numeral)
  then show ?thesis
    using assms by (simp add: decode_dinode_def encode_dinode_def get32_alt get16_alt del: upt_rec_numeral)
qed

lemma length_decode_addrs [simp]: "length (d_addrs (decode_dinode d)) = 13"
  by (simp add: decode_dinode_def)

lemma length_encode_dirent [simp]: "length (de_name de) = DIRSIZ \<Longrightarrow> length (encode_dirent de) = 16"
  by (simp add: encode_dirent_def)

lemma decode_encode_dirent [simp]:
  "length (de_name de) = DIRSIZ \<Longrightarrow> decode_dirent (encode_dirent de @ d) = de"
  by (simp add: decode_dirent_def encode_dirent_def get16_alt slice_def)

lemma get32_zeros [simp]: "off + 4 \<le> n \<Longrightarrow> get32 off (replicate n 0) = 0"
  by (simp add: get32_def slice_def min_def rd32_def numeral_eq_Suc)

end
