(* ===== verification/Log.thy ===== *)
theory Log
  imports Bio Layout
begin

text \<open>
  The write-ahead log of \<open>log.c\<close>, over the buffer cache. A transaction is the set of blocks that
  \<open>log_write\<close> has recorded in the header and pinned in the cache; \<open>commit\<close> copies them to the
  log area, writes the header, installs them at their home locations and clears the header. The
  main result is crash atomicity: whatever prefix of the block writes of a commit has reached the
  disk, and however often the recovery is itself cut short, a recovery that completes leaves the
  file system blocks as they were before the transaction or as the transaction made them, all of
  them. The second part is the space reservation of \<open>begin_op\<close>/\<open>end_op\<close> under interleaving.
  The log lock is held over each critical section, which is a single step here.
\<close>

section \<open>Definitions\<close>

record log_st = bio +
  l_start :: u32
  l_size :: int
  l_outstanding :: int
  l_committing :: bool
  l_dev :: u32
  lh_n :: int
  lh_block :: "u32 list"

text \<open>\<open>readsb\<close> of \<open>fs.c\<close>.\<close>

definition readsb :: "u32 \<Rightarrow> 'a bio_scheme \<Rightarrow> (superblock \<times> 'a bio_scheme) res" where
  "readsb dev s =
     kbind (bread dev 1 s) (\<lambda>(b, s).
       let sb = decode_sb (b_data (bufs s b)) in kbind (brelse b s) (\<lambda>s. Ok (sb, s)))"

text \<open>One round of the loop of \<open>install_trans\<close>, and of \<open>write_log\<close>.\<close>

definition install_one :: "nat \<Rightarrow> 'a log_st_scheme \<Rightarrow> ('a log_st_scheme) res" where
  "install_one tail s =
     (if LOGSIZE \<le> tail then Undef else
      kbind (bread (l_dev s) (l_start s + of_nat tail + 1) s) (\<lambda>(lbuf, s).
      kbind (bread (l_dev s) (lh_block s ! tail) s) (\<lambda>(dbuf, s).
      kbind (bwrite dbuf (set_data dbuf (b_data (bufs s lbuf)) s)) (\<lambda>s.
      kbind (brelse lbuf s) (\<lambda>s. brelse dbuf s)))))"

definition install_trans :: "'a log_st_scheme \<Rightarrow> ('a log_st_scheme) res" where
  "install_trans s = kfold install_one [0..<nat (lh_n s)] s"

definition write_log_one :: "nat \<Rightarrow> 'a log_st_scheme \<Rightarrow> ('a log_st_scheme) res" where
  "write_log_one tail s =
     (if LOGSIZE \<le> tail then Undef else
      kbind (bread (l_dev s) (l_start s + of_nat tail + 1) s) (\<lambda>(to, s).
      kbind (bread (l_dev s) (lh_block s ! tail) s) (\<lambda>(from, s).
      kbind (bwrite to (set_data to (b_data (bufs s from)) s)) (\<lambda>s.
      kbind (brelse from s) (\<lambda>s. brelse to s)))))"

definition write_log :: "'a log_st_scheme \<Rightarrow> ('a log_st_scheme) res" where
  "write_log s = kfold write_log_one [0..<nat (lh_n s)] s"

text \<open>The header block: the count, then the block numbers. A count beyond the array of the
  in-memory header makes the loops run off its end.\<close>

definition read_head :: "'a log_st_scheme \<Rightarrow> ('a log_st_scheme) res" where
  "read_head s =
     kbind (bread (l_dev s) (l_start s) s) (\<lambda>(b, s).
       let d = b_data (bufs s b); n = sint (get32 0 d) in
       if int LOGSIZE < n then Undef
       else brelse b (s\<lparr>lh_n := n,
              lh_block := fold (\<lambda>i bl. bl[i := get32 (4 + 4 * i) d]) [0..<nat n] (lh_block s)\<rparr>))"

definition head_block :: "int \<Rightarrow> u32 list \<Rightarrow> block \<Rightarrow> block" where
  "head_block n bl d =
     fold (\<lambda>i d. put32 (4 + 4 * i) (bl ! i) d) [0..<nat n] (put32 0 (word_of_int n) d)"

definition write_head :: "'a log_st_scheme \<Rightarrow> ('a log_st_scheme) res" where
  "write_head s =
     kbind (bread (l_dev s) (l_start s) s) (\<lambda>(b, s).
       if int LOGSIZE < lh_n s then Undef
       else kbind (bwrite b (set_data b (head_block (lh_n s) (lh_block s) (b_data (bufs s b))) s))
              (\<lambda>s. brelse b s))"

definition recover_from_log :: "'a log_st_scheme \<Rightarrow> ('a log_st_scheme) res" where
  "recover_from_log s =
     kbind (read_head s) (\<lambda>s.
     kbind (install_trans s) (\<lambda>s. write_head (s\<lparr>lh_n := 0\<rparr>)))"

definition initlog :: "u32 \<Rightarrow> 'a log_st_scheme \<Rightarrow> ('a log_st_scheme) res" where
  "initlog dev s =
     (if BSIZE \<le> 4 + 4 * LOGSIZE then Panic ''initlog: too big logheader''
      else kbind (readsb dev s) (\<lambda>(sb, s).
             recover_from_log (s\<lparr>l_start := sb_logstart sb, l_size := sint (sb_nlog sb), l_dev := dev\<rparr>)))"

definition commit :: "'a log_st_scheme \<Rightarrow> ('a log_st_scheme) res" where
  "commit s =
     (if 0 < lh_n s then
        kbind (write_log s) (\<lambda>s. kbind (write_head s) (\<lambda>s.
        kbind (install_trans s) (\<lambda>s. write_head (s\<lparr>lh_n := 0\<rparr>))))
      else Ok s)"

definition begin_op :: "'a log_st_scheme \<Rightarrow> ('a log_st_scheme) res" where
  "begin_op s =
     (if l_committing s then Sleeps
      else if lh_n s + (l_outstanding s + 1) * int MAXOPBLOCKS > int LOGSIZE then Sleeps
      else Ok (s\<lparr>l_outstanding := l_outstanding s + 1\<rparr>))"

text \<open>\<open>end_op\<close>: its first critical section, which decides whether this call commits, the commit,
  and the second critical section.\<close>

definition end_op_enter :: "'a log_st_scheme \<Rightarrow> (bool \<times> 'a log_st_scheme) res" where
  "end_op_enter s =
     (let s = s\<lparr>l_outstanding := l_outstanding s - 1\<rparr> in
      if l_committing s then Panic ''log.committing''
      else if l_outstanding s = 0 then Ok (True, s\<lparr>l_committing := True\<rparr>)
      else Ok (False, s))"

definition end_op :: "'a log_st_scheme \<Rightarrow> ('a log_st_scheme) res" where
  "end_op s =
     kbind (end_op_enter s) (\<lambda>(do_commit, s).
       if do_commit then kbind (commit s) (\<lambda>s. Ok (s\<lparr>l_committing := False\<rparr>)) else Ok s)"

definition log_write :: "nat \<Rightarrow> 'a log_st_scheme \<Rightarrow> ('a log_st_scheme) res" where
  "log_write b s =
     (if int LOGSIZE \<le> lh_n s \<or> l_size s - 1 \<le> lh_n s then Panic ''too big a transaction''
      else if l_outstanding s < 1 then Panic ''log_write outside of trans''
      else
        let blockno = b_blockno (bufs s b);
            i = (case List.find (\<lambda>i. lh_block s ! i = blockno) [0..<nat (lh_n s)] of
                   Some i \<Rightarrow> i | None \<Rightarrow> nat (lh_n s));
            s = s\<lparr>lh_block := (lh_block s)[i := blockno]\<rparr>;
            s = (if int i = lh_n s then s\<lparr>lh_n := lh_n s + 1\<rparr> else s)
        in Ok (upd_buf b (\<lambda>b. b\<lparr>b_dirty := True\<rparr>) s))"

section \<open>Specification of crashes\<close>

type_synonym dwrite = "nat \<times> block"

definition apply_writes :: "('k \<times> block) list \<Rightarrow> ('k \<Rightarrow> block) \<Rightarrow> 'k \<Rightarrow> block" where
  "apply_writes ws dk = fold (\<lambda>(n, d) dk. dk(n := d)) ws dk"

text \<open>What a recovery makes of a disk: the blocks named in the header are replaced by the logged
  copies.\<close>

definition head_n :: "u32 \<Rightarrow> (nat \<Rightarrow> block) \<Rightarrow> nat" where
  "head_n start dk = nat (sint (get32 0 (dk (unat start))))"

definition head_bl :: "u32 \<Rightarrow> (nat \<Rightarrow> block) \<Rightarrow> u32 list" where
  "head_bl start dk = map (\<lambda>i. get32 (4 + 4 * i) (dk (unat start))) [0..<head_n start dk]"

definition log_copies :: "u32 \<Rightarrow> (nat \<Rightarrow> block) \<Rightarrow> u32 list \<Rightarrow> dwrite list" where
  "log_copies start dk bl = map (\<lambda>i. (unat (bl ! i), dk (unat start + i + 1))) [0..<length bl]"

definition recovered :: "u32 \<Rightarrow> (nat \<Rightarrow> block) \<Rightarrow> nat \<Rightarrow> block" where
  "recovered start dk = apply_writes (log_copies start dk (head_bl start dk)) dk"

definition log_area :: "u32 \<Rightarrow> int \<Rightarrow> nat set" where
  "log_area start sz = {unat start..<unat start + nat sz}"

definition home_eq :: "u32 \<Rightarrow> int \<Rightarrow> (nat \<Rightarrow> block) \<Rightarrow> (nat \<Rightarrow> block) \<Rightarrow> bool" where
  "home_eq start sz dk dk' \<longleftrightarrow> (\<forall>n. n \<notin> log_area start sz \<longrightarrow> dk n = dk' n)"

text \<open>Where the log lies on the disk: its header, its blocks, and the blocks outside it.\<close>

definition log_geom :: "'a log_st_scheme \<Rightarrow> bool" where
  "log_geom s \<longleftrightarrow> l_dev s = 1 \<and> 0 < l_size s \<and>
     unat (l_start s) + nat (l_size s) \<le> disksize s \<and> disksize s \<le> 2 ^ 32"

definition log_blk :: "'a log_st_scheme \<Rightarrow> nat \<Rightarrow> u32" where
  "log_blk s tail = l_start s + of_nat tail + 1"

definition home_blk :: "'a log_st_scheme \<Rightarrow> u32 \<Rightarrow> bool" where
  "home_blk s n \<longleftrightarrow> unat n < disksize s \<and> unat n \<notin> log_area (l_start s) (l_size s)"

definition in_log :: "'a log_st_scheme \<Rightarrow> nat list \<Rightarrow> bool" where
  "in_log s ts \<longleftrightarrow> (\<forall>t\<in>set ts. t < LOGSIZE \<and> int t < l_size s - 1 \<and> home_blk s (lh_block s ! t))"

text \<open>A transaction ready to commit: the header names distinct blocks outside the log, and these
  are exactly the pinned ones. The block writes that its commit performs, in order.\<close>

definition logged :: "'a log_st_scheme \<Rightarrow> u32 list" where
  "logged s = take (nat (lh_n s)) (lh_block s)"

definition commit_writes :: "'a log_st_scheme \<Rightarrow> (u32 \<times> block) list" where
  "commit_writes s =
     (let n = nat (lh_n s); h = head_block (lh_n s) (lh_block s) (bview s (l_start s))
      in map (\<lambda>i. (log_blk s i, bview s (lh_block s ! i))) [0..<n] @ [(l_start s, h)] @
         map (\<lambda>i. (lh_block s ! i, bview s (lh_block s ! i))) [0..<n] @
         [(l_start s, head_block 0 (lh_block s) h)])"

text \<open>Between operations no buffer is held or referenced.\<close>

definition idle_buf :: "buf \<Rightarrow> bool" where
  "idle_buf b \<longleftrightarrow> slocked (b_lock b) = 0 \<and> b_refcnt b = 0"

definition bio_idle :: "'a bio_scheme \<Rightarrow> bool" where
  "bio_idle s \<longleftrightarrow> (\<forall>i<NBUF. idle_buf (bufs s i))"

definition spare_bufs :: "nat \<Rightarrow> 'a bio_scheme \<Rightarrow> bool" where
  "spare_bufs k s \<longleftrightarrow> card {n. bdirty s n} + k \<le> NBUF"

text \<open>The effect of writing blocks through the cache, from one idle state to another.\<close>

definition disk_writes :: "(u32 \<times> block) list \<Rightarrow> dwrite list" where
  "disk_writes ws = map (\<lambda>(n, d). (unat n, d)) ws"

definition wrote :: "(u32 \<times> block) list \<Rightarrow> 'a bio_scheme \<Rightarrow> 'a bio_scheme \<Rightarrow> bool" where
  "wrote ws s s' \<longleftrightarrow> bio_ok s' \<and> bio_idle s' \<and> bview s' = apply_writes ws (bview s) \<and>
     bdirty s' = (\<lambda>n. bdirty s n \<and> n \<notin> fst ` set ws) \<and>
     dblocks s' = apply_writes (disk_writes ws) (dblocks s) \<and>
     dwrites s' = dwrites s @ disk_writes ws \<and> disksize s' = disksize s \<and> curpid s' = curpid s"

definition log_ready :: "'a log_st_scheme \<Rightarrow> bool" where
  "log_ready s \<longleftrightarrow> bio_ok s \<and> bio_idle s \<and> log_geom s \<and> 0 < lh_n s \<and> lh_n s < int LOGSIZE \<and>
     lh_n s \<le> l_size s - 1 \<and> length (lh_block s) = LOGSIZE \<and> distinct (logged s) \<and>
     (\<forall>b\<in>set (logged s). home_blk s b) \<and> (\<forall>m. bdirty s m \<longleftrightarrow> m \<in> set (logged s))"

text \<open>Booting from a disk: the cache and the log structure are zero, then \<open>binit\<close> and \<open>initlog\<close>
  run. A disk that can be recovered has a sensible superblock and log header.\<close>

definition log_boot :: "nat \<Rightarrow> (nat \<Rightarrow> block) \<Rightarrow> log_st" where
  "log_boot dsz dk = binit \<lparr>dblocks = dk, disksize = dsz, dwrites = [], curpid = 0, bufs = \<lambda>_. zero_buf,
     l_start = 0, l_size = 0, l_outstanding = 0, l_committing = False, l_dev = 0,
     lh_n = 0, lh_block = replicate LOGSIZE 0\<rparr>"

definition recovery_writes :: "u32 \<Rightarrow> (nat \<Rightarrow> block) \<Rightarrow> dwrite list" where
  "recovery_writes start dk =
     log_copies start dk (head_bl start dk) @ [(unat start, put32 0 0 (dk (unat start)))]"

definition sb_ok :: "u32 \<Rightarrow> int \<Rightarrow> nat \<Rightarrow> (nat \<Rightarrow> block) \<Rightarrow> bool" where
  "sb_ok start sz dsz dk \<longleftrightarrow> sb_logstart (decode_sb (dk 1)) = start \<and> sint (sb_nlog (decode_sb (dk 1))) = sz \<and>
     0 < sz \<and> 1 < unat start \<and> unat start + nat sz \<le> dsz \<and> dsz \<le> 2 ^ 32 \<and>
     (\<forall>n<dsz. length (dk n) = BSIZE)"

definition head_ok :: "u32 \<Rightarrow> int \<Rightarrow> nat \<Rightarrow> (nat \<Rightarrow> block) \<Rightarrow> bool" where
  "head_ok start sz dsz dk \<longleftrightarrow> sint (get32 0 (dk (unat start))) \<le> int LOGSIZE \<and>
     int (head_n start dk) \<le> sz - 1 \<and> distinct (head_bl start dk) \<and>
     (\<forall>b\<in>set (head_bl start dk). unat b < dsz \<and> unat b \<notin> log_area start sz \<and> unat b \<noteq> 1)"

text \<open>A recovery that is cut short after any of its block writes.\<close>

inductive cut_recovery :: "nat \<Rightarrow> (nat \<Rightarrow> block) \<Rightarrow> (nat \<Rightarrow> block) \<Rightarrow> bool" for dsz where
  cut: "initlog 1 (log_boot dsz dk) = Ok s \<Longrightarrow> cut_recovery dsz dk (apply_writes (take k (dwrites s)) dk)"

definition lh_ok :: "'a log_st_scheme \<Rightarrow> bool" where
  "lh_ok s \<longleftrightarrow> 0 \<le> lh_n s \<and> lh_n s \<le> int LOGSIZE \<and> length (lh_block s) = LOGSIZE"

text \<open>File system calls interleaved: the state and, for every call between its \<open>begin_op\<close> and its
  \<open>end_op\<close>, how many \<open>log_write\<close>s it has made, at most \<open>m\<close>. The last \<open>end_op\<close> commits, during
  which no other call runs, because \<open>begin_op\<close> waits for \<open>committing\<close>.\<close>

inductive log_step :: "nat \<Rightarrow> 'a log_st_scheme \<times> nat list \<Rightarrow> 'a log_st_scheme \<times> nat list \<Rightarrow> bool" for m where
  begins: "begin_op s = Ok s' \<Longrightarrow> log_step m (s, us) (s', 0 # us)"
| logs: "log_write b s = Ok s' \<Longrightarrow> u < m \<Longrightarrow> log_step m (s, us @ u # vs) (s', us @ Suc u # vs)"
| ends: "end_op_enter s = Ok (False, s') \<Longrightarrow> log_step m (s, us @ u # vs) (s', us @ vs)"
| commits: "end_op_enter s = Ok (True, s1) \<Longrightarrow> commit s1 = Ok s2 \<Longrightarrow>
    log_step m (s, us @ u # vs) (s2\<lparr>l_committing := False\<rparr>, us @ vs)"
| other: "bio.more s' = bio.more s \<Longrightarrow> log_step m (s, us) (s', us)"

definition reserve_ok :: "'a log_st_scheme \<times> nat list \<Rightarrow> bool" where
  "reserve_ok x \<longleftrightarrow> (case x of (s, us) \<Rightarrow>
     lh_ok s \<and> \<not> l_committing s \<and> l_outstanding s = int (length us) \<and>
     (\<forall>u\<in>set us. u \<le> MAXOPBLOCKS) \<and>
     lh_n s + int (sum_list (map (\<lambda>u. MAXOPBLOCKS - u) us)) \<le> int LOGSIZE)"

section \<open>Block copies through the cache\<close>

lemma finite_bdirty: "finite {n. bdirty s n}"
proof -
  have "{n. bdirty s n} \<subseteq> (\<lambda>i. b_blockno (bufs s i)) ` {..<NBUF}"
    by (auto simp: bdirty_def buf_match_def)
  then show ?thesis by (rule finite_subset) simp
qed

lemma dirty_bufs_card:
  assumes "bio_ok s"
  shows "card {i. i < NBUF \<and> b_dirty (bufs s i)} \<le> card {n. bdirty s n}"
proof (rule card_inj_on_le [OF _ _ finite_bdirty])
  have m: "buf_match 1 (b_blockno (bufs s i)) (bufs s i)" if "i < NBUF" "b_dirty (bufs s i)" for i
    using bio_okD(2) [OF assms that(1)] that by (auto simp: buf_ok_def buf_match_def)
  show "inj_on (\<lambda>i. b_blockno (bufs s i)) {i. i < NBUF \<and> b_dirty (bufs s i)}"
    using buf_uniqD [OF bio_okD(1) [OF assms]] m by (intro inj_onI) (metis (no_types, lifting) mem_Collect_eq)
  show "(\<lambda>i. b_blockno (bufs s i)) ` {i. i < NBUF \<and> b_dirty (bufs s i)} \<subseteq> {n. bdirty s n}"
    using m by (auto intro: bdirtyI)
qed

lemma spare_bufs_avoid:
  assumes "bio_ok s" "spare_bufs (Suc k) s" "bio_idle s" "card A \<le> k" "finite A"
  shows "\<exists>i<NBUF. buf_unused (bufs s i) \<and> i \<notin> A"
proof (rule ccontr)
  assume "\<not> ?thesis"
  then have "{..<NBUF} \<subseteq> {i. i < NBUF \<and> b_dirty (bufs s i)} \<union> A"
    using assms(3) by (auto simp: bio_idle_def idle_buf_def buf_unused_def)
  then have "card {..<NBUF} \<le> card ({i. i < NBUF \<and> b_dirty (bufs s i)} \<union> A)"
    using assms(5) by (intro card_mono) auto
  also have "\<dots> \<le> card {i. i < NBUF \<and> b_dirty (bufs s i)} + card A" by (rule card_Un_le)
  finally show False using assms(2,4) dirty_bufs_card [OF assms(1)] by (simp add: spare_bufs_def)
qed

lemma wrote_spare: "wrote ws s s' \<Longrightarrow> spare_bufs k s \<Longrightarrow> spare_bufs k s'"
proof -
  assume w: "wrote ws s s'" and k: "spare_bufs k s"
  have "card {m. bdirty s' m} \<le> card {m. bdirty s m}"
    using w by (intro card_mono finite_bdirty) (auto simp: wrote_def)
  then show ?thesis using k by (simp add: spare_bufs_def)
qed

lemma apply_writes_append: "apply_writes (ws @ ws') dk = apply_writes ws' (apply_writes ws dk)"
  by (simp add: apply_writes_def)

lemma apply_writes_Nil [simp]: "apply_writes [] dk = dk"
  by (simp add: apply_writes_def)

lemma apply_writes_Cons [simp]: "apply_writes ((n, d) # ws) dk = apply_writes ws (dk(n := d))"
  by (simp add: apply_writes_def)

lemma apply_writes_other: "n \<notin> fst ` set ws \<Longrightarrow> apply_writes ws dk n = dk n"
proof (induction ws arbitrary: dk)
  case (Cons w ws)
  then show ?case by (cases w) simp
qed simp

lemma apply_writes_map:
  assumes "distinct (map f ts)" "t \<in> set ts"
  shows "apply_writes (map (\<lambda>t. (f t, g t)) ts) dk (f t) = g t"
  using assms
proof (induction ts arbitrary: dk)
  case (Cons u us)
  show ?case
  proof (cases "t \<in> set us")
    case True
    then show ?thesis using Cons by simp
  next
    case False
    then have "f t \<notin> fst ` set (map (\<lambda>t. (f t, g t)) us)"
      using Cons.prems by (auto simp: image_image)
    then show ?thesis using Cons.prems False by (simp add: apply_writes_other)
  qed
qed simp

lemma disk_writes_simps [simp]:
  "disk_writes [] = []" "disk_writes ((n, d) # ws) = (unat n, d) # disk_writes ws"
  "disk_writes (ws @ ws') = disk_writes ws @ disk_writes ws'" "length (disk_writes ws) = length ws"
  by (simp_all add: disk_writes_def)

lemma bdirty_clear: "(bdirty s)(n := False) = (\<lambda>m. bdirty s m \<and> m \<noteq> n)"
  by (auto simp: fun_eq_iff)

lemma wrote_trans: "wrote ws s s1 \<Longrightarrow> wrote ws' s1 s' \<Longrightarrow> wrote (ws @ ws') s s'"
  by (auto simp: wrote_def apply_writes_append)

lemma wrote_Nil: "bio_ok s \<Longrightarrow> bio_idle s \<Longrightarrow> wrote [] s s"
  by (simp add: wrote_def)

lemma bread_idle:
  assumes ok: "bio_ok s" and idle: "bio_idle s" and spare: "spare_bufs 1 s" and n: "unat n < disksize s"
  shows "\<exists>i s'. bread 1 n s = Ok (i, s') \<and> b_refcnt (bufs s' i) = 1 \<and>
           (\<forall>j<NBUF. j \<noteq> i \<longrightarrow> idle_buf (bufs s' j))"
proof -
  have "\<exists>i<NBUF. buf_unused (bufs s i)"
    using spare_bufs_avoid [of s 0 "{}"] ok spare idle by auto
  moreover have "\<And>i. i < NBUF \<Longrightarrow> slocked (b_lock (bufs s i)) = 0"
    using idle by (auto simp: bio_idle_def idle_buf_def)
  ultimately obtain i s' where r: "bread 1 n s = Ok (i, s')"
    using bread_returns [OF ok n] by blast
  then show ?thesis
    using bread_spec [OF ok r] idle by (auto simp: bio_idle_def idle_buf_def held_buf_def)
qed

text \<open>Writing a held buffer and releasing it.\<close>

lemma write_release:
  assumes ok: "bio_ok s" and h: "held_buf w n s" and d: "length d = BSIZE"
    and n: "unat n < disksize s"
  shows "\<exists>s'. bwrite w (set_data w d s) = Ok s' \<and> bio_ok s' \<and> held_buf w n s' \<and> clean_buf w s' \<and>
          bview s' = (bview s)(n := d) \<and> bdirty s' = (bdirty s)(n := False) \<and>
          dblocks s' = (dblocks s)(unat n := d) \<and> dwrites s' = dwrites s @ [(unat n, d)] \<and>
          disksize s' = disksize s \<and> curpid s' = curpid s \<and> bio.more s' = bio.more s \<and>
          (\<forall>j. j \<noteq> w \<longrightarrow> bufs s' j = bufs s j) \<and> b_refcnt (bufs s' w) = b_refcnt (bufs s w)"
proof -
  note S = set_data_spec [OF ok h d]
  then obtain s' where r: "bwrite w (set_data w d s) = Ok s'"
    using bwrite_returns [of w n "set_data w d s"] n by (auto simp: same_disk_def)
  have "bio_ok (set_data w d s)" "held_buf w n (set_data w d s)" using S by auto
  note W = bwrite_spec [OF this r]
  have "bview (set_data w d s) n = d" using S by simp
  with W S r show ?thesis by (auto simp: same_disk_def set_data_def)
qed

lemma release_one:
  assumes ok: "bio_ok s" and h: "held_buf w n s" "clean_buf w s" "b_refcnt (bufs s w) = 1"
  shows "\<exists>s'. brelse w s = Ok s' \<and> bio_ok s' \<and> bview s' = bview s \<and> bdirty s' = bdirty s \<and>
     same_disk s s' \<and> idle_buf (bufs s' w) \<and> (\<forall>j. j \<noteq> w \<longrightarrow> same_buf (bufs s j) (bufs s' j))"
proof -
  have w: "w < NBUF" using h by (simp add: held_buf_def)
  obtain s' where r: "brelse w s = Ok s'" using brelse_returns [OF h(1)] by blast
  show ?thesis
    using brelse_spec [OF ok w h(2) r] r h(3)
    by (auto simp: idle_buf_def same_buf_iff releasesleep_def)
qed

lemma held_same:
  "same_buf (bufs s i) (bufs s' i) \<Longrightarrow> curpid s' = curpid s \<Longrightarrow> held_buf i n s' = held_buf i n s"
  "same_buf (bufs s i) (bufs s' i) \<Longrightarrow> dblocks s' = dblocks s \<Longrightarrow> clean_buf i s' = clean_buf i s"
  by (simp_all add: held_buf_def clean_buf_def same_buf_iff buf_match_def)

lemma idle_same: "same_buf b b' \<Longrightarrow> idle_buf b' = idle_buf b"
  by (simp add: same_buf_iff idle_buf_def)

lemma same_buf_refl [simp]: "same_buf b b"
  by (simp add: same_buf_iff)

lemma pair_write:
  assumes ok: "bio_ok s" and w: "held_buf w nw s" "b_refcnt (bufs s w) = 1" "unat nw < disksize s"
    and r: "held_buf r nr s" "b_refcnt (bufs s r) = 1" "clean_buf r s" and ne: "nw \<noteq> nr"
    and others: "\<forall>j<NBUF. j \<noteq> w \<and> j \<noteq> r \<longrightarrow> idle_buf (bufs s j)"
  shows "\<exists>s'. kbind (bwrite w (set_data w (b_data (bufs s r)) s)) (\<lambda>s. kbind (brelse r s) (brelse w)) = Ok s' \<and>
              wrote [(nw, bview s nr)] s s' \<and> bio.more s' = bio.more s"
proof -
  have wr: "w \<noteq> r" using w(1) r(1) ne by (auto simp: held_buf_def buf_match_def)
  have rr: "r < NBUF" "buf_match 1 nr (bufs s r)" "b_valid (bufs s r)" using r(1) by (auto simp: held_buf_def)
  let ?d = "b_data (bufs s r)"
  have d: "length ?d = BSIZE" "bview s nr = ?d"
    using bio_okD(2) [OF ok rr(1)] rr bview_cached [OF bio_okD(1) [OF ok] rr] by (auto simp: buf_ok_def)
  obtain s1 where s1: "bwrite w (set_data w ?d s) = Ok s1" "bio_ok s1" "held_buf w nw s1" "clean_buf w s1"
      "bview s1 = (bview s)(nw := ?d)" "bdirty s1 = (bdirty s)(nw := False)"
      "dblocks s1 = (dblocks s)(unat nw := ?d)" "dwrites s1 = dwrites s @ [(unat nw, ?d)]"
      "disksize s1 = disksize s" "curpid s1 = curpid s" "bio.more s1 = bio.more s"
      "\<And>j. j \<noteq> w \<Longrightarrow> bufs s1 j = bufs s j" "b_refcnt (bufs s1 w) = b_refcnt (bufs s w)"
    using write_release [OF ok w(1) d(1) w(3)] by blast
  have r1: "held_buf r nr s1" "b_refcnt (bufs s1 r) = 1" "clean_buf r s1"
    using r s1 wr rr ne by (auto simp: held_buf_def clean_buf_def buf_match_def word_unat_eq_iff)
  obtain s2 where s2: "brelse r s1 = Ok s2" "bio_ok s2" "bview s2 = bview s1" "bdirty s2 = bdirty s1"
      "same_disk s1 s2" "idle_buf (bufs s2 r)" "\<And>j. j \<noteq> r \<Longrightarrow> same_buf (bufs s1 j) (bufs s2 j)"
    using release_one [OF s1(2) r1(1,3,2)] by blast
  have w2: "held_buf w nw s2" "clean_buf w s2" "b_refcnt (bufs s2 w) = 1"
    using s1(3,4,13) s2(5) s2(7) [OF wr] w(2) held_same [of s1 w s2]
    by (auto simp: same_disk_def same_buf_iff)
  obtain s3 where s3: "brelse w s2 = Ok s3" "bio_ok s3" "bview s3 = bview s2" "bdirty s3 = bdirty s2"
      "same_disk s2 s3" "idle_buf (bufs s3 w)" "\<And>j. j \<noteq> w \<Longrightarrow> same_buf (bufs s2 j) (bufs s3 j)"
    using release_one [OF s2(2) w2] by blast
  have "idle_buf (bufs s3 j)" if "j < NBUF" for j
    using that others s3(6) s2(6) idle_same [OF s3(7), of j] idle_same [OF s2(7), of j] s1(12) [of j]
    by (cases "j = w"; cases "j = r") auto
  then have "wrote [(nw, bview s nr)] s s3 \<and> bio.more s3 = bio.more s"
    unfolding wrote_def bio_idle_def using s1 s2(3-5) s3(2-5) d by (auto simp: same_disk_def bdirty_clear)
  then show ?thesis using s1(1) s2(1) s3(1) by auto
qed

lemma put_one:
  assumes ok: "bio_ok s" "bio_idle s" "spare_bufs 1 s" and n: "unat n < disksize s"
    and f: "\<And>d. length d = BSIZE \<Longrightarrow> length (f d) = BSIZE"
  shows "\<exists>b s1 s'. bread 1 n s = Ok (b, s1) \<and> bio.more s1 = bio.more s \<and>
     kbind (bwrite b (set_data b (f (b_data (bufs s1 b))) s1)) (\<lambda>s. brelse b s) = Ok s' \<and>
     wrote [(n, f (bview s n))] s s' \<and> bio.more s' = bio.more s"
proof -
  obtain b s1 where b: "bread 1 n s = Ok (b, s1)" "b_refcnt (bufs s1 b) = 1"
    "\<forall>j<NBUF. j \<noteq> b \<longrightarrow> idle_buf (bufs s1 j)"
    using bread_idle [OF ok n] by blast
  note R = bread_spec [OF ok(1) b(1)]
  let ?d = "f (b_data (bufs s1 b))"
  have len: "length (b_data (bufs s1 b)) = BSIZE"
    using bio_okD(2) [of s1 b] R by (auto simp: held_buf_def buf_ok_def)
  obtain s2 where s2: "bwrite b (set_data b ?d s1) = Ok s2" "bio_ok s2" "held_buf b n s2" "clean_buf b s2"
      "bview s2 = (bview s1)(n := ?d)" "bdirty s2 = (bdirty s1)(n := False)"
      "dblocks s2 = (dblocks s1)(unat n := ?d)" "dwrites s2 = dwrites s1 @ [(unat n, ?d)]"
      "disksize s2 = disksize s1" "curpid s2 = curpid s1" "bio.more s2 = bio.more s1"
      "\<And>j. j \<noteq> b \<Longrightarrow> bufs s2 j = bufs s1 j" "b_refcnt (bufs s2 b) = 1"
    using write_release [of s1 b n ?d] R n f [OF len] b(2) by (auto simp: same_disk_def)
  obtain s3 where s3: "brelse b s2 = Ok s3" "bio_ok s3" "bview s3 = bview s2" "bdirty s3 = bdirty s2"
      "same_disk s2 s3" "idle_buf (bufs s3 b)" "\<And>j. j \<noteq> b \<Longrightarrow> same_buf (bufs s2 j) (bufs s3 j)"
    using release_one [OF s2(2-4,13)] by blast
  have "idle_buf (bufs s3 j)" if "j < NBUF" for j
    using that b(3) s3(6) idle_same [OF s3(7), of j] s2(12) [of j] by (cases "j = b") auto
  then have "wrote [(n, f (bview s n))] s s3 \<and> bio.more s3 = bio.more s"
    unfolding wrote_def bio_idle_def using s2 s3(2-5) R by (auto simp: same_disk_def bdirty_clear)
  then show ?thesis using b(1) R s2(1) s3(1) by (auto simp: same_disk_def)
qed

lemma bread_pair:
  assumes ok: "bio_ok s" "bio_idle s" and spare: "spare_bufs 1 s" "bdirty s n2 \<or> spare_bufs 2 s"
    and n: "n1 \<noteq> n2" "unat n1 < disksize s" "unat n2 < disksize s"
  shows "\<exists>i1 s1 i2 s2. bread 1 n1 s = Ok (i1, s1) \<and> bio.more s1 = bio.more s \<and> bread 1 n2 s1 = Ok (i2, s2) \<and>
     bio_ok s2 \<and> held_buf i1 n1 s2 \<and> held_buf i2 n2 s2 \<and> clean_buf i1 s2 \<and> clean_buf i2 s2 \<and>
     b_refcnt (bufs s2 i1) = 1 \<and> b_refcnt (bufs s2 i2) = 1 \<and>
     (\<forall>j<NBUF. j \<noteq> i1 \<and> j \<noteq> i2 \<longrightarrow> idle_buf (bufs s2 j)) \<and>
     bview s2 = bview s \<and> bdirty s2 = bdirty s \<and> same_disk s s2"
proof -
  obtain i1 s1 where b1: "bread 1 n1 s = Ok (i1, s1)" "b_refcnt (bufs s1 i1) = 1"
    "\<forall>j<NBUF. j \<noteq> i1 \<longrightarrow> idle_buf (bufs s1 j)"
    using bread_idle [OF ok spare(1) n(2)] by blast
  note R1 = bread_spec [OF ok(1) b1(1)]
  have room: "\<exists>i<NBUF. buf_match 1 n2 (bufs s1 i) \<or> buf_unused (bufs s1 i)"
  proof (cases "bdirty s n2")
    case True
    then have "bdirty s1 n2" using R1 by simp
    then show ?thesis by (auto simp: bdirty_def)
  next
    case False
    then obtain j where "j < NBUF" "buf_unused (bufs s j)" "j \<noteq> i1"
      using spare_bufs_avoid [of s 1 "{i1}"] ok spare(2) by (auto simp: numeral_2_eq_2)
    then show ?thesis using R1 by auto
  qed
  have "slocked (b_lock (bufs s1 j)) = 0" if "j < NBUF" "buf_match 1 n2 (bufs s1 j)" for j
    using that b1(3) R1 n(1) by (cases "j = i1") (auto simp: held_buf_def buf_match_def idle_buf_def)
  then obtain i2 s2 where b2: "bread 1 n2 s1 = Ok (i2, s2)"
    using bread_returns [of s1 n2] R1 room n(3) by (auto simp: same_disk_def)
  note R2 = bread_spec [OF conjunct1 [OF R1] b2]
  have ne: "i2 \<noteq> i1" using R1 R2 by (auto simp: held_buf_def holdingsleep_def)
  have i2: "i2 < NBUF" using R2 by (simp add: held_buf_def)
  then have "b_refcnt (bufs s2 i2) = 1" using R2 b1(3) ne by (auto simp: idle_buf_def)
  moreover have "bufs s2 i1 = bufs s1 i1" using R2 ne by auto
  then have "held_buf i1 n1 s2" "clean_buf i1 s2" "b_refcnt (bufs s2 i1) = 1"
    using R1 R2 b1(2) held_same [of s1 i1 s2] by (auto simp: same_disk_def)
  moreover have "idle_buf (bufs s2 j)" if "j < NBUF" "j \<noteq> i1" "j \<noteq> i2" for j
    using that b1(3) R2 by simp
  moreover have "bio.more s1 = bio.more s" "same_disk s s2" "bview s2 = bview s" "bdirty s2 = bdirty s"
    "bio_ok s2" "held_buf i2 n2 s2" "clean_buf i2 s2"
    using R1 R2 by (simp_all add: same_disk_def)
  ultimately show ?thesis
    using b1(1) b2 by blast
qed

section \<open>The parts of a commit\<close>

lemma log_frame:
  assumes "bio.more s' = bio.more (s :: 'a log_st_scheme)"
  shows "l_start s' = l_start s" "l_size s' = l_size s" "l_outstanding s' = l_outstanding s"
    "l_committing s' = l_committing s" "l_dev s' = l_dev s" "lh_n s' = lh_n s" "lh_block s' = lh_block s"
    "log_st.more s' = log_st.more s"
  using assms by (cases s; cases s'; simp)+

lemma log_upd_bio [simp]:
  "bio_ok (s\<lparr>lh_n := x\<rparr>) = bio_ok s" "bio_idle (s\<lparr>lh_n := x\<rparr>) = bio_idle s"
  "bview (s\<lparr>lh_n := x\<rparr>) = bview s" "bdirty (s\<lparr>lh_n := x\<rparr>) = bdirty s"
  "spare_bufs k (s\<lparr>lh_n := x\<rparr>) = spare_bufs k s"
  "bio_ok (s\<lparr>lh_block := y\<rparr>) = bio_ok s" "bio_idle (s\<lparr>lh_block := y\<rparr>) = bio_idle s"
  "bview (s\<lparr>lh_block := y\<rparr>) = bview s" "bdirty (s\<lparr>lh_block := y\<rparr>) = bdirty s"
  "held_buf i n (s\<lparr>lh_n := x\<rparr>) = held_buf i n s" "held_buf i n (s\<lparr>lh_block := y\<rparr>) = held_buf i n s"
  "clean_buf i (s\<lparr>lh_n := x\<rparr>) = clean_buf i s" "clean_buf i (s\<lparr>lh_block := y\<rparr>) = clean_buf i s"
  by (simp_all add: bio_ok_def bio_idle_def bview_def bdirty_def spare_bufs_def held_buf_def clean_buf_def
      fun_eq_iff cong: option.case_cong)

lemma unat_log_blk:
  assumes "log_geom s" "int tail < l_size s - 1"
  shows "unat (log_blk s tail) = unat (l_start s) + tail + 1"
proof -
  have "unat (l_start s) + tail + 1 < 2 ^ 32"
    using assms by (auto simp: log_geom_def)
  then have "unat (of_nat (unat (l_start s) + tail + 1) :: u32) = unat (l_start s) + tail + 1"
    by (simp add: unat_of_nat del: of_nat_add of_nat_Suc)
  then show ?thesis by (simp add: log_blk_def ac_simps)
qed

lemma log_blk_ne_start: "log_geom s \<Longrightarrow> int tail < l_size s - 1 \<Longrightarrow> log_blk s tail \<noteq> l_start s"
  using unat_log_blk [of s tail] by auto

lemma home_blk_ne:
  assumes "log_geom s" "home_blk s n"
  shows "int tail < l_size s - 1 \<Longrightarrow> log_blk s tail \<noteq> n" "n \<noteq> l_start s"
    "int tail < l_size s - 1 \<Longrightarrow> log_blk s tail \<noteq> l_start s"
    "int tail < l_size s - 1 \<Longrightarrow> unat (log_blk s tail) < disksize s" "unat (l_start s) < disksize s"
  using assms unat_log_blk [OF assms(1), of tail]
  by (auto simp: home_blk_def log_area_def log_geom_def)

lemma log_geom_frame:
  assumes "bio.more s' = bio.more s" "disksize s' = disksize s"
  shows "log_geom s' = log_geom s" "log_blk s' = log_blk s" "home_blk s' = home_blk s"
  using assms log_frame [OF assms(1)] by (auto simp: log_geom_def log_blk_def home_blk_def fun_eq_iff)

lemma write_log_one_ok:
  assumes ok: "bio_ok s" "bio_idle s" "spare_bufs 1 s" and g: "log_geom s"
    and t: "tail < LOGSIZE" "int tail < l_size s - 1"
    and b: "home_blk s (lh_block s ! tail)" "bdirty s (lh_block s ! tail)"
  shows "\<exists>s'. write_log_one tail s = Ok s' \<and> bio.more s' = bio.more s \<and>
     wrote [(log_blk s tail, bview s (lh_block s ! tail))] s s'"
proof -
  let ?n1 = "log_blk s tail" and ?n2 = "lh_block s ! tail"
  note ne = home_blk_ne [OF g b(1)]
  have n2: "unat ?n2 < disksize s" using b(1) by (simp add: home_blk_def)
  obtain i1 s1 i2 s2 where p: "bread 1 ?n1 s = Ok (i1, s1)" "bio.more s1 = bio.more s"
      "bread 1 ?n2 s1 = Ok (i2, s2)" "bio_ok s2" "held_buf i1 ?n1 s2" "held_buf i2 ?n2 s2"
      "clean_buf i1 s2" "clean_buf i2 s2" "b_refcnt (bufs s2 i1) = 1" "b_refcnt (bufs s2 i2) = 1"
      "\<forall>j<NBUF. j \<noteq> i1 \<and> j \<noteq> i2 \<longrightarrow> idle_buf (bufs s2 j)"
      "bview s2 = bview s" "bdirty s2 = bdirty s" "same_disk s s2"
    using bread_pair [OF ok(1,2,3) disjI1 [OF b(2)] ne(1) [OF t(2)] ne(4) [OF t(2)] n2] by blast
  obtain s' where w: "kbind (bwrite i1 (set_data i1 (b_data (bufs s2 i2)) s2)) (\<lambda>s. kbind (brelse i2 s) (brelse i1)) = Ok s'"
      "wrote [(?n1, bview s2 ?n2)] s2 s'" "bio.more s' = bio.more s2"
    using pair_write [of s2 i1 ?n1 i2 ?n2] p ne(1,4) [OF t(2)] by (auto simp: same_disk_def)
  have "write_log_one tail s = Ok s'"
    using p(1-3) w(1) g t(1) log_frame [OF p(2)]
    by (simp add: write_log_one_def log_geom_def log_blk_def)
  moreover have "wrote [(?n1, bview s ?n2)] s s'"
    using w(2) p(12-14) by (simp add: wrote_def same_disk_def)
  ultimately show ?thesis using w(3) p(14) by (auto simp: same_disk_def)
qed

lemma install_one_ok:
  assumes ok: "bio_ok s" "bio_idle s" "spare_bufs 1 s" and g: "log_geom s"
    and t: "tail < LOGSIZE" "int tail < l_size s - 1"
    and b: "home_blk s (lh_block s ! tail)" "bdirty s (lh_block s ! tail) \<or> spare_bufs 2 s"
  shows "\<exists>s'. install_one tail s = Ok s' \<and> bio.more s' = bio.more s \<and>
     wrote [(lh_block s ! tail, bview s (log_blk s tail))] s s'"
proof -
  let ?n1 = "log_blk s tail" and ?n2 = "lh_block s ! tail"
  note ne = home_blk_ne [OF g b(1)]
  have n2: "unat ?n2 < disksize s" using b(1) by (simp add: home_blk_def)
  obtain i1 s1 i2 s2 where p: "bread 1 ?n1 s = Ok (i1, s1)" "bio.more s1 = bio.more s"
      "bread 1 ?n2 s1 = Ok (i2, s2)" "bio_ok s2" "held_buf i1 ?n1 s2" "held_buf i2 ?n2 s2"
      "clean_buf i1 s2" "clean_buf i2 s2" "b_refcnt (bufs s2 i1) = 1" "b_refcnt (bufs s2 i2) = 1"
      "\<forall>j<NBUF. j \<noteq> i1 \<and> j \<noteq> i2 \<longrightarrow> idle_buf (bufs s2 j)"
      "bview s2 = bview s" "bdirty s2 = bdirty s" "same_disk s s2"
    using bread_pair [OF ok(1,2,3) b(2) ne(1) [OF t(2)] ne(4) [OF t(2)] n2] by blast
  obtain s' where w: "kbind (bwrite i2 (set_data i2 (b_data (bufs s2 i1)) s2)) (\<lambda>s. kbind (brelse i1 s) (brelse i2)) = Ok s'"
      "wrote [(?n2, bview s2 ?n1)] s2 s'" "bio.more s' = bio.more s2"
    using pair_write [of s2 i2 ?n2 i1 ?n1] p ne(1) [OF t(2)] n2 by (auto simp: same_disk_def)
  have "install_one tail s = Ok s'"
    using p(1-3) w(1) g t(1) log_frame [OF p(2)]
    by (simp add: install_one_def log_geom_def log_blk_def)
  moreover have "wrote [(?n2, bview s ?n1)] s s'"
    using w(2) p(12-14) by (simp add: wrote_def same_disk_def)
  ultimately show ?thesis using w(3) p(14) by (auto simp: same_disk_def)
qed

lemma wrote_view_other: "wrote ws s s' \<Longrightarrow> n \<notin> fst ` set ws \<Longrightarrow> bview s' n = bview s n"
  by (simp add: wrote_def apply_writes_other)

lemma in_log_frame:
  "bio.more s' = bio.more s \<Longrightarrow> disksize s' = disksize s \<Longrightarrow> in_log s' ts = in_log s ts"
  using log_frame [of s' s] log_geom_frame [of s' s] by (simp add: in_log_def)

lemma write_log_ok:
  assumes "bio_ok s" "bio_idle s" "spare_bufs 1 s" "log_geom s" "in_log s ts"
    and "\<forall>t\<in>set ts. bdirty s (lh_block s ! t)"
  shows "\<exists>s'. kfold write_log_one ts s = Ok s' \<and> bio.more s' = bio.more s \<and>
     wrote (map (\<lambda>t. (log_blk s t, bview s (lh_block s ! t))) ts) s s'"
  using assms
proof (induction ts arbitrary: s)
  case Nil
  then show ?case by (simp add: wrote_Nil)
next
  case (Cons t ts)
  have t: "t < LOGSIZE" "int t < l_size s - 1" "home_blk s (lh_block s ! t)" "bdirty s (lh_block s ! t)"
    using Cons.prems(5,6) by (auto simp: in_log_def)
  obtain s1 where s1: "write_log_one t s = Ok s1" "bio.more s1 = bio.more s"
    "wrote [(log_blk s t, bview s (lh_block s ! t))] s s1"
    using write_log_one_ok [OF Cons.prems(1-4) t] by blast
  note fr = log_frame [OF s1(2)]
  have ds: "disksize s1 = disksize s" using s1(3) by (simp add: wrote_def)
  note gf = log_geom_frame [OF s1(2) ds]
  have home: "log_blk s t \<noteq> lh_block s ! u" if "u \<in> set ts" for u
    using home_blk_ne(1) [OF Cons.prems(4)] that t(2) Cons.prems(5) by (auto simp: in_log_def)
  have "\<forall>u\<in>set ts. bdirty s1 (lh_block s1 ! u)"
    using Cons.prems(6) home s1(3) fr by (force simp: wrote_def)
  then obtain s' where s': "kfold write_log_one ts s1 = Ok s'" "bio.more s' = bio.more s1"
    "wrote (map (\<lambda>t. (log_blk s1 t, bview s1 (lh_block s1 ! t))) ts) s1 s'"
    using Cons.IH [of s1] Cons.prems(3,4,5) s1(3) gf in_log_frame [OF s1(2) ds] wrote_spare [OF s1(3)]
    by (auto simp: in_log_def wrote_def)
  have eq: "map (\<lambda>t. (log_blk s1 t, bview s1 (lh_block s1 ! t))) ts = map (\<lambda>t. (log_blk s t, bview s (lh_block s ! t))) ts"
    using gf fr home wrote_view_other [OF s1(3)] by (auto simp: eq_commute [of _ "log_blk s t"])
  show ?case
    using s1(1,2) s'(1,2) wrote_trans [OF s1(3) s'(3) [unfolded eq]] by simp
qed

lemma install_ok:
  assumes "bio_ok s" "bio_idle s" "spare_bufs 1 s" "log_geom s" "in_log s ts"
    and "distinct (map (\<lambda>t. lh_block s ! t) ts)"
    and "(\<forall>t\<in>set ts. bdirty s (lh_block s ! t)) \<or> spare_bufs 2 s"
  shows "\<exists>s'. kfold install_one ts s = Ok s' \<and> bio.more s' = bio.more s \<and>
     wrote (map (\<lambda>t. (lh_block s ! t, bview s (log_blk s t))) ts) s s'"
  using assms
proof (induction ts arbitrary: s)
  case Nil
  then show ?case by (simp add: wrote_Nil)
next
  case (Cons t ts)
  have t: "t < LOGSIZE" "int t < l_size s - 1" "home_blk s (lh_block s ! t)"
      "bdirty s (lh_block s ! t) \<or> spare_bufs 2 s"
    using Cons.prems(5,7) by (auto simp: in_log_def)
  obtain s1 where s1: "install_one t s = Ok s1" "bio.more s1 = bio.more s"
    "wrote [(lh_block s ! t, bview s (log_blk s t))] s s1"
    using install_one_ok [OF Cons.prems(1-4) t] by blast
  note fr = log_frame [OF s1(2)]
  have ds: "disksize s1 = disksize s" using s1(3) by (simp add: wrote_def)
  note gf = log_geom_frame [OF s1(2) ds]
  have home: "log_blk s u \<noteq> lh_block s ! t" if "u \<in> set ts" for u
    using home_blk_ne(1) [OF Cons.prems(4) t(3)] that Cons.prems(5) by (auto simp: in_log_def)
  have "lh_block s ! u \<noteq> lh_block s ! t" if "u \<in> set ts" for u
    using Cons.prems(6) imageI [OF that, of "(!) (lh_block s)"] by auto
  then have "(\<forall>u\<in>set ts. bdirty s1 (lh_block s1 ! u)) \<or> spare_bufs 2 s1"
    using Cons.prems(7) s1(3) fr(7) wrote_spare [OF s1(3), of 2] by (auto simp: wrote_def)
  then obtain s' where s': "kfold install_one ts s1 = Ok s'" "bio.more s' = bio.more s1"
    "wrote (map (\<lambda>t. (lh_block s1 ! t, bview s1 (log_blk s1 t))) ts) s1 s'"
    using Cons.IH [of s1] Cons.prems(3,4,5,6) s1(3) gf fr in_log_frame [OF s1(2) ds] wrote_spare [OF s1(3)]
    by (auto simp: in_log_def wrote_def)
  have eq: "map (\<lambda>t. (lh_block s1 ! t, bview s1 (log_blk s1 t))) ts = map (\<lambda>t. (lh_block s ! t, bview s (log_blk s t))) ts"
    using gf fr home wrote_view_other [OF s1(3)] by auto
  show ?case
    using s1(1,2) s'(1,2) wrote_trans [OF s1(3) s'(3) [unfolded eq]] by simp
qed

lemma head_block_props:
  assumes "length d = BSIZE" "n \<le> LOGSIZE"
  shows "length (head_block (int n) bl d) = BSIZE \<and> get32 0 (head_block (int n) bl d) = of_nat n \<and>
         (\<forall>i<n. get32 (4 + 4 * i) (head_block (int n) bl d) = bl ! i)"
proof -
  have "length (fold (\<lambda>i d. put32 (4 + 4 * i) (bl ! i) d) [0..<k] e) = BSIZE \<and>
        get32 0 (fold (\<lambda>i d. put32 (4 + 4 * i) (bl ! i) d) [0..<k] e) = get32 0 e \<and>
        (\<forall>i<k. get32 (4 + 4 * i) (fold (\<lambda>i d. put32 (4 + 4 * i) (bl ! i) d) [0..<k] e) = bl ! i)"
    if "k \<le> LOGSIZE" "length e = BSIZE" for k e
    using that
  proof (induction k)
    case (Suc k)
    then show ?case by (auto simp: get32_put32_other less_Suc_eq)
  qed simp
  from this [OF assms(2), of "put32 0 (of_nat n) d"] show ?thesis
    using assms by (simp add: head_block_def)
qed

lemma write_head_ok:
  assumes "bio_ok s" "bio_idle s" "spare_bufs 1 s" "log_geom s" "0 \<le> lh_n s" "lh_n s \<le> int LOGSIZE"
  shows "\<exists>s'. write_head s = Ok s' \<and> bio.more s' = bio.more s \<and>
     wrote [(l_start s, head_block (lh_n s) (lh_block s) (bview s (l_start s)))] s s'"
proof -
  have n: "unat (l_start s) < disksize s" using assms(4) by (auto simp: log_geom_def)
  have len: "length (head_block (lh_n s) (lh_block s) d) = BSIZE" if "length d = BSIZE" for d
    using head_block_props [OF that, of "nat (lh_n s)" "lh_block s"] assms(5,6) by simp
  obtain b s1 s' where r: "bread 1 (l_start s) s = Ok (b, s1)" "bio.more s1 = bio.more s"
      "kbind (bwrite b (set_data b (head_block (lh_n s) (lh_block s) (b_data (bufs s1 b))) s1)) (brelse b) = Ok s'"
      "wrote [(l_start s, head_block (lh_n s) (lh_block s) (bview s (l_start s)))] s s'" "bio.more s' = bio.more s"
    using put_one [OF assms(1-3) n, of "head_block (lh_n s) (lh_block s)"] len by blast
  then have "write_head s = Ok s'"
    using assms(4,6) log_frame [OF r(2)] by (auto simp: write_head_def log_geom_def)
  with r show ?thesis by blast
qed

lemma log_ready_facts:
  assumes "log_ready s"
  defines "n \<equiv> nat (lh_n s)"
  shows "in_log s [0..<n]" "distinct (map (\<lambda>t. lh_block s ! t) [0..<n])" "spare_bufs 1 s"
    "\<forall>t\<in>set [0..<n]. bdirty s (lh_block s ! t)" "distinct (map (log_blk s) [0..<n])"
    "logged s = map (\<lambda>t. lh_block s ! t) [0..<n]" "n < LOGSIZE" "int n \<le> l_size s - 1"
proof -
  have n: "n < LOGSIZE" "n \<le> length (lh_block s)" "int n \<le> l_size s - 1"
    using assms by (auto simp: log_ready_def)
  show bl: "logged s = map (\<lambda>t. lh_block s ! t) [0..<n]"
    using n by (intro nth_equalityI) (auto simp: logged_def n_def [symmetric])
  show "n < LOGSIZE" "int n \<le> l_size s - 1" by (rule n)+
  show d: "distinct (map (\<lambda>t. lh_block s ! t) [0..<n])"
    using assms(1) bl by (auto simp: log_ready_def)
  show "in_log s [0..<n]" "\<forall>t\<in>set [0..<n]. bdirty s (lh_block s ! t)"
    using assms(1) n unfolding log_ready_def bl by (auto simp: in_log_def)
  have "{m. bdirty s m} = set (logged s)" using assms(1) by (auto simp: log_ready_def)
  then have "card {m. bdirty s m} = n" using d bl distinct_card [of "logged s"] by simp
  then show "spare_bufs 1 s" using n by (simp add: spare_bufs_def)
  have g: "log_geom s" using assms(1) by (simp add: log_ready_def)
  have "inj_on (log_blk s) {0..<n}"
    using unat_log_blk [OF g] n(3) by (intro inj_onI) (smt (verit) atLeastLessThan_iff add_right_cancel
        add_left_cancel nat_less_iff of_nat_less_iff zless_nat_eq_int_zless)
  then show "distinct (map (log_blk s) [0..<n])" by (simp add: distinct_map)
qed

lemma commit_ok:
  assumes rd: "log_ready s"
  shows "\<exists>s'. commit s = Ok s' \<and> bio.more s' = bio.more (s\<lparr>lh_n := 0\<rparr>) \<and> wrote (commit_writes s) s s'"
proof -
  define n where "n = nat (lh_n s)"
  define h where "h = head_block (lh_n s) (lh_block s) (bview s (l_start s))"
  note F = log_ready_facts [OF rd, folded n_def]
  have ok: "bio_ok s" "bio_idle s" "log_geom s" "0 < lh_n s" "lh_n s = int n"
    using rd by (auto simp: log_ready_def n_def)
  let ?w1 = "map (\<lambda>t. (log_blk s t, bview s (lh_block s ! t))) [0..<n]"
  obtain s1 where s1: "write_log s = Ok s1" "bio.more s1 = bio.more s" "wrote ?w1 s s1"
    using write_log_ok [OF ok(1,2) F(3) ok(3) F(1,4)] by (auto simp: write_log_def n_def)
  note f1 = log_frame [OF s1(2)]
  have d1: "disksize s1 = disksize s" using s1(3) by (simp add: wrote_def)
  note g1 = log_geom_frame [OF s1(2) d1]
  have start: "l_start s \<notin> fst ` set ?w1"
    using log_blk_ne_start [OF ok(3)] F(8) by force
  have v1: "bview s1 (l_start s) = bview s (l_start s)" by (rule wrote_view_other [OF s1(3) start])
  have "\<exists>s2. write_head s1 = Ok s2 \<and> bio.more s2 = bio.more s1 \<and>
     wrote [(l_start s1, head_block (lh_n s1) (lh_block s1) (bview s1 (l_start s1)))] s1 s2"
    using s1(3) wrote_spare [OF s1(3) F(3)] g1 ok F(7) f1 by (intro write_head_ok) (auto simp: wrote_def)
  then obtain s2 where s2: "write_head s1 = Ok s2" "bio.more s2 = bio.more s" "wrote [(l_start s, h)] s1 s2"
    using f1 v1 s1(2) by (auto simp: h_def)
  note f2 = log_frame [OF s2(2)]
  have d2: "disksize s2 = disksize s" using s2(3) d1 by (simp add: wrote_def)
  note g2 = log_geom_frame [OF s2(2) d2]
  have v2: "bview s2 (log_blk s t) = bview s (lh_block s ! t)" if "t \<in> set [0..<n]" for t
  proof -
    have "log_blk s t \<noteq> l_start s" using start that by force
    then have "bview s2 (log_blk s t) = bview s1 (log_blk s t)"
      by (intro wrote_view_other [OF s2(3)]) auto
    also have "\<dots> = bview s (lh_block s ! t)"
      using apply_writes_map [OF F(5) that] s1(3) by (simp add: wrote_def)
    finally show ?thesis .
  qed
  have dirty2: "bdirty s2 (lh_block s ! t)" if "t \<in> set [0..<n]" for t
  proof -
    have hb: "home_blk s (lh_block s ! t)" using F(1) that by (auto simp: in_log_def)
    then have "lh_block s ! t \<notin> fst ` set ?w1"
      using home_blk_ne(1) [OF ok(3) hb] F(8) by force
    then show ?thesis
      using that F(4) s1(3) s2(3) home_blk_ne(2) [OF ok(3) hb] by (auto simp: wrote_def)
  qed
  have inst: "\<exists>s3. kfold install_one [0..<n] s2 = Ok s3 \<and> bio.more s3 = bio.more s2 \<and>
     wrote (map (\<lambda>t. (lh_block s2 ! t, bview s2 (log_blk s2 t))) [0..<n]) s2 s3"
    using s2(3) wrote_spare [OF s2(3) wrote_spare [OF s1(3) F(3)]] g2 ok F(1,2) dirty2 f2(7)
      in_log_frame [OF s2(2) d2]
    by (intro install_ok) (auto simp: wrote_def)
  have eq: "map (\<lambda>t. (lh_block s2 ! t, bview s2 (log_blk s2 t))) [0..<n] =
      map (\<lambda>i. (lh_block s ! i, bview s (lh_block s ! i))) [0..<n]" (is "_ = ?w3")
    using v2 f2 g2 by simp
  obtain s3 where s3: "install_trans s2 = Ok s3" "bio.more s3 = bio.more s" "wrote ?w3 s2 s3"
    using inst [unfolded eq] f2(6) s2(2) by (auto simp: install_trans_def n_def)
  note f3 = log_frame [OF s3(2)]
  have d3: "disksize s3 = disksize s" using s3(3) d2 by (simp add: wrote_def)
  note g3 = log_geom_frame [OF s3(2) d3]
  have "lh_block s ! t \<noteq> l_start s" if "t \<in> set [0..<n]" for t
    using F(1) that home_blk_ne(2) [OF ok(3), of "lh_block s ! t"] by (auto simp: in_log_def)
  then have "l_start s \<notin> fst ` set ?w3" by force
  then have v3: "bview s3 (l_start s) = h"
    using wrote_view_other [OF s3(3)] s2(3) by (simp add: wrote_def)
  have "\<exists>s4. write_head (s3\<lparr>lh_n := 0\<rparr>) = Ok s4 \<and> bio.more s4 = bio.more (s3\<lparr>lh_n := 0\<rparr>) \<and>
     wrote [(l_start (s3\<lparr>lh_n := 0\<rparr>), head_block (lh_n (s3\<lparr>lh_n := 0\<rparr>)) (lh_block (s3\<lparr>lh_n := 0\<rparr>))
        (bview (s3\<lparr>lh_n := 0\<rparr>) (l_start (s3\<lparr>lh_n := 0\<rparr>))))] (s3\<lparr>lh_n := 0\<rparr>) s4"
    using s3(3) wrote_spare [OF s3(3) wrote_spare [OF s2(3) wrote_spare [OF s1(3) F(3)]]] g3 ok
    by (intro write_head_ok) (auto simp: wrote_def log_geom_def)
  then obtain s4 where s4: "write_head (s3\<lparr>lh_n := 0\<rparr>) = Ok s4" "bio.more s4 = bio.more (s3\<lparr>lh_n := 0\<rparr>)"
      "wrote [(l_start s, head_block 0 (lh_block s) h)] s3 s4"
    using f3 v3 by (auto simp: wrote_def)
  have "bio.more (s3\<lparr>lh_n := 0\<rparr>) = bio.more (s\<lparr>lh_n := 0\<rparr>)"
    using s3(2) by (cases s; cases s3) simp
  moreover have "wrote (commit_writes s) s s4"
    using wrote_trans [OF s1(3) wrote_trans [OF s2(3) wrote_trans [OF s3(3) s4(3)]]]
    by (simp add: commit_writes_def Let_def n_def h_def)
  ultimately show ?thesis
    using s1(1) s2(1) s3(1) s4(1,2) ok(4) by (auto simp: commit_def)
qed

section \<open>Recovery\<close>

lemma l_upd_bio [simp]:
  "bio_ok (s\<lparr>l_start := a, l_size := b, l_dev := c\<rparr>) = bio_ok s"
  "bio_idle (s\<lparr>l_start := a, l_size := b, l_dev := c\<rparr>) = bio_idle s"
  "bview (s\<lparr>l_start := a, l_size := b, l_dev := c\<rparr>) = bview s"
  "bdirty (s\<lparr>l_start := a, l_size := b, l_dev := c\<rparr>) = bdirty s"
  by (simp_all add: bio_ok_def bio_idle_def bview_def bdirty_def fun_eq_iff cong: option.case_cong)

lemma read_one:
  assumes "bio_ok s" "bio_idle s" "spare_bufs 1 s" "unat n < disksize s"
  shows "\<exists>b s1. bread 1 n s = Ok (b, s1) \<and> bio_ok s1 \<and> held_buf b n s1 \<and> clean_buf b s1 \<and>
     b_refcnt (bufs s1 b) = 1 \<and> (\<forall>j<NBUF. j \<noteq> b \<longrightarrow> idle_buf (bufs s1 j)) \<and>
     b_data (bufs s1 b) = bview s n \<and> bview s1 = bview s \<and> bdirty s1 = bdirty s \<and> same_disk s s1"
  using bread_idle [OF assms] bread_spec [OF assms(1)] by blast

lemma release_idle:
  assumes "bio_ok s" "held_buf b n s" "clean_buf b s" "b_refcnt (bufs s b) = 1"
    and "\<forall>j<NBUF. j \<noteq> b \<longrightarrow> idle_buf (bufs s j)"
  shows "\<exists>s'. brelse b s = Ok s' \<and> wrote [] s s' \<and> bio.more s' = bio.more s"
proof -
  obtain s' where s': "brelse b s = Ok s'" "bio_ok s'" "bview s' = bview s" "bdirty s' = bdirty s"
      "same_disk s s'" "idle_buf (bufs s' b)" "\<And>j. j \<noteq> b \<Longrightarrow> same_buf (bufs s j) (bufs s' j)"
    using release_one [OF assms(1-4)] by blast
  have "idle_buf (bufs s' j)" if "j < NBUF" for j
    using that assms(5) s'(6) idle_same [OF s'(7), of j] by (cases "j = b") auto
  then show ?thesis using s'(1-5) by (auto simp: wrote_def bio_idle_def same_disk_def)
qed

lemma readsb_ok:
  assumes "bio_ok s" "bio_idle s" "spare_bufs 1 s" "1 < disksize s"
  shows "\<exists>s'. readsb 1 s = Ok (decode_sb (bview s 1), s') \<and> wrote [] s s' \<and> bio.more s' = bio.more s"
proof -
  have "unat (1 :: u32) < disksize s" using assms(4) by simp
  from read_one [OF assms(1-3) this]
  obtain b s1 where r: "bread 1 1 s = Ok (b, s1)" "bio_ok s1" "held_buf b 1 s1" "clean_buf b s1"
     "b_refcnt (bufs s1 b) = 1" "\<forall>j<NBUF. j \<noteq> b \<longrightarrow> idle_buf (bufs s1 j)"
     "b_data (bufs s1 b) = bview s 1" "bview s1 = bview s" "bdirty s1 = bdirty s" "same_disk s s1"
    by blast
  then obtain s' where "brelse b s1 = Ok s'" "wrote [] s1 s'" "bio.more s' = bio.more s1"
    using release_idle by blast
  then show ?thesis
    using r by (auto simp: readsb_def wrote_def same_disk_def)
qed

lemma fold_list_update:
  "n \<le> length bl \<Longrightarrow> fold (\<lambda>i bl. bl[i := f i]) [0..<n] bl = map f [0..<n] @ drop n bl"
proof (induction n)
  case (Suc n)
  then show ?case
    by (simp add: list_update_append Cons_nth_drop_Suc [symmetric] split: nat.split)
qed simp

lemma read_head_ok:
  assumes ok: "bio_ok s" "bio_idle s" "spare_bufs 1 s" and g: "log_geom s"
    and n: "sint (get32 0 (bview s (l_start s))) \<le> int LOGSIZE" and len: "length (lh_block s) = LOGSIZE"
  defines "d \<equiv> bview s (l_start s)"
  defines "k \<equiv> nat (sint (get32 0 d))"
  shows "\<exists>s'. read_head s = Ok s' \<and> wrote [] s s' \<and>
     bio.more s' = bio.more (s\<lparr>lh_n := sint (get32 0 d),
        lh_block := map (\<lambda>i. get32 (4 + 4 * i) d) [0..<k] @ drop k (lh_block s)\<rparr>)"
proof -
  have "unat (l_start s) < disksize s" using g by (auto simp: log_geom_def)
  from read_one [OF ok this]
  obtain b s1 where r: "bread 1 (l_start s) s = Ok (b, s1)" "bio_ok s1" "held_buf b (l_start s) s1" "clean_buf b s1"
     "b_refcnt (bufs s1 b) = 1" "\<forall>j<NBUF. j \<noteq> b \<longrightarrow> idle_buf (bufs s1 j)"
     "b_data (bufs s1 b) = d" "bview s1 = bview s" "bdirty s1 = bdirty s" "same_disk s s1"
    unfolding d_def by blast
  have more: "bio.more s1 = bio.more s" using r(10) by (simp add: same_disk_def)
  note f1 = log_frame [OF more]
  let ?bl = "map (\<lambda>i. get32 (4 + 4 * i) d) [0..<k] @ drop k (lh_block s)"
  let ?s2 = "s1\<lparr>lh_n := sint (get32 0 d), lh_block := ?bl\<rparr>"
  have "\<exists>s'. brelse b ?s2 = Ok s' \<and> wrote [] ?s2 s' \<and> bio.more s' = bio.more ?s2"
    using r(2-6) by (intro release_idle [of _ _ "l_start s"]) auto
  then obtain s' where s': "brelse b ?s2 = Ok s'" "wrote [] ?s2 s'" "bio.more s' = bio.more ?s2"
    by blast
  have "k \<le> length (lh_block s)" using n len by (auto simp: k_def d_def)
  then have "read_head s = Ok s'"
    using r(1,7) s'(1) g n f1(7) fold_list_update [of k "lh_block s"]
    by (simp add: read_head_def log_geom_def Let_def d_def [symmetric] k_def [symmetric])
  moreover have "bio.more ?s2 = bio.more (s\<lparr>lh_n := sint (get32 0 d), lh_block := ?bl\<rparr>)"
    using more by (cases s; cases s1) simp
  moreover have "wrote [] s s'" using s'(2) r(8-10) by (simp add: wrote_def same_disk_def)
  ultimately show ?thesis using s'(3) by auto
qed

lemma log_boot_facts:
  assumes "\<forall>n<dsz. length (dk n) = BSIZE"
  shows "bio_ok (log_boot dsz dk)" "bio_idle (log_boot dsz dk)" "bview (log_boot dsz dk) n = dk (unat n)"
    "\<not> bdirty (log_boot dsz dk) m" "disksize (log_boot dsz dk) = dsz" "dwrites (log_boot dsz dk) = []"
    "dblocks (log_boot dsz dk) = dk" "length (lh_block (log_boot dsz dk)) = LOGSIZE"
proof -
  define s0 :: log_st where "s0 = \<lparr>dblocks = dk, disksize = dsz, dwrites = [], curpid = 0, bufs = \<lambda>_. zero_buf,
     l_start = 0, l_size = 0, l_outstanding = 0, l_committing = False, l_dev = 0,
     lh_n = 0, lh_block = replicate LOGSIZE 0\<rparr>"
  have b: "log_boot dsz dk = binit s0" by (simp add: log_boot_def s0_def)
  have "bio_ok (binit s0) \<and> bview (binit s0) n = dblocks s0 (unat n) \<and> (\<forall>m. \<not> bdirty (binit s0) m)"
    using assms by (intro binit_ok) (auto simp: s0_def zero_buf_def)
  then show "bio_ok (log_boot dsz dk)" "bview (log_boot dsz dk) n = dk (unat n)" "\<not> bdirty (log_boot dsz dk) m"
    unfolding b by (auto simp: s0_def)
  show "bio_idle (log_boot dsz dk)"
    by (simp add: b bio_idle_def idle_buf_def binit_def fold_binit_fields set_next_def set_prev_def s0_def zero_buf_def)
  show "disksize (log_boot dsz dk) = dsz" "dwrites (log_boot dsz dk) = []"
    "dblocks (log_boot dsz dk) = dk" "length (lh_block (log_boot dsz dk)) = LOGSIZE"
    by (simp_all add: b binit_def s0_def)
qed

lemma no_dirty_spare: "(\<And>m. \<not> bdirty s m) \<Longrightarrow> k \<le> NBUF \<Longrightarrow> spare_bufs k s"
  by (simp add: spare_bufs_def)

lemma disk_writes_copies:
  assumes "log_geom s" "int k \<le> l_size s - 1"
  shows "disk_writes (map (\<lambda>t. (bl ! t, dk (unat (log_blk s t)))) [0..<k]) =
         map (\<lambda>i. (unat (bl ! i), dk (unat (l_start s) + i + 1))) [0..<k]"
  using assms unat_log_blk [OF assms(1)] by (auto simp: disk_writes_def)

lemma recover_ok:
  assumes ok: "bio_ok s" "bio_idle s" "log_geom s" "length (lh_block s) = LOGSIZE"
    and clean: "\<And>m. \<not> bdirty s m" "\<And>n. bview s n = dblocks s (unat n)"
    and h: "head_ok (l_start s) (l_size s) (disksize s) (dblocks s)"
  shows "\<exists>s'. recover_from_log s = Ok s' \<and> dwrites s' = dwrites s @ recovery_writes (l_start s) (dblocks s) \<and>
     dblocks s' = apply_writes (recovery_writes (l_start s) (dblocks s)) (dblocks s)"
proof -
  let ?start = "l_start s" and ?dk = "dblocks s"
  define d where "d = ?dk (unat ?start)"
  define k where "k = nat (sint (get32 0 d))"
  have sp: "spare_bufs 2 s" "spare_bufs 1 s" using clean(1) by (simp_all add: no_dirty_spare)
  have k: "k \<le> LOGSIZE" "int k \<le> l_size s - 1" "head_n ?start ?dk = k"
      "head_bl ?start ?dk = map (\<lambda>i. get32 (4 + 4 * i) d) [0..<k]"
    using h by (auto simp: head_ok_def k_def d_def head_n_def head_bl_def)
  let ?bl = "map (\<lambda>i. get32 (4 + 4 * i) d) [0..<k] @ drop k (lh_block s)"
  obtain s1 where s1: "read_head s = Ok s1" "wrote [] s s1"
      "bio.more s1 = bio.more (s\<lparr>lh_n := sint (get32 0 d), lh_block := ?bl\<rparr>)"
    using read_head_ok [OF ok(1,2) sp(2) ok(3) _ ok(4)] h clean(2)
    by (auto simp: head_ok_def d_def k_def)
  note f1 = log_frame [OF s1(3)]
  have d1: "disksize s1 = disksize s" "bview s1 = bview s" "bdirty s1 = bdirty s" "bio_ok s1" "bio_idle s1"
    using s1(2) by (auto simp: wrote_def)
  have g1: "log_geom s1" "log_blk s1 = log_blk s" "home_blk s1 = home_blk s"
    using ok(3) f1 d1 by (auto simp: log_geom_def log_blk_def home_blk_def fun_eq_iff)
  have bl: "lh_block s1 ! t = head_bl ?start ?dk ! t" if "t < k" for t
    using that k(4) f1(7) by (simp add: nth_append)
  have lk: "length (head_bl ?start ?dk) = k" using k(4) by simp
  have il: "in_log s1 [0..<k]"
    using h k bl f1 g1 lk nth_mem [of _ "head_bl ?start ?dk"] by (auto simp: in_log_def head_ok_def home_blk_def)
  have "map (\<lambda>t. lh_block s1 ! t) [0..<k] = head_bl ?start ?dk"
    using bl lk by (intro nth_equalityI) auto
  then have dist: "distinct (map (\<lambda>t. lh_block s1 ! t) [0..<k])" using h by (simp add: head_ok_def)
  let ?w = "map (\<lambda>t. (lh_block s1 ! t, bview s1 (log_blk s1 t))) [0..<k]"
  have sp1: "spare_bufs 1 s1" "spare_bufs 2 s1" using sp wrote_spare [OF s1(2)] by auto
  obtain s2 where s2: "kfold install_one [0..<k] s1 = Ok s2" "bio.more s2 = bio.more s1" "wrote ?w s1 s2"
    using install_ok [OF d1(4,5) sp1(1) g1(1) il dist disjI2 [OF sp1(2)]] by blast
  note f2 = log_frame [OF s2(2)]
  have "lh_block s1 ! t \<noteq> ?start" if "t \<in> set [0..<k]" for t
    using il that home_blk_ne(2) [OF g1(1), of "lh_block s1 ! t"] f1 by (auto simp: in_log_def)
  then have v2: "bview s2 ?start = d"
    using wrote_view_other [OF s2(3), of ?start] clean(2) d1(2) by (force simp: d_def)
  have "\<exists>s3. write_head (s2\<lparr>lh_n := 0\<rparr>) = Ok s3 \<and> bio.more s3 = bio.more (s2\<lparr>lh_n := 0\<rparr>) \<and>
     wrote [(l_start (s2\<lparr>lh_n := 0\<rparr>), head_block (lh_n (s2\<lparr>lh_n := 0\<rparr>)) (lh_block (s2\<lparr>lh_n := 0\<rparr>))
        (bview (s2\<lparr>lh_n := 0\<rparr>) (l_start (s2\<lparr>lh_n := 0\<rparr>))))] (s2\<lparr>lh_n := 0\<rparr>) s3"
    using s2(3) wrote_spare [OF s2(3) sp1(1)] g1(1) log_geom_frame(1) [OF s2(2)]
    by (intro write_head_ok) (auto simp: wrote_def log_geom_def)
  then obtain s3 where s3: "write_head (s2\<lparr>lh_n := 0\<rparr>) = Ok s3" "wrote [(?start, put32 0 0 d)] s2 s3"
    using f1(1) f2(1) v2 by (auto simp: wrote_def head_block_def)
  have "recover_from_log s = Ok s3"
    using s1(1) s2(1) s3(1) f1(6) by (simp add: recover_from_log_def install_trans_def k_def)
  moreover have "disk_writes ?w = log_copies ?start ?dk (head_bl ?start ?dk)"
  proof -
    have e: "?w = map (\<lambda>t. (head_bl ?start ?dk ! t, ?dk (unat (log_blk s t)))) [0..<k]"
      using bl clean(2) d1(2) g1(2) by auto
    show ?thesis unfolding e log_copies_def lk by (rule disk_writes_copies [OF ok(3) k(2)])
  qed
  moreover have "wrote ([] @ ?w @ [(?start, put32 0 0 d)]) s s3"
    using wrote_trans [OF s1(2) wrote_trans [OF s2(3) s3(2)]] .
  ultimately show ?thesis
    by (auto simp: wrote_def recovery_writes_def d_def)
qed

lemma initlog_ok:
  assumes sb: "sb_ok start sz dsz dk" and h: "head_ok start sz dsz dk"
  shows "\<exists>s. initlog 1 (log_boot dsz dk) = Ok s \<and> dwrites s = recovery_writes start dk \<and>
     dblocks s = apply_writes (recovery_writes start dk) dk"
proof -
  have len: "\<forall>n<dsz. length (dk n) = BSIZE" using sb by (simp add: sb_ok_def)
  note B = log_boot_facts [OF len]
  have "1 < disksize (log_boot dsz dk)" using sb B(5) by (auto simp: sb_ok_def)
  from readsb_ok [OF B(1,2) no_dirty_spare this] B(3,4)
  obtain s1 where s1: "readsb 1 (log_boot dsz dk) = Ok (decode_sb (dk 1), s1)" "wrote [] (log_boot dsz dk) s1"
      "bio.more s1 = bio.more (log_boot dsz dk)"
    by auto
  note f1 = log_frame [OF s1(3)]
  let ?s2 = "s1\<lparr>l_start := start, l_size := sz, l_dev := 1\<rparr>"
  have w: "bio_ok s1" "bio_idle s1" "bview s1 = bview (log_boot dsz dk)" "bdirty s1 = bdirty (log_boot dsz dk)"
    "dblocks s1 = dk" "disksize s1 = dsz" "dwrites s1 = []"
    using s1(2) B by (auto simp: wrote_def)
  have "\<exists>s'. recover_from_log ?s2 = Ok s' \<and> dwrites s' = dwrites ?s2 @ recovery_writes (l_start ?s2) (dblocks ?s2) \<and>
     dblocks s' = apply_writes (recovery_writes (l_start ?s2) (dblocks ?s2)) (dblocks ?s2)"
    using w B(3,4,8) f1(7) sb h
    by (intro recover_ok) (auto simp: log_geom_def sb_ok_def)
  then show ?thesis
    using s1(1) sb w by (auto simp: initlog_def sb_ok_def)
qed

section \<open>Crashes\<close>

lemma apply_writes_home:
  assumes "\<forall>w\<in>set ws. fst w \<in> A"
  shows "n \<notin> A \<Longrightarrow> apply_writes ws dk n = dk n"
  using assms by (intro apply_writes_other) force

lemma apply_copies:
  assumes "distinct bl"
  shows "apply_writes (map (\<lambda>i. (unat (bl ! i), v i)) [0..<length bl]) dk n =
     (case List.find (\<lambda>i. unat (bl ! i) = n) [0..<length bl] of Some i \<Rightarrow> v i | None \<Rightarrow> dk n)"
proof (cases "List.find (\<lambda>i. unat (bl ! i) = n) [0..<length bl]")
  case None
  then have "\<forall>i<length bl. unat (bl ! i) \<noteq> n" by (auto simp: find_None_iff)
  then show ?thesis using None by (subst apply_writes_other) auto
next
  case (Some i)
  then have i: "i < length bl" "unat (bl ! i) = n" by (auto dest: find_Some_D)
  have "distinct (map (\<lambda>i. unat (bl ! i)) [0..<length bl])"
    using assms by (auto simp: distinct_map inj_on_def distinct_conv_nth) (metis word_unat_eq_iff)
  from apply_writes_map [OF this, of i v dk] i Some show ?thesis by simp
qed

lemma recovered_home:
  assumes "home_eq start sz dk' dk"
    and "head_n start dk' = 0"
  shows "home_eq start sz (recovered start dk') dk"
  using assms by (simp add: recovered_def head_bl_def log_copies_def)

text \<open>After the header names \<open>bl\<close> and the log holds \<open>v\<close>, recovery makes the home blocks of \<open>bl\<close>
  equal to \<open>v\<close>, whatever was in them.\<close>

lemma recovered_committed:
  assumes "distinct bl" "head_bl start dk' = bl" "\<And>i. i < length bl \<Longrightarrow> dk' (unat start + i + 1) = v i"
    and "\<And>n. n \<notin> log_area start sz \<Longrightarrow> n \<notin> unat ` set bl \<Longrightarrow> dk' n = dk n"
  shows "home_eq start sz (recovered start dk')
           (apply_writes (map (\<lambda>i. (unat (bl ! i), v i)) [0..<length bl]) dk)"
proof -
  have e: "log_copies start dk' bl = map (\<lambda>i. (unat (bl ! i), v i)) [0..<length bl]"
    using assms(3) by (simp add: log_copies_def)
  have "apply_writes (map (\<lambda>i. (unat (bl ! i), v i)) [0..<length bl]) dk' n =
        apply_writes (map (\<lambda>i. (unat (bl ! i), v i)) [0..<length bl]) dk n"
    if "n \<notin> log_area start sz" for n
  proof (cases "List.find (\<lambda>i. unat (bl ! i) = n) [0..<length bl]")
    case None
    then have "n \<notin> unat ` set bl" by (auto simp: find_None_iff in_set_conv_nth)
    then show ?thesis using None assms(4) [OF that] by (simp add: apply_copies [OF assms(1)])
  qed (simp add: apply_copies [OF assms(1)])
  then show ?thesis by (simp add: home_eq_def recovered_def assms(2) e)
qed

lemma apply_writes_len:
  assumes "\<And>n. n < dsz \<Longrightarrow> length (dk n) = l" "\<forall>w\<in>set ws. length (snd w) = l" "n < dsz"
  shows "length (apply_writes ws dk n) = l"
  using assms
proof (induction ws arbitrary: dk)
  case (Cons w ws)
  then show ?case by (cases w) simp
qed simp

lemma sb_ok_writes:
  assumes "sb_ok start sz dsz dk" "\<forall>w\<in>set ws. length (snd w) = BSIZE \<and> fst w \<noteq> 1"
  shows "sb_ok start sz dsz (apply_writes ws dk)"
proof -
  have "apply_writes ws dk 1 = dk 1" using assms(2) by (intro apply_writes_other) force
  moreover have "length (apply_writes ws dk n) = BSIZE" if "n < dsz" for n
    using assms that by (intro apply_writes_len [of dsz]) (auto simp: sb_ok_def)
  ultimately show ?thesis using assms(1) by (simp add: sb_ok_def)
qed

lemma head_cong: "dk' (unat start) = dk (unat start) \<Longrightarrow> head_n start dk' = head_n start dk"
  "dk' (unat start) = dk (unat start) \<Longrightarrow> head_bl start dk' = head_bl start dk"
  "dk' (unat start) = dk (unat start) \<Longrightarrow> head_ok start sz dsz dk' = head_ok start sz dsz dk"
  by (simp_all add: head_n_def head_bl_def head_ok_def)

lemma head_zero:
  assumes "get32 0 (dk (unat start)) = 0" "0 < sz"
  shows "head_n start dk = 0" "head_ok start sz dsz dk"
  using assms by (simp_all add: head_n_def head_bl_def head_ok_def)

lemma copies_other:
  assumes "n \<notin> unat ` set bl"
  shows "apply_writes (take k (map (\<lambda>i. (unat (bl ! i), v i)) [0..<length bl])) dk n = dk n"
proof -
  have "\<forall>w\<in>set (take k (map (\<lambda>i. (unat (bl ! i), v i)) [0..<length bl])). fst w \<in> unat ` set bl"
    by (auto dest!: in_set_takeD)
  then show ?thesis using assms by (intro apply_writes_home)
qed

lemma start_in_log: "0 < sz \<Longrightarrow> unat start \<in> log_area start sz"
  "int i < sz - 1 \<Longrightarrow> unat start + i + 1 \<in> log_area start sz"
  by (auto simp: log_area_def)

lemma recovery_prefix:
  fixes k :: nat
  assumes sb: "sb_ok start sz dsz dk" and h: "head_ok start sz dsz dk"
  defines "dk' \<equiv> apply_writes (take k (recovery_writes start dk)) dk"
  shows "sb_ok start sz dsz dk' \<and> head_ok start sz dsz dk' \<and>
         home_eq start sz (recovered start dk') (recovered start dk)"
proof -
  let ?bl = "head_bl start dk"
  let ?v = "\<lambda>i. dk (unat start + i + 1)"
  let ?cp = "map (\<lambda>i. (unat (?bl ! i), ?v i)) [0..<length ?bl]"
  have cp: "log_copies start dk ?bl = ?cp" by (simp add: log_copies_def)
  have sz: "0 < sz" and size: "unat start + nat sz \<le> dsz" "1 < unat start" using sb by (auto simp: sb_ok_def)
  have lb: "int (length ?bl) \<le> sz - 1" using h by (simp add: head_ok_def head_bl_def)
  have home: "b \<notin> log_area start sz \<and> b \<noteq> 1" if "b \<in> unat ` set ?bl" for b
    using h that by (auto simp: head_ok_def)
  have len: "length (dk n) = BSIZE" if "n < dsz" for n using sb that by (simp add: sb_ok_def)
  have one: "unat (?bl ! i) \<noteq> Suc 0" if "i < length ?bl" for i using home [of "unat (?bl ! i)"] that by auto
  have "\<forall>w\<in>set (take k (recovery_writes start dk)). length (snd w) = BSIZE \<and> fst w \<noteq> 1"
    using lb size len by (auto simp: recovery_writes_def cp one not_sym [OF one] dest!: in_set_takeD)
  then have sb': "sb_ok start sz dsz dk'" unfolding dk'_def by (rule sb_ok_writes [OF sb])
  have log: "n \<notin> unat ` set ?bl" if "n \<in> log_area start sz" for n using home that by auto
  show ?thesis
  proof (cases "k \<le> length ?cp")
    case True
    then have e: "dk' = apply_writes (take k ?cp) dk" by (simp add: dk'_def recovery_writes_def cp)
    have st: "dk' (unat start) = dk (unat start)"
      unfolding e using log start_in_log(1) [OF sz] by (intro copies_other) blast
    have "home_eq start sz (recovered start dk') (apply_writes ?cp dk)"
    proof (rule recovered_committed)
      show "distinct ?bl" using h by (simp add: head_ok_def)
      show "head_bl start dk' = ?bl" using st by (rule head_cong)
      show "dk' (unat start + i + 1) = ?v i" if "i < length ?bl" for i
        unfolding e using log start_in_log(2) [of i sz start] that lb by (intro copies_other) auto
      show "dk' n = dk n" if "n \<notin> unat ` set ?bl" for n
        unfolding e using that by (rule copies_other)
    qed
    then show ?thesis
      using sb' h head_cong(3) [of dk' start dk sz dsz] st by (simp add: recovered_def cp)
  next
    case False
    then have e: "dk' = (apply_writes ?cp dk)(unat start := put32 0 0 (dk (unat start)))"
      by (simp add: dk'_def recovery_writes_def cp apply_writes_append)
    have "get32 0 (dk' (unat start)) = 0" using len [of "unat start"] size sz by (simp add: e)
    then have z: "head_n start dk' = 0" "head_ok start sz dsz dk'" using sz by (simp_all add: head_zero)
    have "home_eq start sz dk' (recovered start dk)"
      using start_in_log(1) [OF sz] by (auto simp: home_eq_def e recovered_def cp)
    then show ?thesis using sb' z recovered_home by blast
  qed
qed

lemma cut_recoveries:
  assumes "(cut_recovery dsz)\<^sup>*\<^sup>* dk dk'" "sb_ok start sz dsz dk" "head_ok start sz dsz dk"
  shows "sb_ok start sz dsz dk' \<and> head_ok start sz dsz dk' \<and>
         home_eq start sz (recovered start dk') (recovered start dk)"
  using assms
proof (induction rule: rtranclp_induct)
  case base
  then show ?case by (simp add: home_eq_def)
next
  case (step dk1 dk2)
  from step(2) obtain s k where c: "initlog 1 (log_boot dsz dk1) = Ok s"
      "dk2 = apply_writes (take k (dwrites s)) dk1"
    by (auto elim: cut_recovery.cases)
  have ih: "sb_ok start sz dsz dk1" "head_ok start sz dsz dk1"
    "home_eq start sz (recovered start dk1) (recovered start dk)"
    using step by auto
  have "dwrites s = recovery_writes start dk1" using initlog_ok [OF ih(1,2)] c(1) by auto
  then show ?case using recovery_prefix [OF ih(1,2), of k] ih(3) c(2) by (auto simp: home_eq_def)
qed

lemma recovered_initlog:
  assumes "sb_ok start sz dsz dk" "head_ok start sz dsz dk"
  shows "\<exists>r. initlog 1 (log_boot dsz dk) = Ok r \<and> home_eq start sz (dblocks r) (recovered start dk)"
proof -
  obtain r where r: "initlog 1 (log_boot dsz dk) = Ok r"
    "dblocks r = apply_writes (recovery_writes start dk) dk"
    using initlog_ok [OF assms] by blast
  have "0 < sz" using assms(1) by (simp add: sb_ok_def)
  then have "home_eq start sz (dblocks r) (recovered start dk)"
    using start_in_log(1) [of sz start]
    by (auto simp: home_eq_def r(2) recovery_writes_def recovered_def apply_writes_append)
  with r(1) show ?thesis by blast
qed

lemma bview_clean:
  assumes "bio_ok s" "bio_idle s" "\<not> bdirty s n"
  shows "bview s n = dblocks s (unat n)"
proof (cases rule: bview_cases [of n s])
  case (cached i)
  then have "\<not> b_dirty (bufs s i)" using assms(3) by (auto simp: bdirty_def)
  moreover have "slocked (b_lock (bufs s i)) = 0"
    using assms(2) cached(1) by (auto simp: bio_idle_def idle_buf_def)
  ultimately have "b_data (bufs s i) = dblocks s (unat (b_blockno (bufs s i)))"
    using bio_okD(2) [OF assms(1) cached(1)] cached(3) by (simp add: buf_ok_def)
  then show ?thesis
    using bview_cached [OF bio_okD(1) [OF assms(1)] cached] cached(2) by (simp add: buf_match_def)
next
  case uncached
  then show ?thesis by (rule bview_uncached)
qed

lemma bview_length:
  assumes "bio_ok s" "unat n < disksize s"
  shows "length (bview s n) = BSIZE"
proof (cases rule: bview_cases [of n s])
  case (cached i)
  then show ?thesis
    using bview_cached [OF bio_okD(1) [OF assms(1)] cached] bio_okD(2) [OF assms(1) cached(1)]
    by (simp add: buf_ok_def)
next
  case uncached
  then have "bview s n = dblocks s (unat n)" by (rule bview_uncached)
  then show ?thesis using bio_okD(4) [OF assms(1,2)] by simp
qed

text \<open>The disk after a prefix of the writes of a commit: the log blocks, the header, the home
  blocks, the header again.\<close>

lemma commit_disk_writes:
  assumes rd: "log_ready s"
  defines "n \<equiv> nat (lh_n s)"
  defines "v \<equiv> \<lambda>i. bview s (lh_block s ! i)"
  defines "h \<equiv> head_block (int n) (lh_block s) (dblocks s (unat (l_start s)))"
  shows "disk_writes (commit_writes s) =
     map (\<lambda>i. (unat (l_start s) + i + 1, v i)) [0..<n] @ [(unat (l_start s), h)] @
     map (\<lambda>i. (unat (logged s ! i), v i)) [0..<length (logged s)] @
     [(unat (l_start s), head_block 0 (lh_block s) h)]"
proof -
  note F = log_ready_facts [OF rd, folded n_def]
  have ok: "bio_ok s" "bio_idle s" "log_geom s" "lh_n s = int n" using rd by (auto simp: log_ready_def n_def)
  have "\<not> bdirty s (l_start s)"
    using rd home_blk_ne(2) [OF ok(3), of "l_start s"] by (auto simp: log_ready_def)
  then have st: "bview s (l_start s) = dblocks s (unat (l_start s))" using bview_clean ok by blast
  have "disk_writes (map (\<lambda>i. (log_blk s i, v i)) [0..<n]) = map (\<lambda>i. (unat (l_start s) + i + 1, v i)) [0..<n]"
    using unat_log_blk [OF ok(3)] F(8) by (simp add: disk_writes_def)
  moreover have "disk_writes (map (\<lambda>i. (lh_block s ! i, v i)) [0..<n]) =
      map (\<lambda>i. (unat (logged s ! i), v i)) [0..<length (logged s)]"
    using F(6) by (simp add: disk_writes_def)
  ultimately show ?thesis
    by (simp add: commit_writes_def Let_def st h_def v_def ok(4))
qed

lemma sint_of_nat_small: "n < 2 ^ 31 \<Longrightarrow> sint (of_nat n :: u32) = int n"
  by (simp add: sint_uint signed_take_bit_int_eq_self uint_nat unat_of_nat)

lemma committed_header:
  assumes "length d = BSIZE" "n \<le> LOGSIZE" "dk' (unat start) = head_block (int n) bl d" "n \<le> length bl"
  shows "head_n start dk' = n" "head_bl start dk' = take n bl" "sint (get32 0 (dk' (unat start))) = int n"
proof -
  note H = head_block_props [OF assms(1,2), of bl]
  have "sint (of_nat n :: u32) = int n" using assms(2) by (intro sint_of_nat_small) simp
  then show s: "sint (get32 0 (dk' (unat start))) = int n" using H assms(3) by simp
  then show n: "head_n start dk' = n" by (simp add: head_n_def)
  show "head_bl start dk' = take n bl"
    unfolding head_bl_def n using H assms(3,4) by (intro nth_equalityI) auto
qed

lemma apply_copies_cong:
  assumes "distinct bl" "n \<notin> unat ` set bl \<Longrightarrow> dk n = dk' n"
  shows "apply_writes (map (\<lambda>i. (unat (bl ! i), v i)) [0..<length bl]) dk n =
         apply_writes (map (\<lambda>i. (unat (bl ! i), v i)) [0..<length bl]) dk' n"
proof (cases "List.find (\<lambda>i. unat (bl ! i) = n) [0..<length bl]")
  case None
  then have "n \<notin> unat ` set bl" by (auto simp: find_None_iff in_set_conv_nth)
  then show ?thesis using None assms(2) by (simp add: apply_copies [OF assms(1)])
qed (simp add: apply_copies [OF assms(1)])

lemma head_ok_empty: "head_n start dk = 0 \<Longrightarrow> 0 < sz \<Longrightarrow> head_ok start sz dsz dk"
  by (simp add: head_ok_def head_bl_def) (simp add: head_n_def)

lemma commit_prefix_new:
  fixes j :: nat
  assumes rd: "log_ready s" and one: "1 \<notin> set (logged s)" and len: "length (dblocks s (unat (l_start s))) = BSIZE"
  defines "n \<equiv> nat (lh_n s)"
  defines "v \<equiv> \<lambda>i. bview s (lh_block s ! i)"
  defines "dk1 \<equiv> (apply_writes (map (\<lambda>i. (unat (l_start s) + i + 1, v i)) [0..<n]) (dblocks s))
      (unat (l_start s) := head_block (int n) (lh_block s) (dblocks s (unat (l_start s))))"
  defines "cp \<equiv> map (\<lambda>i. (unat (logged s ! i), v i)) [0..<length (logged s)]"
  defines "dk' \<equiv> apply_writes (take j cp) dk1"
  shows "head_ok (l_start s) (l_size s) (disksize s) dk' \<and>
     home_eq (l_start s) (l_size s) (recovered (l_start s) dk') (apply_writes cp (dblocks s)) \<and>
     home_eq (l_start s) (l_size s) (apply_writes cp dk1) (apply_writes cp (dblocks s))"
proof -
  let ?start = "l_start s" and ?sz = "l_size s"
  note F = log_ready_facts [OF rd, folded n_def]
  have sz: "0 < ?sz" and g: "log_geom s" using rd by (auto simp: log_ready_def log_geom_def)
  have d: "distinct (logged s)" "\<And>b. b \<in> set (logged s) \<Longrightarrow> home_blk s b" and lb: "length (logged s) = n"
    using rd F(6) by (auto simp: log_ready_def)
  have log: "m \<notin> unat ` set (logged s)" if "m \<in> log_area ?start ?sz" for m
    using d(2) that by (auto simp: home_blk_def)
  have dk1: "dk1 m = dblocks s m" if "m \<notin> log_area ?start ?sz" for m
  proof -
    have "m \<noteq> unat ?start" using that start_in_log(1) [OF sz] by auto
    then show ?thesis
      unfolding dk1_def using that start_in_log(2) [of _ ?sz ?start] F(8)
      by (simp, intro apply_writes_home [of _ "log_area ?start ?sz"]) auto
  qed
  have st: "dk' (unat ?start) = head_block (int n) (lh_block s) (dblocks s (unat ?start))"
    unfolding dk'_def cp_def using log start_in_log(1) [OF sz] by (subst copies_other) (auto simp: dk1_def)
  have n: "n \<le> LOGSIZE" "n \<le> length (lh_block s)" using F(7) rd by (auto simp: log_ready_def)
  note H = committed_header [where dk' = dk' and start = ?start, OF len n(1) st n(2)]
  have bl: "head_bl ?start dk' = logged s" using H(2) by (simp add: logged_def n_def)
  have "home_eq ?start ?sz (recovered ?start dk') (apply_writes cp (dblocks s))"
    unfolding cp_def
  proof (rule recovered_committed [OF d(1) bl])
    show "dk' (unat ?start + i + 1) = v i" if "i < length (logged s)" for i
    proof -
      have "unat ?start + i + 1 \<notin> unat ` set (logged s)"
        using log start_in_log(2) [of i ?sz ?start] that lb F(8) by auto
      then have "dk' (unat ?start + i + 1) = dk1 (unat ?start + i + 1)"
        unfolding dk'_def cp_def by (rule copies_other)
      also have "\<dots> = v i"
        using apply_writes_map [of "\<lambda>i. unat ?start + i + 1" "[0..<n]" i v] that lb
        by (simp add: dk1_def distinct_map inj_on_def)
      finally show ?thesis .
    qed
    show "dk' m = dblocks s m" if "m \<notin> log_area ?start ?sz" "m \<notin> unat ` set (logged s)" for m
      unfolding dk'_def cp_def using copies_other [OF that(2)] dk1 [OF that(1)] by simp
  qed
  moreover have "head_ok ?start ?sz (disksize s) dk'"
    unfolding head_ok_def bl H(1) using H(3) n F(8) d one
    by (auto simp: home_blk_def word_unat_eq_iff) (metis unat_1 word_unat_eq_iff One_nat_def)
  moreover have "home_eq ?start ?sz (apply_writes cp dk1) (apply_writes cp (dblocks s))"
    unfolding home_eq_def cp_def using apply_copies_cong [OF d(1)] dk1 by blast
  ultimately show ?thesis by simp
qed

lemma commit_prefix:
  fixes k :: nat
  assumes rd: "log_ready s" and sb: "sb_ok (l_start s) (l_size s) (disksize s) (dblocks s)"
    and h0: "head_n (l_start s) (dblocks s) = 0" and one: "1 \<notin> set (logged s)"
  defines "cp \<equiv> map (\<lambda>i. (unat (logged s ! i), bview s (lh_block s ! i))) [0..<length (logged s)]"
  defines "dk' \<equiv> apply_writes (take k (disk_writes (commit_writes s))) (dblocks s)"
  shows "sb_ok (l_start s) (l_size s) (disksize s) dk' \<and> head_ok (l_start s) (l_size s) (disksize s) dk' \<and>
     home_eq (l_start s) (l_size s) (recovered (l_start s) dk')
       (if k \<le> nat (lh_n s) then dblocks s else apply_writes cp (dblocks s))"
proof -
  let ?start = "l_start s" and ?dk = "dblocks s" and ?sz = "l_size s"
  define n where "n = nat (lh_n s)"
  define v where "v = (\<lambda>i. bview s (lh_block s ! i))"
  let ?h = "head_block (int n) (lh_block s) (?dk (unat ?start))"
  let ?w1 = "map (\<lambda>i. (unat ?start + i + 1, v i)) [0..<n]"
  let ?dk1 = "(apply_writes ?w1 ?dk)(unat ?start := ?h)"
  note F = log_ready_facts [OF rd, folded n_def]
  have W: "disk_writes (commit_writes s) =
      ?w1 @ [(unat ?start, ?h)] @ cp @ [(unat ?start, head_block 0 (lh_block s) ?h)]"
    using commit_disk_writes [OF rd] by (simp add: n_def v_def cp_def)
  have ok: "bio_ok s" "log_geom s" "0 < ?sz" using rd by (auto simp: log_ready_def log_geom_def)
  have len: "length (?dk m) = BSIZE" if "m < disksize s" for m using sb that by (simp add: sb_ok_def)
  have start: "unat ?start < disksize s" "1 < unat ?start" using sb by (auto simp: sb_ok_def)
  have lb: "length (logged s) = n" "length cp = n" using F(6) by (simp_all add: cp_def)
  have home: "home_blk s (lh_block s ! i)" "unat (logged s ! i) \<noteq> 1" "logged s ! i = lh_block s ! i" if "i < n" for i
  proof -
    show "home_blk s (lh_block s ! i)" "logged s ! i = lh_block s ! i"
      using F(1,6) that by (auto simp: in_log_def)
    have "logged s ! i \<noteq> 1" using one nth_mem [of i "logged s"] lb that by metis
    then show "unat (logged s ! i) \<noteq> 1" by (simp add: word_unat_eq_iff)
  qed
  have hl: "length ?h = BSIZE" "length (head_block 0 (lh_block s) ?h) = BSIZE"
    "get32 0 (head_block 0 (lh_block s) ?h) = 0"
    using head_block_props [OF len [OF start(1)], of n "lh_block s"] F(7)
      head_block_props [of ?h 0 "lh_block s"] by auto
  have vl: "length (v i) = BSIZE" if "i < n" for i
    using home(1) [OF that] bview_length [OF ok(1)] by (simp add: v_def home_blk_def)
  have "\<forall>w\<in>set (disk_writes (commit_writes s)). length (snd w) = BSIZE \<and> fst w \<noteq> 1"
    unfolding W cp_def using vl hl home(2) start(2) lb by (auto simp: v_def)
  then have sb': "sb_ok ?start ?sz (disksize s) dk'"
    unfolding dk'_def by (intro sb_ok_writes [OF sb]) (auto dest: in_set_takeD)
  have new: "head_ok ?start ?sz (disksize s) (apply_writes (take j cp) ?dk1) \<and>
     home_eq ?start ?sz (recovered ?start (apply_writes (take j cp) ?dk1)) (apply_writes cp ?dk) \<and>
     home_eq ?start ?sz (apply_writes cp ?dk1) (apply_writes cp ?dk)" for j
    using commit_prefix_new [OF rd one len [OF start(1)], of j] by (simp add: n_def v_def cp_def)
  consider (old) "k \<le> n" | (mid) "n < k" "k \<le> n + 1 + n" | (fin) "n + 1 + n < k" by linarith
  then show ?thesis
  proof cases
    case old
    then have e: "dk' = apply_writes (take k ?w1) ?dk" by (simp add: dk'_def W)
    have a: "\<forall>w\<in>set (take k ?w1). fst w \<in> log_area ?start ?sz - {unat ?start}"
      using F(8) start_in_log(2) [of _ ?sz ?start] by (auto dest!: in_set_takeD)
    have "home_eq ?start ?sz dk' ?dk"
      unfolding home_eq_def e using apply_writes_home [OF a] by blast
    moreover have st: "dk' (unat ?start) = ?dk (unat ?start)"
      unfolding e using apply_writes_home [OF a] by blast
    then have "head_n ?start dk' = 0" using h0 head_cong(1) [of dk' ?start ?dk] by simp
    ultimately show ?thesis
      using old sb' recovered_home head_ok_empty ok(3) by (simp add: n_def)
  next
    case mid
    then have "dk' = apply_writes (take (k - n - 1) cp) ?dk1"
      by (simp add: dk'_def W lb apply_writes_append take_Cons')
    then show ?thesis using mid sb' new [of "k - n - 1"] by (simp add: n_def)
  next
    case fin
    then have e: "dk' = (apply_writes cp ?dk1)(unat ?start := head_block 0 (lh_block s) ?h)"
      by (simp add: dk'_def W lb apply_writes_append take_Cons')
    then have z: "head_n ?start dk' = 0" "head_ok ?start ?sz (disksize s) dk'"
      using hl(3) ok(3) by (simp_all add: head_zero)
    have "home_eq ?start ?sz dk' (apply_writes cp ?dk)"
      using new start_in_log(1) [OF ok(3)] by (auto simp: home_eq_def e)
    then show ?thesis using fin sb' z recovered_home by (simp add: n_def)
  qed
qed

lemma committed_view:
  assumes "log_ready s" "m < disksize s"
  shows "apply_writes (map (\<lambda>i. (unat (logged s ! i), bview s (lh_block s ! i))) [0..<length (logged s)]) (dblocks s) m
       = bview s (of_nat m)"
proof -
  note F = log_ready_facts [OF assms(1)]
  have rd: "bio_ok s" "bio_idle s" "distinct (logged s)" "\<And>m. bdirty s m \<longleftrightarrow> m \<in> set (logged s)"
    and sz: "m < 2 ^ 32"
    using assms by (auto simp: log_ready_def log_geom_def)
  have um: "unat (of_nat m :: u32) = m" using sz by (simp add: unat_of_nat)
  have eq: "logged s ! i = lh_block s ! i" if "i < length (logged s)" for i using F(6) that by simp
  show ?thesis
  proof (cases "List.find (\<lambda>i. unat (logged s ! i) = m) [0..<length (logged s)]")
    case None
    then have "of_nat m \<notin> set (logged s)" using um by (auto simp: find_None_iff in_set_conv_nth)
    then show ?thesis
      using None bview_clean [OF rd(1,2), of "of_nat m"] rd(4) um by (simp add: apply_copies [OF rd(3)])
  next
    case (Some i)
    then have i: "i < length (logged s)" "unat (logged s ! i) = m" by (auto dest: find_Some_D)
    then have "logged s ! i = of_nat m" using um by (simp add: word_unat_eq_iff)
    then show ?thesis using Some eq i by (simp add: apply_copies [OF rd(3)])
  qed
qed

section \<open>log_write\<close>

lemma log_write_header:
  assumes lh: "lh_ok s" and r: "log_write b s = Ok s'"
  defines "n \<equiv> b_blockno (bufs s b)"
  shows "lh_ok s' \<and> logged s' = (if n \<in> set (logged s) then logged s else logged s @ [n]) \<and>
     s' = upd_buf b (\<lambda>b. b\<lparr>b_dirty := True\<rparr>) (s\<lparr>lh_n := lh_n s', lh_block := lh_block s'\<rparr>)"
proof -
  let ?k = "nat (lh_n s)"
  have k: "?k < LOGSIZE" "?k < length (lh_block s)" "int ?k = lh_n s"
    using lh r by (auto simp: lh_ok_def log_write_def split: if_splits)
  show ?thesis
  proof (cases "List.find (\<lambda>i. lh_block s ! i = n) [0..<?k]")
    case None
    then have "n \<notin> set (logged s)"
      using k by (auto simp: find_None_iff logged_def in_set_conv_nth)
    moreover have "s' = upd_buf b (\<lambda>b. b\<lparr>b_dirty := True\<rparr>) (s\<lparr>lh_n := lh_n s + 1, lh_block := (lh_block s)[?k := n]\<rparr>)"
      using r None k by (auto simp: log_write_def Let_def n_def upd_buf_def split: if_splits)
    moreover have "nat (lh_n s + 1) = Suc ?k" using lh by (simp add: lh_ok_def nat_add_distrib)
    ultimately show ?thesis
      using k lh by (simp add: lh_ok_def logged_def upd_buf_def take_Suc_conv_app_nth)
  next
    case (Some i)
    then have i: "i < ?k" "lh_block s ! i = n" by (auto dest: find_Some_D)
    then have "n \<in> set (logged s)" using k by (auto simp: logged_def in_set_conv_nth intro!: exI [of _ i])
    moreover have "(lh_block s)[i := n] = lh_block s" using i by auto
    then have "s' = upd_buf b (\<lambda>b. b\<lparr>b_dirty := True\<rparr>) (s\<lparr>lh_block := lh_block s\<rparr>)"
      using r Some i k by (auto simp: log_write_def Let_def n_def upd_buf_def split: if_splits)
    ultimately show ?thesis using lh by (simp add: lh_ok_def logged_def upd_buf_def)
  qed
qed

lemma log_write_spec:
  assumes ok: "bio_ok s" "held_buf b n s" "lh_ok s" and r: "log_write b s = Ok s'"
  shows "bio_ok s' \<and> held_buf b n s' \<and> clean_buf b s' \<and> bview s' = bview s \<and>
     bdirty s' = (bdirty s)(n := True) \<and> lh_ok s' \<and>
     logged s' = (if n \<in> set (logged s) then logged s else logged s @ [n]) \<and>
     dblocks s' = dblocks s \<and> disksize s' = disksize s \<and> dwrites s' = dwrites s \<and> curpid s' = curpid s \<and>
     bufs s' = (bufs s)(b := (bufs s b)\<lparr>b_dirty := True\<rparr>) \<and>
     bio.more s' = bio.more (s\<lparr>lh_n := lh_n s', lh_block := lh_block s'\<rparr>)"
proof -
  note H = log_write_header [OF ok(3) r]
  have n: "b_blockno (bufs s b) = n" using ok(2) by (simp add: held_buf_def buf_match_def)
  have s': "s' = upd_buf b (\<lambda>b. b\<lparr>b_dirty := True\<rparr>) (s\<lparr>lh_n := lh_n s', lh_block := lh_block s'\<rparr>)"
    using H by simp
  let ?s1 = "s\<lparr>lh_n := lh_n s', lh_block := lh_block s'\<rparr>"
  have "bio_ok ?s1" "held_buf b n ?s1" using ok(1,2) by auto
  note P = pin_spec [OF this, folded s']
  have "dblocks s' = dblocks s" "disksize s' = disksize s" "dwrites s' = dwrites s" "curpid s' = curpid s"
    "bufs s' = (bufs s)(b := (bufs s b)\<lparr>b_dirty := True\<rparr>)" "bio.more s' = bio.more ?s1"
    by (subst s', simp)+
  then show ?thesis using P H n by auto
qed

lemma transaction_ready:
  assumes ok: "bio_ok s" "bio_idle s" "log_geom s" "\<And>m. \<not> bdirty s m" "lh_ok s" "lh_n s = 0"
    and l: "1 \<le> l_outstanding s" "3 \<le> l_size s" and n: "home_blk s n" "length d = BSIZE"
  shows "\<exists>s'. kbind (bread 1 n s) (\<lambda>(b, s). kbind (log_write b (set_data b d s)) (brelse b)) = Ok s' \<and>
     log_ready s' \<and> logged s' = [n] \<and> bview s' = (bview s)(n := d) \<and> dblocks s' = dblocks s \<and>
     dwrites s' = dwrites s \<and> disksize s' = disksize s \<and> l_start s' = l_start s \<and> l_size s' = l_size s"
proof -
  have "unat n < disksize s" using n by (simp add: home_blk_def)
  from read_one [OF ok(1,2) no_dirty_spare [OF ok(4)] this]
  obtain b s1 where r: "bread 1 n s = Ok (b, s1)" "bio_ok s1" "held_buf b n s1" "b_refcnt (bufs s1 b) = 1"
      "\<forall>j<NBUF. j \<noteq> b \<longrightarrow> idle_buf (bufs s1 j)" "bview s1 = bview s" "bdirty s1 = bdirty s" "same_disk s s1"
    by auto
  define s2 where "s2 = set_data b d s1"
  note D = set_data_spec [OF r(2,3) n(2), folded s2_def]
  have f: "bio.more s2 = bio.more s" using D r(8) by (simp add: same_disk_def)
  note fr = log_frame [OF f]
  have lh2: "lh_ok s2" using ok(5) fr by (simp add: lh_ok_def)
  have "\<exists>s3. log_write b s2 = Ok s3" using ok(6) l fr by (simp add: log_write_def Let_def)
  then obtain s3 where w: "log_write b s2 = Ok s3" by blast
  note L = log_write_spec [OF _ _ lh2 w, of n]
  have lg: "logged s2 = []" using ok(6) fr by (simp add: logged_def)
  have L': "bio_ok s3" "held_buf b n s3" "clean_buf b s3" "bview s3 = bview s2" "bdirty s3 = (bdirty s2)(n := True)"
     "lh_ok s3" "logged s3 = [n]" "dblocks s3 = dblocks s2" "disksize s3 = disksize s2" "dwrites s3 = dwrites s2"
     "bufs s3 = (bufs s2)(b := (bufs s2 b)\<lparr>b_dirty := True\<rparr>)"
     "bio.more s3 = bio.more (s2\<lparr>lh_n := lh_n s3, lh_block := lh_block s3\<rparr>)"
    using L D lg by auto
  note fr3 = log_frame [OF L'(12)]
  have oth: "b_refcnt (bufs s3 b) = 1" "\<forall>j<NBUF. j \<noteq> b \<longrightarrow> idle_buf (bufs s3 j)"
    using r(4,5) L'(11) by (simp_all add: s2_def set_data_def)
  obtain s4 where s4: "brelse b s3 = Ok s4" "wrote [] s3 s4" "bio.more s4 = bio.more s3"
    using release_idle [OF L'(1-3) oth] by blast
  note fr4 = log_frame [OF s4(3)]
  have g: "l_start s4 = l_start s" "l_size s4 = l_size s" "l_dev s4 = l_dev s" "lh_ok s4" "logged s4 = [n]"
    "disksize s4 = disksize s" "dblocks s4 = dblocks s" "dwrites s4 = dwrites s" "bview s4 = (bview s)(n := d)"
    "bdirty s4 = (\<lambda>m. m = n)"
    using fr fr3 fr4 L' s4(2) r(6-8) D ok(4) by (auto simp: lh_ok_def logged_def wrote_def same_disk_def fun_eq_iff)
  have "lh_n s4 = 1"
    using g(4,5) by (cases "nat (lh_n s4)") (auto simp: lh_ok_def logged_def length_take dest!: arg_cong [of _ _ length])
  moreover have "bio_ok s4" "bio_idle s4" using s4(2) by (simp_all add: wrote_def)
  ultimately have "log_ready s4"
    using g ok(3) l(2) n(1) by (auto simp: log_ready_def log_geom_def lh_ok_def home_blk_def)
  then show ?thesis using r(1) w s4(1) g by (auto simp: s2_def)
qed

section \<open>Commits cut short\<close>

lemma commit_atomic:
  assumes "log_ready s" and "sb_ok (l_start s) (l_size s) (disksize s) (dblocks s)"
    and "head_n (l_start s) (dblocks s) = 0" and "1 \<notin> set (logged s)"
  shows "\<exists>s'. commit s = Ok s' \<and>
    (\<forall>k dk. (cut_recovery (disksize s))\<^sup>*\<^sup>*
         (apply_writes (take k (drop (length (dwrites s)) (dwrites s'))) (dblocks s)) dk \<longrightarrow>
       (\<exists>r. initlog 1 (log_boot (disksize s) dk) = Ok r \<and>
         (\<forall>m<disksize s. m \<notin> log_area (l_start s) (l_size s) \<longrightarrow>
            dblocks r m = (if k \<le> nat (lh_n s) then dblocks s m else bview s (of_nat m)))))"
proof -
  obtain s' where s': "commit s = Ok s'" "wrote (commit_writes s) s s'"
    using commit_ok [OF assms(1)] by blast
  have ws: "drop (length (dwrites s)) (dwrites s') = disk_writes (commit_writes s)"
    using s'(2) by (simp add: wrote_def)
  let ?new = "apply_writes (map (\<lambda>i. (unat (logged s ! i), bview s (lh_block s ! i))) [0..<length (logged s)]) (dblocks s)"
  have "\<exists>r. initlog 1 (log_boot (disksize s) dk) = Ok r \<and>
         (\<forall>m<disksize s. m \<notin> log_area (l_start s) (l_size s) \<longrightarrow>
            dblocks r m = (if k \<le> nat (lh_n s) then dblocks s m else bview s (of_nat m)))"
    if cut: "(cut_recovery (disksize s))\<^sup>*\<^sup>* (apply_writes (take k (disk_writes (commit_writes s))) (dblocks s)) dk" for k dk
  proof -
    note C = commit_prefix [OF assms, of k]
    note R = cut_recoveries [OF cut, of "l_start s" "l_size s"]
    obtain r where "initlog 1 (log_boot (disksize s) dk) = Ok r"
      "home_eq (l_start s) (l_size s) (dblocks r) (recovered (l_start s) dk)"
      using recovered_initlog [of "l_start s" "l_size s" "disksize s" dk] R C by blast
    moreover from this(2) have "home_eq (l_start s) (l_size s) (dblocks r)
        (if k \<le> nat (lh_n s) then dblocks s else ?new)"
      using C R by (auto simp: home_eq_def)
    ultimately show ?thesis
      using committed_view [OF assms(1)] by (auto simp: home_eq_def)
  qed
  then show ?thesis using s'(1) ws by auto
qed

lemma idle_atomic:
  assumes "sb_ok start sz dsz dk" "head_n start dk = 0" "(cut_recovery dsz)\<^sup>*\<^sup>* dk dk'"
  shows "\<exists>r. initlog 1 (log_boot dsz dk') = Ok r \<and> (\<forall>m. m \<notin> log_area start sz \<longrightarrow> dblocks r m = dk m)"
proof -
  have h: "head_ok start sz dsz dk" using assms(1,2) by (intro head_ok_empty) (simp_all add: sb_ok_def)
  note R = cut_recoveries [OF assms(3,1) h]
  obtain r where "initlog 1 (log_boot dsz dk') = Ok r" "home_eq start sz (dblocks r) (recovered start dk')"
    using recovered_initlog R by blast
  moreover have "home_eq start sz (recovered start dk) dk" by (rule recovered_home) (simp_all add: home_eq_def assms(2))
  ultimately show ?thesis using R by (auto simp: home_eq_def)
qed

section \<open>Properties: crash atomicity\<close>

text \<open>C1. Crash atomicity of a transaction. \<open>commit\<close> of a ready transaction returns, and if the
  machine stops after the first \<open>k\<close> block writes of it, and then any number of recoveries are
  cut short after any of their own block writes, the next boot succeeds, and every block outside
  the log has its contents from before the transaction if \<open>k\<close> is at most the number of logged
  blocks (the header was not written), and otherwise the contents that the transaction gave it
  in memory.\<close>

theorem commit_crash_atomic:
  assumes "log_ready s" and "sb_ok (l_start s) (l_size s) (disksize s) (dblocks s)"
    and "head_n (l_start s) (dblocks s) = 0" and "1 \<notin> set (logged s)"
  shows "\<exists>s'. commit s = Ok s' \<and>
    (\<forall>k dk. (cut_recovery (disksize s))\<^sup>*\<^sup>*
         (apply_writes (take k (drop (length (dwrites s)) (dwrites s'))) (dblocks s)) dk \<longrightarrow>
       (\<exists>r. initlog 1 (log_boot (disksize s) dk) = Ok r \<and>
         (\<forall>m<disksize s. m \<notin> log_area (l_start s) (l_size s) \<longrightarrow>
            dblocks r m = (if k \<le> nat (lh_n s) then dblocks s m else bview s (of_nat m)))))"
  by (rule commit_atomic [OF assms])

theorem commit_crash_atomic_witness:
  "\<exists>(s :: log_st) s' r1 r2. commit s = Ok s' \<and> dwrites s = [] \<and>
     initlog 1 (log_boot 8 (apply_writes (take 1 (dwrites s')) (dblocks s))) = Ok r1 \<and>
     dblocks r1 6 = replicate 512 0 \<and>
     initlog 1 (log_boot 8 (apply_writes (take 2 (dwrites s')) (dblocks s))) = Ok r2 \<and>
     dblocks r2 6 = replicate 512 7"
proof -
  define sb :: superblock where "sb = \<lparr>sb_size = 8, sb_nblocks = 2, sb_ninodes = 0, sb_nlog = 4, sb_logstart = 2,
     sb_inodestart = 6, sb_bmapstart = 6\<rparr>"
  define dk :: "nat \<Rightarrow> block" where
    "dk = (\<lambda>_. replicate 512 0)(1 := encode_sb sb @ replicate 484 0)"
  have len: "\<forall>n<8. length (dk n) = BSIZE" by (simp add: dk_def encode_sb_def)
  note B = log_boot_facts [OF len]
  let ?s0 = "log_boot 8 dk"
  define s0 where "s0 = ?s0\<lparr>l_start := 2, l_size := 4, l_dev := 1\<rparr>\<lparr>l_outstanding := 1\<rparr>"
  have s0: "bio_ok s0" "bio_idle s0" "\<And>m. \<not> bdirty s0 m" "\<And>n. bview s0 n = dk (unat n)" "disksize s0 = 8"
    "dwrites s0 = []" "dblocks s0 = dk" "lh_n s0 = 0" "lh_ok s0"
    using B by (simp_all add: s0_def bio_ok_def bio_idle_def bdirty_def bview_def lh_ok_def log_boot_def binit_def
        cong: option.case_cong)
  have f: "log_geom s0" "home_blk s0 6" "1 \<le> l_outstanding s0" "3 \<le> l_size s0" "l_start s0 = 2" "l_size s0 = 4"
    using s0(5) by (simp_all add: log_geom_def home_blk_def log_area_def s0_def)
  note T = transaction_ready [OF s0(1,2) f(1) s0(3) s0(9,8) f(3,4,2), of "replicate 512 7"]
  obtain s :: log_st where s: "log_ready s" "logged s = [6]" "bview s = (bview s0)(6 := replicate 512 7)"
     "dblocks s = dk" "dwrites s = []" "disksize s = 8" "l_start s = 2" "l_size s = 4"
    using T s0(5-7) f(5,6) by auto
  have n: "nat (lh_n s) = 1"
    using arg_cong [OF s(2), of length] s(1) by (auto simp: logged_def log_ready_def)
  have "sb_ok (l_start s) (l_size s) (disksize s) (dblocks s)"
    using len by (simp add: sb_ok_def s dk_def sb_def)
  moreover have "head_n (l_start s) (dblocks s) = 0"
    by (simp add: head_n_def s dk_def)
  ultimately obtain s' where s': "commit s = Ok s'"
     "\<And>k. \<exists>r. initlog 1 (log_boot (disksize s) (apply_writes (take k (dwrites s')) (dblocks s))) = Ok r \<and>
         (\<forall>m<disksize s. m \<notin> log_area (l_start s) (l_size s) \<longrightarrow>
            dblocks r m = (if k \<le> nat (lh_n s) then dblocks s m else bview s (of_nat m)))"
    using commit_crash_atomic [OF s(1)] s(2,5) by fastforce
  obtain r1 where r1: "initlog 1 (log_boot 8 (apply_writes (take 1 (dwrites s')) dk)) = Ok r1"
    "dblocks r1 6 = replicate 512 0"
    using s'(2) [of 1] n by (auto simp: s log_area_def dk_def)
  obtain r2 where r2: "initlog 1 (log_boot 8 (apply_writes (take 2 (dwrites s')) dk)) = Ok r2"
    "dblocks r2 6 = replicate 512 7"
    using s'(2) [of 2] n by (auto simp: s log_area_def)
  show ?thesis using s'(1) s(4,5) r1 r2 by blast
qed

section \<open>Log space\<close>

lemma bget_pick_more: "bget_pick dev n s = Ok (b, s') \<Longrightarrow> bio.more s' = bio.more s"
  by (auto simp: bget_pick_def simp del: bget_find.simps bget_free.simps split: option.splits)

lemma bread_more: "bread dev n s = Ok (b, s') \<Longrightarrow> bio.more s' = bio.more s"
  by (auto simp: bread_def bget_def lock_buf_def iderw_def Let_def split: if_splits dest!: bget_pick_more)

lemma bwrite_more: "bwrite b s = Ok s' \<Longrightarrow> bio.more s' = bio.more s"
  by (auto simp: bwrite_def iderw_def Let_def split: if_splits)

lemma brelse_more: "brelse b s = Ok s' \<Longrightarrow> bio.more s' = bio.more s"
  by (auto simp: brelse_def Let_def split: if_splits)

lemma set_data_more [simp]: "bio.more (set_data b d s) = bio.more s"
  by (simp add: set_data_def)

lemmas more_frame = bread_more bwrite_more brelse_more

lemma install_one_more: "install_one t s = Ok s' \<Longrightarrow> bio.more s' = bio.more s"
  by (auto simp: install_one_def split: if_splits dest!: more_frame)

lemma write_log_one_more: "write_log_one t s = Ok s' \<Longrightarrow> bio.more s' = bio.more s"
  by (auto simp: write_log_one_def split: if_splits dest!: more_frame)

lemma write_head_more: "write_head s = Ok s' \<Longrightarrow> bio.more s' = bio.more s"
  by (auto simp: write_head_def split: if_splits dest!: more_frame)

lemma commit_more:
  assumes "commit s = Ok s'"
  shows "bio.more s' = bio.more (if 0 < lh_n s then s\<lparr>lh_n := 0\<rparr> else s)"
proof (cases "0 < lh_n s")
  case True
  with assms obtain s1 s2 s3 where c: "write_log s = Ok s1" "write_head s1 = Ok s2" "install_trans s2 = Ok s3"
      "write_head (s3\<lparr>lh_n := 0\<rparr>) = Ok s'"
    by (auto simp: commit_def)
  have "bio.more s1 = bio.more s"
    by (rule kfold_invariant [OF c(1) [unfolded write_log_def], of "\<lambda>t. bio.more t = bio.more s"])
      (auto dest: write_log_one_more)
  moreover have "bio.more s2 = bio.more s1" using write_head_more [OF c(2)] .
  moreover have "bio.more s3 = bio.more s2"
    by (rule kfold_invariant [OF c(3) [unfolded install_trans_def], of "\<lambda>t. bio.more t = bio.more s2"])
      (auto dest: install_one_more)
  moreover have "bio.more s' = bio.more (s3\<lparr>lh_n := 0\<rparr>)" using write_head_more [OF c(4)] .
  ultimately show ?thesis using True by (cases s; cases s3) simp
qed (use assms in \<open>simp add: commit_def\<close>)

lemma log_write_guards:
  assumes "log_write b s = Ok s'" "lh_ok s"
  shows "lh_ok s'" "lh_n s' \<le> lh_n s + 1" "l_outstanding s' = l_outstanding s" "l_committing s' = l_committing s"
proof -
  note H = log_write_header [OF assms(2,1)]
  then show "lh_ok s'" by simp
  have "length (logged s') \<le> Suc (length (logged s))" using H by simp
  then show "lh_n s' \<le> lh_n s + 1" using H assms(2) by (auto simp: lh_ok_def logged_def min_def split: if_splits)
  show "l_outstanding s' = l_outstanding s" "l_committing s' = l_committing s"
    using assms(1) by (auto simp: log_write_def Let_def upd_buf_def split: if_splits)
qed

lemma reserve_step: "log_step m x y \<Longrightarrow> m \<le> MAXOPBLOCKS \<Longrightarrow> reserve_ok x \<Longrightarrow> reserve_ok y"
proof (induction rule: log_step.induct)
  case (begins s s' us)
  have "sum_list (map (\<lambda>u. MAXOPBLOCKS - u) us) \<le> length us * MAXOPBLOCKS"
    by (induction us) auto
  with begins show ?case
    by (auto simp: reserve_ok_def begin_op_def lh_ok_def split: if_splits)
next
  case (logs b s s' u us vs)
  have lh: "lh_ok s" using logs.prems by (simp add: reserve_ok_def)
  show ?case
    using logs log_write_guards [OF logs(1) lh] by (auto simp: reserve_ok_def)
next
  case (ends s s' us u vs)
  then show ?case by (auto simp: reserve_ok_def end_op_enter_def Let_def lh_ok_def split: if_splits)
next
  case (commits s s1 s2 us u vs)
  then have e: "s1 = s\<lparr>l_outstanding := 0, l_committing := True\<rparr>" "int (length us) + int (length vs) = 0"
    by (auto simp: reserve_ok_def end_op_enter_def Let_def split: if_splits)
  then have "length us = 0" "length vs = 0" by linarith+
  with e have e: "s1 = s\<lparr>l_outstanding := 0, l_committing := True\<rparr>" "us = []" "vs = []" by simp_all
  note f = log_frame [OF commit_more [OF commits(2)]]
  show ?case using commits.prems e f by (auto simp: reserve_ok_def lh_ok_def split: if_splits)
next
  case (other s' s us)
  then show ?case using log_frame [OF other(1)] by (simp add: reserve_ok_def lh_ok_def)
qed

lemma reserve_run: "(log_step m)\<^sup>*\<^sup>* x y \<Longrightarrow> m \<le> MAXOPBLOCKS \<Longrightarrow> reserve_ok x \<Longrightarrow> reserve_ok y"
  by (induction rule: rtranclp_induct) (auto intro: reserve_step)

section \<open>Properties: log space\<close>

text \<open>C9. If no file system call logs more than \<open>MAXOPBLOCKS - 1\<close> blocks, then however the calls
  are interleaved, a call that may still log a block does not make \<open>log_write\<close> panic, on a log
  of \<open>LOGSIZE\<close> blocks: the space that \<open>begin_op\<close> reserves is enough.\<close>

theorem log_space_suffices:
  assumes "reserve_ok (init, [])" and "(log_step (MAXOPBLOCKS - 1))\<^sup>*\<^sup>* (init, []) (s, us @ u # vs)"
    and "u < MAXOPBLOCKS - 1" and "l_size s = int LOGSIZE"
  shows "\<exists>s'. log_write b s = Ok s'"
proof -
  have r: "reserve_ok (s, us @ u # vs)" using reserve_run [OF assms(2) _ assms(1)] by simp
  then have "lh_n s + int (MAXOPBLOCKS - u) \<le> int LOGSIZE" by (auto simp: reserve_ok_def)
  moreover have "0 < l_outstanding s" using r by (simp add: reserve_ok_def)
  ultimately show ?thesis using assms(3,4) by (simp add: log_write_def Let_def)
qed

theorem log_space_suffices_witness:
  "let s0 = (log_boot 8 (\<lambda>_. []))\<lparr>l_size := 30\<rparr>; s = s0\<lparr>l_outstanding := 1\<rparr>
   in reserve_ok (s0, []) \<and> (log_step 9)\<^sup>*\<^sup>* (s0, []) (s, [0]) \<and> (\<exists>s'. log_write 0 s = Ok s')"
proof -
  let ?s0 = "(log_boot 8 (\<lambda>_. []))\<lparr>l_size := 30\<rparr>"
  have r: "reserve_ok (?s0, [])" by (simp add: reserve_ok_def lh_ok_def log_boot_def binit_def)
  have "log_step 9 (?s0, []) (?s0\<lparr>l_outstanding := 1\<rparr>, [0])"
    by (rule log_step.begins) (simp add: begin_op_def log_boot_def binit_def)
  then have run: "(log_step 9)\<^sup>*\<^sup>* (?s0, []) (?s0\<lparr>l_outstanding := 1\<rparr>, [0])" by (rule r_into_rtranclp)
  then have "\<exists>s'. log_write 0 (?s0\<lparr>l_outstanding := 1\<rparr>) = Ok s'"
    using log_space_suffices [where init = ?s0 and s = "?s0\<lparr>l_outstanding := 1\<rparr>" and us = "[]" and u = 0 and vs = "[]"] r by simp
  with r run show ?thesis by (simp add: Let_def)
qed

lemma fill_log:
  assumes "\<forall>j<NBUF. b_blockno (bufs s j) = of_nat j" and "lh_ok s" "lh_n s = 0" "l_size s = 30"
    and "l_outstanding s = 3" and "k \<le> 29"
  shows "\<exists>s'. (log_step MAXOPBLOCKS)\<^sup>*\<^sup>* (s, [0, 0, 0]) (s', [min 10 k, min 10 (k - 10), k - 20]) \<and>
     (\<forall>j<NBUF. b_blockno (bufs s' j) = of_nat j) \<and> lh_ok s' \<and> lh_n s' = int k \<and> l_size s' = 30 \<and>
     l_outstanding s' = 3 \<and> logged s' = map of_nat [0..<k]"
  using assms(6)
proof (induction k)
  case 0
  then show ?case using assms by (intro exI [of _ s]) (simp add: logged_def)
next
  case (Suc k)
  then obtain s1 where s1: "(log_step MAXOPBLOCKS)\<^sup>*\<^sup>* (s, [0, 0, 0]) (s1, [min 10 k, min 10 (k - 10), k - 20])"
     "\<forall>j<NBUF. b_blockno (bufs s1 j) = of_nat j" "lh_ok s1" "lh_n s1 = int k" "l_size s1 = 30"
     "l_outstanding s1 = 3" "logged s1 = map of_nat [0..<k]"
    by auto
  obtain s2 where w: "log_write k s1 = Ok s2"
    using s1(4-6) Suc.prems by (auto simp: log_write_def Let_def)
  note H = log_write_header [OF s1(3) w]
  have "unat (of_nat j :: u32) = j" if "j < 30" for j using that by (simp add: unat_of_nat)
  then have "(of_nat k :: u32) \<notin> set (map of_nat [0..<k])"
    using Suc.prems by (auto dest!: arg_cong [of _ _ unat])
  then have lg: "logged s2 = map of_nat [0..<Suc k]" using H s1(2,7) Suc.prems by simp
  have n2: "lh_n s2 = int (Suc k)"
    using arg_cong [OF lg, of length] H by (auto simp: logged_def lh_ok_def min_def split: if_splits)
  have s2: "bufs s2 = (bufs s1)(k := (bufs s1 k)\<lparr>b_dirty := True\<rparr>)" "l_size s2 = l_size s1"
     "l_outstanding s2 = l_outstanding s1"
    using w by (auto simp: log_write_def Let_def upd_buf_def split: if_splits)
  consider "k < 10" | "10 \<le> k" "k < 20" | "20 \<le> k" by linarith
  then have "log_step MAXOPBLOCKS (s1, [min 10 k, min 10 (k - 10), k - 20])
               (s2, [min 10 (Suc k), min 10 (Suc k - 10), Suc k - 20])"
  proof cases
    case 1
    then show ?thesis using log_step.logs [OF w, of k 10 "[]" "[0, 0]"] by simp
  next
    case 2
    then obtain j where "k = 10 + j" "j < 10" by (intro that [of "k - 10"]) auto
    then show ?thesis using log_step.logs [OF w, of j 10 "[10]" "[0]"] by simp
  next
    case 3
    then obtain j where "k = 20 + j" "j < 10" using Suc.prems by (intro that [of "k - 20"]) auto
    then show ?thesis using log_step.logs [OF w, of j 10 "[10, 10]" "[]"] by simp
  qed
  then show ?case
    using s1 s2 H n2 lg by (intro exI [of _ s2]) (auto intro: rtranclp.rtrancl_into_rtrancl)
qed

text \<open>C10. With \<open>MAXOPBLOCKS\<close> blocks per call, as \<open>param.h\<close> allows, the reservation is one block
  short: on the log of \<open>LOGSIZE\<close> blocks that \<open>mkfs\<close> makes, three calls that \<open>begin_op\<close> has
  admitted reach a state in which one of them, with a block of its budget left, makes
  \<open>log_write\<close> panic, because \<open>begin_op\<close> counts \<open>LOGSIZE\<close> blocks and \<open>log_write\<close> only
  \<open>log.size - 1\<close>.\<close>

theorem log_space_one_short:
  "\<exists>(s0 :: log_st) s b. reserve_ok (s0, []) \<and> l_size s0 = int LOGSIZE \<and>
     (log_step MAXOPBLOCKS)\<^sup>*\<^sup>* (s0, []) (s, [10, 10, 9]) \<and>
     log_write b s = Panic ''too big a transaction''"
proof -
  let ?s0 = "(log_boot 8 (\<lambda>_. []))\<lparr>l_size := 30, bufs := \<lambda>j. zero_buf\<lparr>b_blockno := of_nat j\<rparr>\<rparr>"
  have f: "lh_ok ?s0" "lh_n ?s0 = 0" "\<not> l_committing ?s0" "l_outstanding ?s0 = 0"
    by (simp_all add: lh_ok_def log_boot_def binit_def)
  have b: "log_step 10 (?s0\<lparr>l_outstanding := i\<rparr>, us) (?s0\<lparr>l_outstanding := i + 1\<rparr>, 0 # us)" if "i < 3" for i us
    using that f by (intro log_step.begins) (simp add: begin_op_def)
  have e: "?s0\<lparr>l_outstanding := 0\<rparr> = ?s0" using f(4) by (cases "log_boot 8 (\<lambda>_. [])") simp
  have "(log_step 10)\<^sup>*\<^sup>* (?s0, []) (?s0\<lparr>l_outstanding := 3\<rparr>, [0, 0, 0])"
    using b [of 0 "[]"] b [of 1 "[0]"] b [of 2 "[0, 0]"]
    unfolding e by (simp add: rtranclp.rtrancl_into_rtrancl)
  moreover obtain s where "(log_step 10)\<^sup>*\<^sup>* (?s0\<lparr>l_outstanding := 3\<rparr>, [0, 0, 0]) (s, [10, 10, 9])"
    "lh_n s = 29" "l_size s = 30"
    using fill_log [of "?s0\<lparr>l_outstanding := 3\<rparr>" 29] f by (auto simp: lh_ok_def)
  moreover have "log_write 0 s = Panic ''too big a transaction''"
    using \<open>lh_n s = 29\<close> \<open>l_size s = 30\<close> by (simp add: log_write_def)
  moreover have "reserve_ok (?s0, [])" using f by (simp add: reserve_ok_def)
  ultimately show ?thesis by (intro exI [of _ ?s0] exI [of _ s] exI [of _ 0]) (auto intro: rtranclp_trans)
qed

end
