(* ===== verification/Strings.thy ===== *)
theory Strings
  imports Prelude
begin

text \<open>
  The memory and string routines: \<open>string.c\<close> of the kernel and \<open>ulib.c\<close> of the user
  library, over a flat byte memory. Pointers are addresses (\<open>nat\<close>), a C string is the
  run of non-zero bytes at an address. A loop with a byte budget recurses on it; a loop that
  only a NUL byte ends is a partial function whose value \<open>None\<close> means that it does not end.
\<close>

type_synonym mem = "nat \<Rightarrow> u8"

section \<open>Definitions: string.c\<close>

text \<open>The string instructions of \<open>x86.h\<close> that \<open>memset\<close> uses.\<close>

fun stosb :: "mem \<Rightarrow> nat \<Rightarrow> u32 \<Rightarrow> nat \<Rightarrow> mem" where
  "stosb m a c 0 = m"
| "stosb m a c (Suc n) = stosb (m(a := ucast c)) (a + 1) c n"

definition store32 :: "mem \<Rightarrow> nat \<Rightarrow> u32 \<Rightarrow> mem" where
  "store32 m a w = m(a := ucast w, a + 1 := ucast (drop_bit 8 w),
     a + 2 := ucast (drop_bit 16 w), a + 3 := ucast (drop_bit 24 w))"

fun stosl :: "mem \<Rightarrow> nat \<Rightarrow> u32 \<Rightarrow> nat \<Rightarrow> mem" where
  "stosl m a w 0 = m"
| "stosl m a w (Suc n) = stosl (store32 m a w) (a + 4) w n"

definition memset :: "mem \<Rightarrow> nat \<Rightarrow> u32 \<Rightarrow> nat \<Rightarrow> mem" where
  "memset m dst c n =
     (if dst mod 4 = 0 \<and> n mod 4 = 0
      then (let c' = c AND 0xFF
            in stosl m dst (push_bit 24 c' OR push_bit 16 c' OR push_bit 8 c' OR c') (n div 4))
      else stosb m dst c n)"

fun memcmp :: "mem \<Rightarrow> nat \<Rightarrow> nat \<Rightarrow> nat \<Rightarrow> int" where
  "memcmp m s1 s2 0 = 0"
| "memcmp m s1 s2 (Suc n) =
     (if m s1 \<noteq> m s2 then uint (m s1) - uint (m s2) else memcmp m (s1 + 1) (s2 + 1) n)"

text \<open>The two copying loops of \<open>memmove\<close>: \<open>*d++ = *s++\<close> and \<open>*--d = *--s\<close>.\<close>

fun copy_up :: "mem \<Rightarrow> nat \<Rightarrow> nat \<Rightarrow> nat \<Rightarrow> mem" where
  "copy_up m d s 0 = m"
| "copy_up m d s (Suc n) = copy_up (m(d := m s)) (d + 1) (s + 1) n"

fun copy_down :: "mem \<Rightarrow> nat \<Rightarrow> nat \<Rightarrow> nat \<Rightarrow> mem" where
  "copy_down m d s 0 = m"
| "copy_down m d s (Suc n) = copy_down (m(d - 1 := m (s - 1))) (d - 1) (s - 1) n"

definition memmove :: "mem \<Rightarrow> nat \<Rightarrow> nat \<Rightarrow> nat \<Rightarrow> mem" where
  "memmove m dst src n =
     (if src < dst \<and> dst < src + n then copy_down m (dst + n) (src + n) n
      else copy_up m dst src n)"

definition memcpy :: "mem \<Rightarrow> nat \<Rightarrow> nat \<Rightarrow> nat \<Rightarrow> mem" where
  "memcpy m dst src n = memmove m dst src n"

fun strncmp :: "mem \<Rightarrow> nat \<Rightarrow> nat \<Rightarrow> nat \<Rightarrow> int" where
  "strncmp m p q 0 = 0"
| "strncmp m p q (Suc n) =
     (if m p \<noteq> 0 \<and> m p = m q then strncmp m (p + 1) (q + 1) n else uint (m p) - uint (m q))"

text \<open>\<open>strncpy\<close>: the copying loop (memory, destination and budget left), then the padding.\<close>

fun strncpy_copy :: "mem \<Rightarrow> nat \<Rightarrow> nat \<Rightarrow> nat \<Rightarrow> mem \<times> nat \<times> nat" where
  "strncpy_copy m s t 0 = (m, s, 0)"
| "strncpy_copy m s t (Suc n) =
     (if m t \<noteq> 0 then strncpy_copy (m(s := m t)) (s + 1) (t + 1) n
      else (m(s := m t), s + 1, n))"

fun strncpy_pad :: "mem \<Rightarrow> nat \<Rightarrow> nat \<Rightarrow> mem" where
  "strncpy_pad m s 0 = m"
| "strncpy_pad m s (Suc n) = strncpy_pad (m(s := 0)) (s + 1) n"

definition strncpy :: "mem \<Rightarrow> nat \<Rightarrow> nat \<Rightarrow> int \<Rightarrow> mem" where
  "strncpy m s t n = (case strncpy_copy m s t (nat n) of (m', s', n') \<Rightarrow> strncpy_pad m' s' n')"

fun safestrcpy_copy :: "mem \<Rightarrow> nat \<Rightarrow> nat \<Rightarrow> nat \<Rightarrow> mem \<times> nat" where
  "safestrcpy_copy m s t 0 = (m, s)"
| "safestrcpy_copy m s t (Suc n) =
     (if m t \<noteq> 0 then safestrcpy_copy (m(s := m t)) (s + 1) (t + 1) n
      else (m(s := m t), s + 1))"

definition safestrcpy :: "mem \<Rightarrow> nat \<Rightarrow> nat \<Rightarrow> int \<Rightarrow> mem" where
  "safestrcpy m s t n =
     (if n \<le> 0 then m
      else case safestrcpy_copy m s t (nat (n - 1)) of (m', s') \<Rightarrow> m'(s' := 0))"

partial_function (option) strlen_loop :: "mem \<Rightarrow> nat \<Rightarrow> nat \<Rightarrow> nat option" where
  "strlen_loop m s n = (if m (s + n) \<noteq> 0 then strlen_loop m s (n + 1) else Some n)"

definition strlen :: "mem \<Rightarrow> nat \<Rightarrow> nat option" where
  "strlen m s = strlen_loop m s 0"

section \<open>Definitions: ulib.c\<close>

partial_function (option) strcpy :: "mem \<Rightarrow> nat \<Rightarrow> nat \<Rightarrow> mem option" where
  "strcpy m s t = (if m t \<noteq> 0 then strcpy (m(s := m t)) (s + 1) (t + 1) else Some (m(s := m t)))"

partial_function (option) strcmp :: "mem \<Rightarrow> nat \<Rightarrow> nat \<Rightarrow> int option" where
  "strcmp m p q =
     (if m p \<noteq> 0 \<and> m p = m q then strcmp m (p + 1) (q + 1) else Some (uint (m p) - uint (m q)))"

text \<open>The null pointer is \<open>Some None\<close>.\<close>

partial_function (option) strchr :: "mem \<Rightarrow> nat \<Rightarrow> u8 \<Rightarrow> nat option option" where
  "strchr m s c =
     (if m s \<noteq> 0 then (if m s = c then Some (Some s) else strchr m (s + 1) c) else Some None)"

text \<open>\<open>atoi\<close> computes in a C \<open>int\<close>, as the machine does: modulo \<open>2 ^ 32\<close>. The user
  library's \<open>strlen\<close> is the kernel's, and its \<open>memset\<close> is \<open>stosb\<close> alone.\<close>

partial_function (option) atoi_loop :: "mem \<Rightarrow> nat \<Rightarrow> u32 \<Rightarrow> u32 option" where
  "atoi_loop m s n =
     (if 48 \<le> m s \<and> m s \<le> 57 then atoi_loop m (s + 1) (n * 10 + ucast (m s) - 48) else Some n)"

definition atoi :: "mem \<Rightarrow> nat \<Rightarrow> u32 option" where
  "atoi m s = atoi_loop m s 0"

definition memset_u :: "mem \<Rightarrow> nat \<Rightarrow> u32 \<Rightarrow> nat \<Rightarrow> mem" where
  "memset_u m dst c n = stosb m dst c n"

definition memmove_u :: "mem \<Rightarrow> nat \<Rightarrow> nat \<Rightarrow> int \<Rightarrow> mem" where
  "memmove_u m dst src n = copy_up m dst src (nat n)"

text \<open>
  \<open>gets\<close> reads standard input one byte at a time: \<open>inp\<close> holds the bytes that the
  calls of \<open>read(0, &c, 1)\<close> deliver, an exhausted list stands for the call that returns
  less than 1. The result is the memory and the input left.
\<close>

function gets_loop :: "mem \<Rightarrow> nat \<Rightarrow> nat \<Rightarrow> int \<Rightarrow> u8 list \<Rightarrow> mem \<times> nat \<times> u8 list" where
  "gets_loop m buf i mx inp =
     (if int i + 1 < mx
      then (case inp of
              [] \<Rightarrow> (m, i, [])
            | c # rest \<Rightarrow>
                (let m' = m(buf + i := c)
                 in if c = 10 \<or> c = 13 then (m', i + 1, rest)
                    else gets_loop m' buf (i + 1) mx rest))
      else (m, i, inp))"
  by pat_completeness auto
termination
  by (relation "measure (\<lambda>(m, buf, i, mx, inp). nat (mx - int i))") auto

definition gets :: "mem \<Rightarrow> nat \<Rightarrow> int \<Rightarrow> u8 list \<Rightarrow> mem \<times> u8 list" where
  "gets m buf mx inp =
     (case gets_loop m buf 0 mx inp of (m', i, rest) \<Rightarrow> (m'(buf + i := 0), rest))"

declare gets_loop.simps [simp del]

section \<open>Specification vocabulary\<close>

definition bytes :: "mem \<Rightarrow> nat \<Rightarrow> nat \<Rightarrow> u8 list" where
  "bytes m a n = map m [a..<a + n]"

definition cstrn :: "mem \<Rightarrow> nat \<Rightarrow> nat \<Rightarrow> u8 list" where
  "cstrn m a n = takeWhile (\<lambda>b. b \<noteq> 0) (bytes m a n)"

definition cstring :: "mem \<Rightarrow> nat \<Rightarrow> u8 list \<Rightarrow> bool" where
  "cstring m a xs \<longleftrightarrow> bytes m a (length xs) = xs \<and> 0 \<notin> set xs \<and> m (a + length xs) = 0"

definition disjoint_ranges :: "nat \<Rightarrow> nat \<Rightarrow> nat \<Rightarrow> nat \<Rightarrow> bool" where
  "disjoint_ranges a n b k \<longleftrightarrow> a + n \<le> b \<or> b + k \<le> a"

section \<open>Lemmas\<close>

lemma length_bytes [simp]: "length (bytes m a n) = n"
  by (simp add: bytes_def)

lemma nth_bytes [simp]: "i < n \<Longrightarrow> bytes m a n ! i = m (a + i)"
  by (simp add: bytes_def)

lemma bytes_0 [simp]: "bytes m a 0 = []"
  by (simp add: bytes_def)

lemma bytes_Suc: "bytes m a (Suc n) = m a # bytes m (Suc a) n"
  by (simp add: bytes_def upt_rec)

lemma bytes_cong: "(\<And>i. i < n \<Longrightarrow> m (a + i) = m' (b + i)) \<Longrightarrow> bytes m a n = bytes m' b n"
  by (rule nth_equalityI) simp_all

lemma bytes_upd_other [simp]: "x < a \<or> a + n \<le> x \<Longrightarrow> bytes (m(x := v)) a n = bytes m a n"
  by (auto simp: bytes_def)

lemma cstrn_0 [simp]: "cstrn m a 0 = []"
  by (simp add: cstrn_def)

lemma cstrn_Suc: "cstrn m a (Suc n) = (if m a = 0 then [] else m a # cstrn m (Suc a) n)"
  by (simp add: cstrn_def bytes_Suc)

lemma length_cstrn_le: "length (cstrn m a n) \<le> n"
  by (metis cstrn_def length_bytes length_takeWhile_le)

lemma cstring_Nil [simp]: "cstring m a [] \<longleftrightarrow> m a = 0"
  by (simp add: cstring_def)

lemma cstring_Cons [simp]:
  "cstring m a (x # xs) \<longleftrightarrow> m a = x \<and> x \<noteq> 0 \<and> cstring m (Suc a) xs"
  by (auto simp: cstring_def bytes_Suc)

lemma stosb_apply: "stosb m a c n x = (if a \<le> x \<and> x < a + n then ucast c else m x)"
proof (induction n arbitrary: m a)
  case (Suc n)
  show ?case unfolding stosb.simps Suc by auto
qed auto

lemma stosl_apply:
  assumes "ucast w = b" "ucast (drop_bit 8 w) = b" "ucast (drop_bit 16 w) = b"
    "ucast (drop_bit 24 w) = b"
  shows "stosl m a w n x = (if a \<le> x \<and> x < a + 4 * n then b else m x)"
  using assms
proof (induction m a w n rule: stosl.induct)
  case (2 m a w n)
  have "store32 m a w x = (if a \<le> x \<and> x < a + 4 then b else m x)"
    using 2(2-5) by (auto simp: store32_def)
  then show ?case
    using 2 by auto
qed auto

lemma replicated_byte:
  fixes c :: u32
  defines "c' \<equiv> c AND 0xFF"
  defines "w \<equiv> push_bit 24 c' OR push_bit 16 c' OR push_bit 8 c' OR c'"
  shows "(ucast w :: u8) = ucast c" "(ucast (drop_bit 8 w) :: u8) = ucast c"
    "(ucast (drop_bit 16 w) :: u8) = ucast c" "(ucast (drop_bit 24 w) :: u8) = ucast c"
proof -
  have c': "bit c' k \<longleftrightarrow> k < 8 \<and> bit c k" for k
    unfolding c'_def by (cases "k < 8") (auto simp: bit_simps less_Suc_eq numeral_eq_Suc)
  show "(ucast w :: u8) = ucast c" "(ucast (drop_bit 8 w) :: u8) = ucast c"
    "(ucast (drop_bit 16 w) :: u8) = ucast c" "(ucast (drop_bit 24 w) :: u8) = ucast c"
    by (rule bit_word_eqI, auto simp: w_def bit_simps c')+
qed

lemma copy_up_apply:
  assumes "d \<le> s \<or> s + n \<le> d"
  shows "copy_up m d s n x = (if d \<le> x \<and> x < d + n then m (s + (x - d)) else m x)"
  using assms
proof (induction m d s n rule: copy_up.induct)
  case (2 m d s n)
  have IH: "copy_up (m(d := m s)) (d + 1) (s + 1) n x =
      (if d + 1 \<le> x \<and> x < d + 1 + n then (m(d := m s)) (s + 1 + (x - (d + 1)))
       else (m(d := m s)) x)"
    using 2(2) by (intro 2(1)) linarith
  show ?case
    unfolding copy_up.simps IH using 2(2) by (auto intro: arg_cong [where f = m])
qed auto

lemma copy_down_apply:
  assumes "s \<le> d" "n \<le> s"
  shows "copy_down m d s n x = (if d - n \<le> x \<and> x < d then m (x - (d - s)) else m x)"
  using assms
proof (induction m d s n rule: copy_down.induct)
  case (2 m d s n)
  have IH: "copy_down (m(d - 1 := m (s - 1))) (d - 1) (s - 1) n x =
      (if d - 1 - n \<le> x \<and> x < d - 1
       then (m(d - 1 := m (s - 1))) (x - (d - 1 - (s - 1)))
       else (m(d - 1 := m (s - 1))) x)"
    using 2(2,3) by (intro 2(1)) linarith+
  have "d - 1 - (s - 1) = d - s"
    using 2(3) by linarith
  then show ?case
    unfolding copy_down.simps IH using 2(2,3) by auto
qed auto

lemma strncpy_pad_apply: "strncpy_pad m s n x = (if s \<le> x \<and> x < s + n then 0 else m x)"
proof (induction n arbitrary: m s)
  case (Suc n)
  show ?case unfolding strncpy_pad.simps Suc by auto
qed auto

lemma strncpy_0 [simp]: "strncpy m s t 0 = m"
  by (simp add: strncpy_def)

lemma strncpy_Suc:
  "strncpy m s t (int (Suc n)) =
     (if m t \<noteq> 0 then strncpy (m(s := m t)) (s + 1) (t + 1) (int n)
      else strncpy_pad (m(s := 0)) (s + 1) n)"
  by (simp add: strncpy_def nat_add_distrib del: of_nat_Suc)

lemma cstrn_upd_other [simp]: "x < a \<or> a + n \<le> x \<Longrightarrow> cstrn (m(x := v)) a n = cstrn m a n"
  by (simp add: cstrn_def)

lemma strncpy_frame: "x < s \<or> s + n \<le> x \<Longrightarrow> strncpy m s t (int n) x = m x"
proof (induction n arbitrary: m s t)
  case (Suc n)
  then have "strncpy (m(s := m t)) (s + 1) (t + 1) (int n) x = (m(s := m t)) x"
    by (intro Suc.IH) linarith
  then show ?case
    using Suc.prems by (simp only: strncpy_Suc) (auto simp: strncpy_pad_apply)
qed simp

lemma strncpy_bytes:
  "disjoint_ranges s n t n \<Longrightarrow> bytes (strncpy m s t (int n)) s n =
     cstrn m t n @ replicate (n - length (cstrn m t n)) 0"
proof (induction n arbitrary: m s t)
  case (Suc n)
  then have d: "disjoint_ranges (s + 1) n (t + 1) n" "s < t + 1 \<or> t + 1 + n \<le> s"
    by (auto simp: disjoint_ranges_def)
  show ?case
  proof (cases "m t = 0")
    case True
    then have "bytes (strncpy m s t (int (Suc n))) s (Suc n) = bytes (\<lambda>_. 0) s (Suc n)"
      by (intro bytes_cong) (simp only: strncpy_Suc, auto simp: strncpy_pad_apply)
    then show ?thesis
      using True by (simp add: cstrn_Suc bytes_def map_replicate_const)
  next
    case False
    have "strncpy (m(s := m t)) (s + 1) (t + 1) (int n) s = m t"
      by (subst strncpy_frame) simp_all
    moreover have "bytes (strncpy (m(s := m t)) (s + 1) (t + 1) (int n)) (s + 1) n =
        cstrn m (t + 1) n @ replicate (n - length (cstrn m (t + 1) n)) 0"
      using d(2) by (subst Suc.IH [OF d(1)]) (simp only: cstrn_upd_other)
    ultimately show ?thesis
      using False by (simp only: strncpy_Suc bytes_Suc cstrn_Suc) simp
  qed
qed simp

definition safestrcpy_result :: "mem \<Rightarrow> nat \<Rightarrow> nat \<Rightarrow> nat \<Rightarrow> mem" where
  "safestrcpy_result m s t n = (case safestrcpy_copy m s t n of (m', s') \<Rightarrow> m'(s' := 0))"

lemma safestrcpy_result_0: "safestrcpy_result m s t 0 = m(s := 0)"
  by (simp add: safestrcpy_result_def)

lemma safestrcpy_result_Suc:
  "safestrcpy_result m s t (Suc n) =
     (if m t \<noteq> 0 then safestrcpy_result (m(s := m t)) (s + 1) (t + 1) n
      else m(s := 0, s + 1 := 0))"
  by (simp add: safestrcpy_result_def)

lemma safestrcpy_eq: "safestrcpy m s t (int (Suc n)) = safestrcpy_result m s t n"
  by (simp add: safestrcpy_def safestrcpy_result_def)

lemma safestrcpy_frame: "x < s \<or> s + n < x \<Longrightarrow> safestrcpy_result m s t n x = m x"
proof (induction n arbitrary: m s t)
  case (Suc n)
  then have "safestrcpy_result (m(s := m t)) (s + 1) (t + 1) n x = (m(s := m t)) x"
    by (intro Suc.IH) linarith
  then show ?case
    using Suc.prems by (auto simp: safestrcpy_result_Suc simp del: fun_upd_apply) auto
qed (auto simp: safestrcpy_result_0)

lemma safestrcpy_cstrn:
  "disjoint_ranges s (Suc n) t n \<Longrightarrow> cstrn (safestrcpy_result m s t n) s (Suc n) = cstrn m t n"
proof (induction n arbitrary: m s t)
  case 0
  show ?case by (simp add: safestrcpy_result_0 cstrn_Suc)
next
  case (Suc n)
  then have d: "disjoint_ranges (s + 1) (Suc n) (t + 1) n" "s < t + 1 \<or> t + 1 + n \<le> s"
    by (auto simp: disjoint_ranges_def)
  show ?case
  proof (cases "m t = 0")
    case True
    then show ?thesis by (simp add: safestrcpy_result_Suc cstrn_Suc)
  next
    case False
    have "safestrcpy_result (m(s := m t)) (s + 1) (t + 1) n s = m t"
      by (subst safestrcpy_frame) simp_all
    moreover have "cstrn (safestrcpy_result (m(s := m t)) (s + 1) (t + 1) n) (s + 1) (Suc n) =
        cstrn m (t + 1) n"
      using d(2) by (subst Suc.IH [OF d(1)]) (simp only: cstrn_upd_other)
    ultimately show ?thesis
      using False
      by (simp only: cstrn_Suc [of _ s "Suc n"] cstrn_Suc [of m t n] safestrcpy_result_Suc) simp
  qed
qed

lemma strncmp_eq_0_cstrn: "strncmp m p q n = 0 \<longleftrightarrow> cstrn m p n = cstrn m q n"
proof (induction m p q n rule: strncmp.induct)
  case (2 m p q n)
  show ?case
  proof (cases "m p \<noteq> 0 \<and> m p = m q")
    case True
    then show ?thesis using 2 by (simp add: cstrn_Suc)
  next
    case False
    then have "strncmp m p q (Suc n) = 0 \<longleftrightarrow> m p = m q"
      by (simp only: strncmp.simps if_False uint_diff_eq_0)
    then show ?thesis using False by (auto simp: cstrn_Suc)
  qed
qed simp

lemma strlen_loop_cstring: "cstring m (s + n) xs \<Longrightarrow> strlen_loop m s n = Some (n + length xs)"
proof (induction xs arbitrary: n)
  case Nil
  then show ?case by (simp add: strlen_loop.simps)
next
  case (Cons x xs)
  then have "strlen_loop m s (n + 1) = Some (n + 1 + length xs)" by (intro Cons.IH) simp
  then show ?case using Cons.prems by (subst strlen_loop.simps) simp
qed

lemma memmove_apply:
  "memmove m dst src n x = (if dst \<le> x \<and> x < dst + n then m (src + (x - dst)) else m x)"
proof (cases "src < dst \<and> dst < src + n")
  case True
  then have "x - (dst + n - (src + n)) = src + (x - dst)" if "dst \<le> x"
    using that by linarith
  then show ?thesis
    using True by (simp add: memmove_def copy_down_apply)
next
  case False
  then show ?thesis
    by (auto simp: memmove_def copy_up_apply)
qed

lemma cstrn_append_zero:
  "bytes m a n = xs @ replicate (n - length xs) 0 \<Longrightarrow> 0 \<notin> set xs \<Longrightarrow> cstrn m a n = xs"
  by (auto simp: cstrn_def takeWhile_append)

lemma zero_notin_cstrn [simp]: "0 \<notin> set (cstrn m a n)"
  by (auto simp: cstrn_def dest: set_takeWhileD)

section \<open>Properties\<close>

text \<open>\<open>memset\<close> fills exactly the \<open>n\<close> bytes at \<open>dst\<close> with the low byte of
  \<open>c\<close>, whichever of its two paths (four bytes at a time, or byte by byte) it takes.\<close>

theorem memset_fills:
  "memset m dst c n = (\<lambda>x. if dst \<le> x \<and> x < dst + n then ucast c else m x)"
proof (rule ext)
  fix x
  show "memset m dst c n x = (if dst \<le> x \<and> x < dst + n then ucast c else m x)"
  proof (cases "dst mod 4 = 0 \<and> n mod 4 = 0")
    case True
    then have "4 * (n div 4) = n" by auto
    then show ?thesis
      unfolding memset_def Let_def if_P [OF True] stosl_apply [OF replicated_byte] by simp
  next
    case False
    show ?thesis
      unfolding memset_def if_not_P [OF False] stosb_apply ..
  qed
qed

text \<open>C19. \<open>memmove\<close> leaves at \<open>dst\<close> the \<open>n\<close> bytes that stood at \<open>src\<close> before the
  call and changes nothing else, for every overlap of the two ranges.\<close>

theorem memmove_correct:
  "memmove m dst src n = (\<lambda>x. if dst \<le> x \<and> x < dst + n then m (src + (x - dst)) else m x)"
  by (rule ext) (rule memmove_apply)

text \<open>A name stored with \<open>strncpy\<close> in a field of \<open>n\<close> bytes compares equal, under
  \<open>strncmp\<close> of that width, with exactly the names that agree with the source up to \<open>n\<close>
  bytes; the field is zero-padded and nothing outside it changes.\<close>

theorem strncpy_strncmp:
  assumes "disjoint_ranges s n t n" "disjoint_ranges s n q n"
  shows "bytes (strncpy m s t (int n)) s n =
           cstrn m t n @ replicate (n - length (cstrn m t n)) 0 \<and>
         (strncmp (strncpy m s t (int n)) s q n = 0 \<longleftrightarrow> cstrn m t n = cstrn m q n) \<and>
         (\<forall>x. x < s \<or> s + n \<le> x \<longrightarrow> strncpy m s t (int n) x = m x)"
proof (intro conjI)
  show b: "bytes (strncpy m s t (int n)) s n =
      cstrn m t n @ replicate (n - length (cstrn m t n)) 0"
    using assms(1) by (rule strncpy_bytes)
  have "bytes (strncpy m s t (int n)) q n = bytes m q n"
    using assms(2) by (intro bytes_cong strncpy_frame) (auto simp: disjoint_ranges_def)
  then have "cstrn (strncpy m s t (int n)) q n = cstrn m q n"
    by (simp add: cstrn_def)
  with cstrn_append_zero [OF b]
  show "strncmp (strncpy m s t (int n)) s q n = 0 \<longleftrightarrow> cstrn m t n = cstrn m q n"
    by (simp add: strncmp_eq_0_cstrn)
  show "\<forall>x. x < s \<or> s + n \<le> x \<longrightarrow> strncpy m s t (int n) x = m x"
    using strncpy_frame by blast
qed

theorem strncpy_strncmp_witness:
  "disjoint_ranges 0 3 10 3 \<and> disjoint_ranges 0 3 20 3 \<and>
   bytes (strncpy ((\<lambda>_. 0)(10 := 97, 11 := 98, 20 := 97, 21 := 98)) 0 10 (int 3)) 0 3 = [97, 98, 0]"
proof -
  have d: "disjoint_ranges 0 3 10 3" "disjoint_ranges 0 3 20 3"
    by (simp_all add: disjoint_ranges_def)
  have "cstrn ((\<lambda>_. 0)(10 := 97, 11 := 98, 20 := 97, 21 := 98)) 10 3 = [97, 98]"
    by (simp add: cstrn_def bytes_def upt_rec)
  then show ?thesis
    using d strncpy_strncmp [OF d, of "(\<lambda>_. 0)(10 := 97, 11 := 98, 20 := 97, 21 := 98)"]
    by simp
qed

text \<open>\<open>safestrcpy\<close> with a positive size always leaves a NUL-terminated string inside
  the destination: the source cut to \<open>n - 1\<close> bytes. With a size that is not positive it
  writes nothing.\<close>

theorem safestrcpy_terminated:
  assumes "0 < n" "disjoint_ranges s (nat n) t (nat n - 1)"
  shows "cstrn (safestrcpy m s t n) s (nat n) = cstrn m t (nat n - 1) \<and>
         length (cstrn (safestrcpy m s t n) s (nat n)) < nat n \<and>
         (\<forall>x. x < s \<or> s + nat n \<le> x \<longrightarrow> safestrcpy m s t n x = m x)"
proof -
  obtain k where k: "n = int (Suc k)"
    using assms(1) by (metis Suc_pred int_nat_eq less_imp_le zero_less_nat_eq)
  then have nk: "nat n = Suc k" by simp
  with assms(2) have d: "disjoint_ranges s (Suc k) t k" by simp
  have eq: "safestrcpy m s t n = safestrcpy_result m s t k"
    unfolding k by (rule safestrcpy_eq)
  have "length (cstrn m t k) < Suc k"
    using length_cstrn_le [of m t k] by simp
  then show ?thesis
    unfolding eq nk using safestrcpy_cstrn [OF d] by (auto intro: safestrcpy_frame)
qed

theorem safestrcpy_terminated_witness:
  "let m = (\<lambda>_. 1)(10 := 97, 11 := 98, 12 := 99) in
   disjoint_ranges 0 (nat 3) 10 (nat 3 - 1) \<and>
   cstrn (safestrcpy m 0 10 3) 0 3 = [97, 98]"
proof -
  have d: "0 < (3 :: int)" "disjoint_ranges 0 (nat 3) 10 (nat 3 - 1)"
    by (simp_all add: disjoint_ranges_def)
  show ?thesis
    using safestrcpy_terminated [OF d, of "(\<lambda>_. 1)(10 := 97, 11 := 98, 12 := 99)"] d
    by (simp add: Let_def cstrn_def [of _ 10] bytes_def [of _ 10] upt_rec)
qed

end
