(* ===== verification/Fs.thy ===== *)
theory Fs
  imports Log Strings
begin

text \<open>
  The block allocator, the inode layer, directories and path names of \<open>fs.c\<close>, over the log. A
  cached inode is named by its index in \<open>icache.inode\<close>; the cache lock is held over each search
  and each change of a reference count, which are single steps here, and the sleep lock of an
  inode is modelled. What \<open>devsw\<close> points to and the current directory of the process are
  arguments of the definitions that use them. A C string is the list of its bytes before the
  terminating zero; a \<open>char[DIRSIZ]\<close> array is the list of its bytes.
\<close>

section \<open>State\<close>

record inode =
  i_dev :: u32
  i_inum :: u32
  i_ref :: int
  i_lock :: sleeplock
  i_valid :: bool
  i_type :: u16
  i_major :: u16
  i_minor :: u16
  i_nlink :: u16
  i_size :: u32
  i_addrs :: "u32 list"

record fs = log_st +
  sb :: superblock
  inodes :: "nat \<Rightarrow> inode"

record stat_st =
  st_type :: u16
  st_dev :: u32
  st_ino :: u32
  st_nlink :: u16
  st_size :: u32

text \<open>\<open>struct devsw\<close>: the read and write functions of the devices, by major number.\<close>

record 's devsw =
  dev_read :: "nat \<Rightarrow> (nat \<Rightarrow> u32 \<Rightarrow> 's \<Rightarrow> (int \<times> u8 list \<times> 's) res) option"
  dev_write :: "nat \<Rightarrow> (nat \<Rightarrow> u8 list \<Rightarrow> 's \<Rightarrow> (int \<times> 's) res) option"

abbreviation (input) T_DIR :: u16 where "T_DIR \<equiv> 1"
abbreviation (input) T_FILE :: u16 where "T_FILE \<equiv> 2"
abbreviation (input) T_DEV :: u16 where "T_DEV \<equiv> 3"

definition upd_inode :: "nat \<Rightarrow> (inode \<Rightarrow> inode) \<Rightarrow> 'a fs_scheme \<Rightarrow> 'a fs_scheme" where
  "upd_inode i f s = s\<lparr>inodes := (inodes s)(i := f (inodes s i))\<rparr>"

section \<open>Blocks\<close>

definition bzero :: "u32 \<Rightarrow> u32 \<Rightarrow> 'a fs_scheme \<Rightarrow> ('a fs_scheme) res" where
  "bzero dev bno s =
     kbind (bread dev bno s) (\<lambda>(bp, s).
     kbind (log_write bp (set_data bp (replicate BSIZE 0) s)) (\<lambda>s. brelse bp s))"

definition bit_mask :: "nat \<Rightarrow> u8" where
  "bit_mask bi = push_bit (bi mod 8) 1"

definition bit_clear :: "block \<Rightarrow> nat \<Rightarrow> bool" where
  "bit_clear d bi \<longleftrightarrow> d ! (bi div 8) AND bit_mask bi = 0"

text \<open>The two loops of \<open>balloc\<close>: \<open>bs\<close> lists the first block numbers of the bitmap blocks that
  are still to be searched.\<close>

fun balloc_scan :: "u32 \<Rightarrow> nat list \<Rightarrow> 'a fs_scheme \<Rightarrow> (u32 \<times> 'a fs_scheme) res" where
  "balloc_scan dev [] s = Panic ''balloc: out of blocks''"
| "balloc_scan dev (b # bs) s =
     kbind (bread dev (BBLOCK (of_nat b) (sb s)) s) (\<lambda>(bp, s).
       let d = b_data (bufs s bp) in
       case List.find (bit_clear d) [0..<min BPB (unat (sb_size (sb s)) - b)] of
         Some bi \<Rightarrow>
           kbind (log_write bp (set_data bp (d[bi div 8 := d ! (bi div 8) OR bit_mask bi]) s)) (\<lambda>s.
           kbind (brelse bp s) (\<lambda>s.
           kbind (bzero dev (of_nat (b + bi)) s) (\<lambda>s. Ok (of_nat (b + bi), s))))
       | None \<Rightarrow> kbind (brelse bp s) (\<lambda>s. balloc_scan dev bs s))"

definition balloc :: "u32 \<Rightarrow> 'a fs_scheme \<Rightarrow> (u32 \<times> 'a fs_scheme) res" where
  "balloc dev s =
     balloc_scan dev (map (\<lambda>k. k * BPB) [0..<(unat (sb_size (sb s)) + BPB - 1) div BPB]) s"

definition bfree :: "u32 \<Rightarrow> u32 \<Rightarrow> 'a fs_scheme \<Rightarrow> ('a fs_scheme) res" where
  "bfree dev b s =
     kbind (bread dev (BBLOCK b (sb s)) s) (\<lambda>(bp, s).
       let d = b_data (bufs s bp); bi = unat b mod BPB in
       if bit_clear d bi then Panic ''freeing free block''
       else kbind (log_write bp (set_data bp (d[bi div 8 := d ! (bi div 8) AND NOT (bit_mask bi)]) s))
              (\<lambda>s. brelse bp s))"

section \<open>Inodes\<close>

definition iinit :: "u32 \<Rightarrow> 'a fs_scheme \<Rightarrow> ('a fs_scheme) res" where
  "iinit dev s =
     (let s = s\<lparr>inodes := (\<lambda>i. if i < NINODE
                  then (inodes s i)\<lparr>i_lock := initsleeplock ''inode'' (i_lock (inodes s i))\<rparr>
                  else inodes s i)\<rparr>
      in kbind (readsb dev s) (\<lambda>(b, s). Ok (s\<lparr>sb := b\<rparr>)))"

definition inode_slot :: "u32 \<Rightarrow> nat" where
  "inode_slot inum = 64 * (unat inum mod IPB)"

definition dinode_at :: "u32 \<Rightarrow> block \<Rightarrow> dinode" where
  "dinode_at inum d = decode_dinode (slice (inode_slot inum) 64 d)"

definition put_dinode :: "u32 \<Rightarrow> dinode \<Rightarrow> block \<Rightarrow> block" where
  "put_dinode inum di d = splice (inode_slot inum) (encode_dinode di) d"

definition iget :: "u32 \<Rightarrow> u32 \<Rightarrow> 'a fs_scheme \<Rightarrow> (nat \<times> 'a fs_scheme) res" where
  "iget dev inum s =
     (case List.find (\<lambda>i. 0 < i_ref (inodes s i) \<and> i_dev (inodes s i) = dev \<and> i_inum (inodes s i) = inum)
             [0..<NINODE] of
        Some i \<Rightarrow> Ok (i, upd_inode i (\<lambda>ip. ip\<lparr>i_ref := i_ref ip + 1\<rparr>) s)
      | None \<Rightarrow>
          (case List.find (\<lambda>i. i_ref (inodes s i) = 0) [0..<NINODE] of
             None \<Rightarrow> Panic ''iget: no inodes''
           | Some i \<Rightarrow> Ok (i, upd_inode i (\<lambda>ip. ip\<lparr>i_dev := dev, i_inum := inum, i_ref := 1,
                               i_valid := False\<rparr>) s)))"

fun ialloc_scan :: "u32 \<Rightarrow> u16 \<Rightarrow> nat list \<Rightarrow> 'a fs_scheme \<Rightarrow> (nat \<times> 'a fs_scheme) res" where
  "ialloc_scan dev type [] s = Panic ''ialloc: no inodes''"
| "ialloc_scan dev type (inum # is) s =
     kbind (bread dev (IBLOCK (of_nat inum) (sb s)) s) (\<lambda>(bp, s).
       let d = b_data (bufs s bp) in
       if d_type (dinode_at (of_nat inum) d) = 0 then
         kbind (log_write bp (set_data bp (put_dinode (of_nat inum)
             \<lparr>d_type = type, d_major = 0, d_minor = 0, d_nlink = 0, d_size = 0, d_addrs = replicate 13 0\<rparr> d) s)) (\<lambda>s.
         kbind (brelse bp s) (\<lambda>s. iget dev (of_nat inum) s))
       else kbind (brelse bp s) (\<lambda>s. ialloc_scan dev type is s))"

definition ialloc :: "u32 \<Rightarrow> u16 \<Rightarrow> 'a fs_scheme \<Rightarrow> (nat \<times> 'a fs_scheme) res" where
  "ialloc dev type s = ialloc_scan dev type [1..<unat (sb_ninodes (sb s))] s"

definition dinode_of :: "inode \<Rightarrow> dinode" where
  "dinode_of ip = \<lparr>d_type = i_type ip, d_major = i_major ip, d_minor = i_minor ip,
     d_nlink = i_nlink ip, d_size = i_size ip, d_addrs = i_addrs ip\<rparr>"

definition iupdate :: "nat \<Rightarrow> 'a fs_scheme \<Rightarrow> ('a fs_scheme) res" where
  "iupdate i s =
     (let ip = inodes s i in
      kbind (bread (i_dev ip) (IBLOCK (i_inum ip) (sb s)) s) (\<lambda>(bp, s).
      kbind (log_write bp (set_data bp (put_dinode (i_inum ip) (dinode_of ip) (b_data (bufs s bp))) s)) (\<lambda>s.
      brelse bp s)))"

definition idup :: "nat \<Rightarrow> 'a fs_scheme \<Rightarrow> nat \<times> 'a fs_scheme" where
  "idup i s = (i, upd_inode i (\<lambda>ip. ip\<lparr>i_ref := i_ref ip + 1\<rparr>) s)"

definition load_inode :: "dinode \<Rightarrow> inode \<Rightarrow> inode" where
  "load_inode di ip = ip\<lparr>i_type := d_type di, i_major := d_major di, i_minor := d_minor di,
     i_nlink := d_nlink di, i_size := d_size di, i_addrs := d_addrs di\<rparr>"

definition ilock :: "nat \<Rightarrow> 'a fs_scheme \<Rightarrow> ('a fs_scheme) res" where
  "ilock i s =
     (if i_ref (inodes s i) < 1 then Panic ''ilock''
      else
        kbind (acquiresleep (curpid s) (i_lock (inodes s i))) (\<lambda>lk.
        let s = upd_inode i (\<lambda>ip. ip\<lparr>i_lock := lk\<rparr>) s; ip = inodes s i in
        if i_valid ip then Ok s
        else
          kbind (bread (i_dev ip) (IBLOCK (i_inum ip) (sb s)) s) (\<lambda>(bp, s).
          let s = upd_inode i (load_inode (dinode_at (i_inum ip) (b_data (bufs s bp)))) s in
          kbind (brelse bp s) (\<lambda>s.
          let s = upd_inode i (\<lambda>ip. ip\<lparr>i_valid := True\<rparr>) s in
          if i_type (inodes s i) = 0 then Panic ''ilock: no type'' else Ok s))))"

definition iunlock :: "nat \<Rightarrow> 'a fs_scheme \<Rightarrow> ('a fs_scheme) res" where
  "iunlock i s =
     (if \<not> holdingsleep (curpid s) (i_lock (inodes s i)) \<or> i_ref (inodes s i) < 1
      then Panic ''iunlock''
      else Ok (upd_inode i (\<lambda>ip. ip\<lparr>i_lock := releasesleep (i_lock ip)\<rparr>) s))"

section \<open>Inode content\<close>

definition bmap :: "nat \<Rightarrow> u32 \<Rightarrow> 'a fs_scheme \<Rightarrow> (u32 \<times> 'a fs_scheme) res" where
  "bmap i bn s =
     (if unat bn < NDIRECT then
        let addr = i_addrs (inodes s i) ! unat bn in
        if addr = 0 then
          kbind (balloc (i_dev (inodes s i)) s) (\<lambda>(addr, s).
            Ok (addr, upd_inode i (\<lambda>ip. ip\<lparr>i_addrs := (i_addrs ip)[unat bn := addr]\<rparr>) s))
        else Ok (addr, s)
      else
        let bn = unat bn - NDIRECT in
        if bn < NINDIRECT then
          kbind (if i_addrs (inodes s i) ! NDIRECT = 0 then
                   kbind (balloc (i_dev (inodes s i)) s) (\<lambda>(addr, s).
                     Ok (addr, upd_inode i (\<lambda>ip. ip\<lparr>i_addrs := (i_addrs ip)[NDIRECT := addr]\<rparr>) s))
                 else Ok (i_addrs (inodes s i) ! NDIRECT, s)) (\<lambda>(addr, s).
          kbind (bread (i_dev (inodes s i)) addr s) (\<lambda>(bp, s).
          let a = get32 (4 * bn) (b_data (bufs s bp)) in
          kbind (if a = 0 then
                   kbind (balloc (i_dev (inodes s i)) s) (\<lambda>(addr, s).
                   kbind (log_write bp (set_data bp (put32 (4 * bn) addr (b_data (bufs s bp))) s)) (\<lambda>s.
                   Ok (addr, s)))
                 else Ok (a, s)) (\<lambda>(addr, s).
          kbind (brelse bp s) (\<lambda>s. Ok (addr, s)))))
        else Panic ''bmap: out of range'')"

definition itrunc_direct :: "nat \<Rightarrow> nat \<Rightarrow> 'a fs_scheme \<Rightarrow> ('a fs_scheme) res" where
  "itrunc_direct i k s =
     (let addr = i_addrs (inodes s i) ! k in
      if addr \<noteq> 0 then
        kbind (bfree (i_dev (inodes s i)) addr s) (\<lambda>s.
          Ok (upd_inode i (\<lambda>ip. ip\<lparr>i_addrs := (i_addrs ip)[k := 0]\<rparr>) s))
      else Ok s)"

definition itrunc_entry :: "nat \<Rightarrow> nat \<Rightarrow> nat \<Rightarrow> 'a fs_scheme \<Rightarrow> ('a fs_scheme) res" where
  "itrunc_entry i bp j s =
     (let a = get32 (4 * j) (b_data (bufs s bp)) in
      if a \<noteq> 0 then bfree (i_dev (inodes s i)) a s else Ok s)"

definition itrunc :: "nat \<Rightarrow> 'a fs_scheme \<Rightarrow> ('a fs_scheme) res" where
  "itrunc i s =
     kbind (kfold (itrunc_direct i) [0..<NDIRECT] s) (\<lambda>s.
     kbind (if i_addrs (inodes s i) ! NDIRECT \<noteq> 0 then
              kbind (bread (i_dev (inodes s i)) (i_addrs (inodes s i) ! NDIRECT) s) (\<lambda>(bp, s).
              kbind (kfold (itrunc_entry i bp) [0..<NINDIRECT] s) (\<lambda>s.
              kbind (brelse bp s) (\<lambda>s.
              kbind (bfree (i_dev (inodes s i)) (i_addrs (inodes s i) ! NDIRECT) s) (\<lambda>s.
              Ok (upd_inode i (\<lambda>ip. ip\<lparr>i_addrs := (i_addrs ip)[NDIRECT := 0]\<rparr>) s)))))
            else Ok s) (\<lambda>s.
     iupdate i (upd_inode i (\<lambda>ip. ip\<lparr>i_size := 0\<rparr>) s)))"

definition iput :: "nat \<Rightarrow> 'a fs_scheme \<Rightarrow> ('a fs_scheme) res" where
  "iput i s =
     kbind (acquiresleep (curpid s) (i_lock (inodes s i))) (\<lambda>lk.
     let s = upd_inode i (\<lambda>ip. ip\<lparr>i_lock := lk\<rparr>) s in
     kbind (if i_valid (inodes s i) \<and> i_nlink (inodes s i) = 0 \<and> i_ref (inodes s i) = 1 then
              kbind (itrunc i s) (\<lambda>s.
              kbind (iupdate i (upd_inode i (\<lambda>ip. ip\<lparr>i_type := 0\<rparr>) s)) (\<lambda>s.
              Ok (upd_inode i (\<lambda>ip. ip\<lparr>i_valid := False\<rparr>) s)))
            else Ok s) (\<lambda>s.
     let s = upd_inode i (\<lambda>ip. ip\<lparr>i_lock := releasesleep (i_lock ip)\<rparr>) s in
     Ok (upd_inode i (\<lambda>ip. ip\<lparr>i_ref := i_ref ip - 1\<rparr>) s)))"

definition iunlockput :: "nat \<Rightarrow> 'a fs_scheme \<Rightarrow> ('a fs_scheme) res" where
  "iunlockput i s = kbind (iunlock i s) (\<lambda>s. iput i s)"

definition stati :: "nat \<Rightarrow> 'a fs_scheme \<Rightarrow> stat_st" where
  "stati i s = (let ip = inodes s i in
     \<lparr>st_type = i_type ip, st_dev = i_dev ip, st_ino = i_inum ip, st_nlink = i_nlink ip,
      st_size = i_size ip\<rparr>)"

text \<open>The copy loops of \<open>readi\<close> and \<open>writei\<close>: \<open>off\<close> is the file offset, \<open>n\<close> what is left.\<close>

function readi_loop :: "nat \<Rightarrow> nat \<Rightarrow> nat \<Rightarrow> 'a fs_scheme \<Rightarrow> (u8 list \<times> 'a fs_scheme) res" where
  "readi_loop i off n s =
     (if n = 0 then Ok ([], s)
      else
        kbind (bmap i (of_nat (off div BSIZE)) s) (\<lambda>(addr, s).
        kbind (bread (i_dev (inodes s i)) addr s) (\<lambda>(bp, s).
        let m = min n (BSIZE - off mod BSIZE); bytes = slice (off mod BSIZE) m (b_data (bufs s bp)) in
        kbind (brelse bp s) (\<lambda>s.
        kbind (readi_loop i (off + m) (n - m) s) (\<lambda>(rest, s). Ok (bytes @ rest, s))))))"
  by pat_completeness auto
termination by (relation "measure (\<lambda>(i, off, n, s). n)") auto

declare readi_loop.simps [simp del]

definition readi :: "('a fs_scheme) devsw \<Rightarrow> nat \<Rightarrow> u32 \<Rightarrow> u32 \<Rightarrow> 'a fs_scheme \<Rightarrow>
    (int \<times> u8 list \<times> 'a fs_scheme) res" where
  "readi dv i off n s =
     (let ip = inodes s i in
      if i_type ip = T_DEV then
        if sint (i_major ip) < 0 \<or> int NDEV \<le> sint (i_major ip) then Ok (- 1, [], s)
        else (case dev_read dv (unat (i_major ip)) of
                None \<Rightarrow> Ok (- 1, [], s) | Some f \<Rightarrow> f i n s)
      else if i_size ip < off \<or> off + n < off then Ok (- 1, [], s)
      else
        let n = (if i_size ip < off + n then i_size ip - off else n) in
        kbind (readi_loop i (unat off) (unat n) s) (\<lambda>(bytes, s). Ok (sint n, bytes, s)))"

function writei_loop :: "nat \<Rightarrow> u8 list \<Rightarrow> nat \<Rightarrow> 'a fs_scheme \<Rightarrow> ('a fs_scheme) res" where
  "writei_loop i src off s =
     (if src = [] then Ok s
      else
        kbind (bmap i (of_nat (off div BSIZE)) s) (\<lambda>(addr, s).
        kbind (bread (i_dev (inodes s i)) addr s) (\<lambda>(bp, s).
        let m = min (length src) (BSIZE - off mod BSIZE) in
        kbind (log_write bp (set_data bp (splice (off mod BSIZE) (take m src) (b_data (bufs s bp))) s)) (\<lambda>s.
        kbind (brelse bp s) (\<lambda>s. writei_loop i (drop m src) (off + m) s)))))"
  by pat_completeness auto
termination by (relation "measure (\<lambda>(i, src, off, s). length src)") auto

declare writei_loop.simps [simp del]

text \<open>\<open>writei\<close> with the \<open>n\<close> bytes at \<open>src\<close>, given as the list \<open>src\<close>; \<open>n\<close> is its length.\<close>

definition writei :: "('a fs_scheme) devsw \<Rightarrow> nat \<Rightarrow> u8 list \<Rightarrow> u32 \<Rightarrow> 'a fs_scheme \<Rightarrow>
    (int \<times> 'a fs_scheme) res" where
  "writei dv i src off s =
     (let ip = inodes s i; n = of_nat (length src) :: u32 in
      if i_type ip = T_DEV then
        if sint (i_major ip) < 0 \<or> int NDEV \<le> sint (i_major ip) then Ok (- 1, s)
        else (case dev_write dv (unat (i_major ip)) of
                None \<Rightarrow> Ok (- 1, s) | Some f \<Rightarrow> f i src s)
      else if i_size ip < off \<or> off + n < off then Ok (- 1, s)
      else if of_nat (MAXFILE * BSIZE) < off + n then Ok (- 1, s)
      else
        kbind (writei_loop i src (unat off) s) (\<lambda>s.
        kbind (if 0 < n \<and> i_size (inodes s i) < off + n
               then iupdate i (upd_inode i (\<lambda>ip. ip\<lparr>i_size := off + n\<rparr>) s)
               else Ok s) (\<lambda>s. Ok (sint n, s))))"

section \<open>Directories\<close>

text \<open>The two arrays in memory, as \<open>strncmp\<close> and \<open>strncpy\<close> of \<open>string.c\<close> see them.\<close>

definition two_arrays :: "u8 list \<Rightarrow> u8 list \<Rightarrow> mem" where
  "two_arrays s t a = (if a < DIRSIZ then (if a < length s then s ! a else 0)
                       else (if a - DIRSIZ < length t then t ! (a - DIRSIZ) else 0))"

definition namecmp :: "u8 list \<Rightarrow> u8 list \<Rightarrow> int" where
  "namecmp s t = strncmp (two_arrays s t) 0 DIRSIZ DIRSIZ"

definition dirent_name :: "u8 list \<Rightarrow> u8 list" where
  "dirent_name name = bytes (strncpy (two_arrays [] name) 0 DIRSIZ (int DIRSIZ)) 0 DIRSIZ"

definition dir_offsets :: "u32 \<Rightarrow> nat list" where
  "dir_offsets sz = map (\<lambda>k. 16 * k) [0..<(unat sz + 15) div 16]"

fun dirlookup_scan :: "('a fs_scheme) devsw \<Rightarrow> nat \<Rightarrow> u8 list \<Rightarrow> nat list \<Rightarrow> 'a fs_scheme \<Rightarrow>
    ((nat \<times> u32) option \<times> 'a fs_scheme) res" where
  "dirlookup_scan dv dp name [] s = Ok (None, s)"
| "dirlookup_scan dv dp name (off # offs) s =
     kbind (readi dv dp (of_nat off) 16 s) (\<lambda>(r, bytes, s).
       if r \<noteq> 16 then Panic ''dirlookup read''
       else
         let de = decode_dirent bytes in
         if de_inum de \<noteq> 0 \<and> namecmp name (de_name de) = 0 then
           kbind (iget (i_dev (inodes s dp)) (ucast (de_inum de)) s) (\<lambda>(ip, s).
             Ok (Some (ip, of_nat off), s))
         else dirlookup_scan dv dp name offs s)"

definition dirlookup :: "('a fs_scheme) devsw \<Rightarrow> nat \<Rightarrow> u8 list \<Rightarrow> 'a fs_scheme \<Rightarrow>
    ((nat \<times> u32) option \<times> 'a fs_scheme) res" where
  "dirlookup dv dp name s =
     (if i_type (inodes s dp) \<noteq> T_DIR then Panic ''dirlookup not DIR''
      else dirlookup_scan dv dp name (dir_offsets (i_size (inodes s dp))) s)"

fun dirlink_scan :: "('a fs_scheme) devsw \<Rightarrow> nat \<Rightarrow> nat list \<Rightarrow> 'a fs_scheme \<Rightarrow>
    (nat option \<times> 'a fs_scheme) res" where
  "dirlink_scan dv dp [] s = Ok (None, s)"
| "dirlink_scan dv dp (off # offs) s =
     kbind (readi dv dp (of_nat off) 16 s) (\<lambda>(r, bytes, s).
       if r \<noteq> 16 then Panic ''dirlink read''
       else if de_inum (decode_dirent bytes) = 0 then Ok (Some off, s)
       else dirlink_scan dv dp offs s)"

text \<open>When the loop of \<open>dirlink\<close> ends without an empty entry, \<open>off\<close> is the first multiple of 16
  that is not below the size.\<close>

definition dirlink :: "('a fs_scheme) devsw \<Rightarrow> nat \<Rightarrow> u8 list \<Rightarrow> u32 \<Rightarrow> 'a fs_scheme \<Rightarrow>
    (int \<times> 'a fs_scheme) res" where
  "dirlink dv dp name inum s =
     kbind (dirlookup dv dp name s) (\<lambda>(found, s).
       case found of
         Some (ip, _) \<Rightarrow> kbind (iput ip s) (\<lambda>s. Ok (- 1, s))
       | None \<Rightarrow>
           let offs = dir_offsets (i_size (inodes s dp)) in
           kbind (dirlink_scan dv dp offs s) (\<lambda>(slot, s).
             let off = (case slot of Some off \<Rightarrow> off | None \<Rightarrow> 16 * length offs);
                 de = \<lparr>de_inum = ucast inum, de_name = dirent_name name\<rparr>
             in kbind (writei dv dp (encode_dirent de) (of_nat off) s) (\<lambda>(r, s).
                  if r \<noteq> 16 then Panic ''dirlink'' else Ok (0, s))))"

section \<open>Paths\<close>

abbreviation (input) SLASH :: u8 where "SLASH \<equiv> 47"

definition skipelem :: "u8 list \<Rightarrow> u8 list \<Rightarrow> (u8 list \<times> u8 list) option" where
  "skipelem path name =
     (let path = dropWhile (\<lambda>c. c = SLASH) path in
      if path = [] then None
      else
        let s = takeWhile (\<lambda>c. c \<noteq> SLASH) path;
            path = dropWhile (\<lambda>c. c \<noteq> SLASH) path;
            name = (if DIRSIZ \<le> length s then take DIRSIZ s
                    else s @ 0 # drop (length s + 1) name)
        in Some (dropWhile (\<lambda>c. c = SLASH) path, name))"

lemma skipelem_shorter: "skipelem path name = Some (rest, name') \<Longrightarrow> length rest < length path"
proof -
  assume a: "skipelem path name = Some (rest, name')"
  define p where "p = dropWhile (\<lambda>c. c = SLASH) path"
  have ne: "p \<noteq> []" and rest: "rest = dropWhile (\<lambda>c. c = SLASH) (dropWhile (\<lambda>c. c \<noteq> SLASH) p)"
    using a by (simp_all add: skipelem_def Let_def p_def split: if_split_asm)
  have "hd p \<noteq> SLASH" unfolding p_def by (rule hd_dropWhile) (use ne p_def in simp)
  then have "dropWhile (\<lambda>c. c \<noteq> SLASH) p = dropWhile (\<lambda>c. c \<noteq> SLASH) (tl p)"
    using ne by (cases p) simp_all
  then have "length (dropWhile (\<lambda>c. c \<noteq> SLASH) p) \<le> length (tl p)"
    by (metis length_dropWhile_le)
  moreover have "length rest \<le> length (dropWhile (\<lambda>c. c \<noteq> SLASH) p)"
    unfolding rest by (rule length_dropWhile_le)
  moreover have "length p \<le> length path" unfolding p_def by (rule length_dropWhile_le)
  moreover have "length (tl p) < length p" using ne by (cases p) simp_all
  ultimately show ?thesis by linarith
qed

function namex_loop :: "('a fs_scheme) devsw \<Rightarrow> bool \<Rightarrow> nat \<Rightarrow> u8 list \<Rightarrow> u8 list \<Rightarrow> 'a fs_scheme \<Rightarrow>
    (nat option \<times> u8 list \<times> 'a fs_scheme) res" where
  "namex_loop dv parent i path name s =
     (case skipelem path name of
        None \<Rightarrow> if parent then kbind (iput i s) (\<lambda>s. Ok (None, name, s)) else Ok (Some i, name, s)
      | Some (path, name) \<Rightarrow>
          kbind (ilock i s) (\<lambda>s.
            if i_type (inodes s i) \<noteq> T_DIR then kbind (iunlockput i s) (\<lambda>s. Ok (None, name, s))
            else if parent \<and> path = [] then kbind (iunlock i s) (\<lambda>s. Ok (Some i, name, s))
            else
              kbind (dirlookup dv i name s) (\<lambda>(found, s).
              kbind (iunlockput i s) (\<lambda>s.
                case found of
                  None \<Rightarrow> Ok (None, name, s)
                | Some (next, _) \<Rightarrow> namex_loop dv parent next path name s))))"
  by pat_completeness auto
termination
  by (relation "measure (\<lambda>(dv, parent, i, path, name, s). length path)") (auto dest: skipelem_shorter)

declare namex_loop.simps [simp del]

definition namex :: "('a fs_scheme) devsw \<Rightarrow> nat \<Rightarrow> u8 list \<Rightarrow> bool \<Rightarrow> u8 list \<Rightarrow> 'a fs_scheme \<Rightarrow>
    (nat option \<times> u8 list \<times> 'a fs_scheme) res" where
  "namex dv cwd path parent name s =
     kbind (if path \<noteq> [] \<and> hd path = SLASH then iget (of_nat ROOTDEV) ROOTINO s
            else Ok (idup cwd s)) (\<lambda>(i, s).
     namex_loop dv parent i path name s)"

definition namei :: "('a fs_scheme) devsw \<Rightarrow> nat \<Rightarrow> u8 list \<Rightarrow> 'a fs_scheme \<Rightarrow>
    (nat option \<times> 'a fs_scheme) res" where
  "namei dv cwd path s =
     kbind (namex dv cwd path False (replicate DIRSIZ 0) s) (\<lambda>(i, _, s). Ok (i, s))"

definition nameiparent :: "('a fs_scheme) devsw \<Rightarrow> nat \<Rightarrow> u8 list \<Rightarrow> u8 list \<Rightarrow> 'a fs_scheme \<Rightarrow>
    (nat option \<times> u8 list \<times> 'a fs_scheme) res" where
  "nameiparent dv cwd path name s = namex dv cwd path True name s"

end
