(* ===== verification/Kalloc.thy ===== *)
theory Kalloc
  imports Strings
begin

text \<open>
  The physical page allocator, \<open>kalloc.c\<close>: the free list is threaded through the free
  pages themselves, each page holding in its first word the address of the next one. The state
  is the byte memory and the allocator's variables; \<open>kend\<close> stands for the linker symbol
  \<open>end\<close>, the first address after the kernel image. The lock \<open>kmem.lock\<close> makes each
  operation atomic, so \<open>use_lock\<close> is kept and the lock calls have no further effect here.
\<close>

section \<open>Definitions: kalloc.c\<close>

text \<open>\<open>memlayout.h\<close> and \<open>mmu.h\<close>.\<close>

abbreviation (input) KERNBASE :: u32 where "KERNBASE \<equiv> 0x80000000"
abbreviation (input) PHYSTOP :: u32 where "PHYSTOP \<equiv> 0xE000000"
abbreviation (input) PGSIZE :: nat where "PGSIZE \<equiv> 4096"

definition V2P :: "u32 \<Rightarrow> u32" where "V2P a = a - KERNBASE"
definition P2V :: "u32 \<Rightarrow> u32" where "P2V a = a + KERNBASE"

definition PGROUNDUP :: "u32 \<Rightarrow> u32" where
  "PGROUNDUP sz = (sz + 4096 - 1) AND NOT (4096 - 1)"

definition PGROUNDDOWN :: "u32 \<Rightarrow> u32" where
  "PGROUNDDOWN a = a AND NOT (4096 - 1)"

record kmem =
  use_lock :: bool
  freelist :: u32
  kmemory :: mem

text \<open>\<open>r->next\<close>: the first word of a free page.\<close>

definition run_next :: "mem \<Rightarrow> u32 \<Rightarrow> u32" where
  "run_next m r = rd32 (bytes m (unat r) 4)"

definition kfree :: "u32 \<Rightarrow> u32 \<Rightarrow> ('a kmem_scheme) \<Rightarrow> ('a kmem_scheme) res" where
  "kfree kend v s =
     (if unat v mod PGSIZE \<noteq> 0 \<or> v < kend \<or> PHYSTOP \<le> V2P v then Panic ''kfree''
      else let m1 = memset (kmemory s) (unat v) 1 PGSIZE;
               m2 = store32 m1 (unat v) (freelist s)
           in Ok (s\<lparr>kmemory := m2, freelist := v\<rparr>))"

definition kalloc :: "('a kmem_scheme) \<Rightarrow> u32 \<times> ('a kmem_scheme)" where
  "kalloc s =
     (let r = freelist s
      in if r \<noteq> 0 then (r, s\<lparr>freelist := run_next (kmemory s) r\<rparr>) else (r, s))"

function freerange_loop ::
  "u32 \<Rightarrow> nat \<Rightarrow> nat \<Rightarrow> ('a kmem_scheme) \<Rightarrow> ('a kmem_scheme) res" where
  "freerange_loop kend p vend s =
     (if p + PGSIZE \<le> vend
      then kbind (kfree kend (of_nat p) s) (\<lambda>s'. freerange_loop kend (p + PGSIZE) vend s')
      else Ok s)"
  by pat_completeness auto
termination
  by (relation "measure (\<lambda>(kend, p, vend, s). vend - p)") auto

definition freerange :: "u32 \<Rightarrow> u32 \<Rightarrow> u32 \<Rightarrow> ('a kmem_scheme) \<Rightarrow> ('a kmem_scheme) res" where
  "freerange kend vstart vend s =
     freerange_loop kend (unat (PGROUNDUP vstart)) (unat vend) s"

definition kinit1 :: "u32 \<Rightarrow> u32 \<Rightarrow> u32 \<Rightarrow> ('a kmem_scheme) \<Rightarrow> ('a kmem_scheme) res" where
  "kinit1 kend vstart vend s = freerange kend vstart vend (s\<lparr>use_lock := False\<rparr>)"

definition kinit2 :: "u32 \<Rightarrow> u32 \<Rightarrow> u32 \<Rightarrow> ('a kmem_scheme) \<Rightarrow> ('a kmem_scheme) res" where
  "kinit2 kend vstart vend s =
     kbind (freerange kend vstart vend s) (\<lambda>s'. Ok (s'\<lparr>use_lock := True\<rparr>))"

declare freerange_loop.simps [simp del]

section \<open>Specification vocabulary\<close>

definition page_ok :: "u32 \<Rightarrow> u32 \<Rightarrow> bool" where
  "page_ok kend v \<longleftrightarrow> unat v mod PGSIZE = 0 \<and> kend \<le> v \<and> V2P v < PHYSTOP \<and> v \<noteq> 0"

text \<open>\<open>freepath m r vs\<close>: following the next pointers from \<open>r\<close> visits exactly \<open>vs\<close>.\<close>

primrec freepath :: "mem \<Rightarrow> u32 \<Rightarrow> u32 list \<Rightarrow> bool" where
  "freepath m r [] \<longleftrightarrow> r = 0"
| "freepath m r (v # vs) \<longleftrightarrow> r = v \<and> v \<noteq> 0 \<and> freepath m (run_next m v) vs"

definition avail :: "u32 \<Rightarrow> ('a kmem_scheme) \<Rightarrow> u32 list \<Rightarrow> bool" where
  "avail kend s vs \<longleftrightarrow>
     freepath (kmemory s) (freelist s) vs \<and> distinct vs \<and> (\<forall>v\<in>set vs. page_ok kend v)"

definition in_page :: "u32 \<Rightarrow> nat \<Rightarrow> bool" where
  "in_page v a \<longleftrightarrow> unat v \<le> a \<and> a < unat v + PGSIZE"

definition poke :: "nat \<Rightarrow> u8 \<Rightarrow> ('a kmem_scheme) \<Rightarrow> ('a kmem_scheme)" where
  "poke a b s = s\<lparr>kmemory := (kmemory s)(a := b)\<rparr>"

section \<open>The interface of a page allocator\<close>

text \<open>
  What the clients of the allocator (page tables, kernel stacks, pipes) rely on. \<open>free\<close>
  relates a state to the pages it can still hand out, in order.
\<close>

locale page_allocator =
  fixes alloc :: "'s \<Rightarrow> u32 \<times> 's"
    and release :: "u32 \<Rightarrow> 's \<Rightarrow> 's res"
    and put :: "nat \<Rightarrow> u8 \<Rightarrow> 's \<Rightarrow> 's"
    and free :: "'s \<Rightarrow> u32 list \<Rightarrow> bool"
    and valid :: "u32 \<Rightarrow> bool"
  assumes alloc_none: "free s [] \<Longrightarrow> alloc s = (0, s)"
    and alloc_some: "free s (v # vs) \<Longrightarrow> fst (alloc s) = v \<and> free (snd (alloc s)) vs"
    and release_law: "free s vs \<Longrightarrow> valid v \<Longrightarrow> v \<notin> set vs \<Longrightarrow>
          \<exists>s'. release v s = Ok s' \<and> free s' (v # vs)"
    and put_law: "free s vs \<Longrightarrow> (\<And>v. v \<in> set vs \<Longrightarrow> \<not> in_page v a) \<Longrightarrow> free (put a b s) vs"
    and free_distinct: "free s vs \<Longrightarrow> distinct vs"
    and free_valid: "free s vs \<Longrightarrow> v \<in> set vs \<Longrightarrow> valid v"
begin

text \<open>The pages of \<open>pool\<close> are split between the clients (\<open>owned\<close>) and the free list.\<close>

definition split_pages :: "'s \<Rightarrow> u32 set \<Rightarrow> u32 set \<Rightarrow> bool" where
  "split_pages s owned pool \<longleftrightarrow>
     (\<exists>vs. free s vs \<and> owned \<inter> set vs = {} \<and> owned \<union> set vs = pool)"

lemma split_alloc:
  assumes "split_pages s owned pool" "alloc s = (v, s')" "v \<noteq> 0"
  shows "v \<notin> owned \<and> v \<in> pool \<and> valid v \<and> split_pages s' (insert v owned) pool"
proof -
  obtain vs where vs: "free s vs" "owned \<inter> set vs = {}" "owned \<union> set vs = pool"
    using assms(1) by (auto simp: split_pages_def)
  show ?thesis
  proof (cases vs)
    case Nil
    with vs(1) alloc_none assms show ?thesis by auto
  next
    case (Cons w ws)
    with vs(1) alloc_some [of s w ws] assms(2) have "v = w" "free s' ws" by auto
    moreover have "w \<notin> set ws"
      using free_distinct [OF vs(1)] Cons by simp
    moreover have "valid w"
      using free_valid [OF vs(1)] Cons by simp
    ultimately show ?thesis
      using vs Cons by (auto simp: split_pages_def)
  qed
qed

lemma split_exhausted:
  assumes "split_pages s owned pool" "alloc s = (0, s')" "\<not> valid 0"
  shows "owned = pool \<and> s' = s"
proof -
  obtain vs where vs: "free s vs" "owned \<inter> set vs = {}" "owned \<union> set vs = pool"
    using assms(1) by (auto simp: split_pages_def)
  show ?thesis
  proof (cases vs)
    case Nil
    with vs alloc_none assms show ?thesis by auto
  next
    case (Cons w ws)
    with vs(1) alloc_some [of s w ws] assms(2) have "w = 0" by auto
    with free_valid [OF vs(1), of w] Cons assms(3) show ?thesis by simp
  qed
qed

lemma split_release:
  assumes "split_pages s owned pool" "v \<in> owned" "valid v"
  shows "\<exists>s'. release v s = Ok s' \<and> split_pages s' (owned - {v}) pool"
proof -
  obtain vs where vs: "free s vs" "owned \<inter> set vs = {}" "owned \<union> set vs = pool"
    using assms(1) by (auto simp: split_pages_def)
  then have "v \<notin> set vs" using assms(2) by auto
  with release_law [OF vs(1) assms(3)] obtain s' where "release v s = Ok s'" "free s' (v # vs)"
    by blast
  then show ?thesis
    using vs assms(2) by (auto simp: split_pages_def intro!: exI [of _ "v # vs"])
qed

lemma split_put:
  assumes "split_pages s owned pool" "\<And>v. v \<in> pool - owned \<Longrightarrow> \<not> in_page v a"
  shows "split_pages (put a b s) owned pool"
  using assms put_law unfolding split_pages_def by blast

end

section \<open>Lemmas\<close>

lemma and_not_mask_eq: "a AND NOT (mask 12) = push_bit 12 (drop_bit 12 (a::u32))"
proof (rule bit_word_eqI)
  fix n assume "n < LENGTH(32)"
  then show "bit (a AND NOT (mask 12)) n = bit (push_bit 12 (drop_bit 12 a)) n"
    by (cases "n < 12") (simp_all add: bit_simps)
qed

lemma unat_push_drop: "unat (push_bit 12 (drop_bit 12 (a::u32))) = unat a div 4096 * 4096"
proof -
  have lt: "unat a < 2 ^ 32" using unsigned_less [of a, where 'a = nat] by simp
  have "unat a div 4096 * 4096 \<le> unat a" by simp
  with lt have lt2: "unat a div 4096 * 4096 < 2 ^ 32" by (rule order.strict_trans1 [rotated])
  have "unat (push_bit 12 (drop_bit 12 a)) = take_bit 32 (push_bit 12 (unat (drop_bit 12 a)))"
    by (simp only: unsigned_push_bit_eq) simp
  also have "unat (drop_bit 12 a) = unat a div 4096"
    by (simp add: drop_bit_eq_div unat_div)
  also have "push_bit 12 (unat a div 4096) = unat a div 4096 * 4096"
    by (simp add: push_bit_eq_mult)
  also have "take_bit 32 (unat a div 4096 * 4096) = unat a div 4096 * 4096"
    using lt2 by (simp only: take_bit_nat_eq_self)
  finally show ?thesis .
qed

lemma unat_PGROUNDDOWN: "unat (PGROUNDDOWN a) = unat a div PGSIZE * PGSIZE"
proof -
  have n: "NOT (4096 - 1 :: u32) = NOT (mask 12)" by (simp add: mask_eq_exp_minus_1)
  show ?thesis unfolding PGROUNDDOWN_def n and_not_mask_eq by (rule unat_push_drop)
qed

lemma PGROUNDUP_eq: "PGROUNDUP a = PGROUNDDOWN (a + 4095)"
  by (simp add: PGROUNDUP_def PGROUNDDOWN_def add.commute)

lemma unat_PGROUNDUP:
  assumes "unat a + 4095 < 2 ^ 32"
  shows "unat (PGROUNDUP a) = (unat a + 4095) div PGSIZE * PGSIZE"
proof -
  have "unat (a + 4095) = unat a + 4095"
    using assms by (subst unat_add_lem [THEN iffD1]) simp_all
  then show ?thesis by (simp add: PGROUNDUP_eq unat_PGROUNDDOWN)
qed

lemma memset_apply: "memset m d c n x = (if d \<le> x \<and> x < d + n then ucast c else m x)"
proof (cases "d mod 4 = 0 \<and> n mod 4 = 0")
  case True
  then have "4 * (n div 4) = n" by auto
  then show ?thesis
    unfolding memset_def Let_def if_P [OF True] stosl_apply [OF replicated_byte] by simp
next
  case False
  show ?thesis unfolding memset_def if_not_P [OF False] stosb_apply ..
qed

lemma store32_other: "x < a \<or> a + 4 \<le> x \<Longrightarrow> store32 m a w x = m x"
  by (auto simp: store32_def)

lemma bytes_store32 [simp]: "bytes (store32 m a w) a 4 = le32 w"
  by (simp add: bytes_def store32_def le32_def upt_rec numeral_eq_Suc)

lemma run_next_store32 [simp]: "run_next (store32 m (unat v) w) v = w"
  using rd32_le32 [of w "[]"] by (simp add: run_next_def)

lemma run_next_cong:
  "(\<And>x. in_page r x \<Longrightarrow> m x = m' x) \<Longrightarrow> run_next m r = run_next m' r"
  unfolding run_next_def by (intro arg_cong [where f = rd32] bytes_cong) (simp add: in_page_def)

lemma freepath_cong:
  "(\<And>v x. v \<in> set vs \<Longrightarrow> in_page v x \<Longrightarrow> m x = m' x) \<Longrightarrow> freepath m r vs = freepath m' r vs"
proof (induction vs arbitrary: r)
  case (Cons v vs)
  then have "run_next m v = run_next m' v" by (intro run_next_cong) (metis list.set_intros(1))
  moreover have "freepath m r' vs = freepath m' r' vs" for r'
    by (rule Cons.IH) (metis Cons.prems list.set_intros(2))
  ultimately show ?case by simp
qed simp

lemma pages_disjoint:
  assumes "unat v mod PGSIZE = 0" "unat w mod PGSIZE = 0" "in_page v x" "in_page w x"
  shows "v = w"
proof -
  have "unat v div PGSIZE = x div PGSIZE" "unat w div PGSIZE = x div PGSIZE"
    using assms by (auto simp: in_page_def intro: div_less_iff_less_mult)
  then have "unat v = unat w"
    using assms(1,2) by (metis div_mult_mod_eq)
  then show ?thesis by (simp add: word_unat_eq_iff)
qed

lemma page_ok_mod: "page_ok kend v \<Longrightarrow> unat v mod PGSIZE = 0"
  by (simp add: page_ok_def)

lemma avail_alloc:
  assumes "avail kend s (v # vs)"
  shows "fst (kalloc s) = v" "avail kend (snd (kalloc s)) vs"
  using assms by (auto simp: avail_def kalloc_def Let_def)

lemma avail_kfree:
  assumes "avail kend s vs" "page_ok kend v" "v \<notin> set vs"
  shows "\<exists>s'. kfree kend v s = Ok s' \<and> avail kend s' (v # vs) \<and> use_lock s' = use_lock s"
proof -
  define m2 where "m2 = store32 (memset (kmemory s) (unat v) 1 PGSIZE) (unat v) (freelist s)"
  have out: "m2 x = kmemory s x" if "\<not> in_page v x" for x
    using that by (auto simp: m2_def in_page_def store32_other memset_apply)
  have "freepath m2 (freelist s) vs \<longleftrightarrow> freepath (kmemory s) (freelist s) vs"
  proof (rule freepath_cong)
    fix w x
    assume "w \<in> set vs" "in_page w x"
    then have "\<not> in_page v x"
      using assms pages_disjoint [of v w x] by (auto simp: avail_def page_ok_def)
    then show "m2 x = kmemory s x" by (rule out)
  qed
  with assms have "avail kend (s\<lparr>kmemory := m2, freelist := v\<rparr>) (v # vs)"
    by (auto simp: avail_def m2_def page_ok_def)
  moreover have "kfree kend v s = Ok (s\<lparr>kmemory := m2, freelist := v\<rparr>)"
    using assms(2) by (auto simp: kfree_def page_ok_def m2_def Let_def)
  ultimately show ?thesis by auto
qed

lemma avail_poke:
  assumes "avail kend s vs" "\<And>v. v \<in> set vs \<Longrightarrow> \<not> in_page v a"
  shows "avail kend (poke a b s) vs"
proof -
  have "freepath ((kmemory s)(a := b)) (freelist s) vs \<longleftrightarrow> freepath (kmemory s) (freelist s) vs"
    using assms(2) by (intro freepath_cong) auto
  with assms(1) show ?thesis by (simp add: avail_def poke_def)
qed

text \<open>\<open>kalloc.c\<close> provides the interface.\<close>

interpretation kpages: page_allocator kalloc "kfree kend" poke "avail kend" "page_ok kend"
proof unfold_locales
  fix s :: "'a kmem_scheme" and v vs a b
  show "avail kend s [] \<Longrightarrow> kalloc s = (0, s)"
    by (simp add: avail_def kalloc_def Let_def)
  show "avail kend s (v # vs) \<Longrightarrow> fst (kalloc s) = v \<and> avail kend (snd (kalloc s)) vs"
    using avail_alloc by blast
  show "avail kend s vs \<Longrightarrow> page_ok kend v \<Longrightarrow> v \<notin> set vs \<Longrightarrow>
      \<exists>s'. kfree kend v s = Ok s' \<and> avail kend s' (v # vs)"
    using avail_kfree by blast
  show "avail kend s vs \<Longrightarrow> (\<And>v. v \<in> set vs \<Longrightarrow> \<not> in_page v a) \<Longrightarrow> avail kend (poke a b s) vs"
    by (rule avail_poke)
  show "avail kend s vs \<Longrightarrow> distinct vs" "avail kend s vs \<Longrightarrow> v \<in> set vs \<Longrightarrow> page_ok kend v"
    by (simp_all add: avail_def)
qed

text \<open>The pages of \<open>p, p + PGSIZE, ...\<close> that end at or before \<open>vend\<close>.\<close>

definition pages_between :: "nat \<Rightarrow> nat \<Rightarrow> u32 list" where
  "pages_between p vend = map (\<lambda>i. of_nat (p + i * PGSIZE)) [0..<(vend - p) div PGSIZE]"

lemma pages_between_step:
  assumes "p + PGSIZE \<le> vend"
  shows "pages_between p vend = of_nat p # pages_between (p + PGSIZE) vend"
proof -
  have "(vend - p) div PGSIZE = Suc ((vend - (p + PGSIZE)) div PGSIZE)"
    using assms by (simp add: le_div_geq)
  then show ?thesis
    by (simp add: pages_between_def upt_conv_Cons map_Suc_upt [symmetric] add.assoc
        del: upt_Suc)
qed

lemma pages_between_stop: "\<not> p + PGSIZE \<le> vend \<Longrightarrow> pages_between p vend = []"
  by (simp add: pages_between_def)

lemma pages_between_append:
  assumes "p \<le> q" "(q - p) mod PGSIZE = 0" "q \<le> r"
  shows "pages_between p r = pages_between p q @ pages_between q r"
proof -
  obtain k where k: "q = p + k * PGSIZE"
    using assms(1,2) by (metis le_add_diff_inverse mod_0_imp_dvd dvdE mult.commute)
  have "r - p = (r - q) + k * PGSIZE"
    using assms(3) k by linarith
  then have n: "(r - p) div PGSIZE = k + (r - q) div PGSIZE"
    by simp
  have u: "[0..<k + n] = [0..<k] @ map (\<lambda>i. k + i) [0..<n]" for n
    by (rule nth_equalityI) (auto simp: nth_append)
  show ?thesis
    unfolding pages_between_def n u by (simp add: k algebra_simps)
qed

lemma pages_between_bounds:
  assumes "v \<in> set (pages_between p q)" "q < 2 ^ 32"
  shows "p \<le> unat v" "unat v + PGSIZE \<le> q"
proof -
  obtain i where i: "v = of_nat (p + i * PGSIZE)" "i < (q - p) div PGSIZE"
    using assms(1) by (auto simp: pages_between_def simp del: of_nat_add)
  then have "(i + 1) * PGSIZE \<le> q - p"
    by (simp only: less_eq_div_iff_mult_less_eq [of PGSIZE, symmetric, simplified] Suc_eq_plus1 [symmetric] Suc_le_eq)
  then have le: "p + i * PGSIZE + PGSIZE \<le> q" by simp
  then have "unat v = p + i * PGSIZE"
    using assms(2) unfolding i(1) unat_of_nat by simp
  with le show "p \<le> unat v" "unat v + PGSIZE \<le> q" by simp_all
qed

lemma page_ok_of_nat:
  assumes "p mod PGSIZE = 0" "unat kend \<le> p" "unat KERNBASE \<le> p"
    "p + PGSIZE \<le> unat KERNBASE + unat PHYSTOP"
  shows "page_ok kend (of_nat p)" "unat (of_nat p :: u32) = p"
proof -
  show u: "unat (of_nat p :: u32) = p"
    using assms(4) by (simp add: unat_of_nat)
  have "kend \<le> of_nat p" "KERNBASE \<le> of_nat p"
    using assms(2,3) u by (simp_all add: word_le_nat_alt)
  moreover from this(2) have "unat (V2P (of_nat p)) = p - unat KERNBASE"
    using u by (simp add: V2P_def unat_sub)
  then have "V2P (of_nat p) < PHYSTOP"
    using assms(3,4) by (simp add: word_less_nat_alt)
  moreover have "(of_nat p :: u32) \<noteq> 0"
    using u assms(3) by auto
  ultimately show "page_ok kend (of_nat p)"
    using assms(1) u by (simp add: page_ok_def)
qed

lemma freerange_loop_avail:
  assumes "p mod PGSIZE = 0" "unat kend \<le> p" "unat KERNBASE \<le> p"
    "vend \<le> unat KERNBASE + unat PHYSTOP" "avail kend s vs" "\<forall>v\<in>set vs. unat v < p"
  shows "\<exists>s'. freerange_loop kend p vend s = Ok s' \<and>
           avail kend s' (rev (pages_between p vend) @ vs) \<and> use_lock s' = use_lock s"
  using assms
proof (induction kend p vend s arbitrary: vs rule: freerange_loop.induct)
  case (1 kend p vend s)
  show ?case
  proof (cases "p + PGSIZE \<le> vend")
    case False
    then show ?thesis
      using "1.prems" by (subst freerange_loop.simps) (simp add: pages_between_stop)
  next
    case True
    then have ok: "page_ok kend (of_nat p)" "unat (of_nat p :: u32) = p"
      using "1.prems" page_ok_of_nat [of p kend] by auto
    then have "of_nat p \<notin> set vs" using "1.prems"(6) by auto
    with avail_kfree [OF "1.prems"(5) ok(1)] obtain s1 where
      s1: "kfree kend (of_nat p) s = Ok s1" "avail kend s1 (of_nat p # vs)"
        "use_lock s1 = use_lock s"
      by auto
    have "\<exists>s'. freerange_loop kend (p + PGSIZE) vend s1 = Ok s' \<and>
        avail kend s' (rev (pages_between (p + PGSIZE) vend) @ of_nat p # vs) \<and>
        use_lock s' = use_lock s1"
      using "1.prems" True s1 ok(2) by (intro "1.IH") auto
    then show ?thesis
      using True s1 by (subst freerange_loop.simps) (simp add: pages_between_step)
  qed
qed

section \<open>Properties\<close>

text \<open>
  The traffic of any number of clients: each step allocates a page, frees a page that is
  owned, or writes a byte of an owned page. The second component is the set of owned pages.
\<close>

inductive page_step ::
  "u32 \<Rightarrow> kmem \<times> u32 set \<Rightarrow> kmem \<times> u32 set \<Rightarrow> bool" for kend where
  step_alloc: "kalloc s = (v, s') \<Longrightarrow> v \<noteq> 0 \<Longrightarrow> page_step kend (s, owned) (s', insert v owned)"
| step_full: "kalloc s = (0, s') \<Longrightarrow> page_step kend (s, owned) (s', owned)"
| step_free: "v \<in> owned \<Longrightarrow> kfree kend v s = Ok s' \<Longrightarrow>
    page_step kend (s, owned) (s', owned - {v})"
| step_write: "v \<in> owned \<Longrightarrow> in_page v a \<Longrightarrow> page_step kend (s, owned) (poke a b s, owned)"

lemma page_run_split:
  assumes "(page_step kend)\<^sup>*\<^sup>* (s0, owned0) (s, owned)" "kpages.split_pages kend s0 owned0 pool"
    "\<forall>v\<in>owned0. page_ok kend v"
  shows "kpages.split_pages kend s owned pool \<and> (\<forall>v\<in>owned. page_ok kend v)"
  using assms
proof (induction "(s, owned)" arbitrary: s owned rule: rtranclp_induct)
  case base
  then show ?case by simp
next
  case (step y)
  obtain s1 owned1 where y: "y = (s1, owned1)" by (cases y)
  have IH: "kpages.split_pages kend s1 owned1 pool" "\<forall>v\<in>owned1. page_ok kend v"
    using step.hyps(3) [OF y] step.prems by blast+
  from step.hyps(2) [unfolded y] show ?case
  proof (cases rule: page_step.cases)
    case (step_alloc v)
    then show ?thesis using kpages.split_alloc [OF IH(1)] IH(2) by fastforce
  next
    case step_full
    then show ?thesis
      using kpages.split_exhausted [OF IH(1)] IH by (auto simp: page_ok_def)
  next
    case (step_free v)
    then show ?thesis using kpages.split_release [OF IH(1), of v] IH(2) by auto
  next
    case (step_write v a b)
    have "\<not> in_page w a" if "w \<in> pool - owned1" for w
    proof -
      have "page_ok kend w" "page_ok kend v"
        using IH that step_write kpages.free_valid by (auto simp: kpages.split_pages_def)
      then show ?thesis
        using that step_write pages_disjoint [of v w a] by (auto simp: page_ok_def)
    qed
    then show ?thesis using kpages.split_put [OF IH(1)] IH(2) step_write by auto
  qed
qed



text \<open>C14. The two initialisation phases of \<open>main()\<close>, \<open>kinit1(end, P2V(4M))\<close> and then
  \<open>kinit2(P2V(4M), P2V(PHYSTOP))\<close>, never panic and leave on the free list exactly the pages
  between the end of the kernel image and the top of physical memory, each once.\<close>

theorem kinit_frees_all:
  assumes "freelist s = 0" "KERNBASE \<le> kend" "kend \<le> P2V 0x400000"
  shows "\<exists>s1 s2. kinit1 kend kend (P2V 0x400000) s = Ok s1 \<and>
           kinit2 kend (P2V 0x400000) (P2V PHYSTOP) s1 = Ok s2 \<and>
           avail kend s2 (rev (pages_between (unat (PGROUNDUP kend)) (unat (P2V PHYSTOP)))) \<and>
           use_lock s2"
proof -
  let ?p = "unat (PGROUNDUP kend)" and ?mid = "unat (P2V 0x400000)" and ?top = "unat (P2V PHYSTOP)"
  have k: "unat KERNBASE \<le> unat kend" "unat kend \<le> ?mid"
    using assms(2,3) by (simp_all only: word_le_nat_alt)
  have mid: "?mid = 0x80400000" and top: "?top = unat KERNBASE + unat PHYSTOP"
    by (simp_all add: P2V_def)
  have p: "?p = (unat kend + 4095) div PGSIZE * PGSIZE"
    using k mid by (intro unat_PGROUNDUP) simp
  have p': "?p mod PGSIZE = 0" "unat kend \<le> ?p" "?p \<le> ?mid"
    unfolding p mid using k [unfolded mid] by simp_all
  have up: "unat (PGROUNDUP (P2V 0x400000)) = ?mid"
    by (subst unat_PGROUNDUP) (simp_all add: mid)
  have "avail kend (s\<lparr>use_lock := False\<rparr>) []"
    using assms(1) by (simp add: avail_def)
  with freerange_loop_avail [of ?p kend ?mid "s\<lparr>use_lock := False\<rparr>" "[]"] p' k mid
  obtain s1 where s1: "kinit1 kend kend (P2V 0x400000) s = Ok s1"
    "avail kend s1 (rev (pages_between ?p ?mid))"
    by (auto simp: kinit1_def freerange_def)
  have "\<forall>v\<in>set (rev (pages_between ?p ?mid)). unat v < ?mid"
    using pages_between_bounds(2) [of _ ?p ?mid] mid by fastforce
  with freerange_loop_avail [of ?mid kend ?top s1 "rev (pages_between ?p ?mid)"] k mid top s1(2)
  obtain s2 where s2: "kinit2 kend (P2V 0x400000) (P2V PHYSTOP) s1 = Ok s2" "use_lock s2"
    "avail kend s2 (rev (pages_between ?mid ?top) @ rev (pages_between ?p ?mid))"
    by (auto simp: kinit2_def freerange_def up avail_def)
  moreover have "pages_between ?p ?top = pages_between ?p ?mid @ pages_between ?mid ?top"
    using p' mid top by (intro pages_between_append) auto
  ultimately show ?thesis using s1(1) by auto
qed

theorem kinit_frees_all_witness:
  "let s = \<lparr>use_lock = True, freelist = 0, kmemory = (\<lambda>_. 0)\<rparr> in
   \<exists>s1 s2. kinit1 0x80115000 0x80115000 (P2V 0x400000) s = Ok s1 \<and>
     kinit2 0x80115000 (P2V 0x400000) (P2V PHYSTOP) s1 = Ok s2 \<and> use_lock s2"
  using kinit_frees_all [of "\<lparr>use_lock = True, freelist = 0, kmemory = (\<lambda>_. 0)\<rparr>" "0x80115000"]
  by (simp add: Let_def P2V_def) blast

end
