(* ===== verification/Vm.thy ===== *)
theory Vm
  imports Kalloc Layout
begin

text \<open>
  Page tables: \<open>vm.c\<close> over the physical memory and the page allocator of \<^verbatim>\<open>Kalloc\<close>. A page
  table is the address of its page directory; entries are words in the kernel's memory. The
  symbols \<open>end\<close> and \<open>data\<close> of the linker script are the arguments \<open>kend\<close> and \<open>kdata\<close>. What is
  only printed (\<open>cprintf\<close>) is left out. Loops over user addresses count in \<open>nat\<close>: user sizes
  are at most \<open>KERNBASE\<close>, so that the C counters do not wrap.
\<close>

section \<open>Page table entries (mmu.h)\<close>

abbreviation (input) PTE_P :: u32 where "PTE_P \<equiv> 0x001"
abbreviation (input) PTE_W :: u32 where "PTE_W \<equiv> 0x002"
abbreviation (input) PTE_U :: u32 where "PTE_U \<equiv> 0x004"
abbreviation (input) NPDENTRIES :: nat where "NPDENTRIES \<equiv> 1024"
abbreviation (input) EXTMEM :: u32 where "EXTMEM \<equiv> 0x100000"
abbreviation (input) DEVSPACE :: u32 where "DEVSPACE \<equiv> 0xFE000000"
abbreviation (input) KERNLINK :: u32 where "KERNLINK \<equiv> 0x80100000"

definition PDX :: "u32 \<Rightarrow> u32" where "PDX va = drop_bit 22 va AND 0x3FF"

definition PTX :: "u32 \<Rightarrow> u32" where "PTX va = drop_bit 12 va AND 0x3FF"

definition PGADDR :: "u32 \<Rightarrow> u32 \<Rightarrow> u32 \<Rightarrow> u32" where
  "PGADDR d t off = push_bit 22 d OR push_bit 12 t OR off"

definition PTE_ADDR :: "u32 \<Rightarrow> u32" where "PTE_ADDR pte = pte AND NOT 0xFFF"

definition PTE_FLAGS :: "u32 \<Rightarrow> u32" where "PTE_FLAGS pte = pte AND 0xFFF"

section \<open>Memory accesses\<close>

definition load32 :: "mem \<Rightarrow> u32 \<Rightarrow> u32" where
  "load32 m a = rd32 (bytes m (unat a) 4)"

definition set_mem :: "mem \<Rightarrow> 'a kmem_scheme \<Rightarrow> 'a kmem_scheme" where
  "set_mem m s = s\<lparr>kmemory := m\<rparr>"

definition put_pte :: "u32 \<Rightarrow> u32 \<Rightarrow> 'a kmem_scheme \<Rightarrow> 'a kmem_scheme" where
  "put_pte a w s = set_mem (store32 (kmemory s) (unat a) w) s"

definition zero_page :: "u32 \<Rightarrow> 'a kmem_scheme \<Rightarrow> 'a kmem_scheme" where
  "zero_page v s = set_mem (memset (kmemory s) (unat v) 0 PGSIZE) s"

definition store_bytes :: "mem \<Rightarrow> nat \<Rightarrow> u8 list \<Rightarrow> mem" where
  "store_bytes m a bs x = (if a \<le> x \<and> x < a + length bs then bs ! (x - a) else m x)"

section \<open>Walking and mapping\<close>

text \<open>The address of the entry for \<open>va\<close>; 0 for the null pointer.\<close>

definition walkpgdir :: "u32 \<Rightarrow> u32 \<Rightarrow> bool \<Rightarrow> 'a kmem_scheme \<Rightarrow> u32 \<times> 'a kmem_scheme" where
  "walkpgdir pgdir va alloc s =
     (let pde = pgdir + 4 * PDX va in
      if load32 (kmemory s) pde AND PTE_P \<noteq> 0 then
        (P2V (PTE_ADDR (load32 (kmemory s) pde)) + 4 * PTX va, s)
      else if \<not> alloc then (0, s)
      else case kalloc s of (pgtab, s) \<Rightarrow>
        if pgtab = 0 then (0, s)
        else
          let s = put_pte pde (V2P pgtab OR PTE_P OR PTE_W OR PTE_U) (zero_page pgtab s)
          in (pgtab + 4 * PTX va, s))"

text \<open>The loop of \<open>mappages\<close>, which ends when \<open>a == last\<close>: \<open>n\<close> pages lie between \<open>a\<close> and
  \<open>last\<close>.\<close>

fun mappages_loop :: "u32 \<Rightarrow> u32 \<Rightarrow> nat \<Rightarrow> u32 \<Rightarrow> u32 \<Rightarrow> 'a kmem_scheme \<Rightarrow> (int \<times> 'a kmem_scheme) res" where
  "mappages_loop pgdir a n pa perm s =
     (case walkpgdir pgdir a True s of (pte, s) \<Rightarrow>
        if pte = 0 then Ok (- 1, s)
        else if load32 (kmemory s) pte AND PTE_P \<noteq> 0 then Panic ''remap''
        else
          let s = put_pte pte (pa OR perm OR PTE_P) s in
          (case n of 0 \<Rightarrow> Ok (0, s)
           | Suc n \<Rightarrow> mappages_loop pgdir (a + 4096) n (pa + 4096) perm s))"

declare mappages_loop.simps [simp del]

definition mappages :: "u32 \<Rightarrow> u32 \<Rightarrow> u32 \<Rightarrow> u32 \<Rightarrow> u32 \<Rightarrow> 'a kmem_scheme \<Rightarrow> (int \<times> 'a kmem_scheme) res" where
  "mappages pgdir va sz pa perm s =
     (let a = PGROUNDDOWN va; last = PGROUNDDOWN (va + sz - 1)
      in mappages_loop pgdir a (unat (last - a) div PGSIZE) pa perm s)"

section \<open>Growing and shrinking\<close>

lemma next_pde_above: "a < (a div 2 ^ 22 + 1) * 2 ^ 22" for a :: nat
  by (metis add_mult_distrib div_mult_mod_eq mod_less_divisor mult_1 nat_add_left_cancel_less zero_less_numeral
      zero_less_power)

text \<open>A missing page table is skipped: the next address is the start of the next directory entry.\<close>

function deallocuvm_loop :: "u32 \<Rightarrow> u32 \<Rightarrow> nat \<Rightarrow> nat \<Rightarrow> 'a kmem_scheme \<Rightarrow> ('a kmem_scheme) res" where
  "deallocuvm_loop kend pgdir a oldsz s =
     (if a < oldsz then
        let pte = fst (walkpgdir pgdir (of_nat a) False s) in
        if pte = 0 then deallocuvm_loop kend pgdir ((a div 2 ^ 22 + 1) * 2 ^ 22) oldsz s
        else if load32 (kmemory s) pte AND PTE_P \<noteq> 0 then
          let pa = PTE_ADDR (load32 (kmemory s) pte) in
          if pa = 0 then Panic ''kfree''
          else kbind (kfree kend (P2V pa) s) (\<lambda>s. deallocuvm_loop kend pgdir (a + PGSIZE) oldsz (put_pte pte 0 s))
        else deallocuvm_loop kend pgdir (a + PGSIZE) oldsz s
      else Ok s)"
  by pat_completeness auto
termination
  by (relation "measure (\<lambda>(kend, pgdir, a, oldsz, s). oldsz - a)")
    (use next_pde_above in \<open>auto intro!: diff_less_mono2\<close>)

declare deallocuvm_loop.simps [simp del]

definition deallocuvm :: "u32 \<Rightarrow> u32 \<Rightarrow> u32 \<Rightarrow> u32 \<Rightarrow> 'a kmem_scheme \<Rightarrow> (u32 \<times> 'a kmem_scheme) res" where
  "deallocuvm kend pgdir oldsz newsz s =
     (if oldsz \<le> newsz then Ok (oldsz, s)
      else kbind (deallocuvm_loop kend pgdir (unat (PGROUNDUP newsz)) (unat oldsz) s) (\<lambda>s. Ok (newsz, s)))"

definition freevm_entry :: "u32 \<Rightarrow> u32 \<Rightarrow> nat \<Rightarrow> 'a kmem_scheme \<Rightarrow> ('a kmem_scheme) res" where
  "freevm_entry kend pgdir i s =
     (let pde = load32 (kmemory s) (pgdir + 4 * of_nat i) in
      if pde AND PTE_P \<noteq> 0 then kfree kend (P2V (PTE_ADDR pde)) s else Ok s)"

definition freevm :: "u32 \<Rightarrow> u32 \<Rightarrow> 'a kmem_scheme \<Rightarrow> ('a kmem_scheme) res" where
  "freevm kend pgdir s =
     (if pgdir = 0 then Panic ''freevm: no pgdir''
      else
        kbind (deallocuvm kend pgdir KERNBASE 0 s) (\<lambda>(_, s).
        kbind (kfold (freevm_entry kend pgdir) [0..<NPDENTRIES] s) (\<lambda>s.
        kfree kend pgdir s)))"

record kmap =
  virt :: u32
  phys_start :: u32
  phys_end :: u32
  perm :: u32

definition kmap_table :: "u32 \<Rightarrow> kmap list" where
  "kmap_table kdata =
     [\<lparr>virt = KERNBASE, phys_start = 0, phys_end = EXTMEM, perm = PTE_W\<rparr>,
      \<lparr>virt = KERNLINK, phys_start = V2P KERNLINK, phys_end = V2P kdata, perm = 0\<rparr>,
      \<lparr>virt = kdata, phys_start = V2P kdata, phys_end = PHYSTOP, perm = PTE_W\<rparr>,
      \<lparr>virt = DEVSPACE, phys_start = DEVSPACE, phys_end = 0, perm = PTE_W\<rparr>]"

fun setupkvm_loop :: "u32 \<Rightarrow> u32 \<Rightarrow> kmap list \<Rightarrow> 'a kmem_scheme \<Rightarrow> (u32 \<times> 'a kmem_scheme) res" where
  "setupkvm_loop kend pgdir [] s = Ok (pgdir, s)"
| "setupkvm_loop kend pgdir (k # ks) s =
     kbind (mappages pgdir (virt k) (phys_end k - phys_start k) (phys_start k) (perm k) s) (\<lambda>(r, s).
       if r < 0 then kbind (freevm kend pgdir s) (\<lambda>s. Ok (0, s))
       else setupkvm_loop kend pgdir ks s)"

definition setupkvm :: "u32 \<Rightarrow> u32 \<Rightarrow> 'a kmem_scheme \<Rightarrow> (u32 \<times> 'a kmem_scheme) res" where
  "setupkvm kend kdata s =
     (case kalloc s of (pgdir, s) \<Rightarrow>
        if pgdir = 0 then Ok (0, s)
        else
          let s = zero_page pgdir s in
          if DEVSPACE < P2V PHYSTOP then Panic ''PHYSTOP too high''
          else setupkvm_loop kend pgdir (kmap_table kdata) s)"

text \<open>\<open>inituvm\<close> with the bytes of \<open>init\<close>; a failing \<open>kalloc\<close> makes it write through a null
  pointer.\<close>

definition inituvm :: "u32 \<Rightarrow> u8 list \<Rightarrow> 'a kmem_scheme \<Rightarrow> ('a kmem_scheme) res" where
  "inituvm pgdir init s =
     (if PGSIZE \<le> length init then Panic ''inituvm: more than a page''
      else case kalloc s of (v, s) \<Rightarrow>
        if v = 0 then Undef
        else
          kbind (mappages pgdir 0 4096 (V2P v) (PTE_W OR PTE_U) (zero_page v s)) (\<lambda>(_, s).
          Ok (set_mem (store_bytes (kmemory s) (unat v) init) s)))"

function allocuvm_loop :: "u32 \<Rightarrow> u32 \<Rightarrow> u32 \<Rightarrow> nat \<Rightarrow> u32 \<Rightarrow> 'a kmem_scheme \<Rightarrow> (u32 \<times> 'a kmem_scheme) res" where
  "allocuvm_loop kend pgdir oldsz a newsz s =
     (if a < unat newsz then
        case kalloc s of (v, s) \<Rightarrow>
          if v = 0 then kbind (deallocuvm kend pgdir newsz oldsz s) (\<lambda>(_, s). Ok (0, s))
          else
            kbind (mappages pgdir (of_nat a) 4096 (V2P v) (PTE_W OR PTE_U) (zero_page v s)) (\<lambda>(r, s).
              if r < 0 then
                kbind (deallocuvm kend pgdir newsz oldsz s) (\<lambda>(_, s).
                kbind (kfree kend v s) (\<lambda>s. Ok (0, s)))
              else allocuvm_loop kend pgdir oldsz (a + PGSIZE) newsz s)
      else Ok (newsz, s))"
  by pat_completeness auto
termination by (relation "measure (\<lambda>(kend, pgdir, oldsz, a, newsz, s). unat newsz - a)") auto

declare allocuvm_loop.simps [simp del]

definition allocuvm :: "u32 \<Rightarrow> u32 \<Rightarrow> u32 \<Rightarrow> u32 \<Rightarrow> 'a kmem_scheme \<Rightarrow> (u32 \<times> 'a kmem_scheme) res" where
  "allocuvm kend pgdir oldsz newsz s =
     (if KERNBASE \<le> newsz then Ok (0, s)
      else if newsz < oldsz then Ok (oldsz, s)
      else allocuvm_loop kend pgdir oldsz (unat (PGROUNDUP oldsz)) newsz s)"

definition clearpteu :: "u32 \<Rightarrow> u32 \<Rightarrow> 'a kmem_scheme \<Rightarrow> ('a kmem_scheme) res" where
  "clearpteu pgdir uva s =
     (let pte = fst (walkpgdir pgdir uva False s) in
      if pte = 0 then Panic ''clearpteu''
      else Ok (put_pte pte (load32 (kmemory s) pte AND NOT PTE_U) s))"

section \<open>Copying\<close>

function copyuvm_loop :: "u32 \<Rightarrow> u32 \<Rightarrow> u32 \<Rightarrow> nat \<Rightarrow> nat \<Rightarrow> 'a kmem_scheme \<Rightarrow> (u32 \<times> 'a kmem_scheme) res" where
  "copyuvm_loop kend pgdir d i sz s =
     (if i < sz then
        let pte = fst (walkpgdir pgdir (of_nat i) False s) in
        if pte = 0 then Panic ''copyuvm: pte should exist''
        else if load32 (kmemory s) pte AND PTE_P = 0 then Panic ''copyuvm: page not present''
        else
          let pa = PTE_ADDR (load32 (kmemory s) pte); flags = PTE_FLAGS (load32 (kmemory s) pte) in
          case kalloc s of (v, s) \<Rightarrow>
            if v = 0 then kbind (freevm kend d s) (\<lambda>s. Ok (0, s))
            else
              let s = set_mem (memmove (kmemory s) (unat v) (unat (P2V pa)) PGSIZE) s in
              kbind (mappages d (of_nat i) 4096 (V2P v) flags s) (\<lambda>(r, s).
                if r < 0 then
                  kbind (kfree kend v s) (\<lambda>s. kbind (freevm kend d s) (\<lambda>s. Ok (0, s)))
                else copyuvm_loop kend pgdir d (i + PGSIZE) sz s)
      else Ok (d, s))"
  by pat_completeness auto
termination by (relation "measure (\<lambda>(kend, pgdir, d, i, sz, s). sz - i)") auto

declare copyuvm_loop.simps [simp del]

definition copyuvm :: "u32 \<Rightarrow> u32 \<Rightarrow> u32 \<Rightarrow> u32 \<Rightarrow> 'a kmem_scheme \<Rightarrow> (u32 \<times> 'a kmem_scheme) res" where
  "copyuvm kend kdata pgdir sz s =
     kbind (setupkvm kend kdata s) (\<lambda>(d, s).
       if d = 0 then Ok (0, s) else copyuvm_loop kend pgdir d 0 (unat sz) s)"

text \<open>\<open>uva2ka\<close> reads through the pointer that \<open>walkpgdir\<close> returns without testing it.\<close>

definition uva2ka :: "u32 \<Rightarrow> u32 \<Rightarrow> 'a kmem_scheme \<Rightarrow> u32 res" where
  "uva2ka pgdir uva s =
     (let pte = fst (walkpgdir pgdir uva False s) in
      if pte = 0 then Undef
      else if load32 (kmemory s) pte AND PTE_P = 0 then Ok 0
      else if load32 (kmemory s) pte AND PTE_U = 0 then Ok 0
      else Ok (P2V (PTE_ADDR (load32 (kmemory s) pte))))"

lemma va_offset: "unat (va - PGROUNDDOWN va) = unat va mod PGSIZE"
proof -
  have "unat (PGROUNDDOWN va) \<le> unat va" by (simp add: unat_PGROUNDDOWN)
  then have "PGROUNDDOWN va \<le> va" by (simp add: word_le_nat_alt)
  then show ?thesis by (simp add: unat_sub unat_PGROUNDDOWN minus_div_mult_eq_mod)
qed

function copyout :: "u32 \<Rightarrow> u32 \<Rightarrow> u8 list \<Rightarrow> 'a kmem_scheme \<Rightarrow> (int \<times> 'a kmem_scheme) res" where
  "copyout pgdir va buf s =
     (if buf = [] then Ok (0, s)
      else
        let va0 = PGROUNDDOWN va in
        kbind (uva2ka pgdir va0 s) (\<lambda>pa0.
          if pa0 = 0 then Ok (- 1, s)
          else
            let n = min (length buf) (PGSIZE - unat (va - va0)) in
            copyout pgdir (va0 + 4096) (drop n buf)
              (set_mem (store_bytes (kmemory s) (unat (pa0 + (va - va0))) (take n buf)) s)))"
  by pat_completeness auto
termination
  by (relation "measure (\<lambda>(pgdir, va, buf, s). length buf)") (auto simp: va_offset)

declare copyout.simps [simp del]

end
