(* ===== verification/Ring.thy ===== *)
theory Ring
  imports Prelude
begin

text \<open>
  Ring buffers with free-running 32-bit indices, as \<open>pipe.c\<close> and \<open>console.c\<close> use them: the
  indices only ever grow (modulo \<open>2 ^ 32\<close>), a slot is an index modulo the sz, and the
  sz divides \<open>2 ^ 32\<close>, so a wrapped index still names the right slot. The locale is the
  interface of a bounded queue that their clients rely on.
\<close>

definition ring_list :: "nat \<Rightarrow> (nat \<Rightarrow> 'a) \<Rightarrow> u32 \<Rightarrow> u32 \<Rightarrow> 'a list" where
  "ring_list sz buf r w = map (\<lambda>k. buf ((unat r + k) mod sz)) [0..<unat (w - r)]"

section \<open>The bounded queue interface\<close>

locale bounded_fifo =
  fixes put :: "'a \<Rightarrow> 's \<Rightarrow> 's"
    and get :: "'s \<Rightarrow> 'a \<times> 's"
    and full :: "'s \<Rightarrow> bool"
    and empty :: "'s \<Rightarrow> bool"
    and contents :: "'s \<Rightarrow> 'a list"
    and ok :: "'s \<Rightarrow> bool"
    and cap :: nat
  assumes put_law: "ok s \<Longrightarrow> \<not> full s \<Longrightarrow> ok (put x s) \<and> contents (put x s) = contents s @ [x]"
    and get_law: "ok s \<Longrightarrow> \<not> empty s \<Longrightarrow>
          ok (snd (get s)) \<and> contents s = fst (get s) # contents (snd (get s))"
    and full_law: "ok s \<Longrightarrow> full s \<longleftrightarrow> length (contents s) = cap"
    and empty_law: "ok s \<Longrightarrow> empty s \<longleftrightarrow> contents s = []"
    and bound_law: "ok s \<Longrightarrow> length (contents s) \<le> cap"
begin

lemma not_full: "ok s \<Longrightarrow> \<not> full s \<longleftrightarrow> length (contents s) < cap"
  using full_law bound_law by fastforce

lemma put_all:
  "ok s \<Longrightarrow> length (contents s) + length xs \<le> cap \<Longrightarrow>
     ok (fold put xs s) \<and> contents (fold put xs s) = contents s @ xs"
proof (induction xs arbitrary: s)
  case (Cons x xs)
  then have "\<not> full s" by (simp add: not_full)
  with put_law [OF Cons.prems(1)] have "ok (put x s)" "contents (put x s) = contents s @ [x]"
    by blast+
  with Cons show ?case by simp
qed simp

end

section \<open>Ring contents\<close>

lemma length_ring_list [simp]: "length (ring_list sz buf r w) = unat (w - r)"
  by (simp add: ring_list_def)

lemma unat_add_mod:
  assumes "sz dvd 2 ^ 32"
  shows "unat (a + b :: u32) mod sz = (unat a + unat b) mod sz"
  using assms by (simp add: unat_word_ariths mod_mod_cancel)

lemma unat_index_mod:
  assumes "sz dvd 2 ^ 32"
  shows "unat (r + of_nat k :: u32) mod sz = (unat r + k) mod sz"
proof -
  have "unat (r + of_nat k :: u32) mod sz = (unat r + unat (of_nat k :: u32)) mod sz"
    using assms by (rule unat_add_mod)
  also have "unat (of_nat k :: u32) = k mod 2 ^ 32"
    by (simp add: unat_of_nat)
  also have "(unat r + k mod 2 ^ 32) mod sz = (unat r + k mod 2 ^ 32 mod sz) mod sz"
    by (simp add: mod_add_right_eq)
  also have "k mod 2 ^ 32 mod sz = k mod sz"
    using assms by (rule mod_mod_cancel)
  finally show ?thesis by (simp add: mod_add_right_eq)
qed

lemma unat_succ_diff:
  assumes "unat (w - r :: u32) < 2 ^ 32 - 1"
  shows "unat (w + 1 - r) = Suc (unat (w - r))"
proof -
  have "unat (w - r + 1) = (unat (w - r) + 1) mod 2 ^ 32"
    by (simp add: unat_word_ariths)
  also have "\<dots> = unat (w - r) + 1"
    using assms by simp
  finally show ?thesis by (simp add: algebra_simps)
qed

lemma unat_pred_diff:
  assumes "(r :: u32) \<noteq> w"
  shows "unat (w - (r + 1)) = unat (w - r) - 1"
proof -
  have "w - r \<noteq> 0" using assms by simp
  then have "unat (w - r - 1) = unat (w - r) - 1"
    by (simp add: unat_minus_one)
  then show ?thesis by (simp add: algebra_simps)
qed

lemma ring_list_Nil [simp]: "ring_list sz buf r r = []"
  by (simp add: ring_list_def)

lemma ring_list_push:
  assumes dvd: "sz dvd 2 ^ 32" and room: "unat (w - r) < sz"
    and small: "sz < 2 ^ 32"
  shows "ring_list sz (buf(unat w mod sz := x)) r (w + 1) = ring_list sz buf r w @ [x]"
proof -
  let ?n = "unat (w - r)"
  have len: "unat (w + 1 - r) = Suc ?n"
    using room small by (intro unat_succ_diff) linarith
  have w: "unat w mod sz = (unat r + ?n) mod sz"
    using unat_index_mod [OF dvd, of r "unat (w - r)"] by simp
  have other: "(unat r + k) mod sz \<noteq> (unat r + ?n) mod sz" if "k < ?n" for k
  proof
    assume "(unat r + k) mod sz = (unat r + ?n) mod sz"
    then have "(unat r + ?n) mod sz = (unat r + k) mod sz" by (rule sym)
    then have "sz dvd (unat r + ?n) - (unat r + k)"
      by (subst (asm) mod_eq_dvd_iff_nat) (use that in simp_all)
    then have "sz dvd ?n - k" by simp
    then have "sz \<le> ?n - k" using that by (intro dvd_imp_le) simp_all
    with room show False by simp
  qed
  show ?thesis
    using other by (auto simp: ring_list_def len w)
qed

lemma ring_list_pop:
  assumes dvd: "sz dvd 2 ^ 32" and ne: "r \<noteq> w"
  shows "ring_list sz buf r w = buf (unat r mod sz) # ring_list sz buf (r + 1) w"
proof -
  let ?n = "unat (w - r)"
  have pos: "?n = Suc (?n - 1)"
  proof -
    have "w - r \<noteq> 0" using ne by simp
    then have "0 < ?n" by (simp add: unat_gt_0)
    then show ?thesis by simp
  qed
  have idx: "(unat (r + 1) + k) mod sz = (unat r + Suc k) mod sz" for k
  proof -
    have "(unat (r + 1) + k) mod sz = (unat (r + 1) mod sz + k) mod sz" by (simp add: mod_add_left_eq)
    also have "unat (r + 1) mod sz = (unat r + 1) mod sz"
      using unat_add_mod [OF dvd, of r 1] by simp
    finally show ?thesis by (simp add: mod_add_left_eq)
  qed
  have "ring_list sz buf r w = map (\<lambda>k. buf ((unat r + k) mod sz)) [0..<Suc (?n - 1)]"
    unfolding ring_list_def using pos by simp
  also have "\<dots> = buf (unat r mod sz) # map (\<lambda>k. buf ((unat r + Suc k) mod sz)) [0..<?n - 1]"
    by (simp add: map_upt_Suc del: upt_Suc)
  finally show ?thesis
    by (simp add: ring_list_def unat_pred_diff [OF ne] idx)
qed

lemma unat_diff_eq: "unat (w - r :: u32) = unat k \<longleftrightarrow> w = r + k"
proof -
  have "unat (w - r) = unat k \<longleftrightarrow> w - r = k" by (simp add: word_unat_eq_iff)
  then show ?thesis by (auto simp: algebra_simps)
qed

lemma unat_diff_0: "unat (w - r :: u32) = 0 \<longleftrightarrow> r = w"
  using unat_diff_eq [of w r 0] by auto

lemma unat_diff_split:
  assumes "unat (w - r :: u32) + unat (e - w) < 2 ^ 32"
  shows "unat (e - r) = unat (w - r) + unat (e - w)"
proof -
  have "unat ((w - r) + (e - w)) = (unat (w - r) + unat (e - w)) mod 2 ^ 32"
    by (subst unat_word_ariths) simp
  moreover have "(w - r) + (e - w) = e - r" by simp
  ultimately show ?thesis using assms by simp
qed

lemma ring_list_append:
  assumes dvd: "sz dvd 2 ^ 32" and small: "unat (w - r) + unat (e - w) < 2 ^ 32"
  shows "ring_list sz buf r e = ring_list sz buf r w @ ring_list sz buf w e"
proof -
  let ?n = "unat (w - r)"
  have idx: "(unat w + k) mod sz = (unat r + (?n + k)) mod sz" for k
  proof -
    have "unat w mod sz = (unat r + ?n) mod sz"
      using unat_index_mod [OF dvd, of r "unat (w - r)"] by simp
    then have "(unat w mod sz + k) mod sz = ((unat r + ?n) mod sz + k) mod sz" by simp
    then show ?thesis by (simp add: mod_add_left_eq add.assoc)
  qed
  have "[0..<n + k] = [0..<n] @ map (\<lambda>k. n + k) [0..<k]" for n k :: nat
    by (induction k) simp_all
  then show ?thesis
    unfolding ring_list_def unat_diff_split [OF small] by (simp add: idx comp_def)
qed

lemma ring_list_unpush:
  assumes "(w :: u32) \<noteq> e"
  shows "ring_list sz buf w (e - 1) = butlast (ring_list sz buf w e)"
proof -
  have "e - w \<noteq> 0" using assms by auto
  then have "unat (e - w - 1) = unat (e - w) - 1" by (simp add: unat_minus_one)
  then have "unat (e - 1 - w) = unat (e - w) - 1" by (simp add: algebra_simps)
  then show ?thesis by (cases "unat (e - w)") (simp_all add: ring_list_def butlast_append)
qed

end
