(* ===== verification/Pipe.thy ===== *)
theory Pipe
  imports Ring
begin

text \<open>
  \<open>pipe.c\<close>. The pipe lock is held from the start of each operation to its end or to its
  \<open>sleep\<close>, so an operation runs as one step up to that point: it returns, or it is left
  sleeping with the loop counter it will resume from. \<open>wakeups\<close> records the channels passed
  to \<open>wakeup\<close>, in order. The results: what every operation does to the queue of bytes, that
  any interleaving of readers and writers delivers the bytes in order, without loss or
  duplication and across the wrap-around of the two counters, and that nobody is left asleep
  on a condition that an operation made false.
\<close>

section \<open>State and operations\<close>

abbreviation (input) PIPESIZE :: nat where "PIPESIZE \<equiv> 512"

datatype pipechan = ChanRead | ChanWrite

record pipe =
  pdata :: "nat \<Rightarrow> u8"
  nread :: u32
  nwrite :: u32
  readopen :: bool
  writeopen :: bool
  wakeups :: "pipechan list"

datatype 'r pipe_outcome = Returns int | PSleeps pipechan 'r

definition pipe_wakeup :: "pipechan \<Rightarrow> pipe \<Rightarrow> pipe" where
  "pipe_wakeup c p = p\<lparr>wakeups := wakeups p @ [c]\<rparr>"

definition pipe_init :: "(nat \<Rightarrow> u8) \<Rightarrow> pipe" where
  "pipe_init page = \<lparr>pdata = page, nread = 0, nwrite = 0, readopen = True, writeopen = True,
     wakeups = []\<rparr>"

text \<open>\<open>pipeclose\<close> returns whether the page of the pipe is freed.\<close>

definition pipeclose :: "pipe \<Rightarrow> bool \<Rightarrow> bool \<times> pipe" where
  "pipeclose p writable =
     (let p = (if writable then pipe_wakeup ChanRead (p\<lparr>writeopen := False\<rparr>)
               else pipe_wakeup ChanWrite (p\<lparr>readopen := False\<rparr>))
      in (\<not> readopen p \<and> \<not> writeopen p, p))"

definition pipe_full :: "pipe \<Rightarrow> bool" where
  "pipe_full p \<longleftrightarrow> nwrite p = nread p + 512"

definition pipe_empty :: "pipe \<Rightarrow> bool" where
  "pipe_empty p \<longleftrightarrow> nread p = nwrite p"

definition pipe_put :: "u8 \<Rightarrow> pipe \<Rightarrow> pipe" where
  "pipe_put c p = p\<lparr>pdata := (pdata p)(unat (nwrite p) mod PIPESIZE := c),
                    nwrite := nwrite p + 1\<rparr>"

definition pipe_get :: "pipe \<Rightarrow> u8 \<times> pipe" where
  "pipe_get p = (pdata p (unat (nread p) mod PIPESIZE), p\<lparr>nread := nread p + 1\<rparr>)"

text \<open>The \<open>for\<close> loop of \<open>pipewrite\<close> from counter \<open>i\<close>; a writer that sleeps resumes at the
  full test with the same counter.\<close>

function pipewrite_from :: "bool \<Rightarrow> (nat \<Rightarrow> u8) \<Rightarrow> int \<Rightarrow> nat \<Rightarrow> pipe \<Rightarrow> nat pipe_outcome \<times> pipe" where
  "pipewrite_from killed addr n i p =
     (if int i < n then
        if pipe_full p then
          if \<not> readopen p \<or> killed then (Returns (- 1), p)
          else (PSleeps ChanWrite i, pipe_wakeup ChanRead p)
        else pipewrite_from killed addr n (Suc i) (pipe_put (addr i) p)
      else (Returns n, pipe_wakeup ChanRead p))"
  by pat_completeness auto
termination by (relation "measure (\<lambda>(killed, addr, n, i, p). nat n - i)") auto

declare pipewrite_from.simps [simp del]

definition pipewrite :: "bool \<Rightarrow> pipe \<Rightarrow> (nat \<Rightarrow> u8) \<Rightarrow> int \<Rightarrow> nat pipe_outcome \<times> pipe" where
  "pipewrite killed p addr n = pipewrite_from killed addr n 0 p"

text \<open>The copy loop of \<open>piperead\<close>: the bytes stored to \<open>addr\<close>, and their number \<open>i\<close>.\<close>

fun piperead_copy :: "nat \<Rightarrow> pipe \<Rightarrow> u8 list \<times> pipe" where
  "piperead_copy 0 p = ([], p)"
| "piperead_copy (Suc n) p =
     (if pipe_empty p then ([], p)
      else (case pipe_get p of (c, p1) \<Rightarrow>
              (case piperead_copy n p1 of (bs, p2) \<Rightarrow> (c # bs, p2))))"

definition piperead :: "bool \<Rightarrow> pipe \<Rightarrow> int \<Rightarrow> unit pipe_outcome \<times> u8 list \<times> pipe" where
  "piperead killed p n =
     (if pipe_empty p \<and> writeopen p then
        if killed then (Returns (- 1), [], p) else (PSleeps ChanRead (), [], p)
      else (case piperead_copy (nat n) p of (bs, p1) \<Rightarrow>
              (Returns (int (length bs)), bs, pipe_wakeup ChanWrite p1)))"

section \<open>The queue of bytes\<close>

definition pipe_contents :: "pipe \<Rightarrow> u8 list" where
  "pipe_contents p = ring_list PIPESIZE (pdata p) (nread p) (nwrite p)"

definition pipe_ok :: "pipe \<Rightarrow> bool" where
  "pipe_ok p \<longleftrightarrow> unat (nwrite p - nread p) \<le> PIPESIZE"

section \<open>Readers and writers interleaved\<close>

text \<open>A pipe with the bytes its writers have stored and its readers have taken, and the
  channels its sleeping processes wait on. A process that reads or writes holds a reference to
  its end of the pipe, so that end is open and stays open while the process is asleep. Writers
  may be killed when \<open>kills\<close> is set. A \<open>kick\<close> is \<open>kill\<close> waking a sleeper.\<close>

record pipe_sys =
  the_pipe :: pipe
  sent :: "u8 list"
  received :: "u8 list"
  asleep :: "pipechan list"

definition pipe_sys_init :: "(nat \<Rightarrow> u8) \<Rightarrow> pipe_sys" where
  "pipe_sys_init page = \<lparr>the_pipe = pipe_init page, sent = [], received = [], asleep = []\<rparr>"

definition wake_sleepers :: "pipe \<Rightarrow> pipe \<Rightarrow> pipechan list \<Rightarrow> pipechan list" where
  "wake_sleepers p p' cs = filter (\<lambda>c. c \<notin> set (drop (length (wakeups p)) (wakeups p'))) cs"

primrec falls_asleep :: "'r pipe_outcome \<Rightarrow> pipechan list" where
  "falls_asleep (Returns r) = []"
| "falls_asleep (PSleeps c r) = [c]"

inductive pipe_step :: "bool \<Rightarrow> pipe_sys \<Rightarrow> pipe_sys \<Rightarrow> bool" for kills where
  writes: "pipewrite_from killed addr n i (the_pipe s) = (out, p') \<Longrightarrow> writeopen (the_pipe s) \<Longrightarrow>
    (killed \<longrightarrow> kills) \<Longrightarrow>
    pipe_step kills s \<lparr>the_pipe = p',
      sent = sent s @ map addr [i..<i + unat (nwrite p' - nwrite (the_pipe s))],
      received = received s,
      asleep = wake_sleepers (the_pipe s) p' (asleep s) @ falls_asleep out\<rparr>"
| reads: "piperead killed (the_pipe s) n = (out, bs, p') \<Longrightarrow> readopen (the_pipe s) \<Longrightarrow>
    pipe_step kills s \<lparr>the_pipe = p', sent = sent s, received = received s @ bs,
      asleep = wake_sleepers (the_pipe s) p' (asleep s) @ falls_asleep out\<rparr>"
| closes: "pipeclose (the_pipe s) writable = (freed, p') \<Longrightarrow>
    (if writable then writeopen (the_pipe s) \<and> ChanWrite \<notin> set (asleep s)
     else readopen (the_pipe s) \<and> ChanRead \<notin> set (asleep s)) \<Longrightarrow>
    pipe_step kills s \<lparr>the_pipe = p', sent = sent s, received = received s,
      asleep = wake_sleepers (the_pipe s) p' (asleep s)\<rparr>"
| kick: "asleep s = xs @ c # ys \<Longrightarrow> pipe_step kills s (s\<lparr>asleep := xs @ ys\<rparr>)"

definition pipe_inv :: "pipe_sys \<Rightarrow> bool" where
  "pipe_inv s \<longleftrightarrow> pipe_ok (the_pipe s) \<and> received s @ pipe_contents (the_pipe s) = sent s"

definition sleepers_inv :: "pipe_sys \<Rightarrow> bool" where
  "sleepers_inv s \<longleftrightarrow>
     (ChanRead \<in> set (asleep s) \<longrightarrow> pipe_empty (the_pipe s) \<and> writeopen (the_pipe s) \<and> readopen (the_pipe s)) \<and>
     (ChanWrite \<in> set (asleep s) \<longrightarrow> pipe_full (the_pipe s) \<and> readopen (the_pipe s) \<and> writeopen (the_pipe s))"

section \<open>The pipe is a bounded queue\<close>

lemma pipe_wakeup_simps [simp]:
  "pipe_contents (pipe_wakeup c p) = pipe_contents p" "pipe_ok (pipe_wakeup c p) = pipe_ok p"
  "nread (pipe_wakeup c p) = nread p" "nwrite (pipe_wakeup c p) = nwrite p"
  "readopen (pipe_wakeup c p) = readopen p" "writeopen (pipe_wakeup c p) = writeopen p"
  "wakeups (pipe_wakeup c p) = wakeups p @ [c]"
  by (simp_all add: pipe_wakeup_def pipe_contents_def pipe_ok_def)

lemma pipe_put_flags [simp]:
  "readopen (pipe_put c p) = readopen p" "writeopen (pipe_put c p) = writeopen p"
  "nread (pipe_put c p) = nread p" "nwrite (pipe_put c p) = nwrite p + 1"
  "wakeups (pipe_put c p) = wakeups p"
  by (simp_all add: pipe_put_def)

lemma unat_diff_512: "unat (w - r :: u32) = 512 \<longleftrightarrow> w = r + 512"
  using unat_diff_eq [of w r 512] by simp

lemma dvd_512: "(512 :: nat) dvd 2 ^ 32"
  by simp

interpretation pq: bounded_fifo pipe_put pipe_get pipe_full pipe_empty pipe_contents pipe_ok 512
proof unfold_locales
  fix p :: pipe and x
  assume ok: "pipe_ok p"
  show full: "pipe_full p \<longleftrightarrow> length (pipe_contents p) = 512"
    by (simp add: pipe_full_def pipe_contents_def unat_diff_512)
  show "pipe_empty p \<longleftrightarrow> pipe_contents p = []"
    by (simp add: pipe_empty_def pipe_contents_def unat_diff_0 flip: length_0_conv)
  show "length (pipe_contents p) \<le> 512"
    using ok by (simp add: pipe_contents_def pipe_ok_def)
  show "pipe_ok (pipe_put x p) \<and> pipe_contents (pipe_put x p) = pipe_contents p @ [x]"
    if "\<not> pipe_full p"
  proof -
    have lt: "unat (nwrite p - nread p) < 512"
      using that ok full by (simp add: pipe_contents_def pipe_ok_def)
    then have "unat (nwrite p + 1 - nread p) = Suc (unat (nwrite p - nread p))"
      by (intro unat_succ_diff) simp
    with lt show ?thesis
      by (simp add: pipe_put_def pipe_ok_def pipe_contents_def ring_list_push)
  qed
  show "pipe_ok (snd (pipe_get p)) \<and> pipe_contents p = fst (pipe_get p) # pipe_contents (snd (pipe_get p))"
    if "\<not> pipe_empty p"
    using that ok ring_list_pop [OF dvd_512, of "nread p" "nwrite p" "pdata p"]
    by (auto simp: pipe_get_def pipe_ok_def pipe_empty_def pipe_contents_def unat_pred_diff)
qed

section \<open>What the operations do to the queue\<close>

lemma pipewrite_from_contents:
  assumes "pipe_ok p"
  shows "pipe_ok (snd (pipewrite_from killed addr n i p)) \<and>
         pipe_contents (snd (pipewrite_from killed addr n i p)) =
           pipe_contents p @ map addr [i..<i + min (nat n - i) (512 - length (pipe_contents p))]"
  using assms
proof (induction killed addr n i p rule: pipewrite_from.induct)
  case (1 killed addr n i p)
  show ?case
  proof (cases "int i < n \<and> \<not> pipe_full p")
    case True
    note put = pq.put_law [OF "1.prems" conjunct2 [OF True], of "addr i"]
    have lt: "length (pipe_contents p) < 512"
      using True "1.prems" by (simp add: pq.not_full)
    have "min (nat n - i) (512 - length (pipe_contents p)) =
          Suc (min (nat n - Suc i) (512 - length (pipe_contents (pipe_put (addr i) p))))"
      using True lt put by (simp add: min_def) linarith
    moreover have "[i..<i + Suc j] = i # [Suc i..<Suc i + j]" for j
      by (simp add: upt_rec [of i])
    ultimately have "map addr [i..<i + min (nat n - i) (512 - length (pipe_contents p))] =
      addr i # map addr [Suc i..<Suc i +
        min (nat n - Suc i) (512 - length (pipe_contents (pipe_put (addr i) p)))]"
      by simp
    then show ?thesis
      using "1.IH" True put by (subst (1 2) pipewrite_from.simps) simp
  next
    case False
    then have "min (nat n - i) (512 - length (pipe_contents p)) = 0"
      using "1.prems" by (auto simp: pq.full_law)
    with False show ?thesis
      using "1.prems" by (subst (1 2) pipewrite_from.simps) auto
  qed
qed

lemma pipewrite_from_frame:
  "readopen (snd (pipewrite_from killed addr n i p)) = readopen p"
  "writeopen (snd (pipewrite_from killed addr n i p)) = writeopen p"
  "nread (snd (pipewrite_from killed addr n i p)) = nread p"
  by (induction killed addr n i p rule: pipewrite_from.induct;
      subst pipewrite_from.simps; simp)+

lemma pipewrite_from_outcome:
  assumes "pipe_ok p"
  shows "fst (pipewrite_from killed addr n i p) =
     (if nat n - i \<le> 512 - length (pipe_contents p) then Returns n
      else if \<not> readopen p \<or> killed then Returns (- 1)
      else PSleeps ChanWrite (i + (512 - length (pipe_contents p))))"
  using assms
proof (induction killed addr n i p rule: pipewrite_from.induct)
  case (1 killed addr n i p)
  show ?case
  proof (cases "int i < n \<and> \<not> pipe_full p")
    case True
    note put = pq.put_law [OF "1.prems" conjunct2 [OF True], of "addr i"]
    have lt: "length (pipe_contents p) < 512"
      using True "1.prems" by (simp add: pq.not_full)
    have "fst (pipewrite_from killed addr n i p) =
          fst (pipewrite_from killed addr n (Suc i) (pipe_put (addr i) p))"
      using True by (subst pipewrite_from.simps) simp
    moreover have "nat n - Suc i \<le> 512 - Suc (length (pipe_contents p)) \<longleftrightarrow>
                   nat n - i \<le> 512 - length (pipe_contents p)"
      using True lt by linarith
    ultimately show ?thesis
      using "1.IH" True put lt by auto
  next
    case False
    then show ?thesis
      using "1.prems" by (subst pipewrite_from.simps) (auto simp: pq.full_law)
  qed
qed

lemma piperead_copy_contents:
  "pipe_ok p \<Longrightarrow> piperead_copy n p = (bs, p') \<Longrightarrow>
     pipe_ok p' \<and> bs = take n (pipe_contents p) \<and> pipe_contents p' = drop n (pipe_contents p)
     \<and> readopen p' = readopen p \<and> writeopen p' = writeopen p \<and> wakeups p' = wakeups p"
proof (induction n arbitrary: p bs)
  case (Suc n)
  show ?case
  proof (cases "pipe_empty p")
    case True
    then show ?thesis using Suc.prems pq.empty_law [OF Suc.prems(1)] by simp
  next
    case False
    obtain c p1 where g: "pipe_get p = (c, p1)" by fastforce
    obtain bs1 p2 where r: "piperead_copy n p1 = (bs1, p2)" by fastforce
    have "pipe_ok p1" "pipe_contents p = c # pipe_contents p1"
      using pq.get_law [OF Suc.prems(1) False] g by auto
    moreover have "readopen p1 = readopen p" "writeopen p1 = writeopen p" "wakeups p1 = wakeups p"
      using g by (auto simp: pipe_get_def)
    moreover have "bs = c # bs1" "p' = p2"
      using Suc.prems(2) False g r by auto
    ultimately show ?thesis
      using Suc.IH [of p1 bs1] r by simp
  qed
qed simp

lemma pipewrite_from_wakeups:
  assumes "pipe_ok p"
  shows "wakeups (snd (pipewrite_from killed addr n i p)) = wakeups p @
     (if nat n - i \<le> 512 - length (pipe_contents p) \<or> readopen p \<and> \<not> killed
      then [ChanRead] else [])"
  using assms
proof (induction killed addr n i p rule: pipewrite_from.induct)
  case (1 killed addr n i p)
  show ?case
  proof (cases "int i < n \<and> \<not> pipe_full p")
    case True
    note put = pq.put_law [OF "1.prems" conjunct2 [OF True], of "addr i"]
    have lt: "length (pipe_contents p) < 512"
      using True "1.prems" by (simp add: pq.not_full)
    have "nat n - Suc i \<le> 512 - Suc (length (pipe_contents p)) \<longleftrightarrow>
                   nat n - i \<le> 512 - length (pipe_contents p)"
      using True lt by linarith
    then show ?thesis
      using "1.IH" True put by (subst pipewrite_from.simps) simp
  next
    case False
    then show ?thesis
      using "1.prems" by (subst pipewrite_from.simps) (auto simp: pq.full_law pipe_wakeup_def)
  qed
qed

lemma pipewrite_from_count:
  assumes "pipe_ok p"
  shows "unat (nwrite (snd (pipewrite_from killed addr n i p)) - nwrite p) =
         min (nat n - i) (512 - length (pipe_contents p))"
proof -
  let ?p' = "snd (pipewrite_from killed addr n i p)"
  let ?k = "min (nat n - i) (512 - length (pipe_contents p))"
  have "length (pipe_contents ?p') = length (pipe_contents p) + ?k"
    using pipewrite_from_contents [OF assms, of killed addr n i] by simp
  then have "unat (nwrite ?p' - nread p) = unat (nwrite p - nread p) + ?k"
    by (simp add: pipe_contents_def pipewrite_from_frame)
  then have "(of_nat (unat (nwrite ?p' - nread p)) :: u32) = of_nat (unat (nwrite p - nread p) + ?k)"
    by (rule arg_cong)
  then have "nwrite ?p' - nread p = (nwrite p - nread p) + of_nat ?k"
    by simp
  then have "nwrite ?p' - nwrite p = of_nat ?k" by (simp add: algebra_simps)
  moreover have "?k < 2 ^ 32" by (rule le_less_trans [of _ 512]) simp_all
  then have "unat (of_nat ?k :: u32) = ?k" by (simp add: unat_of_nat del: min_less_iff_conj)
  ultimately show ?thesis by simp
qed

lemma wake_sleepers_set:
  "wakeups p' = wakeups p @ cs \<Longrightarrow> set (wake_sleepers p p' xs) = set xs - set cs"
  by (auto simp: wake_sleepers_def)

lemma piperead_spec:
  assumes "pipe_ok p" and "piperead killed p n = (out, bs, p')"
  shows "pipe_ok p' \<and> readopen p' = readopen p \<and> writeopen p' = writeopen p \<and>
         (if pipe_empty p \<and> writeopen p
          then p' = p \<and> bs = [] \<and> out = (if killed then Returns (- 1) else PSleeps ChanRead ())
          else out = Returns (int (min (nat n) (length (pipe_contents p)))) \<and>
               bs = take (nat n) (pipe_contents p) \<and>
               pipe_contents p' = drop (nat n) (pipe_contents p) \<and>
               wakeups p' = wakeups p @ [ChanWrite])"
proof (cases "pipe_empty p \<and> writeopen p")
  case True
  then show ?thesis using assms by (simp add: piperead_def split: if_splits)
next
  case False
  obtain bs1 p1 where c: "piperead_copy (nat n) p = (bs1, p1)" by fastforce
  with False assms(2) have "out = Returns (int (length bs1))" "bs = bs1" "p' = pipe_wakeup ChanWrite p1"
    by (auto simp: piperead_def)
  then show ?thesis
    using piperead_copy_contents [OF assms(1) c] False
    by (simp add: min.commute)
qed

lemma pipeclose_spec:
  "pipeclose p writable = (freed, p') \<Longrightarrow>
     pipe_ok p' = pipe_ok p \<and> pipe_contents p' = pipe_contents p \<and>
     pipe_full p' = pipe_full p \<and> pipe_empty p' = pipe_empty p \<and>
     readopen p' = (readopen p \<and> writable) \<and> writeopen p' = (writeopen p \<and> \<not> writable) \<and>
     freed = (\<not> readopen p' \<and> \<not> writeopen p') \<and>
     wakeups p' = wakeups p @ [if writable then ChanRead else ChanWrite]"
  by (auto simp: pipeclose_def Let_def pipe_wakeup_def pipe_ok_def pipe_contents_def pipe_full_def pipe_empty_def)

lemma pipe_inv_step: "pipe_step kills s t \<Longrightarrow> pipe_inv s \<Longrightarrow> pipe_inv t"
proof (induction rule: pipe_step.induct)
  case (writes killed addr n i s out p')
  have ok: "pipe_ok (the_pipe s)" using writes by (simp add: pipe_inv_def)
  have "p' = snd (pipewrite_from killed addr n i (the_pipe s))" using writes by simp
  then show ?case
    using writes.prems pipewrite_from_contents [OF ok, of killed addr n i]
      pipewrite_from_count [OF ok, of killed addr n i]
    by (auto simp: pipe_inv_def)
next
  case (reads killed s n out bs p')
  then have "pipe_ok p' \<and> bs @ pipe_contents p' = pipe_contents (the_pipe s)"
    using piperead_spec [of "the_pipe s" killed n out bs p'] by (auto simp: pipe_inv_def split: if_splits)
  with reads show ?case by (auto simp: pipe_inv_def)
next
  case (closes s writable freed p')
  then show ?case using pipeclose_spec [OF closes(1)] by (auto simp: pipe_inv_def)
qed (auto simp: pipe_inv_def)

lemma pipe_inv_run: "(pipe_step kills)\<^sup>*\<^sup>* s t \<Longrightarrow> pipe_inv s \<Longrightarrow> pipe_inv t"
  by (induction rule: rtranclp_induct) (auto intro: pipe_inv_step)

lemma pipe_inv_init: "pipe_inv (pipe_sys_init page)"
  by (simp add: pipe_inv_def pipe_sys_init_def pipe_init_def pipe_ok_def pipe_contents_def)

lemma sleepers_inv_write:
  assumes inv: "pipe_inv s" "sleepers_inv s"
    and w: "pipewrite_from False addr n i (the_pipe s) = (out, p')" "writeopen (the_pipe s)"
  shows "sleepers_inv \<lparr>the_pipe = p', sent = u, received = v,
           asleep = wake_sleepers (the_pipe s) p' (asleep s) @ falls_asleep out\<rparr>"
proof -
  let ?p = "the_pipe s"
  have ok: "pipe_ok ?p" using inv by (simp add: pipe_inv_def)
  have p': "p' = snd (pipewrite_from False addr n i ?p)" "out = fst (pipewrite_from False addr n i ?p)"
    using w by simp_all
  have cont: "pipe_ok p'" "pipe_contents p' = pipe_contents ?p @
      map addr [i..<i + min (nat n - i) (512 - length (pipe_contents ?p))]"
    using pipewrite_from_contents [OF ok, of False addr n i] p' by auto
  have wake: "set (wake_sleepers ?p p' (asleep s)) = set (asleep s) -
     (if nat n - i \<le> 512 - length (pipe_contents ?p) \<or> readopen ?p then {ChanRead} else {})"
    using pipewrite_from_wakeups [OF ok, of False addr n i] p' by (subst wake_sleepers_set) auto
  have flags: "readopen p' = readopen ?p" "writeopen p' = writeopen ?p"
    using p' by (simp_all add: pipewrite_from_frame)
  have full: "pipe_full p'" if "pipe_full ?p"
    using that cont by (simp add: pq.full_law [OF ok] pq.full_law [OF cont(1)])
  show ?thesis
    using inv(2) w(2) full
    unfolding sleepers_inv_def p'(2) pipewrite_from_outcome [OF ok]
    using pq.bound_law [OF ok] by (auto simp: wake flags cont pq.full_law)
qed

lemma sleepers_inv_step:
  "pipe_step kills s t \<Longrightarrow> \<not> kills \<Longrightarrow> pipe_inv s \<Longrightarrow> sleepers_inv s \<Longrightarrow> sleepers_inv t"
proof (induction rule: pipe_step.induct)
  case (writes killed addr n i s out p')
  then show ?case by (intro sleepers_inv_write) auto
next
  case (reads killed s n out bs p')
  let ?p = "the_pipe s"
  have ok: "pipe_ok ?p" using reads by (simp add: pipe_inv_def)
  note sp = piperead_spec [OF ok reads(1)]
  show ?case
  proof (cases "pipe_empty ?p \<and> writeopen ?p")
    case True
    with sp have "p' = ?p" "falls_asleep out = [] \<or> falls_asleep out = [ChanRead]" by auto
    with True reads show ?thesis
      by (auto simp: sleepers_inv_def wake_sleepers_set [where cs = "[]"])
  next
    case False
    with sp have "set (wake_sleepers ?p p' (asleep s)) = set (asleep s) - {ChanWrite}"
      "falls_asleep out = []"
      by (auto simp: wake_sleepers_set)
    with False reads show ?thesis by (auto simp: sleepers_inv_def)
  qed
next
  case (closes s writable freed p')
  note sp = pipeclose_spec [OF closes(1)]
  then have "set (wake_sleepers (the_pipe s) p' (asleep s)) =
      set (asleep s) - {if writable then ChanRead else ChanWrite}"
    by (subst wake_sleepers_set) auto
  with sp closes show ?case by (auto simp: sleepers_inv_def split: if_splits)
qed (auto simp: sleepers_inv_def)

lemma sleepers_inv_run:
  "(pipe_step False)\<^sup>*\<^sup>* (pipe_sys_init page) t \<Longrightarrow> sleepers_inv t"
proof (induction rule: rtranclp_induct)
  case base
  show ?case by (simp add: sleepers_inv_def pipe_sys_init_def)
next
  case (step s t)
  then have "pipe_inv s" by (auto intro: pipe_inv_run pipe_inv_init)
  with step show ?case by (auto intro: sleepers_inv_step)
qed

section \<open>Properties\<close>

text \<open>C11. Any interleaving of writers (resumed at any loop counter, killed or not), readers and
  closers of a pipe delivers the stored bytes in order: what the readers have received followed
  by what is still buffered is exactly what the writers have stored, at most \<open>PIPESIZE\<close> bytes
  are buffered, and this holds across the wrap-around of the 32-bit counters, which the
  initial counters range over.\<close>

theorem pipe_stream:
  assumes "(pipe_step kills)\<^sup>*\<^sup>* \<lparr>the_pipe = (pipe_init page)\<lparr>nread := c, nwrite := c\<rparr>,
             sent = [], received = [], asleep = []\<rparr> s"
  shows "received s @ pipe_contents (the_pipe s) = sent s \<and>
         length (pipe_contents (the_pipe s)) \<le> PIPESIZE"
proof -
  have "pipe_inv s"
    by (rule pipe_inv_run [OF assms])
      (simp add: pipe_inv_def pipe_init_def pipe_ok_def pipe_contents_def)
  then show ?thesis by (simp add: pipe_inv_def pq.bound_law)
qed

theorem pipe_stream_witness:
  "\<exists>s. (pipe_step False)\<^sup>*\<^sup>* \<lparr>the_pipe = (pipe_init (\<lambda>_. 0))\<lparr>nread := - 1, nwrite := - 1\<rparr>,
         sent = [], received = [], asleep = []\<rparr> s \<and> received s = [7] \<and> sent s = [7, 7] \<and>
       received s @ pipe_contents (the_pipe s) = sent s"
proof -
  let ?p = "(pipe_init (\<lambda>_. 0))\<lparr>nread := - 1, nwrite := - 1\<rparr>"
  let ?s0 = "\<lparr>the_pipe = ?p, sent = [], received = [], asleep = []\<rparr>"
  have ok: "pipe_ok ?p" "pipe_contents ?p = []" by (simp_all add: pipe_ok_def pipe_contents_def)
  obtain out p1 where w: "pipewrite_from False (\<lambda>i. 7) 2 0 ?p = (out, p1)" by fastforce
  then have p1: "pipe_ok p1" "pipe_contents p1 = [7, 7]" "unat (nwrite p1 + 1) = 2" "readopen p1"
    using pipewrite_from_contents [OF ok(1), of False "\<lambda>i. 7" 2 0]
      pipewrite_from_count [OF ok(1), of False "\<lambda>i. 7" 2 0]
      pipewrite_from_frame [of False "\<lambda>i. 7" 2 0 ?p] ok
    by (auto simp: pipe_init_def upt_rec)
  obtain s1 where s1: "pipe_step False ?s0 s1" "the_pipe s1 = p1" "sent s1 = [7, 7]" "received s1 = []"
    using pipe_step.writes [of False "\<lambda>i. 7" 2 0 ?s0 out p1 False] w p1
    by (fastforce simp: pipe_init_def upt_rec)
  obtain out2 bs p2 where r: "piperead False p1 1 = (out2, bs, p2)" by (cases "piperead False p1 1") auto
  have bs: "bs = [7]"
    using piperead_spec [OF p1(1) r] p1 pq.empty_law [OF p1(1)] by auto
  obtain s2 where s2: "pipe_step False s1 s2" "sent s2 = [7, 7]" "received s2 = [7]"
    using pipe_step.reads [of False s1 1 out2 bs p2 False] r p1 s1 bs by fastforce
  have run: "(pipe_step False)\<^sup>*\<^sup>* ?s0 s2"
    using s1(1) s2(1) by (meson r_into_rtranclp rtranclp.rtrancl_into_rtrancl)
  show ?thesis using pipe_stream [OF run] run s2 by blast
qed

text \<open>C17. What \<open>pipewrite\<close> returns and what it stores, on every branch: with room for all
  \<open>n\<close> bytes it stores them and returns \<open>n\<close>; otherwise it fills the pipe and then returns \<open>-1\<close>
  if the read end is closed or the writer is killed, and else sleeps on \<open>nwrite\<close>, to resume
  with the first byte that did not fit.\<close>

theorem pipewrite_result:
  assumes "pipe_ok p"
  shows "let room = PIPESIZE - length (pipe_contents p);
             (out, p') = pipewrite killed p addr n
         in pipe_contents p' = pipe_contents p @ map addr [0..<min (nat n) room] \<and>
            out = (if nat n \<le> room then Returns n
                   else if \<not> readopen p \<or> killed then Returns (- 1)
                   else PSleeps ChanWrite room)"
  using pipewrite_from_contents [OF assms, of killed addr n 0]
    pipewrite_from_outcome [OF assms, of killed addr n 0]
  by (simp add: pipewrite_def Let_def case_prod_beta)

theorem pipewrite_result_witness:
  "let p = pipe_init (\<lambda>_. 0); (out, p') = pipewrite False p (\<lambda>i. of_nat i) 3
   in pipe_ok p \<and> pipe_contents p' = [0, 1, 2] \<and> out = Returns 3"
  using pipewrite_result [of "pipe_init (\<lambda>_. 0)" False "\<lambda>i. of_nat i" 3]
  by (simp add: pipe_init_def pipe_ok_def pipe_contents_def upt_rec Let_def split: prod.splits)



text \<open>C15. No wakeup is lost: as long as no writer runs \<open>pipewrite\<close> with its \<open>killed\<close> flag set, a
  process is asleep on the read channel only while the pipe is empty and can still be written,
  and on the write channel only while the pipe is full and can still be read.\<close>

theorem pipe_no_lost_wakeup:
  assumes "(pipe_step False)\<^sup>*\<^sup>* (pipe_sys_init page) s"
  shows "(ChanRead \<in> set (asleep s) \<longrightarrow>
            pipe_contents (the_pipe s) = [] \<and> writeopen (the_pipe s)) \<and>
         (ChanWrite \<in> set (asleep s) \<longrightarrow>
            length (pipe_contents (the_pipe s)) = PIPESIZE \<and> readopen (the_pipe s))"
proof -
  have "pipe_ok (the_pipe s)"
    using pipe_inv_run [OF assms pipe_inv_init] by (simp add: pipe_inv_def)
  then show ?thesis
    using sleepers_inv_run [OF assms] by (auto simp: sleepers_inv_def pq.full_law pq.empty_law)
qed

theorem pipe_no_lost_wakeup_witness:
  "\<exists>s. (pipe_step False)\<^sup>*\<^sup>* (pipe_sys_init (\<lambda>_. 0)) s \<and> asleep s = [ChanRead] \<and>
       pipe_contents (the_pipe s) = [] \<and> writeopen (the_pipe s)"
proof -
  let ?s0 = "pipe_sys_init (\<lambda>_. 0)"
  let ?s1 = "?s0\<lparr>asleep := [ChanRead]\<rparr>"
  have r: "piperead False (the_pipe ?s0) 1 = (PSleeps ChanRead (), [], the_pipe ?s0)"
    by (simp add: piperead_def pipe_sys_init_def pipe_init_def pipe_empty_def)
  have "pipe_step False ?s0 ?s1"
    using pipe_step.reads [OF r, of False]
    by (simp add: pipe_sys_init_def wake_sleepers_def pipe_init_def)
  then have run: "(pipe_step False)\<^sup>*\<^sup>* ?s0 ?s1" by (rule r_into_rtranclp)
  show ?thesis using pipe_no_lost_wakeup [OF run] run by (intro exI [of _ ?s1]) auto
qed


end
