(* ===== verification/Printf.thy ===== *)
theory Printf
  imports Strings
begin

text \<open>
  Formatted output: \<open>printf.c\<close> of the user library and the number printing it shares with
  \<open>cprintf\<close> of \<open>console.c\<close>. What is printed is a list of bytes. An argument of \<open>printf\<close> is a word; a
  string argument is read from memory with \<open>str\<close>, which gives the bytes at an address up to the
  terminating zero. Running out of arguments or of the 16 bytes of \<open>buf\<close> is undefined behaviour.
\<close>

section \<open>Numbers\<close>

definition digits_lower :: "u8 list" where
  "digits_lower = [48, 49, 50, 51, 52, 53, 54, 55, 56, 57, 97, 98, 99, 100, 101, 102]"

definition digits_upper :: "u8 list" where
  "digits_upper = [48, 49, 50, 51, 52, 53, 54, 55, 56, 57, 65, 66, 67, 68, 69, 70]"

text \<open>The \<open>do\<close> loop: the digits from the last one on; \<open>room\<close> bytes of \<open>buf\<close> are left.\<close>

fun printint_loop :: "nat \<Rightarrow> nat \<Rightarrow> nat \<Rightarrow> (nat list) res" where
  "printint_loop 0 base x = Undef"
| "printint_loop (Suc room) base x =
     (if x div base = 0 then Ok [x mod base]
      else kbind (printint_loop room base (x div base)) (\<lambda>ds. Ok (x mod base # ds)))"

definition printint :: "u8 list \<Rightarrow> u32 \<Rightarrow> nat \<Rightarrow> bool \<Rightarrow> (u8 list) res" where
  "printint digits xx base sgnd =
     (let neg = (sgnd \<and> sint xx < 0); x = (if neg then - xx else xx) in
      kbind (printint_loop 16 base (unat x)) (\<lambda>ds.
        let buf = map (\<lambda>d. digits ! d) ds in
        if neg then (if 16 \<le> length buf then Undef else Ok (rev (buf @ [45])))
        else Ok (rev buf)))"

section \<open>printf\<close>

abbreviation (input) PERCENT :: u8 where "PERCENT \<equiv> 37"

definition null_str :: "u8 list" where
  "null_str = [40, 110, 117, 108, 108, 41]"

definition string_arg :: "(u32 \<Rightarrow> u8 list) \<Rightarrow> u32 \<Rightarrow> u8 list" where
  "string_arg str a = (if a = 0 then null_str else str a)"

text \<open>The loop of \<open>printf\<close> over the format; \<open>pct\<close> is \<open>state == '%'\<close>. The value is the output.\<close>

fun printf_loop :: "(u32 \<Rightarrow> u8 list) \<Rightarrow> bool \<Rightarrow> u8 list \<Rightarrow> u32 list \<Rightarrow> (u8 list) res" where
  "printf_loop str pct [] args = Ok []"
| "printf_loop str pct (c # fmt) args =
     (if \<not> pct then
        if c = PERCENT then printf_loop str True fmt args
        else kbind (printf_loop str False fmt args) (\<lambda>out. Ok (c # out))
      else if c \<in> {100, 120, 112, 115, 99} then
        case args of
          [] \<Rightarrow> Undef
        | a # args \<Rightarrow>
            kbind (if c = 100 then printint digits_upper a 10 True
                   else if c = 120 \<or> c = 112 then printint digits_upper a 16 False
                   else if c = 115 then Ok (string_arg str a)
                   else Ok [ucast a]) (\<lambda>o1.
            kbind (printf_loop str False fmt args) (\<lambda>o2. Ok (o1 @ o2)))
      else
        kbind (printf_loop str False fmt args) (\<lambda>out.
          Ok ((if c = PERCENT then [c] else [PERCENT, c]) @ out)))"

definition printf :: "(u32 \<Rightarrow> u8 list) \<Rightarrow> u8 list \<Rightarrow> u32 list \<Rightarrow> (u8 list) res" where
  "printf str fmt args = printf_loop str False fmt args"

text \<open>\<open>cprintf\<close> of the kernel has no \<open>%c\<close> and stops at a \<open>%\<close> that ends the format.\<close>

fun cprintf_loop :: "(u32 \<Rightarrow> u8 list) \<Rightarrow> u8 list \<Rightarrow> u32 list \<Rightarrow> (u8 list) res" where
  "cprintf_loop str [] args = Ok []"
| "cprintf_loop str [c] args = Ok (if c = PERCENT then [] else [c])"
| "cprintf_loop str (c # d # fmt) args =
     (if c \<noteq> PERCENT then kbind (cprintf_loop str (d # fmt) args) (\<lambda>out. Ok (c # out))
      else if d \<in> {100, 120, 112, 115} then
        case args of
          [] \<Rightarrow> Undef
        | a # args \<Rightarrow>
            kbind (if d = 100 then printint digits_lower a 10 True
                   else if d = 115 then Ok (string_arg str a)
                   else printint digits_lower a 16 False) (\<lambda>o1.
            kbind (cprintf_loop str fmt args) (\<lambda>o2. Ok (o1 @ o2)))
      else
        kbind (cprintf_loop str fmt args) (\<lambda>out.
          Ok ((if d = PERCENT then [d] else [PERCENT, d]) @ out)))"

section \<open>Digits and their value\<close>

fun digits_value :: "nat \<Rightarrow> nat list \<Rightarrow> nat" where
  "digits_value base [] = 0"
| "digits_value base (d # ds) = d + base * digits_value base ds"

lemma printint_loop_value:
  assumes "x < base ^ k" "0 < k" "k \<le> room" "2 \<le> base"
  shows "\<exists>ds. printint_loop room base x = Ok ds \<and> digits_value base ds = x \<and>
           (\<forall>d\<in>set ds. d < base) \<and> ds \<noteq> [] \<and> length ds \<le> k"
  using assms
proof (induction k arbitrary: x room)
  case (Suc k)
  then obtain r where room: "room = Suc r" by (cases room) auto
  show ?case
  proof (cases "x div base = 0")
    case True
    then have "x < base" using Suc.prems by (simp add: div_eq_0_iff)
    then show ?thesis using True room by auto
  next
    case False
    have "x div base < base ^ k" using Suc.prems by (simp add: less_mult_imp_div_less mult.commute)
    moreover have "0 < k" using False \<open>x div base < base ^ k\<close> by (cases k) auto
    ultimately obtain ds where "printint_loop r base (x div base) = Ok ds" "digits_value base ds = x div base"
      "\<forall>d\<in>set ds. d < base" "ds \<noteq> []" "length ds \<le> k"
      using Suc.IH [of "x div base" r] Suc.prems room by auto
    then show ?thesis using False room \<open>2 \<le> base\<close> by (auto intro: mod_less_divisor)
  qed
qed simp

lemma atoi_digits:
  assumes "cstring m a (map (\<lambda>d. digits_upper ! d) (rev ds))" "\<forall>d\<in>set ds. d < 10"
  shows "atoi_loop m a n = Some (n * 10 ^ length ds + of_nat (digits_value 10 ds))"
  using assms
proof (induction ds arbitrary: m a n rule: rev_induct)
  case Nil
  then show ?case by (subst atoi_loop.simps) simp
next
  case (snoc d ds)
  have val: "digits_value 10 (ds @ [d]) = digits_value 10 ds + 10 ^ length ds * d" for ds
    by (induction ds) (simp_all add: algebra_simps)
  have "d \<in> {0, 1, 2, 3, 4, 5, 6, 7, 8, 9}" using snoc.prems by auto
  then have d: "digits_upper ! d = 48 + of_nat d"
    and digit: "48 \<le> (48 + of_nat d :: u8)" "(48 + of_nat d :: u8) \<le> 57"
      "ucast (48 + of_nat d :: u8) = (48 + of_nat d :: u32)"
    by (auto simp: digits_upper_def)
  have "atoi_loop m a n = atoi_loop m (a + 1) (n * 10 + ucast (48 + of_nat d :: u8) - 48)"
    using snoc.prems d digit by (subst atoi_loop.simps) simp
  also have "\<dots> = Some ((n * 10 + of_nat d) * 10 ^ length ds + of_nat (digits_value 10 ds))"
    using snoc.prems digit by (subst snoc.IH) simp_all
  finally show ?case by (simp add: val algebra_simps)
qed

section \<open>Properties\<close>



end
