(* ===== verification/Console.thy ===== *)
theory Console
  imports Ring Printf
begin

text \<open>
  The console: \<open>console.c\<close> with \<open>kbd.c\<close> and the output half of \<open>uart.c\<close>. The screen is the memory
  of the video controller with its cursor register; the serial port is the list of bytes sent. The
  lock of the console is held over each operation, which is a single step here. A call of
  \<open>consoleread\<close> that finds no input is cut where it goes to sleep.
\<close>

section \<open>State\<close>

record cons_st =
  ibuf :: "nat \<Rightarrow> u8"
  in_r :: u32
  in_w :: u32
  in_e :: u32
  uart :: bool
  uart_out :: "u8 list"
  crt :: "nat \<Rightarrow> u16"
  crt_pos :: nat
  panicked :: bool
  locking :: bool

abbreviation (input) INPUT_BUF :: nat where "INPUT_BUF \<equiv> 128"
abbreviation (input) BACKSPACE :: u32 where "BACKSPACE \<equiv> 0x100"
abbreviation (input) NEWLINE :: u32 where "NEWLINE \<equiv> 10"

section \<open>Output\<close>

definition uartputc :: "u32 \<Rightarrow> cons_st \<Rightarrow> cons_st" where
  "uartputc c s = (if uart s then s\<lparr>uart_out := uart_out s @ [ucast c]\<rparr> else s)"

text \<open>\<open>memmove(crt, crt+80, sizeof(crt[0])*23*80)\<close>, and \<open>memset\<close> of the cells from \<open>pos\<close> up to
  \<open>24*80\<close>.\<close>

definition cga_scroll :: "nat \<Rightarrow> (nat \<Rightarrow> u16) \<Rightarrow> nat \<Rightarrow> u16" where
  "cga_scroll pos m = (\<lambda>i. if pos \<le> i \<and> i < 24 * 80 then 0 else if i < 23 * 80 then m (i + 80) else m i)"

definition cgaputc :: "u32 \<Rightarrow> cons_st \<Rightarrow> cons_st res" where
  "cgaputc c s =
     (let pos = crt_pos s;
          m = (if c \<noteq> NEWLINE \<and> c \<noteq> BACKSPACE then (crt s)(pos := (ucast c AND 0xff) OR 0x0700) else crt s);
          pos = (if c = NEWLINE then pos + (80 - pos mod 80)
                 else if c = BACKSPACE then pos - 1 else pos + 1)
      in if 25 * 80 < pos then Panic ''pos under/overflow''
         else
           let m = (if 24 \<le> pos div 80 then cga_scroll (pos - 80) m else m);
               pos = (if 24 \<le> pos div 80 then pos - 80 else pos)
           in Ok (s\<lparr>crt := m(pos := 0x0720), crt_pos := pos\<rparr>))"

text \<open>After a panic every CPU that prints spins for ever.\<close>

definition consputc :: "u32 \<Rightarrow> cons_st \<Rightarrow> cons_st res" where
  "consputc c s =
     (if panicked s then Sleeps
      else cgaputc c (if c = BACKSPACE then uartputc 8 (uartputc 32 (uartputc 8 s)) else uartputc c s))"

definition putbytes :: "u8 list \<Rightarrow> cons_st \<Rightarrow> cons_st res" where
  "putbytes bs s = kfold (\<lambda>b. consputc (ucast b)) bs s"

definition cprintf :: "(u32 \<Rightarrow> u8 list) \<Rightarrow> u8 list \<Rightarrow> u32 list \<Rightarrow> cons_st \<Rightarrow> cons_st res" where
  "cprintf str fmt args s = kbind (cprintf_loop str fmt args) (\<lambda>out. putbytes out s)"

section \<open>Input\<close>

text \<open>Control characters: \<open>C('P')\<close>, \<open>C('U')\<close>, \<open>C('H')\<close>, \<open>C('D')\<close>.\<close>

abbreviation (input) CTRL_P :: u32 where "CTRL_P \<equiv> 16"
abbreviation (input) CTRL_U :: u32 where "CTRL_U \<equiv> 21"
abbreviation (input) CTRL_H :: u32 where "CTRL_H \<equiv> 8"
abbreviation (input) CTRL_D :: u32 where "CTRL_D \<equiv> 4"
abbreviation (input) DEL :: u32 where "DEL \<equiv> 0x7f"

text \<open>The loop of the kill character: at most \<open>n\<close> characters lie between \<open>w\<close> and \<open>e\<close>.\<close>

fun kill_line :: "nat \<Rightarrow> cons_st \<Rightarrow> cons_st res" where
  "kill_line 0 s = Ok s"
| "kill_line (Suc n) s =
     (if in_e s \<noteq> in_w s \<and> ibuf s (unat (in_e s - 1) mod INPUT_BUF) \<noteq> 10
      then kbind (consputc BACKSPACE (s\<lparr>in_e := in_e s - 1\<rparr>)) (kill_line n)
      else Ok s)"

text \<open>One character of \<open>consoleintr\<close>; the flags are \<open>doprocdump\<close> and whether it calls \<open>wakeup\<close>.\<close>

definition consoleintr_char :: "u32 \<Rightarrow> cons_st \<Rightarrow> (bool \<times> bool \<times> cons_st) res" where
  "consoleintr_char c s =
     (if c = CTRL_P then Ok (True, False, s)
      else if c = CTRL_U then
        kbind (kill_line (unat (in_e s - in_w s)) s) (\<lambda>s. Ok (False, False, s))
      else if c = CTRL_H \<or> c = DEL then
        if in_e s \<noteq> in_w s then
          kbind (consputc BACKSPACE (s\<lparr>in_e := in_e s - 1\<rparr>)) (\<lambda>s. Ok (False, False, s))
        else Ok (False, False, s)
      else if c \<noteq> 0 \<and> in_e s - in_r s < of_nat INPUT_BUF then
        let c = (if c = 13 then 10 else c);
            s = s\<lparr>ibuf := (ibuf s)(unat (in_e s) mod INPUT_BUF := ucast c), in_e := in_e s + 1\<rparr>
        in kbind (consputc c s) (\<lambda>s.
             if c = 10 \<or> c = CTRL_D \<or> in_e s = in_r s + of_nat INPUT_BUF
             then Ok (False, True, s\<lparr>in_w := in_e s\<rparr>)
             else Ok (False, False, s))
      else Ok (False, False, s))"

text \<open>\<open>consoleintr\<close> on the characters that \<open>getc\<close> delivers until it returns a negative value.\<close>

fun consoleintr :: "u32 list \<Rightarrow> cons_st \<Rightarrow> (bool \<times> bool \<times> cons_st) res" where
  "consoleintr [] s = Ok (False, False, s)"
| "consoleintr (c # cs) s =
     kbind (consoleintr_char c s) (\<lambda>(d1, w1, s).
     kbind (consoleintr cs s) (\<lambda>(d2, w2, s). Ok (d1 \<or> d2, w1 \<or> w2, s)))"

text \<open>The loop of \<open>consoleread\<close>, \<open>n\<close> bytes left and \<open>got\<close> read so far. It returns the bytes, fails
  because the process has been killed, or goes to sleep.\<close>

datatype read_out = ReadDone "u8 list" | ReadKilled | ReadSleeps nat "u8 list"

fun consoleread_loop :: "bool \<Rightarrow> nat \<Rightarrow> u8 list \<Rightarrow> cons_st \<Rightarrow> read_out \<times> cons_st" where
  "consoleread_loop killed 0 got s = (ReadDone got, s)"
| "consoleread_loop killed (Suc n) got s =
     (if in_r s = in_w s then (if killed then ReadKilled else ReadSleeps (Suc n) got, s)
      else
        let c = ibuf s (unat (in_r s) mod INPUT_BUF); s' = s\<lparr>in_r := in_r s + 1\<rparr> in
        if c = 4 then (ReadDone got, if got \<noteq> [] then s else s')
        else if c = 10 then (ReadDone (got @ [c]), s')
        else consoleread_loop killed n (got @ [c]) s')"

definition consolewrite_bytes :: "u8 list \<Rightarrow> cons_st \<Rightarrow> cons_st res" where
  "consolewrite_bytes bs s = putbytes bs s"

section \<open>The keyboard\<close>

abbreviation (input) SHIFT :: u32 where "SHIFT \<equiv> 1"
abbreviation (input) CTL :: u32 where "CTL \<equiv> 2"
abbreviation (input) ALT :: u32 where "ALT \<equiv> 4"
abbreviation (input) CAPSLOCK :: u32 where "CAPSLOCK \<equiv> 8"
abbreviation (input) NUMLOCK :: u32 where "NUMLOCK \<equiv> 16"
abbreviation (input) SCROLLLOCK :: u32 where "SCROLLLOCK \<equiv> 32"
abbreviation (input) E0ESC :: u32 where "E0ESC \<equiv> 64"

definition shiftcode :: "nat \<Rightarrow> u32" where
  "shiftcode d =
     (if d = 0x1D \<or> d = 0x9D then CTL else if d = 0x2A \<or> d = 0x36 then SHIFT
      else if d = 0x38 \<or> d = 0xB8 then ALT else 0)"

definition togglecode :: "nat \<Rightarrow> u32" where
  "togglecode d =
     (if d = 0x3A then CAPSLOCK else if d = 0x45 then NUMLOCK else if d = 0x46 then SCROLLLOCK else 0)"

text \<open>The entries of the maps above 0x57, which the three of them share but for Enter and Divide.\<close>

definition keypad :: "u32 \<Rightarrow> u32 \<Rightarrow> nat \<Rightarrow> u32" where
  "keypad enter slash d =
     (if d = 0x9C then enter else if d = 0xB5 then slash
      else if d = 0xC8 then 0xE2 else if d = 0xD0 then 0xE3
      else if d = 0xC9 then 0xE6 else if d = 0xD1 then 0xE7
      else if d = 0xCB then 0xE4 else if d = 0xCD then 0xE5
      else if d = 0x97 then 0xE0 else if d = 0xCF then 0xE1
      else if d = 0xD2 then 0xE8 else if d = 0xD3 then 0xE9 else 0)"

definition normalmap_low :: "u32 list" where
  "normalmap_low =
     [0, 0x1B, 49, 50, 51, 52, 53, 54, 55, 56, 57, 48, 45, 61, 8, 9,
      113, 119, 101, 114, 116, 121, 117, 105, 111, 112, 91, 93, 10, 0, 97, 115,
      100, 102, 103, 104, 106, 107, 108, 59, 39, 96, 0, 92, 122, 120, 99, 118,
      98, 110, 109, 44, 46, 47, 0, 42, 0, 32, 0, 0, 0, 0, 0, 0,
      0, 0, 0, 0, 0, 0, 0, 55, 56, 57, 45, 52, 53, 54, 43, 49,
      50, 51, 48, 46, 0, 0, 0, 0]"

definition shiftmap_low :: "u32 list" where
  "shiftmap_low =
     [0, 27, 33, 64, 35, 36, 37, 94, 38, 42, 40, 41, 95, 43, 8, 9,
      81, 87, 69, 82, 84, 89, 85, 73, 79, 80, 123, 125, 10, 0, 65, 83,
      68, 70, 71, 72, 74, 75, 76, 58, 34, 126, 0, 124, 90, 88, 67, 86,
      66, 78, 77, 60, 62, 63, 0, 42, 0, 32, 0, 0, 0, 0, 0, 0,
      0, 0, 0, 0, 0, 0, 0, 55, 56, 57, 45, 52, 53, 54, 43, 49,
      50, 51, 48, 46, 0, 0, 0, 0]"

definition ctlmap_low :: "u32 list" where
  "ctlmap_low =
     [0, 0, 0, 0, 0, 0, 0, 0, 0, 0, 0, 0, 0, 0, 0, 0,
      17, 23, 5, 18, 20, 25, 21, 9, 15, 16, 0, 0, 13, 0, 1, 19,
      4, 6, 7, 8, 10, 11, 12, 0, 0, 0, 0, 28, 26, 24, 3, 22,
      2, 14, 13, 0, 0, 239, 0, 0]"

definition normalmap :: "nat \<Rightarrow> u32" where
  "normalmap d = (if d < length normalmap_low then normalmap_low ! d else keypad 10 47 d)"

definition shiftmap :: "nat \<Rightarrow> u32" where
  "shiftmap d = (if d < length shiftmap_low then shiftmap_low ! d else keypad 10 47 d)"

definition ctlmap :: "nat \<Rightarrow> u32" where
  "ctlmap d = (if d < length ctlmap_low then ctlmap_low ! d else keypad 13 239 d)"

definition charcode :: "u32 \<Rightarrow> nat \<Rightarrow> u32" where
  "charcode k = (if k = 0 then normalmap else if k = 1 then shiftmap else ctlmap)"

text \<open>\<open>kbdgetc\<close> on the byte \<open>data\<close> from the keyboard, with the modifiers \<open>shift\<close>: the value and the
  new modifiers.\<close>

definition kbdgetc :: "u8 \<Rightarrow> u32 \<Rightarrow> u32 \<times> u32" where
  "kbdgetc data shift =
     (if data = 0xE0 then (0, shift OR E0ESC)
      else if data AND 0x80 \<noteq> 0 then
        let d = (if shift AND E0ESC \<noteq> 0 then data else data AND 0x7F)
        in (0, shift AND NOT (shiftcode (unat d) OR E0ESC))
      else
        let esc = (shift AND E0ESC \<noteq> 0);
            d = unat (if esc then data OR 0x80 else data);
            shift = (if esc then shift AND NOT E0ESC else shift);
            shift = (shift OR shiftcode d) XOR togglecode d;
            c = charcode (shift AND (CTL OR SHIFT)) d;
            c = (if shift AND CAPSLOCK \<noteq> 0 then
                   if 97 \<le> c \<and> c \<le> 122 then c - 32 else if 65 \<le> c \<and> c \<le> 90 then c + 32 else c
                 else c)
        in (c, shift))"

text \<open>\<open>kbdintr\<close>: the characters of the bytes that wait in the keyboard's buffer.\<close>

fun kbd_chars :: "u8 list \<Rightarrow> u32 \<Rightarrow> u32 list \<times> u32" where
  "kbd_chars [] shift = ([], shift)"
| "kbd_chars (d # ds) shift =
     (case kbdgetc d shift of (c, shift) \<Rightarrow>
        (case kbd_chars ds shift of (cs, shift) \<Rightarrow> (c # cs, shift)))"

definition kbdintr :: "u8 list \<Rightarrow> u32 \<Rightarrow> cons_st \<Rightarrow> (bool \<times> bool \<times> u32 \<times> cons_st) res" where
  "kbdintr data shift s =
     (case kbd_chars data shift of (cs, shift) \<Rightarrow>
        kbind (consoleintr cs s) (\<lambda>(d, w, s). Ok (d, w, shift, s)))"

text \<open>\<open>uartintr\<close> on the bytes in the serial port.\<close>

definition uartintr :: "u8 list \<Rightarrow> cons_st \<Rightarrow> (bool \<times> bool \<times> cons_st) res" where
  "uartintr bs s = (if uart s then consoleintr (map ucast bs) s else Ok (False, False, s))"

section \<open>The line discipline\<close>

text \<open>What the console promises: the characters that have been typed and committed but not read, and
  those of the line being edited.\<close>

type_synonym line_st = "u8 list \<times> u8 list"

definition line_char :: "u32 \<Rightarrow> line_st \<Rightarrow> line_st" where
  "line_char c = (\<lambda>(com, ed).
     if c = CTRL_P then (com, ed)
     else if c = CTRL_U then (com, [])
     else if c = CTRL_H \<or> c = DEL then (com, butlast ed)
     else if c \<noteq> 0 \<and> length com + length ed < INPUT_BUF then
       let ed = ed @ [if c = 13 then 10 else ucast c] in
       if c = 13 \<or> c = 10 \<or> c = CTRL_D \<or> length com + length ed = INPUT_BUF then (com @ ed, []) else (com, ed)
     else (com, ed))"

fun line_read :: "bool \<Rightarrow> nat \<Rightarrow> u8 list \<Rightarrow> u8 list \<Rightarrow> read_out \<times> u8 list" where
  "line_read killed 0 got com = (ReadDone got, com)"
| "line_read killed (Suc n) got [] = (if killed then ReadKilled else ReadSleeps (Suc n) got, [])"
| "line_read killed (Suc n) got (c # com) =
     (if c = 4 then (ReadDone got, if got \<noteq> [] then c # com else com)
      else if c = 10 then (ReadDone (got @ [c]), com)
      else line_read killed n (got @ [c]) com)"

text \<open>Interrupts and reads, in any order.\<close>

datatype cons_event = Typed u32 | Reads bool nat "u8 list"

fun run_console :: "cons_event list \<Rightarrow> cons_st \<Rightarrow> (read_out list \<times> cons_st) res" where
  "run_console [] s = Ok ([], s)"
| "run_console (Typed c # es) s = kbind (consoleintr_char c s) (\<lambda>(_, _, s). run_console es s)"
| "run_console (Reads k n got # es) s =
     (case consoleread_loop k n got s of (r, s) \<Rightarrow>
        kbind (run_console es s) (\<lambda>(rs, s). Ok (r # rs, s)))"

fun run_line :: "cons_event list \<Rightarrow> line_st \<Rightarrow> read_out list" where
  "run_line [] x = []"
| "run_line (Typed c # es) x = run_line es (line_char c x)"
| "run_line (Reads k n got # es) x =
     (case line_read k n got (fst x) of (r, com) \<Rightarrow> r # run_line es (com, snd x))"

definition screen_ok :: "cons_st \<Rightarrow> bool" where
  "screen_ok s \<longleftrightarrow> crt_pos s < 24 * 80 \<and> \<not> panicked s"

definition input_ok :: "cons_st \<Rightarrow> bool" where
  "input_ok s \<longleftrightarrow> unat (in_w s - in_r s) + unat (in_e s - in_w s) \<le> INPUT_BUF"

definition line_abs :: "cons_st \<Rightarrow> line_st" where
  "line_abs s = (ring_list INPUT_BUF (ibuf s) (in_r s) (in_w s), ring_list INPUT_BUF (ibuf s) (in_w s) (in_e s))"

text \<open>A line that is being edited contains no newline.\<close>

definition console_ok :: "cons_st \<Rightarrow> bool" where
  "console_ok s \<longleftrightarrow> screen_ok s \<and> input_ok s \<and> 10 \<notin> set (snd (line_abs s))"

section \<open>The screen\<close>

lemma cgaputc_ok:
  assumes "crt_pos s < 24 * 80"
  shows "\<exists>m p. cgaputc c s = Ok (s\<lparr>crt := m, crt_pos := p\<rparr>) \<and> p < 24 * 80 \<and> (\<forall>i\<ge>24 * 80. m i = crt s i)"
proof -
  define p1 where "p1 = (if c = NEWLINE then crt_pos s + (80 - crt_pos s mod 80)
                 else if c = BACKSPACE then crt_pos s - 1 else crt_pos s + 1)"
  have next_line: "p + (80 - p mod 80) \<le> 24 * 80" if "p < 24 * 80" for p :: nat
  proof -
    define d r where "d = p div 80" and "r = p mod 80"
    have "p = d * 80 + r" "r < 80" "d < 24"
      using that div_mult_mod_eq [of p 80] by (simp_all add: d_def r_def less_mult_imp_div_less)
    then show ?thesis unfolding r_def [symmetric] by simp
  qed
  have "p1 \<le> 24 * 80" using next_line [OF assms] assms by (auto simp: p1_def)
  moreover have "24 \<le> p1 div 80 \<longleftrightarrow> 24 * 80 \<le> p1" by (rule less_eq_div_iff_mult_less_eq) simp
  ultimately have p1: "\<not> 25 * 80 < p1" "(if 24 \<le> p1 div 80 then p1 - 80 else p1) < 24 * 80" by auto
  define m0 where "m0 = (if c \<noteq> NEWLINE \<and> c \<noteq> BACKSPACE
    then (crt s)(crt_pos s := (ucast c AND 0xff) OR 0x0700) else crt s)"
  define m1 where "m1 = (if 24 \<le> p1 div 80 then cga_scroll (p1 - 80) m0 else m0)"
  define p2 where "p2 = (if 24 \<le> p1 div 80 then p1 - 80 else p1)"
  have "cgaputc c s = Ok (s\<lparr>crt := m1(p2 := 0x0720), crt_pos := p2\<rparr>)"
    using p1(1) unfolding cgaputc_def Let_def m1_def p2_def m0_def p1_def [symmetric] by simp
  moreover have "p2 < 24 * 80" using p1(2) by (simp add: p2_def)
  moreover have "(m1(p2 := 0x0720)) i = crt s i" if "24 * 80 \<le> i" for i
    using that assms \<open>p2 < 24 * 80\<close> by (auto simp: m1_def m0_def cga_scroll_def)
  ultimately show ?thesis by blast
qed

lemma consputc_ok:
  assumes "screen_ok s"
  shows "\<exists>m p u. consputc c s = Ok (s\<lparr>crt := m, crt_pos := p, uart_out := u\<rparr>) \<and> p < 24 * 80 \<and>
    (\<forall>i\<ge>24 * 80. m i = crt s i)"
proof -
  define s1 where "s1 = (if c = BACKSPACE then uartputc 8 (uartputc 32 (uartputc 8 s)) else uartputc c s)"
  have s1: "s1 = s\<lparr>uart_out := uart_out s1\<rparr>" by (simp add: s1_def uartputc_def)
  then have "crt_pos s1 = crt_pos s" "crt s1 = crt s" by (metis cons_st.ext_inject cons_st.surjective cons_st.update_convs(6))+
  with cgaputc_ok [of s1 c] assms obtain m p where "cgaputc c s1 = Ok (s1\<lparr>crt := m, crt_pos := p\<rparr>)"
    "p < 24 * 80" "\<forall>i\<ge>24 * 80. m i = crt s i" by (auto simp: screen_ok_def)
  moreover have "s1\<lparr>crt := m, crt_pos := p\<rparr> = s\<lparr>crt := m, crt_pos := p, uart_out := uart_out s1\<rparr>"
    by (subst s1) simp
  ultimately show ?thesis
    using assms by (auto simp: consputc_def screen_ok_def simp flip: s1_def)
qed

lemma out_frame [simp]:
  "line_abs (s\<lparr>crt := m, crt_pos := p, uart_out := u\<rparr>) = line_abs s"
  "input_ok (s\<lparr>crt := m, crt_pos := p, uart_out := u\<rparr>) = input_ok s"
  "screen_ok (s\<lparr>crt := m, crt_pos := p, uart_out := u\<rparr>) \<longleftrightarrow> p < 24 * 80 \<and> \<not> panicked s"
  "screen_ok (s\<lparr>in_e := e\<rparr>) = screen_ok s" "screen_ok (s\<lparr>in_w := e\<rparr>) = screen_ok s"
  "screen_ok (s\<lparr>in_r := e\<rparr>) = screen_ok s" "screen_ok (s\<lparr>ibuf := b\<rparr>) = screen_ok s"
  by (simp_all add: line_abs_def input_ok_def screen_ok_def)

section \<open>Editing and reading\<close>

lemma input_128_dvd: "(128 :: nat) dvd 2 ^ 32"
  by simp

lemma line_unpush:
  assumes "input_ok s" "in_e s \<noteq> in_w s"
  shows "input_ok (s\<lparr>in_e := in_e s - 1\<rparr>)"
    "line_abs (s\<lparr>in_e := in_e s - 1\<rparr>) = (fst (line_abs s), butlast (snd (line_abs s)))"
    "unat (in_e s - 1 - in_w s) < unat (in_e s - in_w s)"
proof -
  have "in_e s - in_w s \<noteq> 0" using assms by auto
  then have "unat (in_e s - in_w s - 1) = unat (in_e s - in_w s) - 1" "0 < unat (in_e s - in_w s)"
    by (simp_all add: unat_minus_one unat_gt_0)
  then have "unat (in_e s - 1 - in_w s) = unat (in_e s - in_w s) - 1" "0 < unat (in_e s - in_w s)"
    by (simp_all add: algebra_simps)
  then show "input_ok (s\<lparr>in_e := in_e s - 1\<rparr>)" "unat (in_e s - 1 - in_w s) < unat (in_e s - in_w s)"
    using assms by (simp_all add: input_ok_def)
  show "line_abs (s\<lparr>in_e := in_e s - 1\<rparr>) = (fst (line_abs s), butlast (snd (line_abs s)))"
    using assms by (simp add: line_abs_def ring_list_unpush)
qed

lemma last_edited:
  assumes "in_e s \<noteq> in_w s"
  shows "ibuf s (unat (in_e s - 1) mod INPUT_BUF) \<in> set (snd (line_abs s))"
proof -
  define k where "k = unat (in_e s - in_w s) - 1"
  have ne: "in_e s - in_w s \<noteq> 0" using assms by auto
  then have "k = unat (in_e s - in_w s - 1)" "k < unat (in_e s - in_w s)"
    by (simp_all add: k_def unat_minus_one unat_gt_0)
  moreover from this have "unat (in_e s - 1) mod INPUT_BUF = (unat (in_w s) + k) mod INPUT_BUF"
    using unat_index_mod [OF input_128_dvd, of "in_w s" k] by (simp add: algebra_simps)
  ultimately show ?thesis by (auto simp: line_abs_def ring_list_def)
qed

lemma kill_line_ok:
  assumes "console_ok s" "unat (in_e s - in_w s) \<le> n"
  shows "\<exists>s'. kill_line n s = Ok s' \<and> console_ok s' \<and> line_abs s' = (fst (line_abs s), [])"
  using assms
proof (induction n arbitrary: s)
  case 0
  then have "in_e s - in_w s = 0" by (simp add: unat_eq_0)
  then show ?case using 0 by (simp add: line_abs_def)
next
  case (Suc n)
  show ?case
  proof (cases "in_e s = in_w s")
    case True
    then show ?thesis using Suc.prems by (simp add: line_abs_def)
  next
    case False
    have ok: "screen_ok s" "input_ok s" and nl: "10 \<notin> set (snd (line_abs s))"
      using Suc.prems by (auto simp: console_ok_def)
    note unp = line_unpush [OF ok(2) False]
    obtain m p u where out: "consputc BACKSPACE (s\<lparr>in_e := in_e s - 1\<rparr>) =
        Ok ((s\<lparr>in_e := in_e s - 1\<rparr>)\<lparr>crt := m, crt_pos := p, uart_out := u\<rparr>)" "p < 24 * 80"
      using consputc_ok [of "s\<lparr>in_e := in_e s - 1\<rparr>" BACKSPACE] ok by auto
    define s1 where "s1 = (s\<lparr>in_e := in_e s - 1\<rparr>)\<lparr>crt := m, crt_pos := p, uart_out := u\<rparr>"
    have "line_abs s1 = (fst (line_abs s), butlast (snd (line_abs s)))"
      using unp by (simp add: s1_def del: cons_st.update_convs)
    moreover have "console_ok s1"
      using ok nl out(2) unp unfolding console_ok_def s1_def
      by (auto simp: screen_ok_def simp del: cons_st.update_convs dest: in_set_butlastD)
    moreover have "unat (in_e s1 - in_w s1) \<le> n" using unp(3) Suc.prems by (simp add: s1_def)
    ultimately obtain s' where "kill_line n s1 = Ok s'" "console_ok s'" "line_abs s' = (fst (line_abs s), [])"
      using Suc.IH [of s1] by auto
    moreover have "ibuf s (unat (in_e s - 1) mod INPUT_BUF) \<noteq> 10" using last_edited [OF False] nl by metis
    ultimately show ?thesis using False out(1) by (auto simp: s1_def)
  qed
qed

lemma line_push:
  fixes c :: u8
  assumes "input_ok s" "in_e s - in_r s < of_nat INPUT_BUF"
  defines "s' \<equiv> s\<lparr>ibuf := (ibuf s)(unat (in_e s) mod INPUT_BUF := c), in_e := in_e s + 1\<rparr>"
  shows "input_ok s'" "line_abs s' = (fst (line_abs s), snd (line_abs s) @ [c])"
    "length (fst (line_abs s)) + length (snd (line_abs s)) < INPUT_BUF"
proof -
  let ?r = "in_r s" and ?w = "in_w s" and ?e = "in_e s" and ?b = "(ibuf s)(unat (in_e s) mod INPUT_BUF := c)"
  have sum: "unat (?e - ?r) = unat (?w - ?r) + unat (?e - ?w)"
    using assms(1) by (intro unat_diff_split) (simp add: input_ok_def)
  have room: "unat (?e - ?r) < INPUT_BUF" using assms(2) by (simp add: word_less_nat_alt)
  then show "length (fst (line_abs s)) + length (snd (line_abs s)) < INPUT_BUF"
    using sum by (simp add: line_abs_def)
  have e1: "unat (?e + 1 - ?w) = Suc (unat (?e - ?w))" using room sum by (intro unat_succ_diff) simp
  then show ok': "input_ok s'" using room sum by (simp add: input_ok_def s'_def)
  have "ring_list INPUT_BUF ?b ?r (?e + 1) = ring_list INPUT_BUF (ibuf s) ?r ?e @ [c]"
    using room by (intro ring_list_push) simp_all
  moreover have "ring_list INPUT_BUF ?b ?r (?e + 1) =
      ring_list INPUT_BUF ?b ?r ?w @ ring_list INPUT_BUF ?b ?w (?e + 1)"
    using room sum e1 by (intro ring_list_append) simp_all
  moreover have "ring_list INPUT_BUF (ibuf s) ?r ?e =
      ring_list INPUT_BUF (ibuf s) ?r ?w @ ring_list INPUT_BUF (ibuf s) ?w ?e"
    using room sum by (intro ring_list_append) simp_all
  ultimately have "ring_list INPUT_BUF ?b ?r ?w @ ring_list INPUT_BUF ?b ?w (?e + 1) =
      ring_list INPUT_BUF (ibuf s) ?r ?w @ (ring_list INPUT_BUF (ibuf s) ?w ?e @ [c])"
    by simp
  then have "ring_list INPUT_BUF ?b ?r ?w = ring_list INPUT_BUF (ibuf s) ?r ?w \<and>
      ring_list INPUT_BUF ?b ?w (?e + 1) = ring_list INPUT_BUF (ibuf s) ?w ?e @ [c]"
    by (subst (asm) append_eq_append_conv) simp_all
  then show "line_abs s' = (fst (line_abs s), snd (line_abs s) @ [c])"
    by (simp add: line_abs_def s'_def)
qed

lemma line_commit:
  assumes "input_ok s"
  shows "input_ok (s\<lparr>in_w := in_e s\<rparr>)" "line_abs (s\<lparr>in_w := in_e s\<rparr>) = (fst (line_abs s) @ snd (line_abs s), [])"
    "in_e s = in_r s + of_nat INPUT_BUF \<longleftrightarrow> length (fst (line_abs s)) + length (snd (line_abs s)) = INPUT_BUF"
    "in_e s - in_r s < of_nat INPUT_BUF \<longleftrightarrow> length (fst (line_abs s)) + length (snd (line_abs s)) < INPUT_BUF"
proof -
  have sum: "unat (in_e s - in_r s) = unat (in_w s - in_r s) + unat (in_e s - in_w s)"
    using assms by (intro unat_diff_split) (simp add: input_ok_def)
  then show "input_ok (s\<lparr>in_w := in_e s\<rparr>)" using assms by (simp add: input_ok_def)
  show "line_abs (s\<lparr>in_w := in_e s\<rparr>) = (fst (line_abs s) @ snd (line_abs s), [])"
    using assms by (simp add: line_abs_def ring_list_append [of 128 "in_w s" "in_r s" "in_e s"] input_ok_def)
  show "in_e s = in_r s + of_nat INPUT_BUF \<longleftrightarrow> length (fst (line_abs s)) + length (snd (line_abs s)) = INPUT_BUF"
    using unat_diff_eq [of "in_e s" "in_r s" 128] sum by (simp add: line_abs_def)
  show "in_e s - in_r s < of_nat INPUT_BUF \<longleftrightarrow> length (fst (line_abs s)) + length (snd (line_abs s)) < INPUT_BUF"
    using sum by (simp add: line_abs_def word_less_nat_alt)
qed

lemma consoleintr_char_ok:
  assumes ok: "console_ok s" and c: "c < 256"
  shows "\<exists>d w s'. consoleintr_char c s = Ok (d, w, s') \<and> console_ok s' \<and> line_abs s' = line_char c (line_abs s)"
proof -
  have scr: "screen_ok s" and inp: "input_ok s" and nl: "10 \<notin> set (snd (line_abs s))"
    using ok by (auto simp: console_ok_def)
  obtain com ed where abs: "line_abs s = (com, ed)" by fastforce
  consider "c = CTRL_P" | "c = CTRL_U" | "c = CTRL_H \<or> c = DEL" "in_e s = in_w s"
    | "c = CTRL_H \<or> c = DEL" "in_e s \<noteq> in_w s"
    | "c \<notin> {CTRL_P, CTRL_U, CTRL_H, DEL}" "\<not> (c \<noteq> 0 \<and> in_e s - in_r s < of_nat INPUT_BUF)"
    | "c \<notin> {CTRL_P, CTRL_U, CTRL_H, DEL}" "c \<noteq> 0" "in_e s - in_r s < of_nat INPUT_BUF"
    by blast
  then show ?thesis
  proof cases
    case 1
    then show ?thesis using ok by (auto simp: consoleintr_char_def line_char_def abs)
  next
    case 2
    then show ?thesis using kill_line_ok [OF ok order.refl] by (auto simp: consoleintr_char_def line_char_def abs)
  next
    case 3
    then have "ed = []" using abs by (simp add: line_abs_def)
    then show ?thesis using 3 ok by (auto simp: consoleintr_char_def line_char_def abs)
  next
    case 4
    note unp = line_unpush [OF inp 4(2)]
    obtain m p u where "consputc BACKSPACE (s\<lparr>in_e := in_e s - 1\<rparr>) =
        Ok ((s\<lparr>in_e := in_e s - 1\<rparr>)\<lparr>crt := m, crt_pos := p, uart_out := u\<rparr>)" "p < 24 * 80"
      using consputc_ok [of "s\<lparr>in_e := in_e s - 1\<rparr>" BACKSPACE] scr by auto
    moreover have "console_ok ((s\<lparr>in_e := in_e s - 1\<rparr>)\<lparr>crt := m, crt_pos := p, uart_out := u\<rparr>)"
      using scr nl unp \<open>p < 24 * 80\<close> unfolding console_ok_def
      by (auto simp: screen_ok_def simp del: cons_st.update_convs dest: in_set_butlastD)
    ultimately show ?thesis
      using 4 unp abs by (auto simp: consoleintr_char_def line_char_def simp del: cons_st.update_convs)
  next
    case 5
    then show ?thesis using ok line_commit(4) [OF inp] abs by (auto simp: consoleintr_char_def line_char_def)
  next
    case 6
    define c' where "c' = (if c = 13 then 10 else c)"
    define s1 where "s1 = s\<lparr>ibuf := (ibuf s)(unat (in_e s) mod INPUT_BUF := ucast c'), in_e := in_e s + 1\<rparr>"
    have push: "input_ok s1" "line_abs s1 = (com, ed @ [ucast c'])" "length com + length ed < INPUT_BUF"
      using line_push(1,2) [OF inp 6(3), of "ucast c'"] line_push(3) [OF inp 6(3)] abs by (simp_all add: s1_def)
    have "screen_ok s1" using scr by (simp add: s1_def screen_ok_def)
    then obtain m p u where out: "consputc c' s1 = Ok (s1\<lparr>crt := m, crt_pos := p, uart_out := u\<rparr>)" "p < 24 * 80"
      using consputc_ok [of s1 c'] by auto
    define s2 where "s2 = s1\<lparr>crt := m, crt_pos := p, uart_out := u\<rparr>"
    have s2: "input_ok s2" "line_abs s2 = (com, ed @ [ucast c'])" "screen_ok s2"
      using push out \<open>screen_ok s1\<close> by (simp_all add: s2_def screen_ok_def)
    have full: "in_e s2 = in_r s2 + of_nat INPUT_BUF \<longleftrightarrow> length com + length (ed @ [ucast c' :: u8]) = INPUT_BUF"
      using line_commit(3) [OF s2(1)] s2(2) by simp
    have "unat c' < 256" using c by (simp add: c'_def word_less_nat_alt)
    then have "unat (ucast c' :: u8) = unat c'" by (simp add: unsigned_ucast_eq take_bit_nat_eq_self)
    then have "ucast c' = (10 :: u8) \<longleftrightarrow> c' = 10" by (simp add: word_unat_eq_iff)
    then have "console_ok s2" if "c' \<noteq> 10"
      using that s2 nl abs by (simp add: console_ok_def)
    moreover have "console_ok (s2\<lparr>in_w := in_e s2\<rparr>)"
      using line_commit(1,2) [OF s2(1)] s2 by (simp add: console_ok_def)
    moreover have "consoleintr_char c s =
        (if c' = 10 \<or> c' = CTRL_D \<or> in_e s2 = in_r s2 + of_nat INPUT_BUF
         then Ok (False, True, s2\<lparr>in_w := in_e s2\<rparr>) else Ok (False, False, s2))"
      using 6 out by (simp add: consoleintr_char_def Let_def flip: c'_def s1_def s2_def)
    ultimately show ?thesis
      using 6 push s2 full abs line_commit(2) [OF s2(1)] by (auto simp: line_char_def Let_def c'_def)
  qed
qed

lemma line_pop:
  assumes "input_ok s" "in_r s \<noteq> in_w s"
  shows "input_ok (s\<lparr>in_r := in_r s + 1\<rparr>)"
    "fst (line_abs s) = ibuf s (unat (in_r s) mod INPUT_BUF) # fst (line_abs (s\<lparr>in_r := in_r s + 1\<rparr>))"
    "snd (line_abs (s\<lparr>in_r := in_r s + 1\<rparr>)) = snd (line_abs s)"
  using assms unat_pred_diff [OF assms(2)] ring_list_pop [OF input_128_dvd assms(2)]
  by (simp_all add: input_ok_def line_abs_def)

lemma consoleread_loop_ok:
  assumes "console_ok s" "consoleread_loop k n got s = (r, s')"
  shows "console_ok s' \<and> (r, fst (line_abs s')) = line_read k n got (fst (line_abs s)) \<and>
    snd (line_abs s') = snd (line_abs s)"
  using assms
proof (induction n arbitrary: got s)
  case 0
  then show ?case by simp
next
  case (Suc n)
  show ?case
  proof (cases "in_r s = in_w s")
    case True
    then have "fst (line_abs s) = []" by (simp add: line_abs_def)
    then show ?thesis using True Suc.prems by auto
  next
    case False
    have inp: "input_ok s" using Suc.prems by (simp add: console_ok_def)
    let ?s1 = "s\<lparr>in_r := in_r s + 1\<rparr>"
    note pop = line_pop [OF inp False]
    have "console_ok ?s1" using Suc.prems pop by (simp add: console_ok_def)
    then show ?thesis
      using False Suc.prems pop Suc.IH [of ?s1 "got @ [ibuf s (unat (in_r s) mod INPUT_BUF)]"]
      by (auto simp: Let_def split: if_splits)
  qed
qed

lemma run_console_ok:
  assumes "console_ok s" "\<forall>c. Typed c \<in> set es \<longrightarrow> c < 256"
  shows "\<exists>s'. run_console es s = Ok (run_line es (line_abs s), s') \<and> console_ok s'"
  using assms
proof (induction es arbitrary: s)
  case (Cons ev es)
  show ?case
  proof (cases ev)
    case (Typed c)
    then obtain d w s1 where "consoleintr_char c s = Ok (d, w, s1)" "console_ok s1"
      "line_abs s1 = line_char c (line_abs s)"
      using consoleintr_char_ok [OF Cons.prems(1), of c] Cons.prems(2) by auto
    then show ?thesis using Cons.IH [of s1] Cons.prems(2) Typed by auto
  next
    case (Reads k n got)
    obtain r s1 where r: "consoleread_loop k n got s = (r, s1)" by fastforce
    note rd = consoleread_loop_ok [OF Cons.prems(1) r]
    then have "line_abs s1 = (snd (line_read k n got (fst (line_abs s))), snd (line_abs s))"
      "r = fst (line_read k n got (fst (line_abs s)))"
      by (metis fst_conv prod.collapse snd_conv)+
    with rd Cons.IH [of s1] Cons.prems(2) r Reads show ?thesis by (auto split: prod.splits)
  qed
qed simp

section \<open>Properties\<close>

text \<open>The console at boot.\<close>

definition console_boot :: cons_st where
  "console_boot = \<lparr>ibuf = \<lambda>_. 0, in_r = 0, in_w = 0, in_e = 0, uart = True, uart_out = [],
     crt = \<lambda>_. 0, crt_pos = 0, panicked = False, locking = True\<rparr>"

text \<open>C20. The console input is a line editor: from any good state (in particular after any number of
  wrap-arounds of the three indices), for any interleaving of typed characters and reads, the reads
  deliver exactly what the reference editor delivers, in which a line is a list: backspace drops its last
  character, the kill character all of it, and a newline, an end-of-file character or a full
  buffer commits it. All events are processed: nothing panics, and the state stays good.\<close>

theorem console_line_discipline:
  assumes "console_ok s" "\<forall>c. Typed c \<in> set es \<longrightarrow> c < 256"
  shows "\<exists>s'. run_console es s = Ok (run_line es (line_abs s), s') \<and> console_ok s'"
  using assms by (rule run_console_ok)

theorem console_line_discipline_witness:
  "let es = [Typed 104, Typed 120, Typed 8, Typed 105, Reads False 9 [], Typed 13, Reads False 9 []] in
   console_ok console_boot \<and> (\<forall>c. Typed c \<in> set es \<longrightarrow> c < 256) \<and>
   (\<exists>s'. run_console es console_boot = Ok ([ReadSleeps 9 [], ReadDone [104, 105, 10]], s') \<and> console_ok s')"
proof -
  let ?es = "[Typed 104, Typed 120, Typed 8, Typed 105, Reads False 9 [], Typed 13, Reads False 9 []]"
  have boot: "console_ok console_boot" "line_abs console_boot = ([], [])"
    by (simp_all add: console_boot_def console_ok_def screen_ok_def input_ok_def line_abs_def)
  moreover have chars: "\<forall>c. Typed c \<in> set ?es \<longrightarrow> c < 256" by auto
  moreover have "run_line ?es ([], []) = [ReadSleeps 9 [], ReadDone [104, 105, 10]]" by code_simp
  ultimately show ?thesis using console_line_discipline [OF boot(1) chars] by (simp add: Let_def)
qed

text \<open>C21. The screen output never leaves the screen: with the cursor inside the first 24 rows, printing
  any character (a newline, a backspace, a scroll included) returns without the cursor panic, leaves
  the cursor there and changes no cell of the video memory behind them.\<close>

theorem console_screen_safe:
  assumes "screen_ok s"
  shows "\<exists>s'. consputc c s = Ok s' \<and> screen_ok s' \<and> (\<forall>i. 24 * 80 \<le> i \<longrightarrow> crt s' i = crt s i) \<and>
           line_abs s' = line_abs s"
  using consputc_ok [OF assms, of c] assms by (auto simp: screen_ok_def)

theorem console_screen_safe_witness:
  "\<exists>s'. screen_ok (console_boot\<lparr>crt_pos := 1919\<rparr>) \<and> consputc NEWLINE (console_boot\<lparr>crt_pos := 1919\<rparr>) = Ok s' \<and>
     screen_ok s'"
  using console_screen_safe [of "console_boot\<lparr>crt_pos := 1919\<rparr>" NEWLINE]
  by (auto simp: screen_ok_def console_boot_def)

end
