(* ===== verification/Kern.thy ===== *)
theory Kern
  imports Fs Vm Pipe Console
begin

text \<open>
  The state of the kernel that the process, file and system call layers share: the process table
  of \<open>proc.c\<close>, the CPUs, the open file table of \<open>file.c\<close>, the pipes, physical memory and the
  clock, on top of the file system state. A \<open>struct proc*\<close>, a \<open>struct file*\<close> and a
  \<open>struct inode*\<close> are indices into their tables (\<^verbatim>\<open>None\<close> for null), a \<open>struct pipe*\<close> is the
  address of its page. The trap frame and the context of a process, which C keeps at the top of
  its kernel stack, are fields of the process.
\<close>

section \<open>Processes\<close>

datatype procstate = UNUSED | EMBRYO | SLEEPING | RUNNABLE | RUNNING | ZOMBIE

datatype procColor = RED | BLACK

record trapframe =
  tf_edi :: u32
  tf_esi :: u32
  tf_ebp :: u32
  tf_oesp :: u32
  tf_ebx :: u32
  tf_edx :: u32
  tf_ecx :: u32
  tf_eax :: u32
  tf_gs :: u16
  tf_fs :: u16
  tf_es :: u16
  tf_ds :: u16
  tf_trapno :: u32
  tf_err :: u32
  tf_eip :: u32
  tf_cs :: u16
  tf_eflags :: u32
  tf_esp :: u32
  tf_ss :: u16

record kcontext =
  ctx_edi :: u32
  ctx_esi :: u32
  ctx_ebx :: u32
  ctx_ebp :: u32
  ctx_eip :: u32

text \<open>The channels processes sleep on, which C names by an address.\<close>

datatype chan =
    ChanPipe u32 pipechan
  | ChanProc nat
  | ChanTicks
  | ChanInput
  | ChanAddr u32

text \<open>The code only ever copies the \<open>double\<close> of the scheduling members: its bit pattern.\<close>

type_synonym cdouble = "64 word"

record proc =
  p_sz :: u32
  p_pgdir :: u32
  p_kstack :: u32
  p_state :: procstate
  p_pid :: int
  p_parent :: "nat option"
  p_tf :: trapframe
  p_context :: kcontext
  p_chan :: "chan option"
  p_killed :: bool
  p_ofile :: "nat option list"
  p_cwd :: "nat option"
  p_name :: "u8 list"
  p_vruntime :: cdouble
  p_curr_runtime :: int
  p_time_slice :: int
  p_nice_value :: int
  p_weight :: int
  p_color :: procColor
  p_r :: "nat option"
  p_l :: "nat option"
  p_p :: "nat option"

record rbtree =
  rb_length :: int
  rb_period :: int
  rb_total_weight :: int
  rb_root :: "nat option"
  rb_min_vruntime :: "nat option"

text \<open>The part of \<open>struct cpu\<close> that the kernel code reads back: the \<open>pushcli\<close> state, the current
  process, and the page directory and kernel stack that \<open>switchuvm\<close> gives to the hardware.\<close>

record kcpu =
  c_apicid :: u8
  c_cli :: cpu
  c_proc :: "nat option"
  c_cr3 :: u32
  c_esp0 :: u32

section \<open>Files\<close>

datatype fd_type = FD_NONE | FD_PIPE | FD_INODE

record file_st =
  f_type :: fd_type
  f_ref :: int
  f_readable :: bool
  f_writable :: bool
  f_pipe :: u32
  f_ip :: nat
  f_off :: u32

section \<open>The kernel\<close>

text \<open>The symbols the linker and the build supply: \<open>end\<close>, \<open>data\<close>, the bytes of \<open>initcode\<close>, and
  the addresses of \<open>forkret\<close> and \<open>trapret\<close>.\<close>

record build =
  b_end :: u32
  b_rodata_end :: u32
  b_initcode :: "u8 list"
  b_forkret :: u32
  b_trapret :: u32

record kern = fs +
  km :: kmem
  procs :: "nat \<Rightarrow> proc"
  ptable_lock :: spinlock
  nextpid :: int
  initproc :: "nat option"
  kcpus :: "nat \<Rightarrow> kcpu"
  ncpu :: nat
  kpgdir :: u32
  rbTree :: rbtree
  ticks :: u32
  first_forkret :: bool
  ftable :: "nat \<Rightarrow> file_st"
  pipes :: "u32 \<Rightarrow> pipe"
  kcons :: cons_st
  kbd_shift :: u32

definition upd_proc :: "nat \<Rightarrow> (proc \<Rightarrow> proc) \<Rightarrow> kern \<Rightarrow> kern" where
  "upd_proc i f s = s\<lparr>procs := (procs s)(i := f (procs s i))\<rparr>"

definition upd_file :: "nat \<Rightarrow> (file_st \<Rightarrow> file_st) \<Rightarrow> kern \<Rightarrow> kern" where
  "upd_file i f s = s\<lparr>ftable := (ftable s)(i := f (ftable s i))\<rparr>"

definition upd_cpu :: "nat \<Rightarrow> (kcpu \<Rightarrow> kcpu) \<Rightarrow> kern \<Rightarrow> kern" where
  "upd_cpu c f s = s\<lparr>kcpus := (kcpus s)(c := f (kcpus s c))\<rparr>"

text \<open>A call of the page allocator or of \<open>vm.c\<close> on the kernel's memory.\<close>

definition with_km :: "(kmem \<Rightarrow> ('v \<times> kmem) res) \<Rightarrow> kern \<Rightarrow> ('v \<times> kern) res" where
  "with_km f s = kbind (f (km s)) (\<lambda>(v, m). Ok (v, s\<lparr>km := m\<rparr>))"

definition do_km :: "(kmem \<Rightarrow> kmem res) \<Rightarrow> kern \<Rightarrow> kern res" where
  "do_km f s = kbind (f (km s)) (\<lambda>m. Ok (s\<lparr>km := m\<rparr>))"

definition k_alloc :: "kern \<Rightarrow> u32 \<times> kern" where
  "k_alloc s = (case kalloc (km s) of (v, m) \<Rightarrow> (v, s\<lparr>km := m\<rparr>))"

section \<open>The static image\<close>

text \<open>Static data before any initialisation: zero, but for \<open>nextpid\<close> and the flag of \<open>forkret\<close>.\<close>

definition zero_sleeplock :: sleeplock where
  "zero_sleeplock = \<lparr>slocked = 0, sl_name = [], sl_pid = 0\<rparr>"

definition zero_spinlock :: spinlock where
  "zero_spinlock = \<lparr>locked = 0, lk_name = [], lk_cpu = None, lk_pcs = []\<rparr>"

definition zero_inode :: inode where
  "zero_inode = \<lparr>i_dev = 0, i_inum = 0, i_ref = 0, i_lock = zero_sleeplock, i_valid = False, i_type = 0,
     i_major = 0, i_minor = 0, i_nlink = 0, i_size = 0, i_addrs = replicate 13 0\<rparr>"

definition zero_tf :: trapframe where
  "zero_tf = \<lparr>tf_edi = 0, tf_esi = 0, tf_ebp = 0, tf_oesp = 0, tf_ebx = 0, tf_edx = 0, tf_ecx = 0,
     tf_eax = 0, tf_gs = 0, tf_fs = 0, tf_es = 0, tf_ds = 0, tf_trapno = 0, tf_err = 0, tf_eip = 0,
     tf_cs = 0, tf_eflags = 0, tf_esp = 0, tf_ss = 0\<rparr>"

definition zero_context :: kcontext where
  "zero_context = \<lparr>ctx_edi = 0, ctx_esi = 0, ctx_ebx = 0, ctx_ebp = 0, ctx_eip = 0\<rparr>"

definition zero_proc :: proc where
  "zero_proc = \<lparr>p_sz = 0, p_pgdir = 0, p_kstack = 0, p_state = UNUSED, p_pid = 0, p_parent = None,
     p_tf = zero_tf, p_context = zero_context, p_chan = None, p_killed = False,
     p_ofile = replicate NOFILE None, p_cwd = None, p_name = replicate 16 0, p_vruntime = 0,
     p_curr_runtime = 0, p_time_slice = 0, p_nice_value = 0, p_weight = 0, p_color = RED,
     p_r = None, p_l = None, p_p = None\<rparr>"

definition zero_file :: file_st where
  "zero_file = \<lparr>f_type = FD_NONE, f_ref = 0, f_readable = False, f_writable = False, f_pipe = 0,
     f_ip = 0, f_off = 0\<rparr>"

definition zero_cpu :: kcpu where
  "zero_cpu = \<lparr>c_apicid = 0, c_cli = \<lparr>ncli = 0, intena = False, eflags_if = False\<rparr>, c_proc = None,
     c_cr3 = 0, c_esp0 = 0\<rparr>"

definition zero_sb :: superblock where
  "zero_sb = decode_sb []"

definition static_kern :: kern where
  "static_kern = \<lparr>dblocks = (\<lambda>_. []), disksize = 0, dwrites = [], curpid = 0, bufs = (\<lambda>_. zero_buf),
     l_start = 0, l_size = 0, l_outstanding = 0, l_committing = False, l_dev = 0, lh_n = 0,
     lh_block = replicate LOGSIZE 0, sb = zero_sb, inodes = (\<lambda>_. zero_inode),
     km = \<lparr>use_lock = False, freelist = 0, kmemory = (\<lambda>_. 0)\<rparr>, procs = (\<lambda>_. zero_proc),
     ptable_lock = zero_spinlock, nextpid = 1, initproc = None, kcpus = (\<lambda>_. zero_cpu), ncpu = 0,
     kpgdir = 0, rbTree = \<lparr>rb_length = 0, rb_period = 0, rb_total_weight = 0, rb_root = None,
     rb_min_vruntime = None\<rparr>, ticks = 0, first_forkret = True, ftable = (\<lambda>_. zero_file),
     pipes = (\<lambda>_. pipe_init (\<lambda>_. 0)),
     kcons = console_boot\<lparr>uart := False, locking := False\<rparr>, kbd_shift = 0\<rparr>"

end
