(* ===== verification/Proc.thy ===== *)
theory Proc
  imports Kern
begin

text \<open>
  Processes and scheduling: \<open>proc.c\<close> (the parts that open files and the file system take part in
  are in \<^verbatim>\<open>Life\<close>, the red-black tree reports in \<^verbatim>\<open>Sched_Tree\<close>) and the context part of \<open>vm.c\<close>.
  The argument \<open>c\<close> is the CPU that executes the code. \<open>ptable.lock\<close> is modelled with the
  operations of \<^verbatim>\<open>Locks\<close>, since the scheduler hands it from thread to thread; the call stack
  that \<open>acquire\<close> records for debugging is left empty. A function that gives up the CPU is cut at
  \<open>swtch\<close>: one definition up to it, one from where it resumes. The step relation at the end puts
  the pieces together for several CPUs.
\<close>

section \<open>CPUs and the table lock\<close>

definition pinit :: "kern \<Rightarrow> kern" where
  "pinit s = s\<lparr>ptable_lock := initlock ''ptable'' (ptable_lock s)\<rparr>"

text \<open>\<open>mycpu\<close> and \<open>cpuid\<close>, called on CPU \<open>c\<close>: \<open>apicid\<close> is what \<open>lapicid()\<close> returns there.\<close>

definition mycpu :: "nat \<Rightarrow> u8 \<Rightarrow> kern \<Rightarrow> nat res" where
  "mycpu c apicid s =
     (if eflags_if (c_cli (kcpus s c)) then Panic ''mycpu called with interrupts enabled''
      else case List.find (\<lambda>i. c_apicid (kcpus s i) = apicid) [0..<ncpu s] of
             Some i \<Rightarrow> Ok i
           | None \<Rightarrow> Panic ''unknown apicid'')"

definition cpuid :: "nat \<Rightarrow> u8 \<Rightarrow> kern \<Rightarrow> nat res" where
  "cpuid c apicid s = mycpu c apicid s"

definition myproc :: "nat \<Rightarrow> kern \<Rightarrow> nat option" where
  "myproc c s = c_proc (kcpus s c)"

definition lock_ptable :: "nat \<Rightarrow> kern \<Rightarrow> kern res" where
  "lock_ptable c s =
     kbind (acquire c [] (ptable_lock s) (c_cli (kcpus s c))) (\<lambda>(lk, cl).
       Ok (upd_cpu c (\<lambda>k. k\<lparr>c_cli := cl\<rparr>) (s\<lparr>ptable_lock := lk\<rparr>)))"

definition unlock_ptable :: "nat \<Rightarrow> kern \<Rightarrow> kern res" where
  "unlock_ptable c s =
     kbind (release c (ptable_lock s) (c_cli (kcpus s c))) (\<lambda>(lk, cl).
       Ok (upd_cpu c (\<lambda>k. k\<lparr>c_cli := cl\<rparr>) (s\<lparr>ptable_lock := lk\<rparr>)))"

section \<open>Address spaces of processes (vm.c)\<close>

definition switchkvm :: "nat \<Rightarrow> kern \<Rightarrow> kern" where
  "switchkvm c s = upd_cpu c (\<lambda>k. k\<lparr>c_cr3 := V2P (kpgdir s)\<rparr>) s"

definition kvmalloc :: "build \<Rightarrow> nat \<Rightarrow> kern \<Rightarrow> kern res" where
  "kvmalloc B c s =
     kbind (with_km (setupkvm (b_end B) (b_rodata_end B)) s) (\<lambda>(d, s).
       Ok (switchkvm c (s\<lparr>kpgdir := d\<rparr>)))"

definition switchuvm :: "nat \<Rightarrow> nat option \<Rightarrow> kern \<Rightarrow> kern res" where
  "switchuvm c po s =
     (case po of None \<Rightarrow> Panic ''switchuvm: no process''
      | Some p \<Rightarrow>
          if p_kstack (procs s p) = 0 then Panic ''switchuvm: no kstack''
          else if p_pgdir (procs s p) = 0 then Panic ''switchuvm: no pgdir''
          else Ok (upd_cpu c (\<lambda>k. k\<lparr>c_esp0 := p_kstack (procs s p) + of_nat KSTACKSIZE,
                                    c_cr3 := V2P (p_pgdir (procs s p))\<rparr>) s))"

section \<open>Allocation\<close>

text \<open>\<open>nextpid\<close> is a C \<open>int\<close>; to increment its largest value is undefined.\<close>

definition allocproc :: "build \<Rightarrow> nat \<Rightarrow> kern \<Rightarrow> (nat option \<times> kern) res" where
  "allocproc B c s =
     kbind (lock_ptable c s) (\<lambda>s.
       case List.find (\<lambda>i. p_state (procs s i) = UNUSED) [0..<NPROC] of
         None \<Rightarrow> kbind (unlock_ptable c s) (\<lambda>s. Ok (None, s))
       | Some i \<Rightarrow>
           if 2 ^ 31 - 1 \<le> nextpid s then Undef
           else let s = upd_proc i (\<lambda>p. p\<lparr>p_state := EMBRYO, p_pid := nextpid s\<rparr>) s;
               s = s\<lparr>nextpid := nextpid s + 1\<rparr>
           in kbind (unlock_ptable c s) (\<lambda>s.
                case k_alloc s of (v, s) \<Rightarrow>
                  if v = 0 then
                    Ok (None, upd_proc i (\<lambda>p. p\<lparr>p_kstack := 0, p_state := UNUSED\<rparr>) s)
                  else
                    Ok (Some i, upd_proc i (\<lambda>p. p\<lparr>p_kstack := v,
                           p_context := zero_context\<lparr>ctx_eip := b_forkret B\<rparr>\<rparr>) s)))"

text \<open>\<open>growproc\<close> on the current process \<open>me\<close>.\<close>

definition growproc :: "build \<Rightarrow> nat \<Rightarrow> nat \<Rightarrow> int \<Rightarrow> kern \<Rightarrow> (int \<times> kern) res" where
  "growproc B c me n s =
     (let p = procs s me; sz = p_sz p; newsz = sz + word_of_int n in
      kbind (if 0 < n then with_km (allocuvm (b_end B) (p_pgdir p) sz newsz) s
             else if n < 0 then with_km (deallocuvm (b_end B) (p_pgdir p) sz newsz) s
             else Ok (sz, s)) (\<lambda>(sz', s).
        if n \<noteq> 0 \<and> sz' = 0 then Ok (- 1, s)
        else
          let s = upd_proc me (\<lambda>p. p\<lparr>p_sz := sz'\<rparr>) s
          in kbind (switchuvm c (Some me) s) (\<lambda>s. Ok (0, s))))"

section \<open>Sleeping, waking, killing\<close>

definition wakeup1 :: "chan option \<Rightarrow> kern \<Rightarrow> kern" where
  "wakeup1 ch s = s\<lparr>procs := (\<lambda>i. if i < NPROC \<and> p_state (procs s i) = SLEEPING \<and> p_chan (procs s i) = ch
                                 then (procs s i)\<lparr>p_state := RUNNABLE\<rparr> else procs s i)\<rparr>"

definition wakeup :: "nat \<Rightarrow> chan option \<Rightarrow> kern \<Rightarrow> kern res" where
  "wakeup c ch s = kbind (lock_ptable c s) (\<lambda>s. unlock_ptable c (wakeup1 ch s))"

definition kill :: "nat \<Rightarrow> int \<Rightarrow> kern \<Rightarrow> (int \<times> kern) res" where
  "kill c pid s =
     kbind (lock_ptable c s) (\<lambda>s.
       case List.find (\<lambda>i. p_pid (procs s i) = pid) [0..<NPROC] of
         Some i \<Rightarrow>
           let s = upd_proc i (\<lambda>p. p\<lparr>p_killed := True\<rparr>) s;
               s = (if p_state (procs s i) = SLEEPING then upd_proc i (\<lambda>p. p\<lparr>p_state := RUNNABLE\<rparr>) s else s)
           in kbind (unlock_ptable c s) (\<lambda>s. Ok (0, s))
       | None \<Rightarrow> kbind (unlock_ptable c s) (\<lambda>s. Ok (- 1, s)))"

text \<open>\<open>sched\<close> up to \<open>swtch\<close>: the value is \<open>intena\<close>, which the thread restores when it resumes.\<close>

definition sched :: "nat \<Rightarrow> nat \<Rightarrow> kern \<Rightarrow> (bool \<times> kern) res" where
  "sched c me s =
     kbind (holding c (ptable_lock s) (c_cli (kcpus s c))) (\<lambda>(h, cl).
       let s = upd_cpu c (\<lambda>k. k\<lparr>c_cli := cl\<rparr>) s in
       if \<not> h then Panic ''sched ptable.lock''
       else if ncli (c_cli (kcpus s c)) \<noteq> 1 then Panic ''sched locks''
       else if p_state (procs s me) = RUNNING then Panic ''sched running''
       else if eflags_if (c_cli (kcpus s c)) then Panic ''sched interruptible''
       else Ok (intena (c_cli (kcpus s c)), s))"

definition sched_resume :: "nat \<Rightarrow> bool \<Rightarrow> kern \<Rightarrow> kern" where
  "sched_resume c ie s = upd_cpu c (\<lambda>k. k\<lparr>c_cli := (c_cli k)\<lparr>intena := ie\<rparr>\<rparr>) s"

definition yield :: "nat \<Rightarrow> nat \<Rightarrow> kern \<Rightarrow> (bool \<times> kern) res" where
  "yield c me s =
     kbind (lock_ptable c s) (\<lambda>s. sched c me (upd_proc me (\<lambda>p. p\<lparr>p_state := RUNNABLE\<rparr>) s))"

definition yield_resume :: "nat \<Rightarrow> bool \<Rightarrow> kern \<Rightarrow> kern res" where
  "yield_resume c ie s = unlock_ptable c (sched_resume c ie s)"

text \<open>\<open>sleep\<close> with \<open>ptable.lock\<close> already held: the whole function for \<open>lk == &ptable.lock\<close>, its
  middle part otherwise.\<close>

definition sleep_locked :: "nat \<Rightarrow> nat \<Rightarrow> chan \<Rightarrow> kern \<Rightarrow> (bool \<times> kern) res" where
  "sleep_locked c me ch s = sched c me (upd_proc me (\<lambda>p. p\<lparr>p_chan := Some ch, p_state := SLEEPING\<rparr>) s)"

definition sleep_resume :: "nat \<Rightarrow> nat \<Rightarrow> bool \<Rightarrow> kern \<Rightarrow> kern" where
  "sleep_resume c me ie s = upd_proc me (\<lambda>p. p\<lparr>p_chan := None\<rparr>) (sched_resume c ie s)"

text \<open>\<open>sleep(chan, lk)\<close> for another lock \<open>lk\<close>, which the caller holds: \<open>ptable.lock\<close> is taken
  before \<open>lk\<close> is released. The results are the saved \<open>intena\<close>, the lock and the state.\<close>

definition sleep :: "nat \<Rightarrow> chan \<Rightarrow> spinlock option \<Rightarrow> kern \<Rightarrow> (bool \<times> spinlock \<times> kern) res" where
  "sleep c ch lko s =
     (case myproc c s of None \<Rightarrow> Panic ''sleep''
      | Some me \<Rightarrow>
          (case lko of None \<Rightarrow> Panic ''sleep without lk''
           | Some lk \<Rightarrow>
               kbind (lock_ptable c s) (\<lambda>s.
               kbind (release c lk (c_cli (kcpus s c))) (\<lambda>(lk, cl).
               kbind (sleep_locked c me ch (upd_cpu c (\<lambda>k. k\<lparr>c_cli := cl\<rparr>) s)) (\<lambda>(ie, s).
               Ok (ie, lk, s))))))"

definition sleep_return :: "nat \<Rightarrow> nat \<Rightarrow> bool \<Rightarrow> spinlock \<Rightarrow> kern \<Rightarrow> (spinlock \<times> kern) res" where
  "sleep_return c me ie lk s =
     kbind (unlock_ptable c (sleep_resume c me ie s)) (\<lambda>s.
     kbind (acquire c [] lk (c_cli (kcpus s c))) (\<lambda>(lk, cl).
     Ok (lk, upd_cpu c (\<lambda>k. k\<lparr>c_cli := cl\<rparr>) s)))"

section \<open>Waiting and exiting\<close>

text \<open>What one pass of the loop of \<open>wait\<close> finds: a zombie child that has been freed, no child to
  wait for, or nothing yet.\<close>

datatype wait_out = Reaped int | NoChild | WaitMore

definition reap :: "build \<Rightarrow> nat \<Rightarrow> kern \<Rightarrow> kern res" where
  "reap B i s =
     kbind (do_km (kfree (b_end B) (p_kstack (procs s i))) s) (\<lambda>s.
     kbind (do_km (freevm (b_end B) (p_pgdir (procs s i))) (upd_proc i (\<lambda>p. p\<lparr>p_kstack := 0\<rparr>) s)) (\<lambda>s.
     Ok (upd_proc i (\<lambda>p. p\<lparr>p_pid := 0, p_parent := None, p_name := (p_name p)[0 := 0],
            p_killed := False, p_state := UNUSED\<rparr>) s)))"

definition wait_scan :: "build \<Rightarrow> nat \<Rightarrow> kern \<Rightarrow> (wait_out \<times> kern) res" where
  "wait_scan B me s =
     (case List.find (\<lambda>i. p_parent (procs s i) = Some me \<and> p_state (procs s i) = ZOMBIE) [0..<NPROC] of
        Some i \<Rightarrow> kbind (reap B i s) (\<lambda>s'. Ok (Reaped (p_pid (procs s i)), s'))
      | None \<Rightarrow>
          if (\<forall>i\<in>set [0..<NPROC]. p_parent (procs s i) \<noteq> Some me) \<or> p_killed (procs s me)
          then Ok (NoChild, s) else Ok (WaitMore, s))"

text \<open>The body of the loop of \<open>wait\<close>, with the lock held: either it returns a value, or the
  process has gone to sleep on itself and \<open>swtch\<close> has been reached.\<close>

definition wait_loop :: "build \<Rightarrow> nat \<Rightarrow> nat \<Rightarrow> kern \<Rightarrow> ((int + bool) \<times> kern) res" where
  "wait_loop B c me s =
     kbind (wait_scan B me s) (\<lambda>(out, s).
       case out of
         Reaped pid \<Rightarrow> kbind (unlock_ptable c s) (\<lambda>s. Ok (Inl pid, s))
       | NoChild \<Rightarrow> kbind (unlock_ptable c s) (\<lambda>s. Ok (Inl (- 1), s))
       | WaitMore \<Rightarrow> kbind (sleep_locked c me (ChanProc me) s) (\<lambda>(ie, s). Ok (Inr ie, s)))"

definition wait :: "build \<Rightarrow> nat \<Rightarrow> nat \<Rightarrow> kern \<Rightarrow> ((int + bool) \<times> kern) res" where
  "wait B c me s = kbind (lock_ptable c s) (\<lambda>s. wait_loop B c me s)"

definition reparent :: "nat \<Rightarrow> nat \<Rightarrow> kern \<Rightarrow> kern" where
  "reparent me i s =
     (if p_parent (procs s i) = Some me then
        let s = upd_proc i (\<lambda>p. p\<lparr>p_parent := initproc s\<rparr>) s in
        if p_state (procs s i) = ZOMBIE
        then wakeup1 (map_option ChanProc (initproc s)) s else s
      else s)"

text \<open>The end of \<open>exit\<close>, after the files are closed: it never returns from \<open>sched\<close>.\<close>

definition exit_finish :: "nat \<Rightarrow> nat \<Rightarrow> kern \<Rightarrow> (bool \<times> kern) res" where
  "exit_finish c me s =
     kbind (lock_ptable c s) (\<lambda>s.
       let s = wakeup1 (map_option ChanProc (p_parent (procs s me))) s;
           s = fold (reparent me) [0..<NPROC] s
       in sched c me (upd_proc me (\<lambda>p. p\<lparr>p_state := ZOMBIE\<rparr>) s))"

section \<open>The scheduler\<close>

definition scheduler_begin :: "nat \<Rightarrow> kern \<Rightarrow> kern res" where
  "scheduler_begin c s =
     lock_ptable c (upd_cpu c (\<lambda>k. k\<lparr>c_cli := (c_cli k)\<lparr>eflags_if := True\<rparr>\<rparr>) s)"

text \<open>The scan of the process table from index \<open>i\<close> on, up to the \<open>swtch\<close> to the process found.\<close>

definition scheduler_pick :: "nat \<Rightarrow> nat \<Rightarrow> kern \<Rightarrow> (nat option \<times> kern) res" where
  "scheduler_pick c i s =
     (case List.find (\<lambda>j. p_state (procs s j) = RUNNABLE) [i..<NPROC] of
        None \<Rightarrow> Ok (None, s)
      | Some j \<Rightarrow>
          let s = upd_cpu c (\<lambda>k. k\<lparr>c_proc := Some j\<rparr>) s
          in kbind (switchuvm c (Some j) s) (\<lambda>s.
               Ok (Some j, upd_proc j (\<lambda>p. p\<lparr>p_state := RUNNING\<rparr>) s)))"

text \<open>Where the scheduler thread resumes, after the \<open>swtch\<close> of a process.\<close>

definition scheduler_back :: "nat \<Rightarrow> kern \<Rightarrow> kern" where
  "scheduler_back c s = upd_cpu c (\<lambda>k. k\<lparr>c_proc := None\<rparr>) (switchkvm c s)"

section \<open>Reports\<close>

definition setnice :: "int \<Rightarrow> int \<Rightarrow> int" where
  "setnice pid nice_value = 0"

definition gettreeinfo :: "kern \<Rightarrow> int \<times> int \<times> int" where
  "gettreeinfo s = (rb_length (rbTree s), rb_total_weight (rbTree s), rb_period (rbTree s))"

record proc_info =
  pi_pid :: int
  pi_nice_value :: int
  pi_weight :: int
  pi_vruntime :: cdouble
  pi_curr_runtime :: int

definition getprocinfo :: "nat \<Rightarrow> int \<Rightarrow> proc_info \<Rightarrow> kern \<Rightarrow> (proc_info \<times> kern) res" where
  "getprocinfo c pid info s =
     kbind (lock_ptable c s) (\<lambda>s.
       case List.find (\<lambda>i. p_pid (procs s i) = pid) [0..<NPROC] of
         Some i \<Rightarrow>
           let p = procs s i in
           kbind (unlock_ptable c s) (\<lambda>s.
             Ok (\<lparr>pi_pid = p_pid p, pi_nice_value = p_nice_value p, pi_weight = p_weight p,
                  pi_vruntime = p_vruntime p, pi_curr_runtime = p_curr_runtime p\<rparr>, s))
       | None \<Rightarrow> kbind (unlock_ptable c s) (\<lambda>s. Ok (info\<lparr>pi_pid := - 1\<rparr>, s)))"

definition state_name :: "procstate \<Rightarrow> string" where
  "state_name st = (case st of UNUSED \<Rightarrow> ''unused'' | EMBRYO \<Rightarrow> ''embryo'' | SLEEPING \<Rightarrow> ''sleep ''
     | RUNNABLE \<Rightarrow> ''runble'' | RUNNING \<Rightarrow> ''run   '' | ZOMBIE \<Rightarrow> ''zombie'')"

text \<open>One line of \<open>procdump\<close>: the pid, the state and the name, and for a sleeping process the
  return addresses up to the first zero, as arguments of its \<open>cprintf\<close> calls.\<close>

definition procdump_line :: "(u32 \<Rightarrow> u32) \<Rightarrow> proc \<Rightarrow> int \<times> string \<times> u8 list \<times> u32 list" where
  "procdump_line rd p =
     (p_pid p, state_name (p_state p), p_name p,
      if p_state p = SLEEPING
      then takeWhile (\<lambda>pc. pc \<noteq> 0) (getcallerpcs rd (ctx_ebp (p_context p) + 8)) else [])"

definition procdump :: "(u32 \<Rightarrow> u32) \<Rightarrow> kern \<Rightarrow> (int \<times> string \<times> u8 list \<times> u32 list) list" where
  "procdump rd s = map (procdump_line rd) (filter (\<lambda>p. p_state p \<noteq> UNUSED) (map (procs s) [0..<NPROC]))"

end
