(* ===== verification/File.thy ===== *)
theory File
  imports Proc
begin

text \<open>
  Open files: \<open>file.c\<close>, and \<open>pipealloc\<close> and the freeing half of \<open>pipeclose\<close> of \<open>pipe.c\<close>. The
  lock of the file table is held over each change of a reference count, which is a single step
  here. A pipe call that has to wait is \<^verbatim>\<open>Sleeps\<close>; \<^verbatim>\<open>Pipe\<close> follows it through its sleeps. The data
  of a read is returned as a list of bytes, that of a write is passed as one.
\<close>

section \<open>Reference counts\<close>

definition filealloc :: "kern \<Rightarrow> nat option \<times> kern" where
  "filealloc s =
     (case List.find (\<lambda>f. f_ref (ftable s f) = 0) [0..<NFILE] of
        Some f \<Rightarrow> (Some f, upd_file f (\<lambda>x. x\<lparr>f_ref := 1\<rparr>) s)
      | None \<Rightarrow> (None, s))"

definition filedup :: "nat \<Rightarrow> kern \<Rightarrow> (nat \<times> kern) res" where
  "filedup f s =
     (if f_ref (ftable s f) < 1 then Panic ''filedup''
      else Ok (f, upd_file f (\<lambda>x. x\<lparr>f_ref := f_ref x + 1\<rparr>) s))"

text \<open>The wakeups that a call on the pipe at \<open>v\<close> has added, in order, on the process table.\<close>

definition pipe_wakeups :: "u32 \<Rightarrow> pipe \<Rightarrow> pipe \<Rightarrow> kern \<Rightarrow> kern" where
  "pipe_wakeups v p p' s =
     fold (\<lambda>ch. wakeup1 (Some (ChanPipe v ch))) (drop (length (wakeups p)) (wakeups p'))
       (s\<lparr>pipes := (pipes s)(v := p')\<rparr>)"

definition pipeclose_page :: "build \<Rightarrow> u32 \<Rightarrow> bool \<Rightarrow> kern \<Rightarrow> kern res" where
  "pipeclose_page B v writable s =
     (case pipeclose (pipes s v) writable of (free, p) \<Rightarrow>
        let s' = pipe_wakeups v (pipes s v) p s in
        if free then do_km (kfree (b_end B) v) s' else Ok s')"

definition fileclose :: "build \<Rightarrow> nat \<Rightarrow> kern \<Rightarrow> kern res" where
  "fileclose B f s =
     (if f_ref (ftable s f) < 1 then Panic ''fileclose''
      else
        let s = upd_file f (\<lambda>x. x\<lparr>f_ref := f_ref x - 1\<rparr>) s in
        if 0 < f_ref (ftable s f) then Ok s
        else
          let ff = ftable s f; s = upd_file f (\<lambda>x. x\<lparr>f_ref := 0, f_type := FD_NONE\<rparr>) s in
          (case f_type ff of
             FD_PIPE \<Rightarrow> pipeclose_page B (f_pipe ff) (f_writable ff) s
           | FD_INODE \<Rightarrow> kbind (begin_op s) (\<lambda>s. kbind (iput (f_ip ff) s) (\<lambda>s. end_op s))
           | FD_NONE \<Rightarrow> Ok s))"

section \<open>Reading and writing\<close>

definition filestat :: "nat \<Rightarrow> kern \<Rightarrow> (stat_st option \<times> kern) res" where
  "filestat f s =
     (if f_type (ftable s f) = FD_INODE then
        let i = f_ip (ftable s f) in
        kbind (ilock i s) (\<lambda>s.
        let st = stati i s in
        kbind (iunlock i s) (\<lambda>s. Ok (Some st, s)))
      else Ok (None, s))"

definition fileread :: "kern devsw \<Rightarrow> bool \<Rightarrow> nat \<Rightarrow> int \<Rightarrow> kern \<Rightarrow> (int \<times> u8 list \<times> kern) res" where
  "fileread dv killed f n s =
     (let x = ftable s f in
      if \<not> f_readable x then Ok (- 1, [], s)
      else case f_type x of
        FD_PIPE \<Rightarrow>
          (case piperead killed (pipes s (f_pipe x)) n of (out, bs, p) \<Rightarrow>
             (case out of
                Returns r \<Rightarrow> Ok (r, bs, pipe_wakeups (f_pipe x) (pipes s (f_pipe x)) p s)
              | PSleeps _ _ \<Rightarrow> Sleeps))
      | FD_INODE \<Rightarrow>
          kbind (ilock (f_ip x) s) (\<lambda>s.
          kbind (readi dv (f_ip x) (f_off (ftable s f)) (word_of_int n) s) (\<lambda>(r, bs, s).
          let s = (if 0 < r then upd_file f (\<lambda>x. x\<lparr>f_off := f_off x + word_of_int r\<rparr>) s else s) in
          kbind (iunlock (f_ip x) s) (\<lambda>s. Ok (r, bs, s))))
      | FD_NONE \<Rightarrow> Panic ''fileread'')"

abbreviation (input) WRITE_MAX :: nat where "WRITE_MAX \<equiv> ((MAXOPBLOCKS - 1 - 1 - 2) div 2) * 512"

text \<open>The loop of \<open>filewrite\<close>: \<open>rest\<close> are the bytes from \<open>addr + i\<close> on. The value is whether all
  have been written.\<close>

function filewrite_loop :: "kern devsw \<Rightarrow> nat \<Rightarrow> u8 list \<Rightarrow> kern \<Rightarrow> (bool \<times> kern) res" where
  "filewrite_loop dv f rest s =
     (if rest = [] then Ok (True, s)
      else
        let chunk = take WRITE_MAX rest; i = f_ip (ftable s f) in
        kbind (begin_op s) (\<lambda>s.
        kbind (ilock i s) (\<lambda>s.
        kbind (writei dv i chunk (f_off (ftable s f)) s) (\<lambda>(r, s).
        let s = (if 0 < r then upd_file f (\<lambda>x. x\<lparr>f_off := f_off x + word_of_int r\<rparr>) s else s) in
        kbind (iunlock i s) (\<lambda>s.
        kbind (end_op s) (\<lambda>s.
          if r < 0 then Ok (False, s)
          else if r \<noteq> int (length chunk) then Panic ''short filewrite''
          else filewrite_loop dv f (drop WRITE_MAX rest) s))))))"
  by pat_completeness auto
termination by (relation "measure (\<lambda>(dv, f, rest, s). length rest)") auto

declare filewrite_loop.simps [simp del]

text \<open>\<open>n\<close> may be negative; the bytes at \<open>addr\<close> are those of \<open>src\<close>, \<open>n\<close> of them.\<close>

definition filewrite :: "kern devsw \<Rightarrow> bool \<Rightarrow> nat \<Rightarrow> u8 list \<Rightarrow> int \<Rightarrow> kern \<Rightarrow> (int \<times> kern) res" where
  "filewrite dv killed f src n s =
     (let x = ftable s f in
      if \<not> f_writable x then Ok (- 1, s)
      else case f_type x of
        FD_PIPE \<Rightarrow>
          (case pipewrite killed (pipes s (f_pipe x)) (\<lambda>i. src ! i) n of (out, p) \<Rightarrow>
             (case out of
                Returns r \<Rightarrow> Ok (r, pipe_wakeups (f_pipe x) (pipes s (f_pipe x)) p s)
              | PSleeps _ _ \<Rightarrow> Sleeps))
      | FD_INODE \<Rightarrow>
          if n < 0 then Ok (- 1, s)
          else kbind (filewrite_loop dv f src s) (\<lambda>(all, s). Ok (if all then n else - 1, s))
      | FD_NONE \<Rightarrow> Panic ''filewrite'')"

section \<open>Allocating a pipe\<close>

definition pipealloc_bad :: "build \<Rightarrow> nat option \<Rightarrow> nat option \<Rightarrow> kern \<Rightarrow> kern res" where
  "pipealloc_bad B f0 f1 s =
     kbind (case f0 of Some f \<Rightarrow> fileclose B f s | None \<Rightarrow> Ok s) (\<lambda>s.
     case f1 of Some f \<Rightarrow> fileclose B f s | None \<Rightarrow> Ok s)"

definition pipealloc :: "build \<Rightarrow> kern \<Rightarrow> ((nat \<times> nat) option \<times> kern) res" where
  "pipealloc B s =
     (case filealloc s of
        (None, s) \<Rightarrow> Ok (None, s)
      | (Some f0, s) \<Rightarrow>
          (case filealloc s of
             (None, s) \<Rightarrow> kbind (pipealloc_bad B (Some f0) None s) (\<lambda>s. Ok (None, s))
           | (Some f1, s) \<Rightarrow>
               (case k_alloc s of (v, s) \<Rightarrow>
                  if v = 0 then kbind (pipealloc_bad B (Some f0) (Some f1) s) (\<lambda>s. Ok (None, s))
                  else
                    let page = (\<lambda>a. kmemory (km s) (unat v + a));
                        s = s\<lparr>pipes := (pipes s)(v := pipe_init page)\<rparr>;
                        s = upd_file f0 (\<lambda>x. x\<lparr>f_type := FD_PIPE, f_readable := True,
                              f_writable := False, f_pipe := v\<rparr>) s;
                        s = upd_file f1 (\<lambda>x. x\<lparr>f_type := FD_PIPE, f_readable := False,
                              f_writable := True, f_pipe := v\<rparr>) s
                    in Ok (Some (f0, f1), s))))"

end
