(* ===== verification/Life.thy ===== *)
theory Life
  imports File
begin

text \<open>
  The life of a process: \<open>userinit\<close>, \<open>fork\<close>, \<open>exit\<close> and \<open>forkret\<close> of \<open>proc.c\<close>, and \<open>exec\<close> of
  \<open>exec.c\<close> with \<open>loaduvm\<close> of \<open>vm.c\<close>, which combine the process table with memory, open files and the
  file system. \<open>c\<close> is the CPU that executes the code, \<open>me\<close> the process it runs.
\<close>

abbreviation (input) SEG_UCODE :: u16 where "SEG_UCODE \<equiv> 3"
abbreviation (input) SEG_UDATA :: u16 where "SEG_UDATA \<equiv> 4"
abbreviation (input) DPL_USER :: u16 where "DPL_USER \<equiv> 3"
abbreviation (input) FL_IF :: u32 where "FL_IF \<equiv> 0x200"

section \<open>Names\<close>

text \<open>\<open>safestrcpy\<close> into the 16 bytes of a process name, from a C string given by its bytes.\<close>

definition name_mem :: "u8 list \<Rightarrow> u8 list \<Rightarrow> mem" where
  "name_mem old src a = (if a < 16 then old ! a
                         else if a - 16 < length src then src ! (a - 16) else 0)"

definition set_name :: "u8 list \<Rightarrow> u8 list \<Rightarrow> u8 list" where
  "set_name old src = bytes (safestrcpy (name_mem old src) 0 16 16) 0 16"

section \<open>The first process\<close>

definition init_tf :: trapframe where
  "init_tf = zero_tf\<lparr>tf_cs := push_bit 3 SEG_UCODE OR DPL_USER, tf_ds := push_bit 3 SEG_UDATA OR DPL_USER,
     tf_es := push_bit 3 SEG_UDATA OR DPL_USER, tf_ss := push_bit 3 SEG_UDATA OR DPL_USER,
     tf_eflags := FL_IF, tf_esp := of_nat PGSIZE, tf_eip := 0\<rparr>"

definition initcode_name :: "u8 list" where
  "initcode_name = [105, 110, 105, 116, 99, 111, 100, 101]"

text \<open>A failing \<open>allocproc\<close> would make \<open>userinit\<close> use a null pointer. \<open>namei\<close> of an absolute path
  does not use the current directory, which \<open>userinit\<close> has not set yet.\<close>

definition userinit :: "build \<Rightarrow> kern devsw \<Rightarrow> nat \<Rightarrow> kern \<Rightarrow> kern res" where
  "userinit B dv c s =
     kbind (allocproc B c s) (\<lambda>(po, s).
       case po of None \<Rightarrow> Undef
       | Some p \<Rightarrow>
           let s = s\<lparr>initproc := Some p\<rparr> in
           kbind (with_km (setupkvm (b_end B) (b_rodata_end B)) s) (\<lambda>(d, s).
           let s = upd_proc p (\<lambda>x. x\<lparr>p_pgdir := d\<rparr>) s in
           if d = 0 then Panic ''userinit: out of memory?''
           else
             kbind (do_km (inituvm d (b_initcode B)) s) (\<lambda>s.
             let s = upd_proc p (\<lambda>x. x\<lparr>p_sz := of_nat PGSIZE, p_tf := init_tf,
                        p_name := set_name (p_name x) initcode_name\<rparr>) s in
             kbind (namei dv 0 [SLASH] s) (\<lambda>(cwd, s).
             let s = upd_proc p (\<lambda>x. x\<lparr>p_cwd := cwd\<rparr>) s in
             kbind (lock_ptable c s) (\<lambda>s.
             unlock_ptable c (upd_proc p (\<lambda>x. x\<lparr>p_state := RUNNABLE\<rparr>) s))))))"

section \<open>fork and exit\<close>

definition fork_dup :: "nat \<Rightarrow> nat \<Rightarrow> nat \<Rightarrow> kern \<Rightarrow> kern res" where
  "fork_dup me np fd s =
     (case p_ofile (procs s me) ! fd of
        None \<Rightarrow> Ok s
      | Some f \<Rightarrow> kbind (filedup f s) (\<lambda>(f, s).
          Ok (upd_proc np (\<lambda>x. x\<lparr>p_ofile := (p_ofile x)[fd := Some f]\<rparr>) s)))"

definition fork :: "build \<Rightarrow> nat \<Rightarrow> nat \<Rightarrow> kern \<Rightarrow> (int \<times> kern) res" where
  "fork B c me s =
     kbind (allocproc B c s) (\<lambda>(npo, s).
       case npo of None \<Rightarrow> Ok (- 1, s)
       | Some np \<Rightarrow>
           kbind (with_km (copyuvm (b_end B) (b_rodata_end B) (p_pgdir (procs s me)) (p_sz (procs s me))) s) (\<lambda>(d, s).
           let s = upd_proc np (\<lambda>x. x\<lparr>p_pgdir := d\<rparr>) s in
           if d = 0 then
             kbind (do_km (kfree (b_end B) (p_kstack (procs s np))) s) (\<lambda>s.
             Ok (- 1, upd_proc np (\<lambda>x. x\<lparr>p_kstack := 0, p_state := UNUSED\<rparr>) s))
           else
             let s = upd_proc np (\<lambda>x. x\<lparr>p_sz := p_sz (procs s me), p_parent := Some me,
                       p_tf := (p_tf (procs s me))\<lparr>tf_eax := 0\<rparr>\<rparr>) s in
             kbind (kfold (fork_dup me np) [0..<NOFILE] s) (\<lambda>s.
             case p_cwd (procs s me) of None \<Rightarrow> Undef
             | Some cwd \<Rightarrow>
                 (case idup cwd s of (cwd, s) \<Rightarrow>
                    let s = upd_proc np (\<lambda>x. x\<lparr>p_cwd := Some cwd,
                              p_name := set_name (p_name x) (takeWhile (\<lambda>b. b \<noteq> 0) (p_name (procs s me)))\<rparr>) s;
                        pid = p_pid (procs s np)
                    in kbind (lock_ptable c s) (\<lambda>s.
                       kbind (unlock_ptable c (upd_proc np (\<lambda>x. x\<lparr>p_state := RUNNABLE\<rparr>) s)) (\<lambda>s.
                       Ok (pid, s)))))))"

definition exit_close :: "build \<Rightarrow> nat \<Rightarrow> nat \<Rightarrow> kern \<Rightarrow> kern res" where
  "exit_close B me fd s =
     (case p_ofile (procs s me) ! fd of
        None \<Rightarrow> Ok s
      | Some f \<Rightarrow> kbind (fileclose B f s) (\<lambda>s.
          Ok (upd_proc me (\<lambda>x. x\<lparr>p_ofile := (p_ofile x)[fd := None]\<rparr>) s)))"

definition exit :: "build \<Rightarrow> nat \<Rightarrow> nat \<Rightarrow> kern \<Rightarrow> (bool \<times> kern) res" where
  "exit B c me s =
     (if initproc s = Some me then Panic ''init exiting''
      else
        kbind (kfold (exit_close B me) [0..<NOFILE] s) (\<lambda>s.
        kbind (begin_op s) (\<lambda>s.
        case p_cwd (procs s me) of None \<Rightarrow> Undef
        | Some cwd \<Rightarrow>
            kbind (iput cwd s) (\<lambda>s.
            kbind (end_op s) (\<lambda>s.
            exit_finish c me (upd_proc me (\<lambda>x. x\<lparr>p_cwd := None\<rparr>) s))))))"

definition forkret :: "nat \<Rightarrow> kern \<Rightarrow> kern res" where
  "forkret c s =
     kbind (unlock_ptable c s) (\<lambda>s.
       if first_forkret s then
         kbind (iinit (of_nat ROOTDEV) (s\<lparr>first_forkret := False\<rparr>)) (\<lambda>s. initlog (of_nat ROOTDEV) s)
       else Ok s)"

section \<open>exec\<close>

record elfhdr =
  e_magic :: u32
  e_entry :: u32
  e_phoff :: u32
  e_phnum :: u16

record proghdr =
  ph_type :: u32
  ph_off :: u32
  ph_vaddr :: u32
  ph_filesz :: u32
  ph_memsz :: u32

abbreviation (input) ELF_MAGIC :: u32 where "ELF_MAGIC \<equiv> 0x464C457F"
abbreviation (input) ELF_PROG_LOAD :: u32 where "ELF_PROG_LOAD \<equiv> 1"

definition decode_elfhdr :: "u8 list \<Rightarrow> elfhdr" where
  "decode_elfhdr bs = \<lparr>e_magic = get32 0 bs, e_entry = get32 24 bs, e_phoff = get32 28 bs,
     e_phnum = get16 44 bs\<rparr>"

definition decode_proghdr :: "u8 list \<Rightarrow> proghdr" where
  "decode_proghdr bs = \<lparr>ph_type = get32 0 bs, ph_off = get32 4 bs, ph_vaddr = get32 8 bs,
     ph_filesz = get32 16 bs, ph_memsz = get32 20 bs\<rparr>"

function loaduvm_loop :: "kern devsw \<Rightarrow> u32 \<Rightarrow> u32 \<Rightarrow> nat \<Rightarrow> u32 \<Rightarrow> nat \<Rightarrow> nat \<Rightarrow> kern \<Rightarrow> (int \<times> kern) res" where
  "loaduvm_loop dv pgdir addr ip offset i sz s =
     (if i < sz then
        let pte = fst (walkpgdir pgdir (addr + of_nat i) False (km s)) in
        if pte = 0 then Panic ''loaduvm: address should exist''
        else
          let pa = PTE_ADDR (load32 (kmemory (km s)) pte); n = min (sz - i) PGSIZE in
          kbind (readi dv ip (offset + of_nat i) (of_nat n) s) (\<lambda>(r, bs, s).
            let s = s\<lparr>km := set_mem (store_bytes (kmemory (km s)) (unat (P2V pa)) bs) (km s)\<rparr> in
            if r \<noteq> int n then Ok (- 1, s)
            else loaduvm_loop dv pgdir addr ip offset (i + PGSIZE) sz s)
      else Ok (0, s))"
  by pat_completeness auto
termination by (relation "measure (\<lambda>(dv, pgdir, addr, ip, offset, i, sz, s). sz - i)") auto

declare loaduvm_loop.simps [simp del]

definition loaduvm :: "kern devsw \<Rightarrow> u32 \<Rightarrow> u32 \<Rightarrow> nat \<Rightarrow> u32 \<Rightarrow> u32 \<Rightarrow> kern \<Rightarrow> (int \<times> kern) res" where
  "loaduvm dv pgdir addr ip offset sz s =
     (if unat addr mod PGSIZE \<noteq> 0 then Panic ''loaduvm: addr must be page aligned''
      else loaduvm_loop dv pgdir addr ip offset 0 (unat sz) s)"

text \<open>The loop over the program headers: \<open>n\<close> are left, the next one is at \<open>off\<close>. \<^verbatim>\<open>None\<close> is the jump to
  \<open>bad\<close>, otherwise the value is the size.\<close>

fun exec_load :: "build \<Rightarrow> kern devsw \<Rightarrow> u32 \<Rightarrow> nat \<Rightarrow> nat \<Rightarrow> u32 \<Rightarrow> u32 \<Rightarrow> kern \<Rightarrow> (u32 option \<times> kern) res" where
  "exec_load B dv pgdir ip 0 off sz s = Ok (Some sz, s)"
| "exec_load B dv pgdir ip (Suc n) off sz s =
     kbind (readi dv ip off 32 s) (\<lambda>(r, bs, s).
       let ph = decode_proghdr bs in
       if r \<noteq> 32 then Ok (None, s)
       else if ph_type ph \<noteq> ELF_PROG_LOAD then exec_load B dv pgdir ip n (off + 32) sz s
       else if ph_memsz ph < ph_filesz ph then Ok (None, s)
       else if ph_vaddr ph + ph_memsz ph < ph_vaddr ph then Ok (None, s)
       else
         kbind (with_km (allocuvm (b_end B) pgdir sz (ph_vaddr ph + ph_memsz ph)) s) (\<lambda>(sz, s).
           if sz = 0 then Ok (None, s)
           else if unat (ph_vaddr ph) mod PGSIZE \<noteq> 0 then Ok (None, s)
           else
             kbind (loaduvm dv pgdir (ph_vaddr ph) ip (ph_off ph) (ph_filesz ph) s) (\<lambda>(r, s).
               if r < 0 then Ok (None, s)
               else exec_load B dv pgdir ip n (off + 32) sz s)))"

text \<open>Pushing the argument strings: \<open>ustack\<close> collects their addresses. The strings of \<open>argv\<close> are
  given by their bytes before the terminating zero.\<close>

fun exec_args :: "u32 \<Rightarrow> u8 list list \<Rightarrow> u32 \<Rightarrow> u32 list \<Rightarrow> kmem \<Rightarrow> ((u32 \<times> u32 list) option \<times> kmem) res" where
  "exec_args pgdir [] sp ustack m = Ok (Some (sp, ustack), m)"
| "exec_args pgdir (a # argv) sp ustack m =
     (if MAXARG \<le> length ustack then Ok (None, m)
      else
        let sp = (sp - (of_nat (length a) + 1)) AND NOT 3 in
        kbind (copyout pgdir sp (a @ [0]) m) (\<lambda>(r, m).
          if r < 0 then Ok (None, m) else exec_args pgdir argv sp (ustack @ [sp]) m))"

definition exec_stack :: "u32 \<Rightarrow> u8 list list \<Rightarrow> u32 \<Rightarrow> kmem \<Rightarrow> (u32 option \<times> kmem) res" where
  "exec_stack pgdir argv sz m =
     kbind (exec_args pgdir argv sz [] m) (\<lambda>(o1, m).
       case o1 of None \<Rightarrow> Ok (None, m)
       | Some (sp, us) \<Rightarrow>
           let argc = of_nat (length us) :: u32;
               ustack = [0xffffffff, argc, sp - (argc + 1) * 4] @ us @ [0];
               sp = sp - (3 + argc + 1) * 4
           in kbind (copyout pgdir sp (concat (map le32 ustack)) m) (\<lambda>(r, m).
                Ok (if r < 0 then None else Some sp, m)))"

text \<open>The last element of the path.\<close>

definition last_elem :: "u8 list \<Rightarrow> u8 list" where
  "last_elem path = rev (takeWhile (\<lambda>ch. ch \<noteq> SLASH) (rev path))"

definition exec_bad :: "build \<Rightarrow> u32 \<Rightarrow> nat option \<Rightarrow> kern \<Rightarrow> (int \<times> kern) res" where
  "exec_bad B pgdir ipo s =
     kbind (if pgdir \<noteq> 0 then do_km (freevm (b_end B) pgdir) s else Ok s) (\<lambda>s.
     kbind (case ipo of Some ip \<Rightarrow> kbind (iunlockput ip s) (\<lambda>s. end_op s) | None \<Rightarrow> Ok s) (\<lambda>s.
     Ok (- 1, s)))"

definition exec_image :: "build \<Rightarrow> nat \<Rightarrow> nat \<Rightarrow> u8 list \<Rightarrow> u8 list list \<Rightarrow> u32 \<Rightarrow> u32 \<Rightarrow> u32 \<Rightarrow> kern \<Rightarrow>
    (int \<times> kern) res" where
  "exec_image B c me path argv entry pgdir sz s =
     (let sz = PGROUNDUP sz in
      kbind (with_km (allocuvm (b_end B) pgdir sz (sz + 2 * 4096)) s) (\<lambda>(sz, s).
        if sz = 0 then exec_bad B pgdir None s
        else
          kbind (do_km (clearpteu pgdir (sz - 2 * 4096)) s) (\<lambda>s.
          kbind (with_km (exec_stack pgdir argv sz) s) (\<lambda>(spo, s).
            case spo of None \<Rightarrow> exec_bad B pgdir None s
            | Some sp \<Rightarrow>
                let oldpgdir = p_pgdir (procs s me);
                    s = upd_proc me (\<lambda>x. x\<lparr>p_name := set_name (p_name x) (last_elem path),
                          p_pgdir := pgdir, p_sz := sz,
                          p_tf := (p_tf x)\<lparr>tf_eip := entry, tf_esp := sp\<rparr>\<rparr>) s
                in kbind (switchuvm c (Some me) s) (\<lambda>s.
                   kbind (do_km (freevm (b_end B) oldpgdir) s) (\<lambda>s. Ok (0, s)))))))"

definition exec :: "build \<Rightarrow> kern devsw \<Rightarrow> nat \<Rightarrow> nat \<Rightarrow> u8 list \<Rightarrow> u8 list list \<Rightarrow> kern \<Rightarrow> (int \<times> kern) res" where
  "exec B dv c me path argv s =
     kbind (begin_op s) (\<lambda>s.
     case p_cwd (procs s me) of None \<Rightarrow> Undef
     | Some cwd \<Rightarrow>
     kbind (namei dv cwd path s) (\<lambda>(ipo, s).
       case ipo of None \<Rightarrow> kbind (end_op s) (\<lambda>s. Ok (- 1, s))
       | Some ip \<Rightarrow>
           kbind (ilock ip s) (\<lambda>s.
           kbind (readi dv ip 0 52 s) (\<lambda>(r, bs, s).
             let elf = decode_elfhdr bs in
             if r \<noteq> 52 \<or> e_magic elf \<noteq> ELF_MAGIC then exec_bad B 0 (Some ip) s
             else
               kbind (with_km (setupkvm (b_end B) (b_rodata_end B)) s) (\<lambda>(pgdir, s).
                 if pgdir = 0 then exec_bad B 0 (Some ip) s
                 else
                   kbind (exec_load B dv pgdir ip (unat (e_phnum elf)) (e_phoff elf) 0 s) (\<lambda>(szo, s).
                     case szo of None \<Rightarrow> exec_bad B pgdir (Some ip) s
                     | Some sz \<Rightarrow>
                         kbind (iunlockput ip s) (\<lambda>s.
                         kbind (end_op s) (\<lambda>s.
                         exec_image B c me path argv (e_entry elf) pgdir sz s))))))))"

end
