(* ===== verification/Syscall.thy ===== *)
theory Syscall
  imports Life
begin

text \<open>
  System call arguments: \<open>syscall.c\<close> up to the dispatch table. The kernel runs on the page table of
  the current process, so that a user address is read and written through it: \<open>user_addr\<close> is
  what the paging hardware does, and an address that is not mapped raises a page fault in the
  kernel, on which \<open>trap\<close> panics.
\<close>

section \<open>User memory\<close>

definition user_addr :: "mem \<Rightarrow> u32 \<Rightarrow> u32 \<Rightarrow> u32 option" where
  "user_addr m pgdir va =
     (let pde = load32 m (pgdir + 4 * PDX va) in
      if pde AND PTE_P = 0 then None
      else
        let pte = load32 m (P2V (PTE_ADDR pde) + 4 * PTX va) in
        if pte AND PTE_P = 0 then None
        else Some (P2V (PTE_ADDR pte) + (va AND 0xFFF)))"

fun user_load :: "mem \<Rightarrow> u32 \<Rightarrow> u32 \<Rightarrow> nat \<Rightarrow> (u8 list) res" where
  "user_load m pgdir va 0 = Ok []"
| "user_load m pgdir va (Suc n) =
     (case user_addr m pgdir va of
        None \<Rightarrow> Panic ''trap''
      | Some a \<Rightarrow> kbind (user_load m pgdir (va + 1) n) (\<lambda>bs. Ok (m (unat a) # bs)))"

fun user_store :: "u32 \<Rightarrow> u32 \<Rightarrow> u8 list \<Rightarrow> mem \<Rightarrow> mem res" where
  "user_store pgdir va [] m = Ok m"
| "user_store pgdir va (b # bs) m =
     (case user_addr m pgdir va of
        None \<Rightarrow> Panic ''trap''
      | Some a \<Rightarrow> user_store pgdir (va + 1) bs (m(unat a := b)))"

definition put_user :: "nat \<Rightarrow> u32 \<Rightarrow> u8 list \<Rightarrow> kern \<Rightarrow> kern res" where
  "put_user me va bs s =
     do_km (\<lambda>k. kbind (user_store (p_pgdir (procs s me)) va bs (kmemory k)) (\<lambda>m. Ok (set_mem m k))) s"

definition get_user :: "nat \<Rightarrow> u32 \<Rightarrow> nat \<Rightarrow> kern \<Rightarrow> (u8 list) res" where
  "get_user me va n s = user_load (kmemory (km s)) (p_pgdir (procs s me)) va n"

section \<open>Fetching arguments\<close>

text \<open>\<^verbatim>\<open>None\<close> is the error return.\<close>

definition fetchint :: "nat \<Rightarrow> u32 \<Rightarrow> kern \<Rightarrow> (u32 option) res" where
  "fetchint me addr s =
     (if p_sz (procs s me) \<le> addr \<or> p_sz (procs s me) < addr + 4 then Ok None
      else kbind (get_user me addr 4 s) (\<lambda>bs. Ok (Some (rd32 bs))))"

text \<open>The scan for the terminating zero, over the \<open>n\<close> bytes below the size of the process.\<close>

fun fetchstr_loop :: "mem \<Rightarrow> u32 \<Rightarrow> u32 \<Rightarrow> nat \<Rightarrow> (u8 list option) res" where
  "fetchstr_loop m pgdir va 0 = Ok None"
| "fetchstr_loop m pgdir va (Suc n) =
     (case user_addr m pgdir va of
        None \<Rightarrow> Panic ''trap''
      | Some a \<Rightarrow>
          if m (unat a) = 0 then Ok (Some [])
          else kbind (fetchstr_loop m pgdir (va + 1) n) (\<lambda>r. Ok (map_option (\<lambda>bs. m (unat a) # bs) r)))"

definition fetchstr :: "nat \<Rightarrow> u32 \<Rightarrow> kern \<Rightarrow> (u8 list option) res" where
  "fetchstr me addr s =
     (if p_sz (procs s me) \<le> addr then Ok None
      else fetchstr_loop (kmemory (km s)) (p_pgdir (procs s me)) addr (unat (p_sz (procs s me)) - unat addr))"

definition argint :: "nat \<Rightarrow> nat \<Rightarrow> kern \<Rightarrow> (u32 option) res" where
  "argint me n s = fetchint me (tf_esp (p_tf (procs s me)) + 4 + 4 * of_nat n) s"

definition argptr :: "nat \<Rightarrow> nat \<Rightarrow> int \<Rightarrow> kern \<Rightarrow> (u32 option) res" where
  "argptr me n sz s =
     kbind (argint me n s) (\<lambda>r.
       case r of None \<Rightarrow> Ok None
       | Some i \<Rightarrow>
           if sz < 0 \<or> p_sz (procs s me) \<le> i \<or> p_sz (procs s me) < i + word_of_int sz then Ok None
           else Ok (Some i))"

definition argstr :: "nat \<Rightarrow> nat \<Rightarrow> kern \<Rightarrow> (u8 list option) res" where
  "argstr me n s =
     kbind (argint me n s) (\<lambda>r.
       case r of None \<Rightarrow> Ok None | Some addr \<Rightarrow> fetchstr me addr s)"

section \<open>Results of system calls\<close>

text \<open>A system call returns a value, or gives up the CPU: \<open>exit\<close> for good, the others at the
  \<open>swtch\<close> inside \<open>sleep\<close>.\<close>

datatype sysout = SRet int | SSwitch

definition sret :: "(int \<times> kern) res \<Rightarrow> (sysout \<times> kern) res" where
  "sret m = kbind m (\<lambda>(r, s). Ok (SRet r, s))"

definition failed :: "kern \<Rightarrow> (int \<times> kern) res" where
  "failed s = Ok (- 1, s)"

text \<open>A call that returns -1 when fetching an argument fails.\<close>

definition with_arg :: "('v option) res \<Rightarrow> kern \<Rightarrow> ('v \<Rightarrow> (int \<times> kern) res) \<Rightarrow> (int \<times> kern) res" where
  "with_arg m s f = kbind m (\<lambda>r. case r of None \<Rightarrow> failed s | Some v \<Rightarrow> f v)"

end
