(* ===== verification/Sysfile.thy ===== *)
theory Sysfile
  imports Syscall
begin

text \<open>
  The file system calls: \<open>sysfile.c\<close>. \<open>me\<close> is the current process. The local array \<open>name\<close> of
  \<open>sys_link\<close>, \<open>sys_unlink\<close> and \<open>create\<close> is not initialised in C; it starts as zeros here, and only
  the bytes that \<open>skipelem\<close> has written, up to a zero, are read from it.
\<close>

section \<open>Descriptors\<close>

definition argfd :: "nat \<Rightarrow> nat \<Rightarrow> kern \<Rightarrow> ((nat \<times> nat) option) res" where
  "argfd me n s =
     kbind (argint me n s) (\<lambda>r.
       case r of None \<Rightarrow> Ok None
       | Some w \<Rightarrow>
           let fd = sint w in
           if fd < 0 \<or> int NOFILE \<le> fd then Ok None
           else Ok (map_option (\<lambda>f. (nat fd, f)) (p_ofile (procs s me) ! nat fd)))"

definition set_ofile :: "nat \<Rightarrow> nat \<Rightarrow> nat option \<Rightarrow> kern \<Rightarrow> kern" where
  "set_ofile me fd fo s = upd_proc me (\<lambda>x. x\<lparr>p_ofile := (p_ofile x)[fd := fo]\<rparr>) s"

definition fdalloc :: "nat \<Rightarrow> nat \<Rightarrow> kern \<Rightarrow> nat option \<times> kern" where
  "fdalloc me f s =
     (case List.find (\<lambda>fd. p_ofile (procs s me) ! fd = None) [0..<NOFILE] of
        Some fd \<Rightarrow> (Some fd, set_ofile me fd (Some f) s)
      | None \<Rightarrow> (None, s))"

definition sys_dup :: "nat \<Rightarrow> kern \<Rightarrow> (int \<times> kern) res" where
  "sys_dup me s =
     with_arg (argfd me 0 s) s (\<lambda>(_, f).
       case fdalloc me f s of
         (None, s) \<Rightarrow> failed s
       | (Some fd, s) \<Rightarrow> kbind (filedup f s) (\<lambda>(_, s). Ok (int fd, s)))"

definition sys_read :: "kern devsw \<Rightarrow> nat \<Rightarrow> kern \<Rightarrow> (int \<times> kern) res" where
  "sys_read dv me s =
     with_arg (argfd me 0 s) s (\<lambda>(_, f).
     with_arg (argint me 2 s) s (\<lambda>n.
     with_arg (argptr me 1 (sint n) s) s (\<lambda>p.
       kbind (fileread dv (p_killed (procs s me)) f (sint n) s) (\<lambda>(r, bs, s).
       kbind (put_user me p bs s) (\<lambda>s. Ok (r, s))))))"

definition sys_write :: "kern devsw \<Rightarrow> nat \<Rightarrow> kern \<Rightarrow> (int \<times> kern) res" where
  "sys_write dv me s =
     with_arg (argfd me 0 s) s (\<lambda>(_, f).
     with_arg (argint me 2 s) s (\<lambda>n.
     with_arg (argptr me 1 (sint n) s) s (\<lambda>p.
       kbind (get_user me p (nat (sint n)) s) (\<lambda>src.
       filewrite dv (p_killed (procs s me)) f src (sint n) s))))"

definition sys_close :: "build \<Rightarrow> nat \<Rightarrow> kern \<Rightarrow> (int \<times> kern) res" where
  "sys_close B me s =
     with_arg (argfd me 0 s) s (\<lambda>(fd, f).
       kbind (fileclose B f (set_ofile me fd None s)) (\<lambda>s. Ok (0, s)))"

text \<open>\<open>struct stat\<close> in memory: \<open>type\<close> and two bytes of padding, \<open>dev\<close>, \<open>ino\<close>, \<open>nlink\<close> and two bytes of
  padding, \<open>size\<close>. The padding is not written.\<close>

definition stat_writes :: "u32 \<Rightarrow> stat_st \<Rightarrow> (u32 \<times> u8 list) list" where
  "stat_writes a st = [(a + 4, le32 (st_dev st)), (a + 8, le32 (st_ino st)), (a, le16 (st_type st)),
     (a + 12, le16 (st_nlink st)), (a + 16, le32 (st_size st))]"

definition sys_fstat :: "nat \<Rightarrow> kern \<Rightarrow> (int \<times> kern) res" where
  "sys_fstat me s =
     with_arg (argfd me 0 s) s (\<lambda>(_, f).
     with_arg (argptr me 1 20 s) s (\<lambda>a.
       kbind (filestat f s) (\<lambda>(r, s).
         case r of None \<Rightarrow> failed s
         | Some st \<Rightarrow> kbind (kfold (\<lambda>(a, bs). put_user me a bs) (stat_writes a st) s) (\<lambda>s. Ok (0, s)))))"

section \<open>Links\<close>

text \<open>Lookups from the current directory of the process.\<close>

definition namei_me :: "kern devsw \<Rightarrow> nat \<Rightarrow> u8 list \<Rightarrow> kern \<Rightarrow> (nat option \<times> kern) res" where
  "namei_me dv me path s =
     (case p_cwd (procs s me) of None \<Rightarrow> Undef | Some cwd \<Rightarrow> namei dv cwd path s)"

definition nameiparent_me :: "kern devsw \<Rightarrow> nat \<Rightarrow> u8 list \<Rightarrow> kern \<Rightarrow> (nat option \<times> u8 list \<times> kern) res" where
  "nameiparent_me dv me path s =
     (case p_cwd (procs s me) of None \<Rightarrow> Undef
      | Some cwd \<Rightarrow> nameiparent dv cwd path (replicate DIRSIZ 0) s)"

definition end_op_ret :: "int \<Rightarrow> kern \<Rightarrow> (int \<times> kern) res" where
  "end_op_ret r s = kbind (end_op s) (\<lambda>s. Ok (r, s))"

definition add_nlink :: "nat \<Rightarrow> u16 \<Rightarrow> kern \<Rightarrow> kern res" where
  "add_nlink i d s = iupdate i (upd_inode i (\<lambda>ip. ip\<lparr>i_nlink := i_nlink ip + d\<rparr>) s)"

definition link_bad :: "nat \<Rightarrow> kern \<Rightarrow> (int \<times> kern) res" where
  "link_bad ip s =
     kbind (ilock ip s) (\<lambda>s.
     kbind (add_nlink ip (- 1) s) (\<lambda>s.
     kbind (iunlockput ip s) (\<lambda>s. end_op_ret (- 1) s)))"

definition sys_link :: "kern devsw \<Rightarrow> nat \<Rightarrow> kern \<Rightarrow> (int \<times> kern) res" where
  "sys_link dv me s =
     with_arg (argstr me 0 s) s (\<lambda>old.
     with_arg (argstr me 1 s) s (\<lambda>new.
     kbind (begin_op s) (\<lambda>s.
     kbind (namei_me dv me old s) (\<lambda>(ipo, s).
       case ipo of None \<Rightarrow> end_op_ret (- 1) s
       | Some ip \<Rightarrow>
           kbind (ilock ip s) (\<lambda>s.
             if i_type (inodes s ip) = T_DIR then kbind (iunlockput ip s) (\<lambda>s. end_op_ret (- 1) s)
             else
               kbind (add_nlink ip 1 s) (\<lambda>s.
               kbind (iunlock ip s) (\<lambda>s.
               kbind (nameiparent_me dv me new s) (\<lambda>(dpo, name, s).
                 case dpo of None \<Rightarrow> link_bad ip s
                 | Some dp \<Rightarrow>
                     kbind (ilock dp s) (\<lambda>s.
                     kbind (if i_dev (inodes s dp) \<noteq> i_dev (inodes s ip) then Ok (- 1, s)
                            else dirlink dv dp name (i_inum (inodes s ip)) s) (\<lambda>(r, s).
                       if r < 0 then kbind (iunlockput dp s) (\<lambda>s. link_bad ip s)
                       else
                         kbind (iunlockput dp s) (\<lambda>s.
                         kbind (iput ip s) (\<lambda>s. end_op_ret 0 s))))))))))))"

fun isdirempty_scan :: "kern devsw \<Rightarrow> nat \<Rightarrow> nat list \<Rightarrow> kern \<Rightarrow> (bool \<times> kern) res" where
  "isdirempty_scan dv dp [] s = Ok (True, s)"
| "isdirempty_scan dv dp (off # offs) s =
     kbind (readi dv dp (of_nat off) 16 s) (\<lambda>(r, bs, s).
       if r \<noteq> 16 then Panic ''isdirempty: readi''
       else if de_inum (decode_dirent bs) \<noteq> 0 then Ok (False, s)
       else isdirempty_scan dv dp offs s)"

definition isdirempty :: "kern devsw \<Rightarrow> nat \<Rightarrow> kern \<Rightarrow> (bool \<times> kern) res" where
  "isdirempty dv dp s = isdirempty_scan dv dp (drop 2 (dir_offsets (i_size (inodes s dp)))) s"

definition dot :: "u8 list" where "dot = [46]"

definition dotdot :: "u8 list" where "dotdot = [46, 46]"

definition unlink_bad :: "nat \<Rightarrow> kern \<Rightarrow> (int \<times> kern) res" where
  "unlink_bad dp s = kbind (iunlockput dp s) (\<lambda>s. end_op_ret (- 1) s)"

text \<open>Clearing the entry at \<open>off\<close> of \<open>dp\<close> and dropping the link, with both inodes locked.\<close>

definition unlink_entry :: "kern devsw \<Rightarrow> nat \<Rightarrow> nat \<Rightarrow> u32 \<Rightarrow> kern \<Rightarrow> (int \<times> kern) res" where
  "unlink_entry dv dp ip off s =
     kbind (writei dv dp (replicate 16 0) off s) (\<lambda>(r, s).
       if r \<noteq> 16 then Panic ''unlink: writei''
       else
         kbind (if i_type (inodes s ip) = T_DIR then add_nlink dp (- 1) s else Ok s) (\<lambda>s.
         kbind (iunlockput dp s) (\<lambda>s.
         kbind (add_nlink ip (- 1) s) (\<lambda>s.
         kbind (iunlockput ip s) (\<lambda>s. end_op_ret 0 s)))))"

definition sys_unlink :: "kern devsw \<Rightarrow> nat \<Rightarrow> kern \<Rightarrow> (int \<times> kern) res" where
  "sys_unlink dv me s =
     with_arg (argstr me 0 s) s (\<lambda>path.
     kbind (begin_op s) (\<lambda>s.
     kbind (nameiparent_me dv me path s) (\<lambda>(dpo, name, s).
       case dpo of None \<Rightarrow> end_op_ret (- 1) s
       | Some dp \<Rightarrow>
           kbind (ilock dp s) (\<lambda>s.
             if namecmp name dot = 0 \<or> namecmp name dotdot = 0 then unlink_bad dp s
             else
               kbind (dirlookup dv dp name s) (\<lambda>(found, s).
                 case found of None \<Rightarrow> unlink_bad dp s
                 | Some (ip, off) \<Rightarrow>
                     kbind (ilock ip s) (\<lambda>s.
                       if sint (i_nlink (inodes s ip)) < 1 then Panic ''unlink: nlink < 1''
                       else
                         kbind (if i_type (inodes s ip) = T_DIR then isdirempty dv ip s else Ok (True, s)) (\<lambda>(e, s).
                           if e then unlink_entry dv dp ip off s
                           else kbind (iunlockput ip s) (\<lambda>s. unlink_bad dp s))))))))"

section \<open>Creating and opening\<close>

definition create_new :: "kern devsw \<Rightarrow> nat \<Rightarrow> u8 list \<Rightarrow> u16 \<Rightarrow> u16 \<Rightarrow> u16 \<Rightarrow> kern \<Rightarrow> (nat option \<times> kern) res" where
  "create_new dv dp name type major minor s =
     kbind (ialloc (i_dev (inodes s dp)) type s) (\<lambda>(ip, s).
     kbind (ilock ip s) (\<lambda>s.
     kbind (iupdate ip (upd_inode ip (\<lambda>x. x\<lparr>i_major := major, i_minor := minor, i_nlink := 1\<rparr>) s)) (\<lambda>s.
     kbind (if type = T_DIR then
              kbind (add_nlink dp 1 s) (\<lambda>s.
              kbind (dirlink dv ip dot (i_inum (inodes s ip)) s) (\<lambda>(r1, s).
                if r1 < 0 then Panic ''create dots''
                else kbind (dirlink dv ip dotdot (i_inum (inodes s dp)) s) (\<lambda>(r2, s).
                  if r2 < 0 then Panic ''create dots'' else Ok s)))
            else Ok s) (\<lambda>s.
     kbind (dirlink dv dp name (i_inum (inodes s ip)) s) (\<lambda>(r, s).
       if r < 0 then Panic ''create: dirlink''
       else kbind (iunlockput dp s) (\<lambda>s. Ok (Some ip, s)))))))"

definition create :: "kern devsw \<Rightarrow> nat \<Rightarrow> u8 list \<Rightarrow> u16 \<Rightarrow> u16 \<Rightarrow> u16 \<Rightarrow> kern \<Rightarrow> (nat option \<times> kern) res" where
  "create dv me path type major minor s =
     kbind (nameiparent_me dv me path s) (\<lambda>(dpo, name, s).
       case dpo of None \<Rightarrow> Ok (None, s)
       | Some dp \<Rightarrow>
           kbind (ilock dp s) (\<lambda>s.
           kbind (dirlookup dv dp name s) (\<lambda>(found, s).
             case found of
               Some (ip, _) \<Rightarrow>
                 kbind (iunlockput dp s) (\<lambda>s.
                 kbind (ilock ip s) (\<lambda>s.
                   if type = T_FILE \<and> i_type (inodes s ip) = T_FILE then Ok (Some ip, s)
                   else kbind (iunlockput ip s) (\<lambda>s. Ok (None, s))))
             | None \<Rightarrow> create_new dv dp name type major minor s)))"

abbreviation (input) O_RDONLY :: u32 where "O_RDONLY \<equiv> 0x000"
abbreviation (input) O_WRONLY :: u32 where "O_WRONLY \<equiv> 0x001"
abbreviation (input) O_RDWR :: u32 where "O_RDWR \<equiv> 0x002"
abbreviation (input) O_CREATE :: u32 where "O_CREATE \<equiv> 0x200"

text \<open>The inode that \<open>sys_open\<close> opens, locked; \<^verbatim>\<open>None\<close> when it fails.\<close>

definition open_inode :: "kern devsw \<Rightarrow> nat \<Rightarrow> u8 list \<Rightarrow> u32 \<Rightarrow> kern \<Rightarrow> (nat option \<times> kern) res" where
  "open_inode dv me path omode s =
     (if omode AND O_CREATE \<noteq> 0 then create dv me path T_FILE 0 0 s
      else
        kbind (namei_me dv me path s) (\<lambda>(ipo, s).
          case ipo of None \<Rightarrow> Ok (None, s)
          | Some ip \<Rightarrow>
              kbind (ilock ip s) (\<lambda>s.
                if i_type (inodes s ip) = T_DIR \<and> omode \<noteq> O_RDONLY
                then kbind (iunlockput ip s) (\<lambda>s. Ok (None, s))
                else Ok (Some ip, s))))"

definition open_bad :: "build \<Rightarrow> nat option \<Rightarrow> nat \<Rightarrow> kern \<Rightarrow> (int \<times> kern) res" where
  "open_bad B fo ip s =
     kbind (case fo of Some f \<Rightarrow> fileclose B f s | None \<Rightarrow> Ok s) (\<lambda>s.
     kbind (iunlockput ip s) (\<lambda>s. end_op_ret (- 1) s))"

definition sys_open :: "build \<Rightarrow> kern devsw \<Rightarrow> nat \<Rightarrow> kern \<Rightarrow> (int \<times> kern) res" where
  "sys_open B dv me s =
     with_arg (argstr me 0 s) s (\<lambda>path.
     with_arg (argint me 1 s) s (\<lambda>omode.
     kbind (begin_op s) (\<lambda>s.
     kbind (open_inode dv me path omode s) (\<lambda>(ipo, s).
       case ipo of None \<Rightarrow> end_op_ret (- 1) s
       | Some ip \<Rightarrow>
           (case filealloc s of
              (None, s) \<Rightarrow> open_bad B None ip s
            | (Some f, s) \<Rightarrow>
                (case fdalloc me f s of
                   (None, s) \<Rightarrow> open_bad B (Some f) ip s
                 | (Some fd, s) \<Rightarrow>
                     kbind (iunlock ip s) (\<lambda>s.
                     kbind (end_op s) (\<lambda>s.
                     Ok (int fd, upd_file f (\<lambda>x. x\<lparr>f_type := FD_INODE, f_ip := ip, f_off := 0,
                       f_readable := (omode AND O_WRONLY = 0),
                       f_writable := (omode AND O_WRONLY \<noteq> 0 \<or> omode AND O_RDWR \<noteq> 0)\<rparr>) s)))))))))"

definition sys_mkdir :: "kern devsw \<Rightarrow> nat \<Rightarrow> kern \<Rightarrow> (int \<times> kern) res" where
  "sys_mkdir dv me s =
     kbind (begin_op s) (\<lambda>s.
     kbind (argstr me 0 s) (\<lambda>po.
       case po of None \<Rightarrow> end_op_ret (- 1) s
       | Some path \<Rightarrow>
           kbind (create dv me path T_DIR 0 0 s) (\<lambda>(ipo, s).
             case ipo of None \<Rightarrow> end_op_ret (- 1) s
             | Some ip \<Rightarrow> kbind (iunlockput ip s) (\<lambda>s. end_op_ret 0 s))))"

definition sys_mknod :: "kern devsw \<Rightarrow> nat \<Rightarrow> kern \<Rightarrow> (int \<times> kern) res" where
  "sys_mknod dv me s =
     kbind (begin_op s) (\<lambda>s.
     kbind (argstr me 0 s) (\<lambda>po. case po of None \<Rightarrow> end_op_ret (- 1) s | Some path \<Rightarrow>
     kbind (argint me 1 s) (\<lambda>mo. case mo of None \<Rightarrow> end_op_ret (- 1) s | Some major \<Rightarrow>
     kbind (argint me 2 s) (\<lambda>no. case no of None \<Rightarrow> end_op_ret (- 1) s | Some minor \<Rightarrow>
     kbind (create dv me path T_DEV (ucast major) (ucast minor) s) (\<lambda>(ipo, s).
       case ipo of None \<Rightarrow> end_op_ret (- 1) s
       | Some ip \<Rightarrow> kbind (iunlockput ip s) (\<lambda>s. end_op_ret 0 s))))))"

definition sys_chdir :: "kern devsw \<Rightarrow> nat \<Rightarrow> kern \<Rightarrow> (int \<times> kern) res" where
  "sys_chdir dv me s =
     kbind (begin_op s) (\<lambda>s.
     kbind (argstr me 0 s) (\<lambda>po.
       case po of None \<Rightarrow> end_op_ret (- 1) s
       | Some path \<Rightarrow>
           kbind (namei_me dv me path s) (\<lambda>(ipo, s).
             case ipo of None \<Rightarrow> end_op_ret (- 1) s
             | Some ip \<Rightarrow>
                 kbind (ilock ip s) (\<lambda>s.
                   if i_type (inodes s ip) \<noteq> T_DIR then kbind (iunlockput ip s) (\<lambda>s. end_op_ret (- 1) s)
                   else
                     kbind (iunlock ip s) (\<lambda>s.
                     case p_cwd (procs s me) of None \<Rightarrow> Undef
                     | Some cwd \<Rightarrow>
                         kbind (iput cwd s) (\<lambda>s.
                         kbind (end_op s) (\<lambda>s.
                         Ok (0, upd_proc me (\<lambda>x. x\<lparr>p_cwd := Some ip\<rparr>) s))))))))"

text \<open>The loop of \<open>sys_exec\<close>, which collects the strings of \<open>argv\<close>: \<open>i\<close> is its index.\<close>

function exec_argv :: "nat \<Rightarrow> u32 \<Rightarrow> nat \<Rightarrow> kern \<Rightarrow> (u8 list list option) res" where
  "exec_argv me uargv i s =
     (if MAXARG \<le> i then Ok None
      else
        kbind (fetchint me (uargv + 4 * of_nat i) s) (\<lambda>r.
          case r of None \<Rightarrow> Ok None
          | Some uarg \<Rightarrow>
              if uarg = 0 then Ok (Some [])
              else
                kbind (fetchstr me uarg s) (\<lambda>a.
                  case a of None \<Rightarrow> Ok None
                  | Some str \<Rightarrow>
                      kbind (exec_argv me uargv (Suc i) s) (\<lambda>rest. Ok (map_option (\<lambda>l. str # l) rest)))))"
  by pat_completeness auto
termination by (relation "measure (\<lambda>(me, uargv, i, s). MAXARG - i)") auto

declare exec_argv.simps [simp del]

definition sys_exec :: "build \<Rightarrow> kern devsw \<Rightarrow> nat \<Rightarrow> nat \<Rightarrow> kern \<Rightarrow> (int \<times> kern) res" where
  "sys_exec B dv c me s =
     with_arg (argstr me 0 s) s (\<lambda>path.
     with_arg (argint me 1 s) s (\<lambda>uargv.
     with_arg (exec_argv me uargv 0 s) s (\<lambda>argv. exec B dv c me path argv s)))"

definition pipe_bad :: "build \<Rightarrow> nat \<Rightarrow> nat \<Rightarrow> kern \<Rightarrow> (int \<times> kern) res" where
  "pipe_bad B rfile wfile s = kbind (fileclose B rfile s) (\<lambda>s. kbind (fileclose B wfile s) (\<lambda>s. failed s))"

definition sys_pipe :: "build \<Rightarrow> nat \<Rightarrow> kern \<Rightarrow> (int \<times> kern) res" where
  "sys_pipe B me s =
     with_arg (argptr me 0 8 s) s (\<lambda>a.
     kbind (pipealloc B s) (\<lambda>(fs, s).
       case fs of None \<Rightarrow> failed s
       | Some (rfile, wfile) \<Rightarrow>
           (case fdalloc me rfile s of
              (None, s) \<Rightarrow> pipe_bad B rfile wfile s
            | (Some fd0, s) \<Rightarrow>
                (case fdalloc me wfile s of
                   (None, s) \<Rightarrow> pipe_bad B rfile wfile (set_ofile me fd0 None s)
                 | (Some fd1, s) \<Rightarrow>
                     kbind (put_user me a (le32 (of_nat fd0)) s) (\<lambda>s.
                     kbind (put_user me (a + 4) (le32 (of_nat fd1)) s) (\<lambda>s. Ok (0, s)))))))"

end
