(* ===== verification/Sched_Tree.thy ===== *)
theory Sched_Tree
  imports Proc
begin

text \<open>
  The red-black tree of runnable processes that the fair scheduler is to use: its check
  (\<open>treebalanced\<close> and \<open>check_rb_tree_properties\<close> of \<open>proc.c\<close>) and its listing
  (\<open>collect_rb_tree_nodes\<close> of \<open>sysproc.c\<close>). A node is a process, its children are the members \<open>l\<close> and
  \<open>r\<close>. The recursion follows pointers, so that on a cyclic structure it does not end: the value
  is then \<^verbatim>\<open>None\<close>.
\<close>

section \<open>The check\<close>

definition is_red :: "(nat \<Rightarrow> proc) \<Rightarrow> nat option \<Rightarrow> bool" where
  "is_red ps n = (case n of None \<Rightarrow> False | Some i \<Rightarrow> p_color (ps i) = RED)"

text \<open>The value is the result with the new \<open>*path_black_count\<close>.\<close>

partial_function (option) check_rb_tree_properties ::
    "(nat \<Rightarrow> proc) \<Rightarrow> nat option \<Rightarrow> int \<Rightarrow> int \<Rightarrow> (bool \<times> int) option" where
  "check_rb_tree_properties ps node black_count pbc =
     (case node of
        None \<Rightarrow>
          if pbc = - 1 then Some (True, black_count)
          else if black_count \<noteq> pbc then Some (False, pbc)
          else Some (True, pbc)
      | Some i \<Rightarrow>
          if p_color (ps i) = RED \<and> (is_red ps (p_l (ps i)) \<or> is_red ps (p_r (ps i))) then Some (False, pbc)
          else
            let bc = (if p_color (ps i) = BLACK then black_count + 1 else black_count) in
            Option.bind (check_rb_tree_properties ps (p_l (ps i)) bc pbc) (\<lambda>(ok, pbc).
              if \<not> ok then Some (False, pbc)
              else Option.bind (check_rb_tree_properties ps (p_r (ps i)) bc pbc) (\<lambda>(ok, pbc).
                if \<not> ok then Some (False, pbc) else Some (True, pbc))))"

definition treebalanced :: "kern \<Rightarrow> int option" where
  "treebalanced s =
     (case rb_root (rbTree s) of
        Some i \<Rightarrow>
          if p_color (procs s i) \<noteq> BLACK then Some 0
          else map_option (\<lambda>(ok, _). if ok then 1 else 0)
                 (check_rb_tree_properties (procs s) (rb_root (rbTree s)) 0 (- 1))
      | None \<Rightarrow>
          map_option (\<lambda>(ok, _). if ok then 1 else 0)
            (check_rb_tree_properties (procs s) (rb_root (rbTree s)) 0 (- 1)))"

definition gettree :: "kern \<Rightarrow> rbtree" where
  "gettree s = rbTree s"

section \<open>The listing\<close>

record rb_node_info =
  n_pid :: int
  n_vruntime :: cdouble
  n_color :: int
  n_left_pid :: int
  n_right_pid :: int
  n_parent_pid :: int

definition pid_or_none :: "(nat \<Rightarrow> proc) \<Rightarrow> nat option \<Rightarrow> int" where
  "pid_or_none ps n = (case n of None \<Rightarrow> - 1 | Some i \<Rightarrow> p_pid (ps i))"

definition node_info :: "(nat \<Rightarrow> proc) \<Rightarrow> nat \<Rightarrow> rb_node_info" where
  "node_info ps i =
     \<lparr>n_pid = p_pid (ps i), n_vruntime = p_vruntime (ps i),
      n_color = (if p_color (ps i) = RED then 0 else 1),
      n_left_pid = pid_or_none ps (p_l (ps i)), n_right_pid = pid_or_none ps (p_r (ps i)),
      n_parent_pid = pid_or_none ps (p_p (ps i))\<rparr>"

text \<open>\<open>nodes\<close> are the entries written so far; \<open>*index\<close> is their number.\<close>

partial_function (option) collect_rb_tree_nodes ::
    "(nat \<Rightarrow> proc) \<Rightarrow> nat option \<Rightarrow> rb_node_info list \<Rightarrow> int \<Rightarrow> rb_node_info list option" where
  "collect_rb_tree_nodes ps node nodes max_nodes =
     (case node of
        None \<Rightarrow> Some nodes
      | Some i \<Rightarrow>
          if max_nodes \<le> int (length nodes) then Some nodes
          else
            Option.bind (collect_rb_tree_nodes ps (p_l (ps i)) nodes max_nodes) (\<lambda>nodes.
            collect_rb_tree_nodes ps (p_r (ps i)) (nodes @ [node_info ps i]) max_nodes))"

definition le64 :: "64 word \<Rightarrow> u8 list" where
  "le64 w = le32 (ucast w) @ le32 (ucast (drop_bit 32 w))"

text \<open>\<open>struct rb_node_info\<close> in memory, 28 bytes.\<close>

definition encode_node :: "rb_node_info \<Rightarrow> u8 list" where
  "encode_node n = le32 (word_of_int (n_pid n)) @ le64 (n_vruntime n) @ le32 (word_of_int (n_color n)) @
     le32 (word_of_int (n_left_pid n)) @ le32 (word_of_int (n_right_pid n)) @ le32 (word_of_int (n_parent_pid n))"

section \<open>Trees\<close>

text \<open>The tree that hangs below a pointer, and what the two functions are meant to compute of it.\<close>

datatype ptree = PLeaf | PNode ptree nat ptree

fun tree_at :: "(nat \<Rightarrow> proc) \<Rightarrow> nat option \<Rightarrow> ptree \<Rightarrow> bool" where
  "tree_at ps n PLeaf \<longleftrightarrow> n = None"
| "tree_at ps n (PNode l i r) \<longleftrightarrow> n = Some i \<and> tree_at ps (p_l (ps i)) l \<and> tree_at ps (p_r (ps i)) r"

fun root_red :: "(nat \<Rightarrow> proc) \<Rightarrow> ptree \<Rightarrow> bool" where
  "root_red ps PLeaf \<longleftrightarrow> False"
| "root_red ps (PNode l i r) \<longleftrightarrow> p_color (ps i) = RED"

fun no_red_red :: "(nat \<Rightarrow> proc) \<Rightarrow> ptree \<Rightarrow> bool" where
  "no_red_red ps PLeaf \<longleftrightarrow> True"
| "no_red_red ps (PNode l i r) \<longleftrightarrow>
     (p_color (ps i) = RED \<longrightarrow> \<not> root_red ps l \<and> \<not> root_red ps r) \<and> no_red_red ps l \<and> no_red_red ps r"

text \<open>The numbers of black nodes on the paths from the root to the leaves, from left to right.\<close>

fun black_paths :: "(nat \<Rightarrow> proc) \<Rightarrow> ptree \<Rightarrow> nat list" where
  "black_paths ps PLeaf = [0]"
| "black_paths ps (PNode l i r) =
     map (\<lambda>k. k + (if p_color (ps i) = BLACK then 1 else 0)) (black_paths ps l @ black_paths ps r)"

definition red_black :: "(nat \<Rightarrow> proc) \<Rightarrow> ptree \<Rightarrow> bool" where
  "red_black ps t \<longleftrightarrow> \<not> root_red ps t \<and> no_red_red ps t \<and>
     (\<exists>h\<in>set (black_paths ps t). \<forall>k\<in>set (black_paths ps t). k = h)"

fun in_order :: "ptree \<Rightarrow> nat list" where
  "in_order PLeaf = []"
| "in_order (PNode l i r) = in_order l @ i # in_order r"

fun left_spine :: "ptree \<Rightarrow> nat list" where
  "left_spine PLeaf = []"
| "left_spine (PNode l i r) = i # left_spine l"

text \<open>A tree of two processes: a black root and its red left child.\<close>

definition two_nodes :: kern where
  "two_nodes = static_kern\<lparr>
     procs := (\<lambda>i. zero_proc)(0 := zero_proc\<lparr>p_pid := 1, p_color := BLACK, p_l := Some 1\<rparr>,
                              1 := zero_proc\<lparr>p_pid := 2, p_color := RED, p_p := Some 0\<rparr>),
     rbTree := (rbTree static_kern)\<lparr>rb_root := Some 0\<rparr>\<rparr>"

section \<open>What the check computes\<close>

lemma black_paths_ne [simp]: "black_paths ps t \<noteq> []"
  by (induction t) simp_all

lemma is_red_tree: "tree_at ps n t \<Longrightarrow> is_red ps n = root_red ps t"
  by (cases t) (auto simp: is_red_def)

text \<open>All paths have the black count the check has recorded, or it has recorded none yet and all
  paths have that of the leftmost one.\<close>

definition paths_agree :: "(nat \<Rightarrow> proc) \<Rightarrow> ptree \<Rightarrow> int \<Rightarrow> int \<Rightarrow> bool" where
  "paths_agree ps t bc pbc \<longleftrightarrow>
     (\<forall>k\<in>set (black_paths ps t). bc + int k = (if pbc = - 1 then bc + int (hd (black_paths ps t)) else pbc))"

lemma paths_agree_node:
  assumes "0 \<le> bc" "0 \<le> pbc \<or> pbc = - 1" and b: "b = (if p_color (ps i) = BLACK then 1 else 0 :: nat)"
  shows "paths_agree ps (PNode l i r) bc pbc \<longleftrightarrow>
     paths_agree ps l (bc + int b) pbc \<and>
     paths_agree ps r (bc + int b) (if pbc = - 1 then bc + int b + int (hd (black_paths ps l)) else pbc)"
  using assms(1,2) unfolding paths_agree_def b by (auto simp: ball_Un hd_append hd_map)

lemma check_tree:
  assumes "tree_at ps n t" "0 \<le> bc" "0 \<le> pbc \<or> pbc = - 1"
  shows "\<exists>pbc'. check_rb_tree_properties ps n bc pbc =
           Some (no_red_red ps t \<and> paths_agree ps t bc pbc, pbc') \<and>
           (no_red_red ps t \<and> paths_agree ps t bc pbc \<longrightarrow>
             pbc' = (if pbc = - 1 then bc + int (hd (black_paths ps t)) else pbc))"
  using assms
proof (induction t arbitrary: n bc pbc)
  case PLeaf
  then show ?case by (auto simp: check_rb_tree_properties.simps paths_agree_def)
next
  case (PNode l i r)
  define b where "b = (if p_color (ps i) = BLACK then 1 else 0 :: nat)"
  have n: "n = Some i" and tl: "tree_at ps (p_l (ps i)) l" and tr: "tree_at ps (p_r (ps i)) r"
    using PNode.prems by auto
  note red = is_red_tree [OF tl] is_red_tree [OF tr]
  have bc: "(if p_color (ps i) = BLACK then bc + 1 else bc) = bc + int b" by (simp add: b_def)
  have hd: "int (hd (black_paths ps (PNode l i r))) = int b + int (hd (black_paths ps l))"
    by (simp add: b_def hd_append hd_map)
  have agree: "paths_agree ps (PNode l i r) bc pbc \<longleftrightarrow> paths_agree ps l (bc + int b) pbc \<and>
     paths_agree ps r (bc + int b) (if pbc = - 1 then bc + int b + int (hd (black_paths ps l)) else pbc)"
    by (rule paths_agree_node) (use PNode.prems b_def in auto)
  obtain p1 where l: "check_rb_tree_properties ps (p_l (ps i)) (bc + int b) pbc =
      Some (no_red_red ps l \<and> paths_agree ps l (bc + int b) pbc, p1)"
    and p1: "no_red_red ps l \<and> paths_agree ps l (bc + int b) pbc \<longrightarrow>
      p1 = (if pbc = - 1 then bc + int b + int (hd (black_paths ps l)) else pbc)"
    using PNode.IH(1) [OF tl, of "bc + int b" pbc] PNode.prems by auto
  show ?case
  proof (cases "p_color (ps i) = RED \<and> (root_red ps l \<or> root_red ps r)")
    case True
    then show ?thesis using n red by (subst check_rb_tree_properties.simps) auto
  next
    case noviol: False
    then have nrr: "no_red_red ps (PNode l i r) \<longleftrightarrow> no_red_red ps l \<and> no_red_red ps r" by auto
    have unf: "check_rb_tree_properties ps n bc pbc =
        Option.bind (check_rb_tree_properties ps (p_l (ps i)) (bc + int b) pbc) (\<lambda>(ok, pbc).
          if \<not> ok then Some (False, pbc)
          else Option.bind (check_rb_tree_properties ps (p_r (ps i)) (bc + int b) pbc) (\<lambda>(ok, pbc).
            if \<not> ok then Some (False, pbc) else Some (True, pbc)))"
      using n red noviol by (subst check_rb_tree_properties.simps) (auto simp: bc Let_def)
    show ?thesis
    proof (cases "no_red_red ps l \<and> paths_agree ps l (bc + int b) pbc")
      case False
      then show ?thesis using nrr agree unf l by auto
    next
      case True
      with p1 have p1': "p1 = (if pbc = - 1 then bc + int b + int (hd (black_paths ps l)) else pbc)" by blast
      then have pos: "0 \<le> p1" using PNode.prems by auto
      then obtain p2 where r: "check_rb_tree_properties ps (p_r (ps i)) (bc + int b) p1 =
          Some (no_red_red ps r \<and> paths_agree ps r (bc + int b) p1, p2)"
        and p2: "no_red_red ps r \<and> paths_agree ps r (bc + int b) p1 \<longrightarrow> p2 = p1"
        using PNode.IH(2) [OF tr, of "bc + int b" p1] PNode.prems by auto
      have "check_rb_tree_properties ps n bc pbc = Some (no_red_red ps r \<and> paths_agree ps r (bc + int b) p1, p2)"
        using True unf l r by auto
      then show ?thesis using True nrr agree [folded p1'] p2 p1' hd by auto
    qed
  qed
qed

lemma paths_agree_red_black:
  "red_black ps t \<longleftrightarrow> \<not> root_red ps t \<and> no_red_red ps t \<and> paths_agree ps t 0 (- 1)"
proof -
  have h: "hd (black_paths ps t) \<in> set (black_paths ps t)" by simp
  have "(\<exists>x\<in>set (black_paths ps t). \<forall>k\<in>set (black_paths ps t). k = x) \<longleftrightarrow>
      (\<forall>k\<in>set (black_paths ps t). k = hd (black_paths ps t))" (is "?all \<longleftrightarrow> ?first")
  proof
    assume ?all
    then obtain x where "\<forall>k\<in>set (black_paths ps t). k = x" by blast
    with h show ?first by (metis (full_types))
  qed (use h in blast)
  then show ?thesis unfolding red_black_def paths_agree_def by simp
qed

section \<open>What the listing computes\<close>

lemma collect_one:
  assumes "tree_at ps n t"
  shows "collect_rb_tree_nodes ps n [] 1 = Some (map (node_info ps) (rev (left_spine t)))"
    "nodes \<noteq> [] \<Longrightarrow> collect_rb_tree_nodes ps n nodes 1 = Some nodes"
proof -
  show full: "nodes \<noteq> [] \<Longrightarrow> collect_rb_tree_nodes ps n nodes 1 = Some nodes" for n nodes
    by (cases nodes; subst collect_rb_tree_nodes.simps) (auto split: option.split)
  show "collect_rb_tree_nodes ps n [] 1 = Some (map (node_info ps) (rev (left_spine t)))"
    using assms
  proof (induction t arbitrary: n)
    case PLeaf
    then show ?case by (simp add: collect_rb_tree_nodes.simps)
  next
    case (PNode l i r)
    then show ?case by (subst collect_rb_tree_nodes.simps) (simp add: full)
  qed
qed

lemma collect_all:
  assumes "tree_at ps n t" "int (length nodes + length (in_order t)) \<le> m"
  shows "collect_rb_tree_nodes ps n nodes m = Some (nodes @ map (node_info ps) (in_order t))"
  using assms
proof (induction t arbitrary: n nodes)
  case PLeaf
  then show ?case by (simp add: collect_rb_tree_nodes.simps)
next
  case (PNode l i r)
  then show ?case by (subst collect_rb_tree_nodes.simps) simp
qed

section \<open>Properties\<close>

text \<open>C22. \<open>treebalanced\<close> is exact: on any tree of processes (of whatever shape and colours) it
  returns, and it returns 1 exactly when the tree is a red-black tree: black root, no red node
  with a red child, and the same number of black nodes on every path to a leaf. So the
  \<open>*path_black_count == -1\<close> convention and the early exits of the recursion lose nothing.\<close>

theorem treebalanced_exact:
  assumes "tree_at (procs s) (rb_root (rbTree s)) t"
  shows "treebalanced s = Some (if red_black (procs s) t then 1 else 0)"
proof -
  obtain p where "check_rb_tree_properties (procs s) (rb_root (rbTree s)) 0 (- 1) =
      Some (no_red_red (procs s) t \<and> paths_agree (procs s) t 0 (- 1), p)"
    using check_tree [OF assms, of 0 "- 1"] by auto
  then show ?thesis
    using assms by (cases t) (auto simp: treebalanced_def paths_agree_red_black split: procColor.splits
        intro: procColor.exhaust)
qed

theorem treebalanced_exact_witness:
  "tree_at (procs two_nodes) (rb_root (rbTree two_nodes)) (PNode (PNode PLeaf 1 PLeaf) 0 PLeaf) \<and>
   treebalanced two_nodes = Some 1"
proof -
  have "tree_at (procs two_nodes) (rb_root (rbTree two_nodes)) (PNode (PNode PLeaf 1 PLeaf) 0 PLeaf)"
    by (simp add: two_nodes_def zero_proc_def static_kern_def)
  moreover have "red_black (procs two_nodes) (PNode (PNode PLeaf 1 PLeaf) 0 PLeaf)"
    by (simp add: two_nodes_def zero_proc_def red_black_def)
  ultimately show ?thesis using treebalanced_exact [of two_nodes "PNode (PNode PLeaf 1 PLeaf) 0 PLeaf"] by simp
qed

text \<open>C23. With room for all of them, \<open>collect_rb_tree_nodes\<close> lists every process of the tree once, in
  order from left to right. With a limit of one entry it does not stop at the limit: it writes an
  entry for every node on the leftmost path, since the test of the index is made before the left
  subtree is listed and not again before the entry is written.\<close>

theorem tree_listing:
  assumes "tree_at ps n t"
  shows "(int (length (in_order t)) \<le> m \<longrightarrow>
           collect_rb_tree_nodes ps n [] m = Some (map (node_info ps) (in_order t))) \<and>
         collect_rb_tree_nodes ps n [] 1 = Some (map (node_info ps) (rev (left_spine t)))"
  using collect_all [OF assms, of "[]"] collect_one(1) [OF assms] by simp

theorem tree_listing_witness:
  "tree_at (procs two_nodes) (Some 0) (PNode (PNode PLeaf 1 PLeaf) 0 PLeaf) \<and>
   map_option length (collect_rb_tree_nodes (procs two_nodes) (Some 0) [] 1) = Some 2"
proof -
  have "tree_at (procs two_nodes) (Some 0) (PNode (PNode PLeaf 1 PLeaf) 0 PLeaf)"
    by (simp add: two_nodes_def zero_proc_def)
  then show ?thesis using tree_listing [of "procs two_nodes" "Some 0" "PNode (PNode PLeaf 1 PLeaf) 0 PLeaf" 2] by simp
qed

end
