(* ===== verification/Trap.thy ===== *)
theory Trap
  imports Sysfile Sched_Tree
begin

text \<open>
  The entry into the kernel: the console device of \<open>console.c\<close>, the process system calls of
  \<open>sysproc.c\<close>, the dispatch of \<open>syscall.c\<close> and \<open>trap\<close> of \<open>trap.c\<close>. \<open>c\<close> is the CPU, \<open>me\<close> the current
  process. What the keyboard and the serial port deliver is an argument of \<open>trap\<close>; acknowledging
  an interrupt has no effect on the model, and the interrupt of the memory disk does nothing.
\<close>

section \<open>The console device\<close>

definition consoleread :: "bool \<Rightarrow> nat \<Rightarrow> u32 \<Rightarrow> kern \<Rightarrow> (int \<times> u8 list \<times> kern) res" where
  "consoleread killed ip n s =
     kbind (iunlock ip s) (\<lambda>s.
       case consoleread_loop killed (nat (sint n)) [] (kcons s) of (out, k) \<Rightarrow>
         let s = s\<lparr>kcons := k\<rparr> in
         (case out of
            ReadDone bs \<Rightarrow> kbind (ilock ip s) (\<lambda>s. Ok (int (length bs), bs, s))
          | ReadKilled \<Rightarrow> kbind (ilock ip s) (\<lambda>s. Ok (- 1, [], s))
          | ReadSleeps _ _ \<Rightarrow> Sleeps))"

definition consolewrite :: "nat \<Rightarrow> u8 list \<Rightarrow> kern \<Rightarrow> (int \<times> kern) res" where
  "consolewrite ip buf s =
     kbind (iunlock ip s) (\<lambda>s.
     kbind (putbytes buf (kcons s)) (\<lambda>k.
     kbind (ilock ip (s\<lparr>kcons := k\<rparr>)) (\<lambda>s. Ok (int (length buf), s))))"

text \<open>The device table that \<open>consoleinit\<close> fills in: only the entry \<open>CONSOLE\<close>.\<close>

definition console_devsw :: "nat \<Rightarrow> kern \<Rightarrow> kern devsw" where
  "console_devsw me s =
     \<lparr>dev_read = (\<lambda>major. if major = 1 then Some (consoleread (p_killed (procs s me))) else None),
      dev_write = (\<lambda>major. if major = 1 then Some consolewrite else None)\<rparr>"

text \<open>The wakeup of the readers that \<open>consoleintr\<close> makes; a process listing only prints.\<close>

definition console_events :: "nat \<Rightarrow> bool \<times> bool \<times> cons_st \<Rightarrow> kern \<Rightarrow> kern res" where
  "console_events c x s = (case x of (dump, wake, k) \<Rightarrow>
     let s = s\<lparr>kcons := k\<rparr> in if wake then wakeup c (Some ChanInput) s else Ok s)"

section \<open>Process system calls\<close>

definition sys_fork :: "build \<Rightarrow> nat \<Rightarrow> nat \<Rightarrow> kern \<Rightarrow> (int \<times> kern) res" where
  "sys_fork B c me s = fork B c me s"

definition sys_exit :: "build \<Rightarrow> nat \<Rightarrow> nat \<Rightarrow> kern \<Rightarrow> (sysout \<times> kern) res" where
  "sys_exit B c me s = kbind (exit B c me s) (\<lambda>(_, s). Ok (SSwitch, s))"

definition sys_wait :: "build \<Rightarrow> nat \<Rightarrow> nat \<Rightarrow> kern \<Rightarrow> (sysout \<times> kern) res" where
  "sys_wait B c me s =
     kbind (wait B c me s) (\<lambda>(r, s). Ok (case r of Inl v \<Rightarrow> SRet v | Inr _ \<Rightarrow> SSwitch, s))"

definition sys_kill :: "nat \<Rightarrow> nat \<Rightarrow> kern \<Rightarrow> (int \<times> kern) res" where
  "sys_kill c me s = with_arg (argint me 0 s) s (\<lambda>pid. kill c (sint pid) s)"

definition sys_getpid :: "nat \<Rightarrow> kern \<Rightarrow> (int \<times> kern) res" where
  "sys_getpid me s = Ok (p_pid (procs s me), s)"

definition sys_sbrk :: "build \<Rightarrow> nat \<Rightarrow> nat \<Rightarrow> kern \<Rightarrow> (int \<times> kern) res" where
  "sys_sbrk B c me s =
     with_arg (argint me 0 s) s (\<lambda>n.
       let addr = sint (p_sz (procs s me)) in
       kbind (growproc B c me (sint n) s) (\<lambda>(r, s). if r < 0 then failed s else Ok (addr, s)))"

text \<open>The loop of \<open>sys_sleep\<close>, entered with \<open>ticks0\<close>: C compares without sign.\<close>

definition sys_sleep_loop :: "nat \<Rightarrow> nat \<Rightarrow> u32 \<Rightarrow> u32 \<Rightarrow> kern \<Rightarrow> (sysout \<times> kern) res" where
  "sys_sleep_loop c me ticks0 n s =
     (if ticks s - ticks0 < n then
        if p_killed (procs s me) then Ok (SRet (- 1), s)
        else
          kbind (lock_ptable c s) (\<lambda>s.
          kbind (sleep_locked c me ChanTicks s) (\<lambda>(_, s). Ok (SSwitch, s)))
      else Ok (SRet 0, s))"

definition sys_sleep :: "nat \<Rightarrow> nat \<Rightarrow> kern \<Rightarrow> (sysout \<times> kern) res" where
  "sys_sleep c me s =
     kbind (argint me 0 s) (\<lambda>r.
       case r of None \<Rightarrow> Ok (SRet (- 1), s) | Some n \<Rightarrow> sys_sleep_loop c me (ticks s) n s)"

definition sys_uptime :: "kern \<Rightarrow> (int \<times> kern) res" where
  "sys_uptime s = Ok (sint (ticks s), s)"

section \<open>Tree system calls\<close>

text \<open>\<open>copyout\<close> to the memory of the current process.\<close>

definition copyout_me :: "nat \<Rightarrow> u32 \<Rightarrow> u8 list \<Rightarrow> kern \<Rightarrow> (int \<times> kern) res" where
  "copyout_me me va bs s = with_km (copyout (p_pgdir (procs s me)) va bs) s"

definition copyout_or_fail :: "nat \<Rightarrow> u32 \<Rightarrow> u8 list \<Rightarrow> (kern \<Rightarrow> (int \<times> kern) res) \<Rightarrow> kern \<Rightarrow> (int \<times> kern) res" where
  "copyout_or_fail me va bs f s =
     kbind (copyout_me me va bs s) (\<lambda>(r, s). if r < 0 then failed s else f s)"

definition sys_gettreeinfo :: "nat \<Rightarrow> kern \<Rightarrow> (int \<times> kern) res" where
  "sys_gettreeinfo me s =
     with_arg (argptr me 0 4 s) s (\<lambda>ucount.
     with_arg (argptr me 1 4 s) s (\<lambda>uweight.
     with_arg (argptr me 2 4 s) s (\<lambda>uperiod.
       case gettreeinfo s of (count, weight, period) \<Rightarrow>
         copyout_or_fail me ucount (le32 (word_of_int count))
           (copyout_or_fail me uweight (le32 (word_of_int weight))
             (copyout_or_fail me uperiod (le32 (word_of_int period)) (\<lambda>s. Ok (0, s)))) s)))"

text \<open>\<open>struct proc_info\<close> in memory, 24 bytes.\<close>

definition encode_procinfo :: "proc_info \<Rightarrow> u8 list" where
  "encode_procinfo p = le32 (word_of_int (pi_pid p)) @ le32 (word_of_int (pi_nice_value p)) @
     le32 (word_of_int (pi_weight p)) @ le64 (pi_vruntime p) @ le32 (word_of_int (pi_curr_runtime p))"

text \<open>\<open>junk\<close> is the uninitialised local variable \<open>pinfo\<close>.\<close>

definition sys_getprocinfo :: "proc_info \<Rightarrow> nat \<Rightarrow> nat \<Rightarrow> kern \<Rightarrow> (int \<times> kern) res" where
  "sys_getprocinfo junk c me s =
     with_arg (argint me 0 s) s (\<lambda>pid.
     with_arg (argptr me 1 24 s) s (\<lambda>upinfo.
       kbind (getprocinfo c (sint pid) junk s) (\<lambda>(info, s).
         if pi_pid info = - 1 then failed s
         else copyout_or_fail me upinfo (encode_procinfo info) (\<lambda>s. Ok (0, s)) s)))"

text \<open>The listing is written into a page of its own and copied out from there. On a cyclic tree
  the call does not return.\<close>

definition sys_gettreenodes :: "build \<Rightarrow> nat \<Rightarrow> kern \<Rightarrow> (int \<times> kern) res" where
  "sys_gettreenodes B me s =
     with_arg (argint me 0 s) s (\<lambda>max_nodes.
     with_arg (argptr me 1 (sint (max_nodes * 28)) s) s (\<lambda>buf.
       case k_alloc s of (page, s) \<Rightarrow>
         if page = 0 then failed s
         else
           (case collect_rb_tree_nodes (procs s) (rb_root (gettree s)) [] (sint max_nodes) of
              None \<Rightarrow> Sleeps
            | Some nodes \<Rightarrow>
                let bs = concat (map encode_node nodes);
                    s = s\<lparr>km := set_mem (store_bytes (kmemory (km s)) (unat page) bs) (km s)\<rparr>
                in if PGSIZE < length bs then Undef
                   else
                     kbind (copyout_me me buf bs s) (\<lambda>(r, s).
                     kbind (do_km (kfree (b_end B) page) s) (\<lambda>s.
                       if r < 0 then failed s else Ok (int (length nodes), s))))))"

definition sys_treebalanced :: "kern \<Rightarrow> (int \<times> kern) res" where
  "sys_treebalanced s = (case treebalanced s of None \<Rightarrow> Sleeps | Some r \<Rightarrow> Ok (r, s))"

section \<open>Dispatch\<close>

definition syscalls :: "build \<Rightarrow> proc_info \<Rightarrow> nat \<Rightarrow> nat \<Rightarrow> kern \<Rightarrow> int \<Rightarrow> ((sysout \<times> kern) res) option" where
  "syscalls B junk c me s num =
     (let dv = console_devsw me s in
      if num = 1 then Some (sret (sys_fork B c me s))
      else if num = 2 then Some (sys_exit B c me s)
      else if num = 3 then Some (sys_wait B c me s)
      else if num = 4 then Some (sret (sys_pipe B me s))
      else if num = 5 then Some (sret (sys_read dv me s))
      else if num = 6 then Some (sret (sys_kill c me s))
      else if num = 7 then Some (sret (sys_exec B dv c me s))
      else if num = 8 then Some (sret (sys_fstat me s))
      else if num = 9 then Some (sret (sys_chdir dv me s))
      else if num = 10 then Some (sret (sys_dup me s))
      else if num = 11 then Some (sret (sys_getpid me s))
      else if num = 12 then Some (sret (sys_sbrk B c me s))
      else if num = 13 then Some (sys_sleep c me s)
      else if num = 14 then Some (sret (sys_uptime s))
      else if num = 15 then Some (sret (sys_open B dv me s))
      else if num = 16 then Some (sret (sys_write dv me s))
      else if num = 17 then Some (sret (sys_mknod dv me s))
      else if num = 18 then Some (sret (sys_unlink dv me s))
      else if num = 19 then Some (sret (sys_link dv me s))
      else if num = 20 then Some (sret (sys_mkdir dv me s))
      else if num = 21 then Some (sret (sys_close B me s))
      else if num = 22 then Some (sret (sys_treebalanced s))
      else if num = 23 then Some (sret (sys_gettreeinfo me s))
      else if num = 24 then Some (sret (sys_getprocinfo junk c me s))
      else if num = 25 then Some (sret (sys_gettreenodes B me s))
      else None)"

definition set_eax :: "nat \<Rightarrow> int \<Rightarrow> kern \<Rightarrow> kern" where
  "set_eax me r s = upd_proc me (\<lambda>x. x\<lparr>p_tf := (p_tf x)\<lparr>tf_eax := word_of_int r\<rparr>\<rparr>) s"

text \<open>\<open>syscall\<close>: the value tells whether the call has returned.\<close>

definition syscall :: "build \<Rightarrow> proc_info \<Rightarrow> nat \<Rightarrow> nat \<Rightarrow> kern \<Rightarrow> (bool \<times> kern) res" where
  "syscall B junk c me s =
     (let num = sint (tf_eax (p_tf (procs s me))) in
      case syscalls B junk c me s num of
        Some m \<Rightarrow>
          kbind m (\<lambda>(out, s).
            case out of SRet r \<Rightarrow> Ok (True, set_eax me r s) | SSwitch \<Rightarrow> Ok (False, s))
      | None \<Rightarrow> Ok (True, set_eax me (- 1) s))"

section \<open>Traps\<close>

abbreviation (input) T_SYSCALL :: u32 where "T_SYSCALL \<equiv> 64"
abbreviation (input) T_IRQ0 :: u32 where "T_IRQ0 \<equiv> 32"
abbreviation (input) IRQ_TIMER :: u32 where "IRQ_TIMER \<equiv> 0"
abbreviation (input) IRQ_KBD :: u32 where "IRQ_KBD \<equiv> 1"
abbreviation (input) IRQ_COM1 :: u32 where "IRQ_COM1 \<equiv> 4"
abbreviation (input) IRQ_IDE :: u32 where "IRQ_IDE \<equiv> 14"
abbreviation (input) IRQ_SPURIOUS :: u32 where "IRQ_SPURIOUS \<equiv> 31"

definition from_user :: "trapframe \<Rightarrow> bool" where
  "from_user tf \<longleftrightarrow> tf_cs tf AND 3 = DPL_USER"

definition killed_me :: "nat \<Rightarrow> kern \<Rightarrow> bool" where
  "killed_me c s = (case myproc c s of None \<Rightarrow> False | Some me \<Rightarrow> p_killed (procs s me))"

definition exit_me :: "build \<Rightarrow> nat \<Rightarrow> kern \<Rightarrow> (bool \<times> kern) res" where
  "exit_me B c s =
     (case myproc c s of None \<Rightarrow> Undef
      | Some me \<Rightarrow> kbind (exit B c me s) (\<lambda>(_, s). Ok (False, s)))"

definition trap_syscall :: "build \<Rightarrow> proc_info \<Rightarrow> nat \<Rightarrow> trapframe \<Rightarrow> kern \<Rightarrow> (bool \<times> kern) res" where
  "trap_syscall B junk c tf s =
     (case myproc c s of None \<Rightarrow> Undef
      | Some me \<Rightarrow>
          if p_killed (procs s me) then exit_me B c s
          else
            kbind (syscall B junk c me (upd_proc me (\<lambda>x. x\<lparr>p_tf := tf\<rparr>) s)) (\<lambda>(ret, s).
              if \<not> ret then Ok (False, s)
              else if killed_me c s then exit_me B c s
              else Ok (True, s)))"

text \<open>The \<open>switch\<close> of \<open>trap\<close>: \<open>kbd\<close> and \<open>com1\<close> are the bytes the two devices deliver.\<close>

definition trap_irq :: "nat \<Rightarrow> u8 list \<Rightarrow> u8 list \<Rightarrow> trapframe \<Rightarrow> kern \<Rightarrow> kern res" where
  "trap_irq c kbd com1 tf s =
     (if tf_trapno tf = T_IRQ0 + IRQ_TIMER then
        (if c = 0 then wakeup c (Some ChanTicks) (s\<lparr>ticks := ticks s + 1\<rparr>) else Ok s)
      else if tf_trapno tf = T_IRQ0 + IRQ_IDE \<or> tf_trapno tf = T_IRQ0 + IRQ_IDE + 1 then Ok s
      else if tf_trapno tf = T_IRQ0 + IRQ_KBD then
        kbind (kbdintr kbd (kbd_shift s) (kcons s)) (\<lambda>(d, w, sh, k).
          console_events c (d, w, k) (s\<lparr>kbd_shift := sh\<rparr>))
      else if tf_trapno tf = T_IRQ0 + IRQ_COM1 then
        kbind (uartintr com1 (kcons s)) (\<lambda>x. console_events c x s)
      else if tf_trapno tf = T_IRQ0 + 7 \<or> tf_trapno tf = T_IRQ0 + IRQ_SPURIOUS then Ok s
      else
        (case myproc c s of
           None \<Rightarrow> Panic ''trap''
         | Some me \<Rightarrow>
             if tf_cs tf AND 3 = 0 then Panic ''trap''
             else Ok (upd_proc me (\<lambda>x. x\<lparr>p_killed := True\<rparr>) s)))"

text \<open>The value is whether \<open>trap\<close> has returned; otherwise the CPU has been given up, for good in
  \<open>exit\<close>, until the process is scheduled again in \<open>yield\<close> or in a system call.\<close>

definition trap :: "build \<Rightarrow> proc_info \<Rightarrow> nat \<Rightarrow> u8 list \<Rightarrow> u8 list \<Rightarrow> trapframe \<Rightarrow> kern \<Rightarrow> (bool \<times> kern) res" where
  "trap B junk c kbd com1 tf s =
     (if tf_trapno tf = T_SYSCALL then trap_syscall B junk c tf s
      else
        kbind (trap_irq c kbd com1 tf s) (\<lambda>s.
          if killed_me c s \<and> from_user tf then exit_me B c s
          else case myproc c s of
            None \<Rightarrow> Ok (True, s)
          | Some me \<Rightarrow>
              if p_state (procs s me) = RUNNING \<and> tf_trapno tf = T_IRQ0 + IRQ_TIMER
              then kbind (yield c me s) (\<lambda>(_, s). Ok (False, s))
              else Ok (True, s)))"

text \<open>What is left of \<open>trap\<close> when the process resumes in \<open>yield\<close>.\<close>

definition trap_resume :: "build \<Rightarrow> nat \<Rightarrow> bool \<Rightarrow> trapframe \<Rightarrow> kern \<Rightarrow> (bool \<times> kern) res" where
  "trap_resume B c ie tf s =
     kbind (yield_resume c ie s) (\<lambda>s.
       if killed_me c s \<and> from_user tf then exit_me B c s else Ok (True, s))"

end
