(* ===== verification/Sched.thy ===== *)
theory Sched
  imports Proc
begin

text \<open>
  The scheduler at work: a step relation for several CPUs over the pieces of \<open>proc.c\<close>. A step is what
  one CPU does between two points at which it holds no lock or stands in the scan of the process
  table, so that the steps of different CPUs interleave as the spinlock \<open>ptable.lock\<close> lets
  them. What a thread does when \<open>swtch\<close> brings it back is recorded by where it gave up the CPU.
\<close>

section \<open>The system\<close>

text \<open>A CPU is between two scans, inside a scan at an index (holding the lock), or runs a process.\<close>

datatype cpuctl = Idle | InSched nat | InProc nat

datatype resume_pt = AtYield | AtSleep | AtWait | AtForkret

record psys =
  kst :: kern
  ctl :: "nat \<Rightarrow> cpuctl"
  rpt :: "nat \<Rightarrow> resume_pt"
  saved :: "nat \<Rightarrow> bool"

text \<open>The process \<open>p\<close> on CPU \<open>c\<close> has given up the CPU in the state \<open>s\<close>.\<close>

definition leave :: "nat \<Rightarrow> nat \<Rightarrow> resume_pt \<Rightarrow> bool \<Rightarrow> kern \<Rightarrow> psys \<Rightarrow> psys" where
  "leave c p r ie s S = S\<lparr>kst := scheduler_back c s, ctl := (ctl S)(c := InSched (Suc p)),
     rpt := (rpt S)(p := r), saved := (saved S)(p := ie)\<rparr>"

definition stay :: "kern \<Rightarrow> psys \<Rightarrow> psys" where
  "stay s S = S\<lparr>kst := s\<rparr>"

definition enter :: "nat \<Rightarrow> cpuctl \<Rightarrow> kern \<Rightarrow> psys \<Rightarrow> psys" where
  "enter c ct s S = S\<lparr>kst := s, ctl := (ctl S)(c := ct)\<rparr>"

text \<open>What \<open>fork\<close> does with the process it has allocated: it is given a page table and a parent and
  becomes runnable.\<close>

definition fork_ready :: "nat \<Rightarrow> nat \<Rightarrow> nat \<Rightarrow> u32 \<Rightarrow> kern \<Rightarrow> kern res" where
  "fork_ready c p np d s =
     kbind (lock_ptable c (upd_proc np (\<lambda>x. x\<lparr>p_pgdir := d, p_parent := Some p\<rparr>) s)) (\<lambda>s.
     unlock_ptable c (upd_proc np (\<lambda>x. x\<lparr>p_state := RUNNABLE\<rparr>) s))"

inductive sched_step :: "build \<Rightarrow> psys \<Rightarrow> psys \<Rightarrow> bool" for B where
  sched_begin: "ctl S c = Idle \<Longrightarrow> scheduler_begin c (kst S) = Ok s \<Longrightarrow>
    sched_step B S (enter c (InSched 0) s S)"
| sched_none: "ctl S c = InSched i \<Longrightarrow> scheduler_pick c i (kst S) = Ok (None, s1) \<Longrightarrow>
    unlock_ptable c s1 = Ok s \<Longrightarrow> sched_step B S (enter c Idle s S)"
| resume_yield: "ctl S c = InSched i \<Longrightarrow> scheduler_pick c i (kst S) = Ok (Some j, s1) \<Longrightarrow>
    rpt S j = AtYield \<Longrightarrow> yield_resume c (saved S j) s1 = Ok s \<Longrightarrow>
    sched_step B S (enter c (InProc j) s S)"
| resume_forkret: "ctl S c = InSched i \<Longrightarrow> scheduler_pick c i (kst S) = Ok (Some j, s1) \<Longrightarrow>
    rpt S j = AtForkret \<Longrightarrow> unlock_ptable c s1 = Ok s \<Longrightarrow>
    sched_step B S (enter c (InProc j) s S)"
| resume_sleep: "ctl S c = InSched i \<Longrightarrow> scheduler_pick c i (kst S) = Ok (Some j, s1) \<Longrightarrow>
    rpt S j = AtSleep \<Longrightarrow> unlock_ptable c (sleep_resume c j (saved S j) s1) = Ok s \<Longrightarrow>
    sched_step B S (enter c (InProc j) s S)"
| resume_wait: "ctl S c = InSched i \<Longrightarrow> scheduler_pick c i (kst S) = Ok (Some j, s1) \<Longrightarrow>
    rpt S j = AtWait \<Longrightarrow> wait_loop B c j (sleep_resume c j (saved S j) s1) = Ok (Inl r, s) \<Longrightarrow>
    sched_step B S (enter c (InProc j) s S)"
| rewait: "ctl S c = InSched i \<Longrightarrow> scheduler_pick c i (kst S) = Ok (Some j, s1) \<Longrightarrow>
    rpt S j = AtWait \<Longrightarrow> wait_loop B c j (sleep_resume c j (saved S j) s1) = Ok (Inr ie, s) \<Longrightarrow>
    sched_step B S (leave c j AtWait ie s S)"
| yields: "ctl S c = InProc p \<Longrightarrow> yield c p (kst S) = Ok (ie, s) \<Longrightarrow>
    sched_step B S (leave c p AtYield ie s S)"
| sleeps: "ctl S c = InProc p \<Longrightarrow> acquire c [] lk (c_cli (kcpus (kst S) c)) = Ok (lk1, cl) \<Longrightarrow>
    sleep c ch (Some lk1) (upd_cpu c (\<lambda>k. k\<lparr>c_cli := cl\<rparr>) (kst S)) = Ok (ie, lk2, s) \<Longrightarrow>
    sched_step B S (leave c p AtSleep ie s S)"
| waits: "ctl S c = InProc p \<Longrightarrow> wait B c p (kst S) = Ok (Inr ie, s) \<Longrightarrow>
    sched_step B S (leave c p AtWait ie s S)"
| wait_returns: "ctl S c = InProc p \<Longrightarrow> wait B c p (kst S) = Ok (Inl r, s) \<Longrightarrow>
    sched_step B S (stay s S)"
| exits: "ctl S c = InProc p \<Longrightarrow> initproc (kst S) \<noteq> Some p \<Longrightarrow> exit_finish c p (kst S) = Ok (ie, s) \<Longrightarrow>
    sched_step B S (leave c p AtYield ie s S)"
| wakes: "(\<And>i. ctl S c \<noteq> InSched i) \<Longrightarrow> wakeup c ch (kst S) = Ok s \<Longrightarrow> sched_step B S (stay s S)"
| kills: "ctl S c = InProc p \<Longrightarrow> kill c pid (kst S) = Ok (r, s) \<Longrightarrow> sched_step B S (stay s S)"
| allocates: "ctl S c = InProc p \<Longrightarrow> allocproc B c (kst S) = Ok (Some np, s) \<Longrightarrow>
    sched_step B S ((stay s S)\<lparr>rpt := (rpt S)(np := AtForkret)\<rparr>)"
| allocates_none: "ctl S c = InProc p \<Longrightarrow> allocproc B c (kst S) = Ok (None, s) \<Longrightarrow>
    sched_step B S (stay s S)"
| readies: "ctl S c = InProc p \<Longrightarrow> np < NPROC \<Longrightarrow> p_state (procs (kst S) np) = EMBRYO \<Longrightarrow>
    p_kstack (procs (kst S) np) \<noteq> 0 \<Longrightarrow> d \<noteq> 0 \<Longrightarrow> fork_ready c p np d (kst S) = Ok s \<Longrightarrow>
    sched_step B S (stay s S)"
| abandons: "ctl S c = InProc p \<Longrightarrow> p_state (procs (kst S) np) = EMBRYO \<Longrightarrow>
    sched_step B S (stay (upd_proc np (\<lambda>x. x\<lparr>p_kstack := 0, p_state := UNUSED\<rparr>) (kst S)) S)"

section \<open>Invariants\<close>

definition is_sched :: "cpuctl \<Rightarrow> bool" where
  "is_sched x = (case x of InSched _ \<Rightarrow> True | _ \<Rightarrow> False)"

definition proc_of :: "cpuctl \<Rightarrow> nat option" where
  "proc_of x = (case x of InProc p \<Rightarrow> Some p | _ \<Rightarrow> None)"

text \<open>\<open>h\<close> are the CPUs that hold the lock.\<close>

definition cli_ok :: "(nat \<Rightarrow> bool) \<Rightarrow> kern \<Rightarrow> bool" where
  "cli_ok h s \<longleftrightarrow>
     (\<forall>c. ncli (c_cli (kcpus s c)) = (if h c then 1 else 0) \<and> (h c \<longrightarrow> \<not> eflags_if (c_cli (kcpus s c)))) \<and>
     (locked (ptable_lock s) \<noteq> 0 \<longleftrightarrow> (\<exists>c. h c)) \<and> (\<forall>c. h c \<longrightarrow> lk_cpu (ptable_lock s) = Some c)"

definition runs_ok :: "(nat \<Rightarrow> cpuctl) \<Rightarrow> kern \<Rightarrow> bool" where
  "runs_ok ct s \<longleftrightarrow>
     (\<forall>c. c_proc (kcpus s c) = proc_of (ct c)) \<and>
     (\<forall>p. p_state (procs s p) = RUNNING \<longleftrightarrow> (\<exists>c. ct c = InProc p)) \<and>
     (\<forall>c c' p. ct c = InProc p \<longrightarrow> ct c' = InProc p \<longrightarrow> c = c')"

definition live :: "procstate \<Rightarrow> bool" where
  "live st \<longleftrightarrow> st \<noteq> UNUSED \<and> st \<noteq> EMBRYO"

definition spaces_ok :: "kern \<Rightarrow> bool" where
  "spaces_ok s \<longleftrightarrow> (\<forall>p. live (p_state (procs s p)) \<longrightarrow> p_kstack (procs s p) \<noteq> 0 \<and> p_pgdir (procs s p) \<noteq> 0)"

definition sched_inv :: "psys \<Rightarrow> bool" where
  "sched_inv S \<longleftrightarrow> cli_ok (\<lambda>c. is_sched (ctl S c)) (kst S) \<and> runs_ok (ctl S) (kst S) \<and> spaces_ok (kst S)"

text \<open>The start: no process, no CPU in the scheduler.\<close>

definition sched_start :: "psys \<Rightarrow> bool" where
  "sched_start S \<longleftrightarrow> (\<forall>c. ctl S c = Idle \<and> ncli (c_cli (kcpus (kst S) c)) = 0 \<and> c_proc (kcpus (kst S) c) = None) \<and>
     locked (ptable_lock (kst S)) = 0 \<and> spaces_ok (kst S) \<and>
     (\<forall>p. p_state (procs (kst S) p) \<noteq> RUNNING)"

definition is_panic :: "'a res \<Rightarrow> bool" where
  "is_panic m = (case m of Panic _ \<Rightarrow> True | _ \<Rightarrow> False)"

section \<open>The lock\<close>

lemma sched_defs_simps [simp]:
  "is_sched Idle = False" "is_sched (InSched i) = True" "is_sched (InProc p) = False"
  "proc_of Idle = None" "proc_of (InSched i) = None" "proc_of (InProc p) = Some p"
  by (simp_all add: is_sched_def proc_of_def)

lemma is_panic_simps [simp]:
  "\<not> is_panic (Ok x)" "\<not> is_panic Sleeps" "\<not> is_panic Undef" "is_panic (Panic e)"
  by (simp_all add: is_panic_def)

text \<open>States that differ in nothing but the lock and the \<open>pushcli\<close> state of the CPUs.\<close>

definition lock_frame :: "kern \<Rightarrow> kern \<Rightarrow> bool" where
  "lock_frame s s' \<longleftrightarrow> procs s' = procs s \<and> nextpid s' = nextpid s \<and> initproc s' = initproc s \<and> km s' = km s \<and>
     (\<forall>c. c_proc (kcpus s' c) = c_proc (kcpus s c))"

lemma lock_frame_refl [simp]: "lock_frame s s"
  by (simp add: lock_frame_def)

lemma lock_frame_trans: "lock_frame s s' \<Longrightarrow> lock_frame s' s'' \<Longrightarrow> lock_frame s s''"
  by (simp add: lock_frame_def)

lemma cli_ok_cong:
  assumes "ptable_lock s' = ptable_lock s" "\<And>c. c_cli (kcpus s' c) = c_cli (kcpus s c)"
  shows "cli_ok h s' = cli_ok h s"
  using assms by (simp add: cli_ok_def)

lemma cli_ok_simps [simp]:
  "cli_ok h (upd_proc p f s) = cli_ok h s"
  "cli_ok h (wakeup1 ch s) = cli_ok h s"
  "cli_ok h (s\<lparr>nextpid := n\<rparr>) = cli_ok h s"
  "cli_ok h (s\<lparr>km := m\<rparr>) = cli_ok h s"
  "cli_ok h (scheduler_back c s) = cli_ok h s"
  "cli_ok h (upd_cpu c (\<lambda>k. k\<lparr>c_proc := po\<rparr>) s) = cli_ok h s"
  "cli_ok h (upd_cpu c (\<lambda>k. k\<lparr>c_esp0 := a, c_cr3 := b\<rparr>) s) = cli_ok h s"
  by (rule cli_ok_cong; simp add: upd_proc_def wakeup1_def scheduler_back_def switchkvm_def upd_cpu_def)+

lemma cli_ok_resume [simp]: "cli_ok h (sched_resume c ie s) = cli_ok h s"
proof -
  have "ncli (c_cli (kcpus (sched_resume c ie s) i)) = ncli (c_cli (kcpus s i))"
    "eflags_if (c_cli (kcpus (sched_resume c ie s) i)) = eflags_if (c_cli (kcpus s i))" for i
    by (simp_all add: sched_resume_def upd_cpu_def)
  moreover have "ptable_lock (sched_resume c ie s) = ptable_lock s"
    by (simp add: sched_resume_def upd_cpu_def)
  ultimately show ?thesis by (simp add: cli_ok_def)
qed

lemma lock_ptable_ok:
  assumes "cli_ok h s" "\<not> h c"
  shows "if \<exists>c. h c then lock_ptable c s = Sleeps
         else \<exists>s1. lock_ptable c s = Ok s1 \<and> cli_ok (h(c := True)) s1 \<and> lock_frame s s1"
proof -
  let ?cl = "c_cli (kcpus s c)" and ?lk = "ptable_lock s"
  have "0 \<le> ncli ?cl" "lk_cpu ?lk \<noteq> Some c \<or> locked ?lk = 0"
    using assms unfolding cli_ok_def by (simp, metis option.inject)
  then obtain cl where cl: "acquire_enter c ?lk ?cl = Ok cl" "ncli cl = ncli ?cl + 1" "\<not> eflags_if cl"
    using acquire_enter_ok by blast
  show ?thesis
  proof (cases "\<exists>c. h c")
    case True
    then have "locked ?lk \<noteq> 0" using assms(1) by (simp add: cli_ok_def)
    then show ?thesis using True cl by (simp add: lock_ptable_def acquire_def xchg_locked_def)
  next
    case False
    then have "locked ?lk = 0" using assms(1) by (simp add: cli_ok_def)
    then have "lock_ptable c s = Ok (upd_cpu c (\<lambda>k. k\<lparr>c_cli := cl\<rparr>)
        (s\<lparr>ptable_lock := acquire_record c [] (?lk\<lparr>locked := 1\<rparr>)\<rparr>))"
      using cl by (simp add: lock_ptable_def acquire_def xchg_locked_def)
    then show ?thesis
      using False cl assms by (auto simp: cli_ok_def lock_frame_def upd_cpu_def acquire_record_def)
  qed
qed

lemma lock_ptable_D:
  assumes "cli_ok h s" "\<not> h c" "lock_ptable c s = Ok s1"
  shows "cli_ok (h(c := True)) s1 \<and> lock_frame s s1 \<and> \<not> (\<exists>c. h c)"
proof (cases "\<exists>c. h c")
  case True
  then have "lock_ptable c s = Sleeps" using lock_ptable_ok [OF assms(1,2)] by (simp only: if_True)
  then show ?thesis using assms(3) by simp
next
  case False
  then have "\<exists>s1. lock_ptable c s = Ok s1 \<and> cli_ok (h(c := True)) s1 \<and> lock_frame s s1"
    using lock_ptable_ok [OF assms(1,2)] by (simp only: if_False)
  then show ?thesis using assms(3) False by force
qed

lemma cli_ok_held:
  assumes "cli_ok h s" "h c"
  shows "locked (ptable_lock s) \<noteq> 0" "lk_cpu (ptable_lock s) = Some c" "\<not> eflags_if (c_cli (kcpus s c))"
    "ncli (c_cli (kcpus s c)) = 1" "h c' \<longleftrightarrow> c' = c"
proof -
  show l: "lk_cpu (ptable_lock s) = Some c" using assms by (simp add: cli_ok_def)
  show "locked (ptable_lock s) \<noteq> 0" using assms unfolding cli_ok_def by blast
  show "\<not> eflags_if (c_cli (kcpus s c))" "ncli (c_cli (kcpus s c)) = 1" using assms by (simp_all add: cli_ok_def)
  have "h c' \<Longrightarrow> lk_cpu (ptable_lock s) = Some c'" using assms(1) by (simp add: cli_ok_def)
  then show "h c' \<longleftrightarrow> c' = c" using assms(2) l by auto
qed

lemma unlock_ptable_ok:
  assumes "cli_ok h s" "h c"
  shows "\<exists>s1. unlock_ptable c s = Ok s1 \<and> cli_ok (h(c := False)) s1 \<and> lock_frame s s1"
proof -
  let ?cl = "c_cli (kcpus s c)" and ?lk = "ptable_lock s"
  note held = cli_ok_held [OF assms]
  obtain lk cl where rel: "release c ?lk ?cl = Ok (lk, cl)" "locked lk = 0" "ncli cl = 0"
    using release_ok [of ?lk c ?cl] held by auto
  define s1 where "s1 = upd_cpu c (\<lambda>k. k\<lparr>c_cli := cl\<rparr>) (s\<lparr>ptable_lock := lk\<rparr>)"
  have "ncli (c_cli (kcpus s1 i)) = 0" for i
    using rel held(5) assms(1) by (cases "i = c") (simp_all add: s1_def upd_cpu_def cli_ok_def)
  then have "cli_ok (h(c := False)) s1"
    using rel held(5) by (simp add: cli_ok_def) (simp add: s1_def upd_cpu_def)
  moreover have "unlock_ptable c s = Ok s1" using rel by (simp add: unlock_ptable_def s1_def)
  moreover have "lock_frame s s1" by (simp add: lock_frame_def s1_def upd_cpu_def)
  ultimately show ?thesis by blast
qed

lemma unlock_ptable_D:
  assumes "cli_ok h s" "h c" "unlock_ptable c s = Ok s1"
  shows "cli_ok (h(c := False)) s1 \<and> lock_frame s s1"
  using unlock_ptable_ok [OF assms(1,2)] assms(3) by auto

lemma sched_ok:
  assumes "cli_ok h s" "h c" "p_state (procs s me) \<noteq> RUNNING"
  shows "\<exists>ie s1. sched c me s = Ok (ie, s1) \<and> cli_ok h s1 \<and> lock_frame s s1"
proof -
  let ?cl = "c_cli (kcpus s c)" and ?lk = "ptable_lock s"
  note held = cli_ok_held [OF assms(1,2)]
  then obtain cl where cl: "holding c ?lk ?cl = Ok (True, cl)" "ncli cl = 1" "\<not> eflags_if cl"
    using holding_ok [of ?cl c ?lk] by auto
  then have "sched c me s = Ok (intena cl, upd_cpu c (\<lambda>k. k\<lparr>c_cli := cl\<rparr>) s)"
    using assms(3) by (simp add: sched_def upd_cpu_def)
  moreover have "cli_ok h (upd_cpu c (\<lambda>k. k\<lparr>c_cli := cl\<rparr>) s)"
    using cl assms(1,2) held(5) by (simp add: cli_ok_def upd_cpu_def)
  ultimately show ?thesis by (simp add: lock_frame_def upd_cpu_def)
qed

lemma sched_D:
  assumes "cli_ok h s" "h c" "p_state (procs s me) \<noteq> RUNNING" "sched c me s = Ok (ie, s1)"
  shows "cli_ok h s1 \<and> lock_frame s s1"
  using sched_ok [OF assms(1-3)] assms(4) by auto

section \<open>Running processes\<close>

lemma sched_upd: "(\<lambda>x. is_sched ((ct(c := a)) x)) = (\<lambda>x. is_sched (ct x))(c := is_sched a)"
  by auto

text \<open>Changes that no CPU and no running process notices.\<close>

definition quiet :: "kern \<Rightarrow> kern \<Rightarrow> bool" where
  "quiet s s' \<longleftrightarrow> (\<forall>p. p_state (procs s' p) = RUNNING \<longleftrightarrow> p_state (procs s p) = RUNNING) \<and>
     (\<forall>c. c_proc (kcpus s' c) = c_proc (kcpus s c)) \<and> (spaces_ok s \<longrightarrow> spaces_ok s')"

lemma quiet_refl [simp]: "quiet s s"
  by (simp add: quiet_def)

lemma quiet_trans: "quiet s s' \<Longrightarrow> quiet s' s'' \<Longrightarrow> quiet s s''"
  by (simp add: quiet_def)

lemma lock_frame_quiet: "lock_frame s s' \<Longrightarrow> quiet s s'"
  by (simp add: lock_frame_def quiet_def spaces_ok_def)

lemma quiet_runs: "quiet s s' \<Longrightarrow> runs_ok ct s \<Longrightarrow> runs_ok ct s'"
  by (simp add: quiet_def runs_ok_def)

lemma quiet_spaces: "quiet s s' \<Longrightarrow> spaces_ok s \<Longrightarrow> spaces_ok s'"
  by (simp add: quiet_def)

lemma quiet_upd_proc:
  assumes "p_state (f (procs s p)) = RUNNING \<longleftrightarrow> p_state (procs s p) = RUNNING"
    and "spaces_ok s \<Longrightarrow> live (p_state (f (procs s p))) \<Longrightarrow>
           p_kstack (f (procs s p)) \<noteq> 0 \<and> p_pgdir (f (procs s p)) \<noteq> 0"
  shows "quiet s (upd_proc p f s)"
  using assms by (auto simp: quiet_def upd_proc_def spaces_ok_def)

lemma quiet_wakeup1 [simp]: "quiet s (wakeup1 ch s)"
  by (auto simp: quiet_def wakeup1_def spaces_ok_def live_def)

lemma runs_ok_upd:
  assumes runs: "runs_ok ct s"
    and cp: "\<And>x. c_proc (kcpus s' x) = (if x = c then proc_of a else c_proc (kcpus s x))"
    and old: "\<And>q. ct c = InProc q \<Longrightarrow> a \<noteq> InProc q \<Longrightarrow> p_state (procs s' q) \<noteq> RUNNING"
    and new: "\<And>q. a = InProc q \<Longrightarrow> p_state (procs s' q) = RUNNING \<and> p_state (procs s q) \<noteq> RUNNING"
    and other: "\<And>q. ct c \<noteq> InProc q \<Longrightarrow> a \<noteq> InProc q \<Longrightarrow>
      p_state (procs s' q) = RUNNING \<longleftrightarrow> p_state (procs s q) = RUNNING"
  shows "runs_ok (ct(c := a)) s'"
proof -
  have r: "c_proc (kcpus s x) = proc_of (ct x)" "p_state (procs s q) = RUNNING \<longleftrightarrow> (\<exists>x. ct x = InProc q)"
    "ct x = InProc q \<Longrightarrow> ct y = InProc q \<Longrightarrow> x = y" for x y q
    using runs unfolding runs_ok_def by blast+
  have "p_state (procs s' q) = RUNNING \<longleftrightarrow> (\<exists>x. (ct(c := a)) x = InProc q)" for q
  proof (cases "a = InProc q")
    case True
    then show ?thesis using new by auto
  next
    case False
    show ?thesis
    proof (cases "ct c = InProc q")
      case True
      have "(ct(c := a)) x \<noteq> InProc q" for x using r(3) [of x q c] True False by auto
      then show ?thesis using old [OF True False] by blast
    next
      case nq: False
      then have "(\<exists>x. (ct(c := a)) x = InProc q) \<longleftrightarrow> (\<exists>x. ct x = InProc q)" using False by auto
      then show ?thesis using other [OF nq False] r(2) by simp
    qed
  qed
  moreover have "x = y" if "(ct(c := a)) x = InProc q" "(ct(c := a)) y = InProc q" for x y q
  proof (cases "a = InProc q")
    case True
    then have "ct z \<noteq> InProc q" for z using new r(2) by blast
    then show ?thesis using that by (auto split: if_splits)
  next
    case False
    then have "ct x = InProc q" "ct y = InProc q" using that by (auto split: if_splits)
    then show ?thesis by (rule r(3))
  qed
  moreover have "c_proc (kcpus s' x) = proc_of ((ct(c := a)) x)" for x by (simp add: cp r(1))
  ultimately show ?thesis unfolding runs_ok_def by blast
qed

lemma leave_ok:
  assumes cli: "cli_ok ((\<lambda>x. is_sched (ct x))(c := True)) s0" and runs: "runs_ok ct s0" and sp: "spaces_ok s0"
    and c: "ct c = InProc p"
    and f: "p_state (f (procs s0 p)) \<noteq> RUNNING" "p_kstack (f (procs s0 p)) = p_kstack (procs s0 p)"
      "p_pgdir (f (procs s0 p)) = p_pgdir (procs s0 p)"
    and sched: "sched c p (upd_proc p f s0) = Ok (ie, s)"
  shows "cli_ok (\<lambda>x. is_sched ((ct(c := InSched i)) x)) (scheduler_back c s) \<and>
    runs_ok (ct(c := InSched i)) (scheduler_back c s) \<and> spaces_ok (scheduler_back c s)"
proof -
  have s: "cli_ok ((\<lambda>x. is_sched (ct x))(c := True)) s" and fr: "lock_frame (upd_proc p f s0) s"
    using sched_D [OF _ _ _ sched, of "(\<lambda>x. is_sched (ct x))(c := True)"] cli f(1)
    by (simp_all, simp_all add: upd_proc_def)
  then have ps: "procs s = (procs s0)(p := f (procs s0 p))" "\<And>c. c_proc (kcpus s c) = c_proc (kcpus s0 c)"
    by (simp_all add: lock_frame_def upd_proc_def)
  have run: "p_state (procs s0 p) = RUNNING" using runs c by (auto simp: runs_ok_def)
  have "runs_ok (ct(c := InSched i)) (scheduler_back c s)"
    using c f(1) ps by (intro runs_ok_upd [OF runs]) (auto simp: scheduler_back_def switchkvm_def upd_cpu_def)
  moreover have "spaces_ok (scheduler_back c s)"
    using sp f ps run by (auto simp: spaces_ok_def scheduler_back_def switchkvm_def upd_cpu_def live_def)
  ultimately show ?thesis using s by (simp only: sched_upd sched_defs_simps cli_ok_simps simp_thms)
qed

lemma scheduler_pick_None: "scheduler_pick c i s = Ok (None, s1) \<Longrightarrow> s1 = s"
  by (auto simp: scheduler_pick_def Let_def split: option.splits)

lemma find_SomeD: "List.find P xs = Some x \<Longrightarrow> P x \<and> x \<in> set xs"
  by (auto simp: find_Some_iff)

lemma scheduler_pick_Some:
  assumes "scheduler_pick c i s = Ok (Some j, s1)"
  shows "p_state (procs s j) = RUNNABLE \<and> i \<le> j \<and> j < NPROC \<and>
    procs s1 = (procs s)(j := (procs s j)\<lparr>p_state := RUNNING\<rparr>) \<and> cli_ok h s1 = cli_ok h s \<and>
    (\<forall>x. c_proc (kcpus s1 x) = (if x = c then Some j else c_proc (kcpus s x)))"
proof -
  obtain k where k: "List.find (\<lambda>j. p_state (procs s j) = RUNNABLE) [i..<NPROC] = Some k"
    using assms by (auto simp: scheduler_pick_def split: option.splits)
  note find_SomeD [OF k]
  then show ?thesis
    using assms k by (auto simp: scheduler_pick_def switchuvm_def Let_def upd_proc_def upd_cpu_def
        split: if_splits intro!: cli_ok_cong)
qed

text \<open>The state in which the process picked by the scheduler resumes, still holding the lock.\<close>

lemma pick_ok:
  assumes inv: "sched_inv S" and c: "ctl S c = InSched i"
    and pick: "scheduler_pick c i (kst S) = Ok (Some j, s1)"
  shows "cli_ok ((\<lambda>x. is_sched ((ctl S) x))(c := True)) s1" "runs_ok ((ctl S)(c := InProc j)) s1" "spaces_ok s1"
proof -
  have cli: "cli_ok (\<lambda>c. is_sched (ctl S c)) (kst S)" and runs: "runs_ok (ctl S) (kst S)" and sp: "spaces_ok (kst S)"
    using inv by (simp_all add: sched_inv_def)
  note pk = scheduler_pick_Some [OF pick]
  have "(\<lambda>x. is_sched ((ctl S) x))(c := True) = (\<lambda>x. is_sched (ctl S x))" using c by (simp add: fun_eq_iff)
  then show "cli_ok ((\<lambda>x. is_sched ((ctl S) x))(c := True)) s1" using pk cli by simp
  show "spaces_ok s1" using sp pk by (auto simp: spaces_ok_def live_def)
  show "runs_ok ((ctl S)(c := InProc j)) s1"
    using pk c by (intro runs_ok_upd [OF runs]) auto
qed

section \<open>Preservation\<close>

definition kinv :: "(nat \<Rightarrow> cpuctl) \<Rightarrow> kern \<Rightarrow> bool" where
  "kinv ct s \<longleftrightarrow> cli_ok (\<lambda>c. is_sched (ct c)) s \<and> runs_ok ct s \<and> spaces_ok s"

lemma sched_inv_kinv: "sched_inv S \<longleftrightarrow> kinv (ctl S) (kst S)"
  by (simp add: sched_inv_def kinv_def)

text \<open>The lock is held by CPU \<open>c\<close>, the rest is as in \<open>ct\<close>.\<close>

definition kheld :: "(nat \<Rightarrow> cpuctl) \<Rightarrow> nat \<Rightarrow> kern \<Rightarrow> bool" where
  "kheld ct c s \<longleftrightarrow> cli_ok ((\<lambda>x. is_sched (ct x))(c := True)) s \<and> runs_ok ct s \<and> spaces_ok s"

lemma kheld_quiet:
  assumes "kheld ct c s" "quiet s s'" "\<And>h. cli_ok h s' = cli_ok h s"
  shows "kheld ct c s'"
  using assms by (auto simp: kheld_def intro: quiet_runs quiet_spaces)

lemma kinv_lock:
  assumes "kinv ct s" "\<not> is_sched (ct c)" "lock_ptable c s = Ok s1"
  shows "kheld ct c s1" "lock_frame s s1"
proof -
  have "cli_ok ((\<lambda>x. is_sched (ct x))(c := True)) s1 \<and> lock_frame s s1"
    using lock_ptable_D [of "\<lambda>x. is_sched (ct x)" s c s1] assms unfolding kinv_def by blast
  then show "kheld ct c s1" "lock_frame s s1"
    using assms(1) by (auto simp: kheld_def kinv_def dest!: lock_frame_quiet intro: quiet_runs quiet_spaces)
qed

lemma kheld_unlock:
  assumes "kheld ct c s" "\<not> is_sched (ct c)" "unlock_ptable c s = Ok s1"
  shows "kinv ct s1"
proof -
  let ?h = "\<lambda>x. is_sched (ct x)"
  have "cli_ok ((?h(c := True))(c := False)) s1 \<and> lock_frame s s1"
    using unlock_ptable_D [of "?h(c := True)" s c s1] assms by (simp add: kheld_def)
  moreover have "(?h(c := True))(c := False) = ?h" using assms(2) by (simp add: fun_eq_iff)
  ultimately show ?thesis
    using assms(1) by (auto simp: kheld_def kinv_def dest!: lock_frame_quiet intro: quiet_runs quiet_spaces)
qed

lemma kheld_leave:
  assumes "kheld ct c s0" "ct c = InProc p" "p_state (f (procs s0 p)) \<noteq> RUNNING"
    "p_kstack (f (procs s0 p)) = p_kstack (procs s0 p)" "p_pgdir (f (procs s0 p)) = p_pgdir (procs s0 p)"
    "sched c p (upd_proc p f s0) = Ok (ie, s)"
  shows "kinv (ct(c := InSched i)) (scheduler_back c s)"
  using leave_ok [of ct c s0 p f ie s i] assms by (simp add: kheld_def kinv_def)

lemma kheld_pick:
  assumes "kinv ct s" "ct c = InSched i" "scheduler_pick c i s = Ok (Some j, s1)"
  shows "kheld (ct(c := InProc j)) c s1"
proof -
  define S :: psys where "S = \<lparr>kst = s, ctl = ct, rpt = \<lambda>_. AtYield, saved = \<lambda>_. False\<rparr>"
  have "sched_inv S" using assms(1) by (simp add: sched_inv_kinv S_def)
  moreover have "(\<lambda>x. is_sched ((ct(c := InProc j)) x))(c := True) = (\<lambda>x. is_sched (ct x))(c := True)"
    by (simp add: fun_eq_iff)
  ultimately show ?thesis
    using pick_ok [of S c i j s1] assms by (simp add: S_def kheld_def)
qed

lemma kheld_resume: "kheld ct c s \<Longrightarrow> kheld ct c (sched_resume c ie s)"
proof (erule kheld_quiet)
  show "quiet s (sched_resume c ie s)" by (simp add: quiet_def sched_resume_def upd_cpu_def spaces_ok_def)
qed simp

lemma kheld_sleep_resume: "kheld ct c s \<Longrightarrow> kheld ct c (sleep_resume c p ie s)"
  unfolding sleep_resume_def by (rule kheld_quiet, erule kheld_resume) (auto intro!: quiet_upd_proc simp: spaces_ok_def)

lemma reap_quiet:
  assumes "reap B i s = Ok s'" "p_state (procs s i) = ZOMBIE"
  shows "quiet s s'" "cli_ok h s' = cli_ok h s" "procs s' = (procs s)(i := procs s' i)"
    "p_state (procs s' i) = UNUSED" "p_parent (procs s' i) = None" "nextpid s' = nextpid s" "initproc s' = initproc s"
    "p_pid (procs s' i) = 0"
proof -
  obtain m where "s' = upd_proc i (\<lambda>p. p\<lparr>p_pid := 0, p_parent := None, p_name := (p_name p)[0 := 0],
      p_killed := False, p_state := UNUSED\<rparr>) ((upd_proc i (\<lambda>p. p\<lparr>p_kstack := 0\<rparr>) s)\<lparr>km := m\<rparr>)"
    using assms(1) by (auto simp: reap_def do_km_def upd_proc_def)
  then show "quiet s s'" "cli_ok h s' = cli_ok h s" "procs s' = (procs s)(i := procs s' i)"
    "p_state (procs s' i) = UNUSED" "p_parent (procs s' i) = None" "nextpid s' = nextpid s" "initproc s' = initproc s"
    "p_pid (procs s' i) = 0"
    using assms(2) by (auto simp: quiet_def upd_proc_def spaces_ok_def live_def intro!: cli_ok_cong)
qed

lemma wait_scan_cases:
  assumes "wait_scan B me s = Ok (out, s')"
  obtains (reaped) i where "reap B i s = Ok s'" "p_state (procs s i) = ZOMBIE" "p_parent (procs s i) = Some me"
      "out = Reaped (p_pid (procs s i))"
    | (none) "s' = s" "out = NoChild \<or> out = WaitMore"
proof (cases "List.find (\<lambda>i. p_parent (procs s i) = Some me \<and> p_state (procs s i) = ZOMBIE) [0..<NPROC]")
  case None
  then show ?thesis using assms none by (auto simp: wait_scan_def split: if_splits)
next
  case (Some i)
  then show ?thesis using assms reaped find_SomeD [OF Some] by (auto simp: wait_scan_def)
qed

lemma wait_scan_quiet:
  assumes "wait_scan B me s = Ok (out, s')"
  shows "quiet s s'" "cli_ok h s' = cli_ok h s"
  using assms by (cases rule: wait_scan_cases; auto dest: reap_quiet)+

lemma reparent_quiet: "quiet s (reparent me i s)" "cli_ok h (reparent me i s) = cli_ok h s"
proof -
  have "quiet s (upd_proc i (\<lambda>p. p\<lparr>p_parent := x\<rparr>) s)" for x by (intro quiet_upd_proc) (auto simp: spaces_ok_def)
  then show "quiet s (reparent me i s)" by (auto simp: reparent_def Let_def intro: quiet_trans [OF _ quiet_wakeup1])
  show "cli_ok h (reparent me i s) = cli_ok h s" by (simp add: reparent_def Let_def)
qed

lemma fold_reparent_quiet: "quiet s (fold (reparent me) is s)" "cli_ok h (fold (reparent me) is s) = cli_ok h s"
  by (induction "is" arbitrary: s) (auto simp: reparent_quiet(2) intro: quiet_trans [OF reparent_quiet(1)])

lemma InProc_not_sched: "x = InProc p \<Longrightarrow> \<not> is_sched x"
  by simp

lemma kinv_yield:
  assumes "kinv ct s" "ct c = InProc p" "yield c p s = Ok (ie, s')"
  shows "kinv (ct(c := InSched i)) (scheduler_back c s')"
proof -
  obtain s1 where "lock_ptable c s = Ok s1" and sched: "sched c p (upd_proc p (\<lambda>x. x\<lparr>p_state := RUNNABLE\<rparr>) s1) = Ok (ie, s')"
    using assms(3) by (auto simp: yield_def)
  then have "kheld ct c s1" using kinv_lock(1) [OF assms(1)] assms(2) by simp
  from kheld_leave [OF this assms(2) _ _ _ sched] show ?thesis by simp
qed

lemma kheld_sleep:
  assumes "kheld ct c s" "ct c = InProc p" "sleep_locked c p ch s = Ok (ie, s')"
  shows "kinv (ct(c := InSched i)) (scheduler_back c s')"
  using kheld_leave [OF assms(1,2), of "\<lambda>x. x\<lparr>p_chan := Some ch, p_state := SLEEPING\<rparr>"] assms(3)
  by (simp add: sleep_locked_def)

lemma kheld_wait_loop:
  assumes held: "kheld ct c s" and c: "ct c = InProc p" and w: "wait_loop B c p s = Ok (out, s')"
  shows "case out of Inl r \<Rightarrow> kinv ct s' | Inr ie \<Rightarrow> kinv (ct(c := InSched i)) (scheduler_back c s')"
proof -
  obtain o1 s1 where scan: "wait_scan B p s = Ok (o1, s1)"
    and rest: "(case o1 of
         Reaped pid \<Rightarrow> kbind (unlock_ptable c s1) (\<lambda>s. Ok (Inl pid, s))
       | NoChild \<Rightarrow> kbind (unlock_ptable c s1) (\<lambda>s. Ok (Inl (- 1), s))
       | WaitMore \<Rightarrow> kbind (sleep_locked c p (ChanProc p) s1) (\<lambda>(ie, s). Ok (Inr ie, s))) = Ok (out, s')"
    using w by (auto simp: wait_loop_def)
  have h1: "kheld ct c s1" using kheld_quiet [OF held] wait_scan_quiet [OF scan] by blast
  show ?thesis
    using rest kheld_unlock [OF h1] kheld_sleep [OF h1 c] c by (auto split: wait_out.splits)
qed

lemma kinv_exit:
  assumes "kinv ct s" "ct c = InProc p" "exit_finish c p s = Ok (ie, s')"
  shows "kinv (ct(c := InSched i)) (scheduler_back c s')"
proof -
  obtain s1 where l: "lock_ptable c s = Ok s1"
    and rest: "sched c p (upd_proc p (\<lambda>x. x\<lparr>p_state := ZOMBIE\<rparr>)
      (fold (reparent p) [0..<NPROC] (wakeup1 (map_option ChanProc (p_parent (procs s1 p))) s1))) = Ok (ie, s')"
    using assms(3) unfolding exit_finish_def Let_def kbind_eq_Ok by blast
  define idxs where "idxs = [0..<NPROC]"
  let ?s2 = "fold (reparent p) idxs (wakeup1 (map_option ChanProc (p_parent (procs s1 p))) s1)"
  have "kheld ct c s1" using kinv_lock(1) [OF assms(1) _ l] assms(2) by simp
  then have "kheld ct c ?s2"
    by (rule kheld_quiet) (auto simp: fold_reparent_quiet(2) intro: quiet_trans [OF _ fold_reparent_quiet(1)])
  from kheld_leave [OF this assms(2) _ _ _ rest [folded idxs_def]] show ?thesis by simp
qed

lemma sleep_eq:
  assumes cli: "cli_ok h s" "\<not> h c" and acq: "acquire c [] lk (c_cli (kcpus s c)) = Ok (lk1, cl)"
    and me: "myproc c s = Some p"
  shows "sleep c ch (Some lk1) (upd_cpu c (\<lambda>k. k\<lparr>c_cli := cl\<rparr>) s) = Sleeps \<or>
    (\<exists>s0 lk2. cli_ok (h(c := True)) s0 \<and> lock_frame s s0 \<and>
      sleep c ch (Some lk1) (upd_cpu c (\<lambda>k. k\<lparr>c_cli := cl\<rparr>) s) =
        kbind (sleep_locked c p ch s0) (\<lambda>(ie, s). Ok (ie, lk2, s)))"
proof -
  let ?cl = "c_cli (kcpus s c)" and ?pl = "ptable_lock s"
  have n0: "ncli ?cl = 0" using cli by (simp add: cli_ok_def)
  have nh: "lk_cpu ?pl \<noteq> Some c \<or> locked ?pl = 0" using cli unfolding cli_ok_def by (metis option.inject)
  obtain cl1 where "acquire_enter c lk ?cl = Ok cl1" "lk1 = acquire_record c [] (lk\<lparr>locked := 1\<rparr>)" "cl = cl1"
    using acq by (auto simp: acquire_def xchg_locked_def split: if_splits)
  then have lk1: "locked lk1 \<noteq> 0" "lk_cpu lk1 = Some c" and ae: "acquire_enter c lk ?cl = Ok cl"
    by (simp_all add: acquire_record_def)
  have cl: "ncli cl = 1" "\<not> eflags_if cl"
  proof -
    obtain hd c2 where hc: "holding c lk (pushcli ?cl) = Ok (hd, c2)" "\<not> hd" "cl = c2"
      using ae by (auto simp: acquire_enter_def split: if_splits)
    then show "ncli cl = 1" "\<not> eflags_if cl"
      using holding_ok [of "pushcli ?cl" c lk] n0 by auto
  qed
  obtain cl2 where a2: "acquire_enter c ?pl cl = Ok cl2" "ncli cl2 = 2" "\<not> eflags_if cl2"
    using acquire_enter_ok [of cl ?pl c] cl nh by auto
  obtain lk' cl3 where rel: "release c lk1 cl2 = Ok (lk', cl3)" "ncli cl3 = 1" "\<not> eflags_if cl3"
    using release_ok [of lk1 c cl2] lk1 a2 by auto
  show ?thesis
  proof (cases "locked ?pl = 0")
    case False
    then show ?thesis
      using me a2 by (simp add: sleep_def myproc_def upd_cpu_def lock_ptable_def acquire_def xchg_locked_def)
  next
    case True
    then have free: "\<not> h x" for x using cli by (auto simp: cli_ok_def)
    define s0 where "s0 = upd_cpu c (\<lambda>k. k\<lparr>c_cli := cl3\<rparr>) (s\<lparr>ptable_lock := acquire_record c [] (?pl\<lparr>locked := 1\<rparr>)\<rparr>)"
    have "sleep c ch (Some lk1) (upd_cpu c (\<lambda>k. k\<lparr>c_cli := cl\<rparr>) s) =
        kbind (sleep_locked c p ch s0) (\<lambda>(ie, s). Ok (ie, lk', s))"
      using me a2 True rel
      by (simp add: sleep_def myproc_def upd_cpu_def lock_ptable_def acquire_def xchg_locked_def s0_def)
    moreover have "cli_ok (h(c := True)) s0"
      using rel free cli by (auto simp: cli_ok_def s0_def upd_cpu_def acquire_record_def)
    moreover have "lock_frame s s0" by (simp add: lock_frame_def s0_def upd_cpu_def)
    ultimately show ?thesis by blast
  qed
qed

lemma kinv_sleep:
  assumes inv: "kinv ct s" and c: "ct c = InProc p" and acq: "acquire c [] lk (c_cli (kcpus s c)) = Ok (lk1, cl)"
    and sl: "sleep c ch (Some lk1) (upd_cpu c (\<lambda>k. k\<lparr>c_cli := cl\<rparr>) s) = Ok (ie, lk2, s')"
  shows "kinv (ct(c := InSched i)) (scheduler_back c s')"
proof -
  have "cli_ok (\<lambda>x. is_sched (ct x)) s" "myproc c s = Some p"
    using inv c by (simp_all add: kinv_def runs_ok_def myproc_def)
  then obtain s0 where s0: "cli_ok ((\<lambda>x. is_sched (ct x))(c := True)) s0" "lock_frame s s0"
      and sl0: "sleep_locked c p ch s0 = Ok (ie, s')"
    using sleep_eq [OF _ _ acq, of "\<lambda>x. is_sched (ct x)" p ch] c unfolding sl by (force dest: sym)
  have "kheld ct c s0"
    using s0 inv by (auto simp: kheld_def kinv_def dest!: lock_frame_quiet intro: quiet_runs quiet_spaces)
  from kheld_sleep [OF this c sl0] show ?thesis .
qed

lemma kinv_section:
  assumes inv: "kinv ct s" and c: "\<not> is_sched (ct c)" and l: "lock_ptable c s = Ok s1"
    and q: "quiet s1 s2" "\<And>h. cli_ok h s2 = cli_ok h s1" and u: "unlock_ptable c s2 = Ok s3"
  shows "kinv ct s3"
  using kheld_unlock [OF kheld_quiet [OF kinv_lock(1) [OF inv c l] q] c u] .

lemma kinv_quiet:
  assumes "kinv ct s" "quiet s s'" "\<And>h. cli_ok h s' = cli_ok h s"
  shows "kinv ct s'"
  using assms by (auto simp: kinv_def intro: quiet_runs quiet_spaces)

lemma kinv_wakeup:
  assumes "kinv ct s" "\<not> is_sched (ct c)" "wakeup c ch s = Ok s'"
  shows "kinv ct s'"
proof -
  obtain s1 where l: "lock_ptable c s = Ok s1" and u: "unlock_ptable c (wakeup1 ch s1) = Ok s'"
    using assms(3) by (auto simp: wakeup_def)
  then show ?thesis using kinv_section [OF assms(1,2) l _ _ u] by simp
qed

definition kill_mark :: "nat \<Rightarrow> kern \<Rightarrow> kern" where
  "kill_mark i s =
     (let s = upd_proc i (\<lambda>p. p\<lparr>p_killed := True\<rparr>) s in
      if p_state (procs s i) = SLEEPING then upd_proc i (\<lambda>p. p\<lparr>p_state := RUNNABLE\<rparr>) s else s)"

lemma kill_mark_quiet: "quiet s (kill_mark i s)" "cli_ok h (kill_mark i s) = cli_ok h s"
  by (auto simp: kill_mark_def Let_def quiet_def upd_proc_def spaces_ok_def live_def intro!: cli_ok_cong)

lemma kill_cases:
  assumes "kill c pid s = Ok (r, s')"
  obtains s1 s2 where "lock_ptable c s = Ok s1" "unlock_ptable c s2 = Ok s'" "s2 = s1 \<or> (\<exists>i. s2 = kill_mark i s1)"
proof -
  obtain s1 where l: "lock_ptable c s = Ok s1" using assms unfolding kill_def kbind_eq_Ok by blast
  show ?thesis
  proof (cases "List.find (\<lambda>i. p_pid (procs s1 i) = pid) [0..<NPROC]")
    case None
    then show ?thesis using assms l that by (auto simp: kill_def)
  next
    case (Some i)
    then have "unlock_ptable c (kill_mark i s1) = Ok s'" using assms l by (auto simp: kill_def kill_mark_def Let_def)
    then show ?thesis using l that by blast
  qed
qed

lemma kinv_kill:
  assumes "kinv ct s" "\<not> is_sched (ct c)" "kill c pid s = Ok (r, s')"
  shows "kinv ct s'"
  using assms(3)
proof (cases rule: kill_cases)
  case (1 s1 s2)
  then have "quiet s1 s2" "cli_ok h s2 = cli_ok h s1" for h by (auto simp: kill_mark_quiet)
  then show ?thesis using kinv_section [OF assms(1,2) 1(1) _ _ 1(2)] by blast
qed

text \<open>\<open>allocproc\<close> between the two sections of code with and without the lock.\<close>

definition claim_slot :: "nat \<Rightarrow> kern \<Rightarrow> kern" where
  "claim_slot i s = (upd_proc i (\<lambda>p. p\<lparr>p_state := EMBRYO, p_pid := nextpid s\<rparr>) s)\<lparr>nextpid := nextpid s + 1\<rparr>"

lemma allocproc_cases:
  assumes "allocproc B c s = Ok (r, s')"
  obtains (full) s1 where "lock_ptable c s = Ok s1" "unlock_ptable c s1 = Ok s'" "r = None"
    | (claimed) s1 s2 i f m where "lock_ptable c s = Ok s1" "p_state (procs s1 i) = UNUSED" "i < NPROC"
      "unlock_ptable c (claim_slot i s1) = Ok s2" "s' = upd_proc i f (s2\<lparr>km := m\<rparr>)"
      "(r = None \<and> f = (\<lambda>p. p\<lparr>p_kstack := 0, p_state := UNUSED\<rparr>)) \<or>
       (\<exists>v x. v \<noteq> 0 \<and> r = Some i \<and> f = (\<lambda>p. p\<lparr>p_kstack := v, p_context := x\<rparr>))"
proof -
  obtain s1 where l: "lock_ptable c s = Ok s1" using assms unfolding allocproc_def kbind_eq_Ok by blast
  show ?thesis
  proof (cases "List.find (\<lambda>i. p_state (procs s1 i) = UNUSED) [0..<NPROC]")
    case None
    then show ?thesis using assms l full by (auto simp: allocproc_def)
  next
    case (Some i)
    obtain s2 where s2: "unlock_ptable c (claim_slot i s1) = Ok s2"
      using assms l Some by (auto simp: allocproc_def claim_slot_def Let_def upd_proc_def split: if_splits)
    obtain v m where vm: "kalloc (km s2) = (v, m)" by fastforce
    have "s' = upd_proc i (if v = 0 then (\<lambda>p. p\<lparr>p_kstack := 0, p_state := UNUSED\<rparr>)
        else (\<lambda>p. p\<lparr>p_kstack := v, p_context := zero_context\<lparr>ctx_eip := b_forkret B\<rparr>\<rparr>)) (s2\<lparr>km := m\<rparr>)"
      "r = (if v = 0 then None else Some i)"
      using assms l Some s2 vm
      by (auto simp: allocproc_def claim_slot_def Let_def upd_proc_def k_alloc_def split: if_splits)
    then show ?thesis using claimed [OF l _ _ s2] find_SomeD [OF Some] by (cases "v = 0") auto
  qed
qed

lemma claim_slot_quiet:
  "p_state (procs s i) = UNUSED \<Longrightarrow> quiet s (claim_slot i s)" "cli_ok h (claim_slot i s) = cli_ok h s"
  by (auto simp: claim_slot_def quiet_def upd_proc_def spaces_ok_def live_def intro!: cli_ok_cong)

lemma unlock_frame: "kheld ct c s \<Longrightarrow> unlock_ptable c s = Ok s1 \<Longrightarrow> lock_frame s s1"
  using unlock_ptable_D [of "(\<lambda>x. is_sched (ct x))(c := True)" s c s1] by (simp add: kheld_def)

lemma kinv_alloc:
  assumes inv: "kinv ct s" and c: "\<not> is_sched (ct c)" and a: "allocproc B c s = Ok (r, s')"
  shows "kinv ct s'"
  using a
proof (cases rule: allocproc_cases)
  case (full s1)
  then show ?thesis using kinv_section [OF inv c full(1) _ _ full(2)] by simp
next
  case (claimed s1 s2 i f m)
  have held: "kheld ct c (claim_slot i s1)"
    using kheld_quiet [OF kinv_lock(1) [OF inv c claimed(1)] claim_slot_quiet(1) [OF claimed(2)]]
    by (simp add: claim_slot_quiet(2))
  then have "kinv ct s2" by (rule kheld_unlock) (use c claimed in auto)
  moreover have "p_state (procs s2 i) = EMBRYO"
    using unlock_frame [OF held claimed(4)] by (simp add: lock_frame_def claim_slot_def upd_proc_def)
  then have "quiet s2 s'"
    using claimed(5,6) by (auto simp: quiet_def upd_proc_def spaces_ok_def live_def)
  moreover have "cli_ok h s' = cli_ok h s2" for h using claimed(5) by simp
  ultimately show ?thesis by (rule kinv_quiet)
qed

lemma kinv_ready:
  assumes inv: "kinv ct s" and c: "\<not> is_sched (ct c)" and np: "p_state (procs s np) = EMBRYO" "p_kstack (procs s np) \<noteq> 0" "d \<noteq> 0"
    and r: "fork_ready c p np d s = Ok s'"
  shows "kinv ct s'"
proof -
  let ?s0 = "upd_proc np (\<lambda>x. x\<lparr>p_pgdir := d, p_parent := Some p\<rparr>) s"
  have "quiet s ?s0" using np by (intro quiet_upd_proc) (simp_all add: live_def)
  then have inv0: "kinv ct ?s0" using kinv_quiet [OF inv] by simp
  obtain s1 where s1: "lock_ptable c ?s0 = Ok s1"
      and u: "unlock_ptable c (upd_proc np (\<lambda>x. x\<lparr>p_state := RUNNABLE\<rparr>) s1) = Ok s'"
    using r by (auto simp: fork_ready_def)
  have "procs s1 = procs ?s0" using kinv_lock(2) [OF inv0 c s1] by (simp add: lock_frame_def)
  then have "quiet s1 (upd_proc np (\<lambda>x. x\<lparr>p_state := RUNNABLE\<rparr>) s1)"
    using np by (intro quiet_upd_proc) (simp_all add: upd_proc_def)
  then show ?thesis using kinv_section [OF inv0 c s1 _ _ u] by simp
qed

lemma runs_ok_noproc:
  assumes "runs_ok ct s" "proc_of (ct c) = None" "proc_of a = None"
  shows "runs_ok (ct(c := a)) s"
proof (rule runs_ok_upd [OF assms(1)])
  show "c_proc (kcpus s x) = (if x = c then proc_of a else c_proc (kcpus s x))" for x
    using assms by (simp add: runs_ok_def)
qed (use assms in auto)

lemma kinv_begin:
  assumes inv: "kinv ct s" and c: "ct c = Idle" and b: "scheduler_begin c s = Ok s'"
  shows "kinv (ct(c := InSched i)) s'"
proof -
  let ?s0 = "upd_cpu c (\<lambda>k. k\<lparr>c_cli := (c_cli k)\<lparr>eflags_if := True\<rparr>\<rparr>) s"
  have "cli_ok (\<lambda>x. is_sched (ct x)) ?s0"
    using inv c by (simp add: kinv_def cli_ok_def upd_cpu_def)
  moreover have "quiet s ?s0" by (simp add: quiet_def upd_cpu_def spaces_ok_def)
  ultimately have "kinv ct ?s0" using inv by (auto simp: kinv_def intro: quiet_runs quiet_spaces)
  from kinv_lock(1) [OF this _ b [unfolded scheduler_begin_def]] have held: "kheld ct c s'" using c by simp
  then have "runs_ok (ct(c := InSched i)) s'" using c by (simp add: kheld_def runs_ok_noproc)
  then show ?thesis
    using held by (simp only: kinv_def kheld_def sched_upd sched_defs_simps simp_thms)
qed

lemma kinv_none:
  assumes inv: "kinv ct s" and c: "ct c = InSched i" and u: "unlock_ptable c s = Ok s'"
  shows "kinv (ct(c := Idle)) s'"
proof -
  have "(\<lambda>x. is_sched ((ct(c := Idle)) x))(c := True) = (\<lambda>x. is_sched (ct x))"
    using c by (simp add: fun_eq_iff)
  then have "kheld (ct(c := Idle)) c s"
    using inv c by (simp add: kheld_def kinv_def runs_ok_noproc)
  then show ?thesis by (rule kheld_unlock) (use u in simp_all)
qed

lemma kheld_resumed:
  "kheld (ct(c := InProc j)) c s \<Longrightarrow> unlock_ptable c s = Ok s' \<Longrightarrow> kinv (ct(c := InProc j)) s'"
  by (erule kheld_unlock) simp_all

lemma psys_ops:
  "kst (enter c a s S) = s" "ctl (enter c a s S) = (ctl S)(c := a)"
  "kst (leave c p r ie s S) = scheduler_back c s" "ctl (leave c p r ie s S) = (ctl S)(c := InSched (Suc p))"
  "kst (stay s S) = s" "ctl (stay s S) = ctl S" "kst (S\<lparr>rpt := x\<rparr>) = kst S" "ctl (S\<lparr>rpt := x\<rparr>) = ctl S"
  by (simp_all add: enter_def leave_def stay_def)

lemma sched_step_inv:
  assumes "sched_step B S T" "sched_inv S"
  shows "sched_inv T"
  using assms
proof (induction rule: sched_step.induct)
  case (sched_begin S c s)
  then show ?case unfolding sched_inv_kinv psys_ops by (intro kinv_begin)
next
  case (sched_none S c i s1 s)
  then show ?case
    using scheduler_pick_None [OF sched_none(2)] unfolding sched_inv_kinv psys_ops by (intro kinv_none) simp_all
next
  case (resume_yield S c i j s1 s)
  then have "kheld ((ctl S)(c := InProc j)) c (sched_resume c (saved S j) s1)"
    unfolding sched_inv_kinv by (intro kheld_resume kheld_pick)
  then show ?case
    using resume_yield(4) unfolding sched_inv_kinv psys_ops yield_resume_def by (rule kheld_resumed)
next
  case (resume_forkret S c i j s1 s)
  then have "kheld ((ctl S)(c := InProc j)) c s1" unfolding sched_inv_kinv by (intro kheld_pick)
  then show ?case
    using resume_forkret(4) unfolding sched_inv_kinv psys_ops by (rule kheld_resumed)
next
  case (resume_sleep S c i j s1 s)
  then have "kheld ((ctl S)(c := InProc j)) c (sleep_resume c j (saved S j) s1)"
    unfolding sched_inv_kinv by (intro kheld_sleep_resume kheld_pick)
  then show ?case
    using resume_sleep(4) unfolding sched_inv_kinv psys_ops by (rule kheld_resumed)
next
  case (resume_wait S c i j s1 r s)
  then have "kheld ((ctl S)(c := InProc j)) c (sleep_resume c j (saved S j) s1)"
    unfolding sched_inv_kinv by (intro kheld_sleep_resume kheld_pick)
  from kheld_wait_loop [OF this _ resume_wait(4)] show ?case unfolding sched_inv_kinv psys_ops by simp
next
  case (rewait S c i j s1 ie s)
  then have "kheld ((ctl S)(c := InProc j)) c (sleep_resume c j (saved S j) s1)"
    unfolding sched_inv_kinv by (intro kheld_sleep_resume kheld_pick)
  from kheld_wait_loop [OF this fun_upd_same rewait(4), of "Suc j"]
  show ?case unfolding sched_inv_kinv psys_ops by (simp del: fun_upd_apply)
next
  case (yields S c p ie s)
  then show ?case unfolding sched_inv_kinv psys_ops by (intro kinv_yield)
next
  case (sleeps S c p lk lk1 cl ch ie lk2 s)
  then show ?case unfolding sched_inv_kinv psys_ops by (intro kinv_sleep)
next
  case (waits S c p ie s)
  then obtain s1 where l: "lock_ptable c (kst S) = Ok s1" and w: "wait_loop B c p s1 = Ok (Inr ie, s)"
    by (auto simp: wait_def)
  have "kheld (ctl S) c s1" using kinv_lock(1) [OF _ _ l] waits by (simp add: sched_inv_kinv)
  from kheld_wait_loop [OF this waits(1) w, of "Suc p"] show ?case
    unfolding sched_inv_kinv psys_ops by (simp del: fun_upd_apply)
next
  case (wait_returns S c p r s)
  then obtain s1 where l: "lock_ptable c (kst S) = Ok s1" and w: "wait_loop B c p s1 = Ok (Inl r, s)"
    by (auto simp: wait_def)
  have "kheld (ctl S) c s1" using kinv_lock(1) [OF _ _ l] wait_returns by (simp add: sched_inv_kinv)
  from kheld_wait_loop [OF this wait_returns(1) w] show ?case unfolding sched_inv_kinv psys_ops by simp
next
  case (exits S c p ie s)
  then show ?case unfolding sched_inv_kinv psys_ops by (intro kinv_exit)
next
  case (wakes S c ch s)
  then have "\<not> is_sched (ctl S c)" by (auto simp: is_sched_def split: cpuctl.split)
  from kinv_wakeup [OF wakes(3) [unfolded sched_inv_kinv] this wakes(2)]
  show ?case unfolding sched_inv_kinv psys_ops .
next
  case (kills S c p pid r s)
  from kinv_kill [OF kills(3) [unfolded sched_inv_kinv] InProc_not_sched [OF kills(1)] kills(2)]
  show ?case unfolding sched_inv_kinv psys_ops .
next
  case (allocates S c p np s)
  from kinv_alloc [OF allocates(3) [unfolded sched_inv_kinv] InProc_not_sched [OF allocates(1)] allocates(2)]
  show ?case unfolding sched_inv_kinv psys_ops .
next
  case (allocates_none S c p s)
  from kinv_alloc [OF allocates_none(3) [unfolded sched_inv_kinv] InProc_not_sched [OF allocates_none(1)] allocates_none(2)]
  show ?case unfolding sched_inv_kinv psys_ops .
next
  case (readies S c p np d s)
  from kinv_ready [OF readies(7) [unfolded sched_inv_kinv] InProc_not_sched [OF readies(1)] readies(3-6)]
  show ?case unfolding sched_inv_kinv psys_ops .
next
  case (abandons S c p np)
  then have "quiet (kst S) (upd_proc np (\<lambda>x. x\<lparr>p_kstack := 0, p_state := UNUSED\<rparr>) (kst S))"
    by (intro quiet_upd_proc) (simp_all add: live_def)
  with abandons(3) show ?case unfolding sched_inv_kinv psys_ops by (rule kinv_quiet) simp
qed

lemma sched_run_inv: "(sched_step B)\<^sup>*\<^sup>* S T \<Longrightarrow> sched_inv S \<Longrightarrow> sched_inv T"
  by (induction rule: rtranclp_induct) (auto intro: sched_step_inv)

lemma sched_start_inv: "sched_start S \<Longrightarrow> sched_inv S"
  by (auto simp: sched_start_def sched_inv_def cli_ok_def runs_ok_def)

section \<open>Process identifiers and parents\<close>

text \<open>The process tree: pids are used once, and the parent of a process is a process that can still
  wait for it.\<close>

definition pids_ok :: "kern \<Rightarrow> bool" where
  "pids_ok s \<longleftrightarrow> (\<forall>p. p_pid (procs s p) < nextpid s) \<and> 0 < nextpid s \<and>
     (\<forall>p. p_state (procs s p) \<noteq> UNUSED \<longrightarrow> 0 < p_pid (procs s p)) \<and>
     (\<forall>p q. p_state (procs s p) \<noteq> UNUSED \<longrightarrow> p_state (procs s q) \<noteq> UNUSED \<longrightarrow>
        p_pid (procs s p) = p_pid (procs s q) \<longrightarrow> p = q)"

definition alive :: "procstate \<Rightarrow> bool" where
  "alive st \<longleftrightarrow> st \<in> {SLEEPING, RUNNABLE, RUNNING}"

definition parents_ok :: "kern \<Rightarrow> bool" where
  "parents_ok s \<longleftrightarrow> (\<exists>i. initproc s = Some i \<and> alive (p_state (procs s i))) \<and>
     (\<forall>p q. p < NPROC \<longrightarrow> live (p_state (procs s p)) \<longrightarrow> p_parent (procs s p) = Some q \<longrightarrow>
        alive (p_state (procs s q)))"

definition tree_ok :: "kern \<Rightarrow> bool" where
  "tree_ok s \<longleftrightarrow> pids_ok s \<and> parents_ok s"

text \<open>Changes that only move processes between sleeping, runnable and running.\<close>

definition tame :: "kern \<Rightarrow> kern \<Rightarrow> bool" where
  "tame s s' \<longleftrightarrow> nextpid s' = nextpid s \<and> initproc s' = initproc s \<and>
     (\<forall>p. p_pid (procs s' p) = p_pid (procs s p) \<and> p_parent (procs s' p) = p_parent (procs s p) \<and>
        alive (p_state (procs s' p)) = alive (p_state (procs s p)) \<and>
        live (p_state (procs s' p)) = live (p_state (procs s p)) \<and>
        (p_state (procs s' p) = UNUSED \<longleftrightarrow> p_state (procs s p) = UNUSED))"

lemma tame_refl [simp]: "tame s s"
  by (simp add: tame_def)

lemma tame_trans: "tame s s' \<Longrightarrow> tame s' s'' \<Longrightarrow> tame s s''"
  by (simp add: tame_def)

lemma tame_tree: "tame s s' \<Longrightarrow> tree_ok s \<Longrightarrow> tree_ok s'"
  by (simp add: tree_ok_def pids_ok_def parents_ok_def tame_def)

lemma alive_live: "alive st \<Longrightarrow> live st" "alive st \<Longrightarrow> st \<noteq> UNUSED" "\<not> alive ZOMBIE" "\<not> alive UNUSED" "\<not> alive EMBRYO"
  "alive RUNNING" "alive RUNNABLE" "alive SLEEPING" "live ZOMBIE" "\<not> live UNUSED" "\<not> live EMBRYO"
  by (auto simp: alive_def live_def)

lemma lock_frame_tame: "lock_frame s s' \<Longrightarrow> tame s s'"
  by (simp add: lock_frame_def tame_def)

lemma tame_procs: "procs s' = procs s \<Longrightarrow> nextpid s' = nextpid s \<Longrightarrow> initproc s' = initproc s \<Longrightarrow> tame s s'"
  by (simp add: tame_def)

lemma tame_back: "tame s (scheduler_back c s)" "tame s (sched_resume c ie s)"
  by (simp_all add: tame_def scheduler_back_def switchkvm_def sched_resume_def upd_cpu_def)

lemma tame_wakeup1: "tame s (wakeup1 ch s)"
  by (simp add: tame_def wakeup1_def alive_def live_def)

lemma tame_upd:
  assumes "\<And>x. p_pid (f x) = p_pid x \<and> p_parent (f x) = p_parent x"
    and "p_state (f (procs s p)) = p_state (procs s p) \<or> alive (p_state (procs s p)) \<and> alive (p_state (f (procs s p)))"
  shows "tame s (upd_proc p f s)"
  using assms by (auto simp: tame_def upd_proc_def alive_live)

lemma tame_sleep_resume: "tame s (sleep_resume c p ie s)"
  unfolding sleep_resume_def by (rule tame_trans [OF tame_back(2)], rule tame_upd) simp_all

lemma tame_pick: "scheduler_pick c i s = Ok (r, s1) \<Longrightarrow> tame s s1"
proof (cases r)
  case None
  then show "scheduler_pick c i s = Ok (r, s1) \<Longrightarrow> tame s s1" using scheduler_pick_None by force
next
  case (Some j)
  assume a: "scheduler_pick c i s = Ok (r, s1)"
  have "nextpid s1 = nextpid s" "initproc s1 = initproc s"
    using a by (auto simp: scheduler_pick_def switchuvm_def Let_def upd_proc_def upd_cpu_def split: option.splits if_splits)
  then show "tame s s1"
    using scheduler_pick_Some [of c i s j s1] a Some by (simp add: tame_def alive_live)
qed

lemma tame_sched: "sched c p s = Ok (ie, s1) \<Longrightarrow> tame s s1"
  by (auto simp: sched_def Let_def tame_def upd_cpu_def split: if_splits)

lemma tame_lock: "lock_ptable c s = Ok s1 \<Longrightarrow> tame s s1" "unlock_ptable c s = Ok s1 \<Longrightarrow> tame s s1"
  by (auto simp: lock_ptable_def unlock_ptable_def tame_def upd_cpu_def)

lemma tree_reap:
  assumes t: "tree_ok s" and r: "reap B i s = Ok s'" and z: "p_state (procs s i) = ZOMBIE"
  shows "tree_ok s'"
proof -
  note q = reap_quiet [OF r z]
  have ps: "procs s' p = (if p = i then procs s' i else procs s p)" for p using q(3) by (metis fun_upd_apply)
  have "pids_ok s'"
    using t q(4,6,8) ps unfolding tree_ok_def pids_ok_def by (metis (no_types, lifting))
  moreover have "parents_ok s'"
    using t q(4,5,7) z ps unfolding tree_ok_def parents_ok_def by (metis alive_live(3,10) option.distinct(1))
  ultimately show ?thesis by (simp add: tree_ok_def)
qed

lemma tree_wait_loop:
  assumes t: "tree_ok s" and w: "wait_loop B c p s = Ok (out, s')" and p: "alive (p_state (procs s p))" "p_state (procs s p) \<noteq> ZOMBIE"
  shows "tree_ok s'"
proof -
  obtain o1 s1 where scan: "wait_scan B p s = Ok (o1, s1)"
    and rest: "(case o1 of
         Reaped pid \<Rightarrow> kbind (unlock_ptable c s1) (\<lambda>s. Ok (Inl pid, s))
       | NoChild \<Rightarrow> kbind (unlock_ptable c s1) (\<lambda>s. Ok (Inl (- 1), s))
       | WaitMore \<Rightarrow> kbind (sleep_locked c p (ChanProc p) s1) (\<lambda>(ie, s). Ok (Inr ie, s))) = Ok (out, s')"
    using w by (auto simp: wait_loop_def)
  have t1: "tree_ok s1" using scan by (cases rule: wait_scan_cases) (use t tree_reap [OF t] in auto)
  have "tame s1 s'" if "o1 \<noteq> WaitMore" using rest that by (auto simp: tame_lock(2) split: wait_out.splits)
  moreover have "tame s1 s'" if wm: "o1 = WaitMore"
  proof -
    have "s1 = s" using scan wm by (cases rule: wait_scan_cases) auto
    obtain ie where sl: "sleep_locked c p (ChanProc p) s1 = Ok (ie, s')"
      using rest wm by auto
    have "tame s (upd_proc p (\<lambda>x. x\<lparr>p_chan := Some (ChanProc p), p_state := SLEEPING\<rparr>) s)"
      using p by (intro tame_upd) (simp_all add: alive_live)
    from tame_trans [OF this tame_sched] sl show ?thesis unfolding \<open>s1 = s\<close> sleep_locked_def by blast
  qed
  ultimately show ?thesis using tame_tree t1 by blast
qed

lemma fold_reparent_tree:
  assumes "initproc s \<noteq> Some me"
  shows "let s' = fold (reparent me) xs s in
    (\<forall>i. p_parent (procs s' i) = (if i \<in> set xs \<and> p_parent (procs s i) = Some me then initproc s else p_parent (procs s i)) \<and>
       p_pid (procs s' i) = p_pid (procs s i) \<and> alive (p_state (procs s' i)) = alive (p_state (procs s i)) \<and>
       live (p_state (procs s' i)) = live (p_state (procs s i)) \<and>
       (p_state (procs s' i) = UNUSED \<longleftrightarrow> p_state (procs s i) = UNUSED)) \<and>
    nextpid s' = nextpid s \<and> initproc s' = initproc s"
  using assms
proof (induction xs arbitrary: s)
  case Nil
  then show ?case by simp
next
  case (Cons x xs)
  have r: "p_parent (procs (reparent me x s) i) =
        (if i = x \<and> p_parent (procs s i) = Some me then initproc s else p_parent (procs s i)) \<and>
       p_pid (procs (reparent me x s) i) = p_pid (procs s i) \<and>
       alive (p_state (procs (reparent me x s) i)) = alive (p_state (procs s i)) \<and>
       live (p_state (procs (reparent me x s) i)) = live (p_state (procs s i)) \<and>
       (p_state (procs (reparent me x s) i) = UNUSED \<longleftrightarrow> p_state (procs s i) = UNUSED)" for i
    by (auto simp: reparent_def Let_def upd_proc_def wakeup1_def alive_live)
  moreover have i: "nextpid (reparent me x s) = nextpid s" "initproc (reparent me x s) = initproc s"
    by (auto simp: reparent_def Let_def upd_proc_def wakeup1_def)
  ultimately show ?case
    using Cons.IH [of "reparent me x s"] Cons.prems by (auto simp: Let_def)
qed

lemma tree_exit:
  assumes t: "tree_ok s" and p: "alive (p_state (procs s p))" and i: "initproc s \<noteq> Some p"
    and e: "exit_finish c p s = Ok (ie, s')"
  shows "tree_ok s'"
proof -
  obtain s1 where l: "lock_ptable c s = Ok s1"
    and rest: "sched c p (upd_proc p (\<lambda>x. x\<lparr>p_state := ZOMBIE\<rparr>)
      (fold (reparent p) [0..<NPROC] (wakeup1 (map_option ChanProc (p_parent (procs s1 p))) s1))) = Ok (ie, s')"
    using e unfolding exit_finish_def kbind_eq_Ok Let_def by blast
  define s2 where "s2 = wakeup1 (map_option ChanProc (p_parent (procs s1 p))) s1"
  have tm: "tame s s2" unfolding s2_def using tame_trans [OF tame_lock(1) [OF l] tame_wakeup1] .
  have t2: "tree_ok s2" using tame_tree [OF tm t] .
  have p2: "alive (p_state (procs s2 p))" "initproc s2 \<noteq> Some p" using tm p i by (auto simp: tame_def)
  define s3 where "s3 = fold (reparent p) [0..<NPROC] s2"
  note f = fold_reparent_tree [OF p2(2), of "[0..<NPROC]", unfolded Let_def, folded s3_def]
  define s4 where "s4 = upd_proc p (\<lambda>x. x\<lparr>p_state := ZOMBIE\<rparr>) s3"
  have f4: "p_parent (procs s4 q) = (if q < NPROC \<and> p_parent (procs s2 q) = Some p then initproc s2 else p_parent (procs s2 q))"
    "p_pid (procs s4 q) = p_pid (procs s2 q)"
    "q \<noteq> p \<Longrightarrow> alive (p_state (procs s4 q)) = alive (p_state (procs s2 q))"
    "live (p_state (procs s4 q)) = live (p_state (procs s2 q))"
    "p_state (procs s4 q) = UNUSED \<longleftrightarrow> p_state (procs s2 q) = UNUSED"
    "nextpid s4 = nextpid s2" "initproc s4 = initproc s2" for q
    using f p2 by (auto simp: s4_def upd_proc_def alive_live)
  have "pids_ok s4" using t2 f4 by (simp add: tree_ok_def pids_ok_def)
  moreover have "parents_ok s4"
    using t2 p2 f4 unfolding tree_ok_def parents_ok_def by (metis (no_types, lifting) option.inject)
  ultimately have "tree_ok s4" by (simp add: tree_ok_def)
  then show ?thesis using tame_tree [OF tame_sched [OF rest]] by (simp add: s4_def s3_def s2_def)
qed

text \<open>An update of one process that has a pid of its own before and after.\<close>

lemma pids_upd:
  assumes s: "pids_ok s" and i: "p_state (procs s i) \<noteq> UNUSED" and f: "p_pid (f (procs s i)) = p_pid (procs s i)"
  shows "pids_ok (upd_proc i f s)"
proof -
  have "p_pid (procs (upd_proc i f s) p) = p_pid (procs s p)" for p using f by (simp add: upd_proc_def)
  moreover have "p_state (procs (upd_proc i f s) p) \<noteq> UNUSED \<Longrightarrow> p_state (procs s p) \<noteq> UNUSED" for p
    using i by (auto simp: upd_proc_def split: if_splits)
  moreover have "nextpid (upd_proc i f s) = nextpid s" by (simp add: upd_proc_def)
  ultimately show ?thesis using s unfolding pids_ok_def by metis
qed

lemma parents_upd:
  assumes s: "parents_ok s" and i: "\<not> alive (p_state (procs s i))"
    and f: "\<And>q. i < NPROC \<Longrightarrow> live (p_state (f (procs s i))) \<Longrightarrow> p_parent (f (procs s i)) = Some q \<Longrightarrow> alive (p_state (procs s q))"
  shows "parents_ok (upd_proc i f s)"
proof -
  have keep: "alive (p_state (procs s q)) \<Longrightarrow> alive (p_state (procs (upd_proc i f s) q))" for q
    using i by (auto simp: upd_proc_def)
  have "alive (p_state (procs (upd_proc i f s) q))"
    if "p < NPROC" "live (p_state (procs (upd_proc i f s) p))" "p_parent (procs (upd_proc i f s) p) = Some q" for p q
  proof (rule keep, cases "p = i")
    case True
    then show "alive (p_state (procs s q))" using that f by (simp add: upd_proc_def)
  next
    case False
    then show "alive (p_state (procs s q))" using that s unfolding parents_ok_def by (simp add: upd_proc_def)
  qed
  moreover obtain n where "initproc s = Some n" "alive (p_state (procs s n))" using s by (auto simp: parents_ok_def)
  ultimately show ?thesis using keep unfolding parents_ok_def by (simp add: upd_proc_def)
qed

lemma tree_upd_embryo:
  assumes "tree_ok s" "p_state (procs s i) = EMBRYO" "p_pid (f (procs s i)) = p_pid (procs s i)"
    and "p_state (f (procs s i)) \<in> {EMBRYO, UNUSED} \<or>
         (\<exists>q. p_parent (f (procs s i)) = Some q \<and> alive (p_state (procs s q)))"
  shows "tree_ok (upd_proc i f s)"
  using assms by (auto simp: tree_ok_def alive_live intro!: pids_upd parents_upd)

lemma tree_claim:
  assumes t: "tree_ok s" and u: "p_state (procs s i) = UNUSED"
  shows "tree_ok (claim_slot i s)"
proof -
  let ?f = "\<lambda>p. p\<lparr>p_state := EMBRYO, p_pid := nextpid s\<rparr>"
  have "parents_ok (upd_proc i ?f s)" using t u by (intro parents_upd) (auto simp: tree_ok_def alive_live)
  then have "parents_ok (claim_slot i s)" by (simp add: parents_ok_def claim_slot_def)
  moreover have st: "p_pid (procs (claim_slot i s) p) = (if p = i then nextpid s else p_pid (procs s p))"
    "p_state (procs (claim_slot i s) p) = (if p = i then EMBRYO else p_state (procs s p))"
    "nextpid (claim_slot i s) = nextpid s + 1" for p
    by (simp_all add: claim_slot_def upd_proc_def)
  have "pids_ok (claim_slot i s)"
    unfolding pids_ok_def st
  proof (intro conjI allI impI)
    fix p q
    assume "(if p = i then EMBRYO else p_state (procs s p)) \<noteq> UNUSED" "(if q = i then EMBRYO else p_state (procs s q)) \<noteq> UNUSED"
      "(if p = i then nextpid s else p_pid (procs s p)) = (if q = i then nextpid s else p_pid (procs s q))"
    then show "p = q" using t unfolding tree_ok_def pids_ok_def by (metis less_irrefl)
  next
    fix p
    show "(if p = i then nextpid s else p_pid (procs s p)) < nextpid s + 1"
      using t unfolding tree_ok_def pids_ok_def by (smt (verit))
  next
    fix p
    assume "(if p = i then EMBRYO else p_state (procs s p)) \<noteq> UNUSED"
    then show "0 < (if p = i then nextpid s else p_pid (procs s p))" using t unfolding tree_ok_def pids_ok_def by metis
  next
    show "0 < nextpid s + 1" using t unfolding tree_ok_def pids_ok_def by simp
  qed
  ultimately show ?thesis by (simp add: tree_ok_def)
qed

lemma tree_alloc:
  assumes t: "tree_ok s" and a: "allocproc B c s = Ok (r, s')"
  shows "tree_ok s'"
  using a
proof (cases rule: allocproc_cases)
  case (full s1)
  then show ?thesis using t tame_lock tame_tree by blast
next
  case (claimed s1 s2 i f m)
  have "tree_ok s1" using t claimed(1) tame_lock(1) tame_tree by blast
  then have "tree_ok (claim_slot i s1)" using claimed(2) by (rule tree_claim)
  then have "tree_ok s2" using claimed(4) tame_lock(2) tame_tree by blast
  then have "tree_ok (s2\<lparr>km := m\<rparr>)" by (rule tame_tree [rotated]) (simp add: tame_def)
  moreover have "p_state (procs s2 i) = EMBRYO"
    using claimed(4) by (auto simp: unlock_ptable_def claim_slot_def upd_proc_def upd_cpu_def)
  ultimately show ?thesis using claimed(5,6) by (auto intro!: tree_upd_embryo)
qed

lemma tree_sleep_resume_wait:
  assumes t: "tree_ok s" and p: "alive (p_state (procs s j))" and w: "wait_loop B c j (sleep_resume c j ie s) = Ok (out, s')"
  shows "tree_ok s'"
proof -
  have tm: "tame s (sleep_resume c j ie s)" by (rule tame_sleep_resume)
  have "alive (p_state (procs (sleep_resume c j ie s) j))" using tm p by (simp add: tame_def)
  moreover from this have "p_state (procs (sleep_resume c j ie s) j) \<noteq> ZOMBIE" by (auto simp: alive_live)
  ultimately show ?thesis by (rule tree_wait_loop [OF tame_tree [OF tm t] w])
qed

lemma tree_wait:
  assumes t: "tree_ok s" and p: "p_state (procs s p) = RUNNING" and w: "wait B c p s = Ok (out, s')"
  shows "tree_ok s'"
proof -
  obtain s1 where l: "lock_ptable c s = Ok s1" and w1: "wait_loop B c p s1 = Ok (out, s')" using w by (auto simp: wait_def)
  have "procs s1 = procs s" using l by (auto simp: lock_ptable_def upd_cpu_def)
  then show ?thesis
    using tree_wait_loop [OF tame_tree [OF tame_lock(1) [OF l] t] w1] p by (simp add: alive_live)
qed

lemma tame_leave:
  assumes p: "p_state (procs s p) = RUNNING" and f: "lock_ptable c s = Ok s1"
    and "st \<in> {RUNNABLE, SLEEPING}" and u: "sched c p (upd_proc p (\<lambda>x. x\<lparr>p_chan := h x, p_state := st\<rparr>) s1) = Ok (ie, s')"
  shows "tame s s'"
proof -
  have "procs s1 = procs s" using f by (auto simp: lock_ptable_def upd_cpu_def)
  then have "tame s1 (upd_proc p (\<lambda>x. x\<lparr>p_chan := h x, p_state := st\<rparr>) s1)"
    using p assms(3) by (intro tame_upd) (auto simp: alive_live)
  then show ?thesis using tame_trans tame_lock(1) [OF f] tame_sched [OF u] by blast
qed

lemma tame_yield:
  assumes "p_state (procs s p) = RUNNING" "yield c p s = Ok (ie, s')"
  shows "tame s s'"
proof -
  obtain s1 where l: "lock_ptable c s = Ok s1" and u: "sched c p (upd_proc p (\<lambda>x. x\<lparr>p_state := RUNNABLE\<rparr>) s1) = Ok (ie, s')"
    using assms(2) by (auto simp: yield_def)
  then show ?thesis using tame_leave [OF assms(1) l, of RUNNABLE p_chan ie s'] by simp
qed

lemma tame_sleep:
  assumes inv: "kinv ct s" and c: "ct c = InProc p" and acq: "acquire c [] lk (c_cli (kcpus s c)) = Ok (lk1, cl)"
    and sl: "sleep c ch (Some lk1) (upd_cpu c (\<lambda>k. k\<lparr>c_cli := cl\<rparr>) s) = Ok (ie, lk2, s')"
  shows "tame s s'"
proof -
  have h: "cli_ok (\<lambda>x. is_sched (ct x)) s" "myproc c s = Some p" and p: "p_state (procs s p) = RUNNING"
    using inv c by (auto simp: kinv_def runs_ok_def myproc_def)
  obtain s0 where s0: "lock_frame s s0" "sleep_locked c p ch s0 = Ok (ie, s')"
    using sleep_eq [OF h(1) _ acq h(2), of ch] sl c by (auto dest: sym)
  have "procs s0 = procs s" using s0(1) by (simp add: lock_frame_def)
  then have "tame s0 (upd_proc p (\<lambda>x. x\<lparr>p_chan := Some ch, p_state := SLEEPING\<rparr>) s0)"
    using p by (intro tame_upd) (simp_all add: alive_live)
  then show ?thesis
    using tame_trans lock_frame_tame [OF s0(1)] tame_sched [OF s0(2) [unfolded sleep_locked_def]] by blast
qed

lemma tame_kill:
  assumes "kill c pid s = Ok (r, s')"
  shows "tame s s'"
  using assms
proof (cases rule: kill_cases)
  case (1 s1 s2)
  have "tame s1 (kill_mark i s1)" for i by (simp add: kill_mark_def Let_def tame_def upd_proc_def alive_live)
  then have "tame s1 s2" using 1(3) by auto
  then show ?thesis using tame_trans tame_lock(1) [OF 1(1)] tame_lock(2) [OF 1(2)] by blast
qed

lemma tree_fork_ready:
  assumes t: "tree_ok s" and e: "p_state (procs s np) = EMBRYO" and p: "p_state (procs s p) = RUNNING"
    and r: "fork_ready c p np d s = Ok s'"
  shows "tree_ok s'"
proof -
  let ?s0 = "upd_proc np (\<lambda>x. x\<lparr>p_pgdir := d, p_parent := Some p\<rparr>) s"
  obtain s1 where l: "lock_ptable c ?s0 = Ok s1"
      and u: "unlock_ptable c (upd_proc np (\<lambda>x. x\<lparr>p_state := RUNNABLE\<rparr>) s1) = Ok s'"
    using r by (auto simp: fork_ready_def)
  have "procs s1 = procs ?s0" using l by (auto simp: lock_ptable_def upd_cpu_def)
  then have "p_state (procs s1 np) = EMBRYO" "p_parent (procs s1 np) = Some p" "alive (p_state (procs s1 p))"
    using e p by (auto simp: upd_proc_def alive_live)
  moreover have "tree_ok s1" using tame_tree [OF tame_lock(1) [OF l]] tree_upd_embryo [OF t e] e by simp
  ultimately have "tree_ok (upd_proc np (\<lambda>x. x\<lparr>p_state := RUNNABLE\<rparr>) s1)" by (intro tree_upd_embryo) auto
  then show ?thesis using tame_tree [OF tame_lock(2) [OF u]] by simp
qed

lemma sched_step_tree:
  assumes "sched_step B S T" "sched_inv S" "tree_ok (kst S)"
  shows "tree_ok (kst T)"
  using assms
proof (induction rule: sched_step.induct)
  case (sched_begin S c s)
  then have "tame (kst S) s" unfolding scheduler_begin_def
    by (intro tame_trans [OF tame_procs tame_lock(1)]) (auto simp: upd_cpu_def)
  then show ?case using sched_begin(4) tame_tree unfolding psys_ops by blast
next
  case (sched_none S c i s1 s)
  then show ?case unfolding psys_ops using tame_pick tame_lock(2) tame_tree by blast
next
  case (resume_yield S c i j s1 s)
  then have "tame s1 s" using tame_trans [OF tame_back(2) tame_lock(2)] unfolding yield_resume_def by blast
  then show ?case unfolding psys_ops using resume_yield tame_pick tame_tree by blast
next
  case (resume_forkret S c i j s1 s)
  then show ?case unfolding psys_ops using tame_pick tame_lock(2) tame_tree by blast
next
  case (resume_sleep S c i j s1 s)
  then have "tame s1 s" using tame_trans [OF tame_sleep_resume tame_lock(2)] by blast
  then show ?case unfolding psys_ops using resume_sleep tame_pick tame_tree by blast
next
  case (resume_wait S c i j s1 r s)
  then have "alive (p_state (procs s1 j))" "tree_ok s1"
    using scheduler_pick_Some [OF resume_wait(2)] tame_pick [OF resume_wait(2)] tame_tree by (auto simp: alive_live)
  from tree_sleep_resume_wait [OF this(2,1) resume_wait(4)] show ?case unfolding psys_ops .
next
  case (rewait S c i j s1 ie s)
  then have "alive (p_state (procs s1 j))" "tree_ok s1"
    using scheduler_pick_Some [OF rewait(2)] tame_pick [OF rewait(2)] tame_tree by (auto simp: alive_live)
  from tree_sleep_resume_wait [OF this(2,1) rewait(4)] show ?case unfolding psys_ops using tame_back(1) tame_tree by blast
next
  case (yields S c p ie s)
  then have "p_state (procs (kst S) p) = RUNNING" by (auto simp: sched_inv_def runs_ok_def)
  then show ?case unfolding psys_ops using yields tame_yield tame_back(1) tame_tree by blast
next
  case (sleeps S c p lk lk1 cl ch ie lk2 s)
  from tame_sleep [OF sleeps(4) [unfolded sched_inv_kinv] sleeps(1-3)] show ?case
    unfolding psys_ops using sleeps(5) tame_back(1) tame_tree by blast
next
  case (waits S c p ie s)
  then have "p_state (procs (kst S) p) = RUNNING" by (auto simp: sched_inv_def runs_ok_def)
  then show ?case unfolding psys_ops using waits tree_wait tame_back(1) tame_tree by blast
next
  case (wait_returns S c p r s)
  then have "p_state (procs (kst S) p) = RUNNING" by (auto simp: sched_inv_def runs_ok_def)
  then show ?case unfolding psys_ops using wait_returns tree_wait by blast
next
  case (exits S c p ie s)
  then have "alive (p_state (procs (kst S) p))" by (auto simp: sched_inv_def runs_ok_def alive_def)
  then show ?case unfolding psys_ops using exits tree_exit tame_back(1) tame_tree by blast
next
  case (wakes S c ch s)
  then have "tame (kst S) s" by (auto simp: wakeup_def intro: tame_trans [OF tame_trans [OF tame_lock(1) tame_wakeup1] tame_lock(2)])
  then show ?case using wakes(4) tame_tree unfolding psys_ops by blast
next
  case (kills S c p pid r s)
  then show ?case unfolding psys_ops using tame_kill tame_tree by blast
next
  case (allocates S c p np s)
  then show ?case unfolding psys_ops using tree_alloc by blast
next
  case (allocates_none S c p s)
  then show ?case unfolding psys_ops using tree_alloc by blast
next
  case (readies S c p np d s)
  then have "p_state (procs (kst S) p) = RUNNING" by (auto simp: sched_inv_def runs_ok_def)
  then show ?case unfolding psys_ops using readies tree_fork_ready by blast
next
  case (abandons S c p np)
  then show ?case unfolding psys_ops by (intro tree_upd_embryo) auto
qed

lemma sched_run_tree: "(sched_step B)\<^sup>*\<^sup>* S T \<Longrightarrow> sched_inv S \<and> tree_ok (kst S) \<Longrightarrow> sched_inv T \<and> tree_ok (kst T)"
  by (induction rule: rtranclp_induct) (auto intro: sched_step_inv sched_step_tree)

section \<open>Giving up the CPU\<close>

text \<open>\<open>yield\<close> and \<open>exit\<close> spin while a CPU holds the lock, and otherwise pass every check of \<open>sched\<close>.\<close>

lemma kinv_locked:
  assumes inv: "kinv ct s" and c: "\<not> is_sched (ct c)"
  shows "if \<exists>x. is_sched (ct x) then lock_ptable c s = Sleeps
    else \<exists>s1. lock_ptable c s = Ok s1 \<and> cli_ok ((\<lambda>x. is_sched (ct x))(c := True)) s1 \<and> lock_frame s s1"
  using lock_ptable_ok [of "\<lambda>x. is_sched (ct x)" s c] inv c unfolding kinv_def by blast

lemma sched_total:
  assumes "cli_ok h s" "h c" "st \<noteq> RUNNING"
  shows "is_ok (sched c p (upd_proc p (\<lambda>x. x\<lparr>p_state := st\<rparr>) s))"
proof -
  have "cli_ok h (upd_proc p (\<lambda>x. x\<lparr>p_state := st\<rparr>) s)" using assms(1) by simp
  moreover have "p_state (procs (upd_proc p (\<lambda>x. x\<lparr>p_state := st\<rparr>) s) p) \<noteq> RUNNING" using assms(3) by (simp add: upd_proc_def)
  ultimately show ?thesis using sched_ok assms(2) by fastforce
qed

lemma yield_total:
  assumes inv: "kinv ct s" and c: "ct c = InProc p"
  shows "if \<exists>x. is_sched (ct x) then yield c p s = Sleeps else is_ok (yield c p s)"
proof (cases "\<exists>x. is_sched (ct x)")
  case True
  then have "lock_ptable c s = Sleeps" using kinv_locked [OF inv, of c] c by (simp only: if_True InProc_not_sched not_False_eq_True)
  then show ?thesis using True by (simp add: yield_def)
next
  case False
  then obtain s1 where s1: "lock_ptable c s = Ok s1" "cli_ok ((\<lambda>x. is_sched (ct x))(c := True)) s1"
    using kinv_locked [OF inv, of c] by auto
  then show ?thesis using False sched_total [OF s1(2), of c RUNNABLE p] by (simp add: yield_def)
qed

lemma exit_total:
  assumes inv: "kinv ct s" and c: "ct c = InProc p"
  shows "if \<exists>x. is_sched (ct x) then exit_finish c p s = Sleeps else is_ok (exit_finish c p s)"
proof (cases "\<exists>x. is_sched (ct x)")
  case True
  then have "lock_ptable c s = Sleeps" using kinv_locked [OF inv, of c] c by (simp only: if_True InProc_not_sched not_False_eq_True)
  then show ?thesis using True unfolding exit_finish_def by (simp del: upt_rec_numeral)
next
  case False
  then obtain s1 where s1: "lock_ptable c s = Ok s1" "cli_ok ((\<lambda>x. is_sched (ct x))(c := True)) s1"
    using kinv_locked [OF inv, of c] by auto
  define idxs where "idxs = [0..<NPROC]"
  define s2 where "s2 = fold (reparent p) idxs (wakeup1 (map_option ChanProc (p_parent (procs s1 p))) s1)"
  have "cli_ok ((\<lambda>x. is_sched (ct x))(c := True)) s2" using s1(2) by (simp add: s2_def fold_reparent_quiet(2))
  from sched_total [OF this, of c ZOMBIE p] have "is_ok (sched c p (upd_proc p (\<lambda>x. x\<lparr>p_state := ZOMBIE\<rparr>) s2))" by simp
  moreover have "exit_finish c p s = sched c p (upd_proc p (\<lambda>x. x\<lparr>p_state := ZOMBIE\<rparr>) s2)"
    using s1 by (simp add: exit_finish_def s2_def flip: idxs_def)
  ultimately show ?thesis using False by simp
qed

lemma pick_total:
  assumes "spaces_ok s"
  shows "is_ok (scheduler_pick c i s)"
proof (cases "List.find (\<lambda>j. p_state (procs s j) = RUNNABLE) [i..<NPROC]")
  case (Some j)
  then have "p_state (procs s j) = RUNNABLE" using find_SomeD by fast
  then have "p_kstack (procs s j) \<noteq> 0 \<and> p_pgdir (procs s j) \<noteq> 0" using assms by (simp add: spaces_ok_def live_def)
  then show ?thesis using Some by (simp add: scheduler_pick_def Let_def switchuvm_def upd_cpu_def)
qed (simp add: scheduler_pick_def)

section \<open>A system with one process\<close>

text \<open>After \<open>userinit\<close>: the first process waits in slot 0 to be scheduled for the first time.\<close>

definition boot_sys :: psys where
  "boot_sys = \<lparr>kst = static_kern\<lparr>procs := (\<lambda>i. if i = 0 then zero_proc\<lparr>p_state := RUNNABLE, p_pid := 1,
       p_kstack := 0x80400000, p_pgdir := 0x80401000\<rparr> else zero_proc), nextpid := 2, initproc := Some 0\<rparr>,
     ctl = \<lambda>_. Idle, rpt = \<lambda>_. AtForkret, saved = \<lambda>_. False\<rparr>"

lemma boot_sys_start: "sched_start boot_sys"
  by (simp add: sched_start_def boot_sys_def static_kern_def zero_cpu_def zero_spinlock_def zero_proc_def
      spaces_ok_def live_def)

lemma boot_sys_tree: "tree_ok (kst boot_sys)"
  by (auto simp: tree_ok_def pids_ok_def parents_ok_def boot_sys_def static_kern_def zero_proc_def alive_def live_def)

text \<open>CPU 1 runs the process.\<close>

lemma boot_sys_runs: "\<exists>S. (sched_step B)\<^sup>*\<^sup>* boot_sys S \<and> ctl S = (\<lambda>_. Idle)(1 := InProc 0)"
proof -
  have inv: "kinv (\<lambda>_. Idle) (kst boot_sys)"
    using sched_start_inv [OF boot_sys_start] by (simp add: sched_inv_kinv boot_sys_def)
  let ?b = "upd_cpu 1 (\<lambda>k. k\<lparr>c_cli := (c_cli k)\<lparr>eflags_if := True\<rparr>\<rparr>) (kst boot_sys)"
  have "kinv (\<lambda>_. Idle) ?b" using inv by (simp add: kinv_def cli_ok_def runs_ok_def spaces_ok_def upd_cpu_def)
  from kinv_locked [OF this, of 1] obtain s where s: "scheduler_begin 1 (kst boot_sys) = Ok s" "lock_frame ?b s"
    by (auto simp: scheduler_begin_def)
  have inv1: "kinv ((\<lambda>_. Idle)(1 := InSched 0)) s" using kinv_begin [OF inv _ s(1)] by simp
  have 1: "sched_step B boot_sys (enter 1 (InSched 0) s boot_sys)"
    using s(1) by (intro sched_step.sched_begin) (simp_all add: boot_sys_def)
  have "procs s = procs (kst boot_sys)" using s(2) by (simp add: lock_frame_def upd_cpu_def)
  then have "p_state (procs s 0) = RUNNABLE" by (simp add: boot_sys_def)
  then have "List.find (\<lambda>j. p_state (procs s j) = RUNNABLE) [0..<NPROC] = Some 0" by (simp add: upt_conv_Cons)
  then obtain s1 where s1: "scheduler_pick 1 0 s = Ok (Some 0, s1)"
    using pick_total [of s 1 0] inv1
    by (auto simp: scheduler_pick_def Let_def kinv_def is_ok_def switchuvm_def split: res.splits if_splits)
  then have "kheld ((\<lambda>_. Idle)(1 := InProc 0)) 1 s1" using kheld_pick [OF inv1 _ s1] by simp
  then obtain s2 where s2: "unlock_ptable 1 s1 = Ok s2"
    unfolding kheld_def using unlock_ptable_ok [of "(\<lambda>x. is_sched (((\<lambda>_. Idle)(1 := InProc 0)) x))(1 := True)" s1 1] by auto
  have 2: "sched_step B (enter 1 (InSched 0) s boot_sys) (enter 1 (InProc 0) s2 (enter 1 (InSched 0) s boot_sys))"
    using s1 s2 by (intro sched_step.resume_forkret [of _ 1 0 0 s1]) (simp_all add: enter_def boot_sys_def)
  have "ctl (enter 1 (InProc 0) s2 (enter 1 (InSched 0) s boot_sys)) = (\<lambda>_. Idle)(1 := InProc 0)"
    by (simp add: enter_def boot_sys_def)
  then show ?thesis using 1 2 by (meson converse_rtranclp_into_rtranclp rtranclp.rtrancl_refl)
qed

section \<open>The properties of the scheduler\<close>

text \<open>C2. In every state the CPUs can reach from a state without running processes, however their
  steps interleave: a process runs on at most one CPU; a process is in the state \<open>RUNNING\<close> exactly
  when some CPU runs it, and \<open>myproc\<close> on that CPU returns it; at most one CPU is in the scan of the
  process table; the scan never panics; and a running process that yields or exits passes the four checks of \<open>sched\<close>
  (it panics in no case), unless another CPU is in the scan, where it spins for the lock.\<close>

theorem scheduler_safe:
  assumes "sched_start S0" and "(sched_step B)\<^sup>*\<^sup>* S0 S"
  shows "(\<forall>c c' p. ctl S c = InProc p \<and> ctl S c' = InProc p \<longrightarrow> c = c') \<and>
    (\<forall>p. p_state (procs (kst S) p) = RUNNING \<longleftrightarrow> (\<exists>c. myproc c (kst S) = Some p)) \<and>
    (\<forall>c. myproc c (kst S) = proc_of (ctl S c)) \<and>
    (\<forall>c c'. is_sched (ctl S c) \<and> is_sched (ctl S c') \<longrightarrow> c = c') \<and>
    (\<forall>c i. is_ok (scheduler_pick c i (kst S))) \<and>
    (\<forall>c p. ctl S c = InProc p \<longrightarrow>
       (if \<exists>x. is_sched (ctl S x) then yield c p (kst S) = Sleeps else is_ok (yield c p (kst S))) \<and>
       (if \<exists>x. is_sched (ctl S x) then exit_finish c p (kst S) = Sleeps else is_ok (exit_finish c p (kst S))))"
proof -
  have inv: "kinv (ctl S) (kst S)"
    using sched_run_inv [OF assms(2) sched_start_inv [OF assms(1)]] by (simp add: sched_inv_kinv)
  then have cli: "cli_ok (\<lambda>c. is_sched (ctl S c)) (kst S)" and runs: "runs_ok (ctl S) (kst S)" and sp: "spaces_ok (kst S)"
    by (simp_all add: kinv_def)
  have cur: "myproc c (kst S) = proc_of (ctl S c)" for c using runs by (simp add: runs_ok_def myproc_def)
  have pr: "proc_of x = Some p \<longleftrightarrow> x = InProc p" for x p by (auto simp: proc_of_def split: cpuctl.splits)
  have "\<forall>c c'. is_sched (ctl S c) \<and> is_sched (ctl S c') \<longrightarrow> c = c'" using cli_ok_held(5) [OF cli] by blast
  moreover have "\<forall>c c' p. ctl S c = InProc p \<and> ctl S c' = InProc p \<longrightarrow> c = c'"
    "\<forall>p. p_state (procs (kst S) p) = RUNNING \<longleftrightarrow> (\<exists>c. myproc c (kst S) = Some p)"
    using runs unfolding cur pr runs_ok_def by blast+
  ultimately show ?thesis using cur pick_total [OF sp] yield_total [OF inv] exit_total [OF inv] by blast
qed

theorem scheduler_safe_witness:
  "\<forall>B. \<exists>S. (sched_step B)\<^sup>*\<^sup>* boot_sys S \<and> ctl S 1 = InProc 0 \<and> myproc 1 (kst S) = Some 0 \<and>
     p_state (procs (kst S) 0) = RUNNING \<and> is_ok (yield 1 0 (kst S))"
proof
  fix B
  obtain S where S: "(sched_step B)\<^sup>*\<^sup>* boot_sys S" "ctl S = (\<lambda>_. Idle)(1 := InProc 0)" using boot_sys_runs by blast
  have c: "ctl S 1 = InProc 0" "\<not> (\<exists>x. is_sched (ctl S x))" by (auto simp: S(2))
  note safe = scheduler_safe [OF boot_sys_start S(1)]
  have "myproc 1 (kst S) = proc_of (ctl S 1)" by (rule spec [OF conjunct1 [OF conjunct2 [OF conjunct2 [OF safe]]]])
  then have m: "myproc 1 (kst S) = Some 0" unfolding c by simp
  have "p_state (procs (kst S) 0) = RUNNING \<longleftrightarrow> (\<exists>c. myproc c (kst S) = Some 0)"
    by (rule spec [OF conjunct1 [OF conjunct2 [OF safe]]])
  with m have r: "p_state (procs (kst S) 0) = RUNNING" by blast
  have "if \<exists>x. is_sched (ctl S x) then yield 1 0 (kst S) = Sleeps else is_ok (yield 1 0 (kst S))"
    using conjunct2 [OF conjunct2 [OF conjunct2 [OF conjunct2 [OF conjunct2 [OF safe]]]]] c(1) by blast
  then have "is_ok (yield 1 0 (kst S))" unfolding if_not_P [OF c(2)] .
  with m r c(1) S(1) show "\<exists>S. (sched_step B)\<^sup>*\<^sup>* boot_sys S \<and> ctl S 1 = InProc 0 \<and> myproc 1 (kst S) = Some 0 \<and>
     p_state (procs (kst S) 0) = RUNNING \<and> is_ok (yield 1 0 (kst S))" by blast
qed

text \<open>C25. The process tree: in every state reached from one in which it holds, the pids of the slots in use are
  positive, below \<open>nextpid\<close> and no two are equal, and the parent of every process that has been started, zombies
  included, is a process that still runs, so that it can be waited for: \<open>exit\<close> leaves no orphan, whatever
  interleaves with it. The first process never ends, \<open>fork\<close> and \<open>wait\<close> keep the tree.\<close>

theorem process_tree_kept:
  assumes "sched_start S0" and "tree_ok (kst S0)" and "(sched_step B)\<^sup>*\<^sup>* S0 S"
  shows "(\<forall>p q. p_state (procs (kst S) p) \<noteq> UNUSED \<and> p_state (procs (kst S) q) \<noteq> UNUSED \<and>
       p_pid (procs (kst S) p) = p_pid (procs (kst S) q) \<longrightarrow> p = q) \<and>
    (\<forall>p. p_state (procs (kst S) p) \<noteq> UNUSED \<longrightarrow> 0 < p_pid (procs (kst S) p) \<and> p_pid (procs (kst S) p) < nextpid (kst S)) \<and>
    (\<exists>i. initproc (kst S) = Some i \<and> alive (p_state (procs (kst S) i))) \<and>
    (\<forall>p q. p < NPROC \<and> live (p_state (procs (kst S) p)) \<and> p_parent (procs (kst S) p) = Some q \<longrightarrow>
       alive (p_state (procs (kst S) q)))"
proof -
  have "tree_ok (kst S)" using sched_run_tree [OF assms(3)] sched_start_inv [OF assms(1)] assms(2) by blast
  then show ?thesis unfolding tree_ok_def pids_ok_def parents_ok_def by blast
qed

theorem process_tree_kept_witness:
  "\<forall>B. \<exists>S. (sched_step B)\<^sup>*\<^sup>* boot_sys S \<and> ctl S 1 = InProc 0 \<and>
     (\<exists>i. initproc (kst S) = Some i \<and> alive (p_state (procs (kst S) i)))"
proof
  fix B
  obtain S where S: "(sched_step B)\<^sup>*\<^sup>* boot_sys S" "ctl S = (\<lambda>_. Idle)(1 := InProc 0)" using boot_sys_runs by blast
  from process_tree_kept [OF boot_sys_start boot_sys_tree S(1)] S
  show "\<exists>S. (sched_step B)\<^sup>*\<^sup>* boot_sys S \<and> ctl S 1 = InProc 0 \<and>
     (\<exists>i. initproc (kst S) = Some i \<and> alive (p_state (procs (kst S) i)))" by auto
qed

end
