(* ===== verification/Paging.thy ===== *)
theory Paging
  imports Vm
begin

text \<open>
  What the page tables of \<open>vm.c\<close> mean: the map from page numbers to page table entries that a
  directory stands for, the ownership of the pages involved, and how \<open>mappages\<close>, \<open>allocuvm\<close>,
  \<open>deallocuvm\<close>, \<open>setupkvm\<close>, \<open>copyuvm\<close> and \<open>copyout\<close> change it. The pages of the allocator are split
  into those on the free list, those of the page table, and those of somebody else.
\<close>

section \<open>Entries of a page table\<close>

definition word_at :: "mem \<Rightarrow> nat \<Rightarrow> u32" where
  "word_at m a = rd32 (bytes m a 4)"

lemma word_at_store [simp]: "word_at (store32 m a w) a = w"
  using rd32_le32 [of w "[]"] by (simp add: word_at_def)

lemma word_at_cong: "(\<And>x. a \<le> x \<Longrightarrow> x < a + 4 \<Longrightarrow> m' x = m x) \<Longrightarrow> word_at m' a = word_at m a"
  unfolding word_at_def by (intro arg_cong [where f = rd32] bytes_cong) simp

lemma word_at_store_other: "b + 4 \<le> a \<or> a + 4 \<le> b \<Longrightarrow> word_at (store32 m a w) b = word_at m b"
  by (rule word_at_cong) (auto intro: store32_other)

lemma load32_word_at: "load32 m a = word_at m (unat a)"
  by (simp add: load32_def word_at_def)

definition present :: "u32 \<Rightarrow> bool" where
  "present e \<longleftrightarrow> e AND PTE_P \<noteq> 0"

text \<open>The page that an entry names, as the kernel addresses it.\<close>

definition frame :: "u32 \<Rightarrow> u32" where
  "frame e = P2V (PTE_ADDR e)"

text \<open>Directory entry \<open>i\<close> of \<open>d\<close>, the place of the entry of page \<open>n\<close>, and the entry itself.\<close>

definition pde_at :: "mem \<Rightarrow> u32 \<Rightarrow> nat \<Rightarrow> u32" where
  "pde_at m d i = word_at m (unat d + 4 * i)"

definition pte_loc :: "mem \<Rightarrow> u32 \<Rightarrow> nat \<Rightarrow> nat" where
  "pte_loc m d n = unat (frame (pde_at m d (n div 1024))) + 4 * (n mod 1024)"

definition lookup :: "mem \<Rightarrow> u32 \<Rightarrow> nat \<Rightarrow> u32 option" where
  "lookup m d n =
     (if n < 2 ^ 20 \<and> present (pde_at m d (n div 1024)) \<and> present (word_at m (pte_loc m d n))
      then Some (word_at m (pte_loc m d n)) else None)"

definition page_no :: "u32 \<Rightarrow> nat" where
  "page_no va = unat va div PGSIZE"

section \<open>Address arithmetic\<close>

lemma unat_less: "unat (w :: u32) < 2 ^ 32"
  using unsigned_less [of w, where 'a = nat] by simp

lemma unat_PDX: "unat (PDX va) = page_no va div 1024"
proof -
  have "unat va < 2 ^ 32" by (rule unat_less)
  then have "unat va div 4194304 < 1024" by (simp add: div_less_iff_less_mult)
  moreover have m: "(0x3FF :: u32) = mask 10" by (simp add: mask_eq_exp_minus_1)
  ultimately show ?thesis
    unfolding PDX_def m
    by (simp add: page_no_def take_bit_eq_mask [symmetric] take_bit_eq_mod drop_bit_eq_div unat_div
        unat_mod div_mult2_eq [symmetric])
qed

lemma unat_PTX: "unat (PTX va) = page_no va mod 1024"
proof -
  have m: "(0x3FF :: u32) = mask 10" by (simp add: mask_eq_exp_minus_1)
  show ?thesis
    unfolding PTX_def m
    by (simp add: page_no_def take_bit_eq_mask [symmetric] take_bit_eq_mod drop_bit_eq_div unat_div unat_mod)
qed

lemma page_no_less: "page_no va < 2 ^ 20"
proof -
  have "unat va < 2 ^ 32" by (rule unat_less)
  then show ?thesis by (simp add: page_no_def div_less_iff_less_mult)
qed

lemma aligned_bound:
  fixes v :: u32
  assumes "unat v mod PGSIZE = 0"
  shows "unat v + PGSIZE \<le> 2 ^ 32"
proof -
  have "unat v < 2 ^ 32" by (rule unat_less)
  moreover obtain k where "unat v = PGSIZE * k" using assms by auto
  ultimately show ?thesis by simp
qed

lemma unat_entry:
  fixes v i :: u32
  assumes "unat v mod PGSIZE = 0" "unat i < 1024"
  shows "unat (v + 4 * i) = unat v + 4 * unat i"
proof -
  have "unat (4 * i) = 4 * unat i"
    using assms(2) by (subst unat_mult_lem [THEN iffD1]) simp_all
  then show ?thesis
    using assms aligned_bound [OF assms(1)] by (subst unat_add_lem [THEN iffD1]) simp_all
qed

text \<open>Page addresses and flags do not overlap in an entry.\<close>

lemma aligned_bits:
  fixes a :: u32
  assumes "unat a mod PGSIZE = 0"
  shows "a AND mask 12 = 0"
proof -
  have "unat (a AND mask 12) = 0"
    using assms by (simp add: take_bit_eq_mask [symmetric] take_bit_eq_mod unat_mod)
  then show ?thesis by (simp add: word_unat_eq_iff)
qed

lemma PTE_ADDR_or:
  assumes "unat a mod PGSIZE = 0" "f AND NOT (mask 12) = 0"
  shows "PTE_ADDR (a OR f) = a" "PTE_FLAGS (a OR f) = f"
proof -
  have m: "(0xFFF :: u32) = mask 12" by (simp add: mask_eq_exp_minus_1)
  have a: False if "bit a n" "n < 12" for n
  proof -
    have "bit (a AND mask 12) n" using that by (simp add: bit_and_iff bit_mask_iff)
    then show False by (simp add: aligned_bits [OF assms(1)])
  qed
  have f: "bit f n \<Longrightarrow> n < 12" for n
    using assms(2) bit_imp_le_length [of f n] by (auto simp: bit_eq_iff bit_and_iff bit_not_iff bit_mask_iff)
  show "PTE_ADDR (a OR f) = a" "PTE_FLAGS (a OR f) = f"
    unfolding PTE_ADDR_def PTE_FLAGS_def m
    by (auto intro!: bit_eqI simp: bit_and_iff bit_or_iff bit_not_iff bit_mask_iff dest: a f)
qed

lemma V2P_aligned: "unat v mod PGSIZE = 0 \<Longrightarrow> unat (V2P v) mod PGSIZE = 0"
proof -
  assume a: "unat v mod PGSIZE = 0"
  have "V2P v = v + (0x80000000 :: u32)" by (simp add: V2P_def diff_eq_eq)
  then have "unat (V2P v) = (unat v + 0x80000000) mod 2 ^ 32"
    using unat_word_ariths(1) [where a = v and b = "0x80000000"] by simp
  moreover obtain k where "unat v = PGSIZE * k" using a by auto
  ultimately have "unat (V2P v) = PGSIZE * (k + 524288) mod 2 ^ 32" by simp
  then show ?thesis by (simp add: mod_mod_cancel del: distrib_left_numeral)
qed

lemma P2V_V2P [simp]: "P2V (V2P v) = v" "V2P (P2V v) = v"
  by (simp_all add: P2V_def V2P_def)

lemma entry_simps:
  assumes "unat v mod PGSIZE = 0" "f AND NOT (mask 12) = 0"
  shows "present (V2P v OR f OR PTE_P)" "frame (V2P v OR f OR PTE_P) = v"
    "PTE_FLAGS (V2P v OR f OR PTE_P) = f OR PTE_P"
proof -
  have "(f OR PTE_P) AND NOT (mask 12) = 0" using assms(2) by (simp add: bit.conj_disj_distrib2 mask_eq_exp_minus_1)
  note p = PTE_ADDR_or [OF V2P_aligned [OF assms(1)] this]
  show "frame (V2P v OR f OR PTE_P) = v" "PTE_FLAGS (V2P v OR f OR PTE_P) = f OR PTE_P"
    using p by (simp_all add: frame_def or.assoc)
  show "present (V2P v OR f OR PTE_P)"
    by (simp add: present_def bit_eq_iff bit_and_iff bit_or_iff bit_1_iff exI [of _ 0])
qed

section \<open>Ownership\<close>

text \<open>The memories \<open>m\<close> and \<open>m'\<close> are equal on the page \<open>v\<close>.\<close>

definition page_eq :: "mem \<Rightarrow> mem \<Rightarrow> u32 \<Rightarrow> bool" where
  "page_eq m m' v \<longleftrightarrow> (\<forall>x. in_page v x \<longrightarrow> m' x = m x)"

text \<open>
  \<open>d\<close> is the directory of a page table all of whose pages are pages of the allocator that are not on
  the free list \<open>vs\<close>, no two of them the same; \<open>U\<close> are the pages that belong to somebody else: user memory,
  kernel stacks, other page tables.
\<close>

definition pt_ok :: "u32 \<Rightarrow> u32 \<Rightarrow> u32 set \<Rightarrow> 'a kmem_scheme \<Rightarrow> u32 list \<Rightarrow> bool" where
  "pt_ok kend d U s vs \<longleftrightarrow>
     KERNBASE < kend \<and> avail kend s vs \<and> page_ok kend d \<and> d \<notin> set vs \<and> d \<notin> U \<and> U \<inter> set vs = {} \<and>
     (\<forall>u. u \<in> U \<longrightarrow> page_ok kend u) \<and>
     (\<forall>i < 1024. present (pde_at (kmemory s) d i) \<longrightarrow>
        page_ok kend (frame (pde_at (kmemory s) d i)) \<and> frame (pde_at (kmemory s) d i) \<notin> insert d (set vs \<union> U)) \<and>
     (\<forall>i < 1024. \<forall>j < 1024. present (pde_at (kmemory s) d i) \<longrightarrow> present (pde_at (kmemory s) d j) \<longrightarrow>
        frame (pde_at (kmemory s) d i) = frame (pde_at (kmemory s) d j) \<longrightarrow> i = j)"

lemma pt_okD:
  assumes "pt_ok kend d U s vs"
  shows "KERNBASE < kend" "avail kend s vs" "page_ok kend d" "d \<notin> set vs" "d \<notin> U" "U \<inter> set vs = {}"
    "u \<in> U \<Longrightarrow> page_ok kend u" "v \<in> set vs \<Longrightarrow> page_ok kend v"
    "i < 1024 \<Longrightarrow> present (pde_at (kmemory s) d i) \<Longrightarrow> page_ok kend (frame (pde_at (kmemory s) d i))"
    "i < 1024 \<Longrightarrow> present (pde_at (kmemory s) d i) \<Longrightarrow> frame (pde_at (kmemory s) d i) \<notin> insert d (set vs \<union> U)"
    "i < 1024 \<Longrightarrow> j < 1024 \<Longrightarrow> present (pde_at (kmemory s) d i) \<Longrightarrow> present (pde_at (kmemory s) d j) \<Longrightarrow>
       frame (pde_at (kmemory s) d i) = frame (pde_at (kmemory s) d j) \<Longrightarrow> i = j"
  using assms unfolding pt_ok_def avail_def by blast+

lemma page_eq_refl [simp]: "page_eq m m v"
  by (simp add: page_eq_def)

lemma page_eq_trans: "page_eq m m' v \<Longrightarrow> page_eq m' m'' v \<Longrightarrow> page_eq m m'' v"
  by (simp add: page_eq_def)

lemma page_eq_word:
  assumes "page_eq m m' v" "i < 1024"
  shows "word_at m' (unat v + 4 * i) = word_at m (unat v + 4 * i)"
  using assms by (intro word_at_cong) (auto simp: page_eq_def in_page_def)

text \<open>Writes inside one page leave the other pages alone.\<close>

lemma page_eq_write:
  assumes "unat v mod PGSIZE = 0" "unat w mod PGSIZE = 0" "v \<noteq> w" "\<And>x. \<not> in_page v x \<Longrightarrow> m' x = m x"
  shows "page_eq m m' w"
  using assms pages_disjoint unfolding page_eq_def by metis

lemma page_eq_store:
  assumes "unat v mod PGSIZE = 0" "unat w mod PGSIZE = 0" "v \<noteq> w" "i < 1024"
  shows "page_eq m (store32 m (unat v + 4 * i) x) w"
  using assms by (intro page_eq_write [of v]) (auto simp: in_page_def not_le not_less intro!: store32_other)

lemma page_eq_zero:
  assumes "unat v mod PGSIZE = 0" "unat w mod PGSIZE = 0" "v \<noteq> w"
  shows "page_eq m (memset m (unat v) c PGSIZE) w"
  using assms by (intro page_eq_write [of v]) (auto simp: in_page_def memset_apply)

lemma avail_mem:
  assumes "avail kend s vs" "\<And>v. v \<in> set vs \<Longrightarrow> page_eq (kmemory s) m' v"
  shows "avail kend (s\<lparr>kmemory := m'\<rparr>) vs"
proof -
  have "freepath (kmemory s) (freelist s) vs = freepath m' (freelist s) vs"
    using assms(2) by (intro freepath_cong) (simp add: page_eq_def)
  then show ?thesis using assms(1) by (simp add: avail_def)
qed

lemma pde_cong: "page_eq m m' d \<Longrightarrow> i < 1024 \<Longrightarrow> pde_at m' d i = pde_at m d i"
  by (simp add: pde_at_def page_eq_word)

lemma lookup_cong:
  assumes "page_eq m m' d"
    and "\<And>i. i < 1024 \<Longrightarrow> present (pde_at m d i) \<Longrightarrow> page_eq m m' (frame (pde_at m d i))"
  shows "lookup m' d = lookup m d"
proof
  fix n
  show "lookup m' d n = lookup m d n"
  proof (cases "n < 2 ^ 20 \<and> present (pde_at m d (n div 1024))")
    case True
    then have i: "n div 1024 < 1024" by auto
    then have "pde_at m' d (n div 1024) = pde_at m d (n div 1024)" by (rule pde_cong [OF assms(1)])
    moreover from this have "pte_loc m' d n = pte_loc m d n" by (simp add: pte_loc_def)
    moreover have "word_at m' (pte_loc m d n) = word_at m (pte_loc m d n)"
      unfolding pte_loc_def using True i by (intro page_eq_word assms(2)) auto
    ultimately show ?thesis by (simp add: lookup_def)
  next
    case False
    moreover have "n < 2 ^ 20 \<Longrightarrow> pde_at m' d (n div 1024) = pde_at m d (n div 1024)"
      by (rule pde_cong [OF assms(1)]) simp
    ultimately show ?thesis by (auto simp: lookup_def)
  qed
qed

text \<open>The second-level tables of a directory, from entry \<open>j\<close> on.\<close>

definition tables :: "mem \<Rightarrow> u32 \<Rightarrow> nat \<Rightarrow> u32 set" where
  "tables m d j = {frame (pde_at m d i) |i. j \<le> i \<and> i < 1024 \<and> present (pde_at m d i)}"

lemma tables_cong: "page_eq m m' d \<Longrightarrow> tables m' d j = tables m d j"
  unfolding tables_def by (metis pde_cong)

text \<open>A page table is kept by writes to pages that are not its own; pages may move between the free list
  and the owners on the way.\<close>

lemma pt_ok_frame:
  assumes pt: "pt_ok kend d U s vs" and av: "avail kend s' vs'"
    and own: "d \<notin> set vs' \<union> U'" "U' \<inter> set vs' = {}" "\<And>u. u \<in> U' \<Longrightarrow> page_ok kend u"
    and tabs: "\<And>i. i < 1024 \<Longrightarrow> present (pde_at (kmemory s) d i) \<Longrightarrow> frame (pde_at (kmemory s) d i) \<notin> set vs' \<union> U'"
    and d: "page_eq (kmemory s) (kmemory s') d"
  shows "pt_ok kend d U' s' vs'"
  using pt_okD [OF pt] assms unfolding pt_ok_def
  by (simp add: pde_cong [OF d])

section \<open>Walking and setting entries\<close>

lemma page_no_div: "page_no va div 1024 < 1024"
  using page_no_less [of va] by simp

lemma walk_pde:
  assumes "unat d mod PGSIZE = 0"
  shows "unat (d + 4 * PDX va) = unat d + 4 * (page_no va div 1024)"
    "load32 m (d + 4 * PDX va) = pde_at m d (page_no va div 1024)"
proof -
  show u: "unat (d + 4 * PDX va) = unat d + 4 * (page_no va div 1024)"
    using unat_entry [OF assms, of "PDX va"] page_no_div by (simp add: unat_PDX)
  show "load32 m (d + 4 * PDX va) = pde_at m d (page_no va div 1024)"
    by (simp add: load32_word_at u pde_at_def)
qed

lemma pte_loc_word:
  assumes pt: "pt_ok kend d U s vs" and n: "n < 2 ^ 20" "present (pde_at (kmemory s) d (n div 1024))"
  shows "unat (of_nat (pte_loc (kmemory s) d n) :: u32) = pte_loc (kmemory s) d n" "pte_loc (kmemory s) d n \<noteq> 0"
proof -
  have i: "n div 1024 < 1024" using n(1) by simp
  let ?f = "frame (pde_at (kmemory s) d (n div 1024))"
  have ok: "page_ok kend ?f" using pt_okD(9) [OF pt i n(2)] .
  have "n mod 1024 < 1024" by simp
  then have "unat (of_nat (n mod 1024) :: u32) = n mod 1024" by (simp add: unsigned_of_nat take_bit_nat_eq_self)
  then have "unat (?f + 4 * of_nat (n mod 1024)) = unat ?f + 4 * (n mod 1024)"
    using unat_entry [of ?f "of_nat (n mod 1024)"] page_ok_mod [OF ok] by simp
  then show "unat (of_nat (pte_loc (kmemory s) d n) :: u32) = pte_loc (kmemory s) d n"
    by (simp add: pte_loc_def)
  have "0 < ?f" using ok by (auto simp: page_ok_def word_neq_0_conv)
  then show "pte_loc (kmemory s) d n \<noteq> 0" by (simp add: pte_loc_def word_less_nat_alt)
qed

lemma PTX_of_nat: "of_nat (page_no va mod 1024) = PTX va"
  using unat_PTX [of va] by (metis of_nat_unat ucast_id)

lemma walk_found:
  assumes pt: "pt_ok kend d U s vs" and p: "present (pde_at (kmemory s) d (page_no va div 1024))"
  shows "walkpgdir d va al s = (of_nat (pte_loc (kmemory s) d (page_no va)), s)"
proof -
  have d: "unat d mod PGSIZE = 0" using pt_okD(3) [OF pt] by (rule page_ok_mod)
  show ?thesis
    using p PTX_of_nat [of va] by (simp add: walkpgdir_def Let_def walk_pde [OF d] present_def pte_loc_def frame_def)
qed

lemma walk_missing:
  assumes "unat d mod PGSIZE = 0" "\<not> present (pde_at (kmemory s) d (page_no va div 1024))"
  shows "walkpgdir d va False s = (0, s)"
  using assms by (simp add: walkpgdir_def Let_def walk_pde present_def)

text \<open>A missing table is made from the first page of the free list, without changing the meaning of the
  page table.\<close>

lemma walk_alloc_empty:
  assumes pt: "pt_ok kend d U s []" and p: "\<not> present (pde_at (kmemory s) d (page_no va div 1024))"
  shows "walkpgdir d va True s = (0, s)"
proof -
  have "unat d mod PGSIZE = 0" using pt_okD(3) [OF pt] by (rule page_ok_mod)
  moreover have "freelist s = 0" using pt_okD(2) [OF pt] by (simp add: avail_def)
  ultimately show ?thesis using p by (simp add: walkpgdir_def Let_def walk_pde present_def kalloc_def)
qed

definition new_table :: "u32 \<Rightarrow> nat \<Rightarrow> u32 \<Rightarrow> mem \<Rightarrow> mem" where
  "new_table d i v m = store32 (memset m (unat v) 0 PGSIZE) (unat d + 4 * i) (V2P v OR 6 OR PTE_P)"

lemma new_table_pde:
  assumes "unat d mod PGSIZE = 0" "unat v mod PGSIZE = 0" "d \<noteq> v" "i < 1024" "j < 1024"
  shows "pde_at (new_table d i v m) d j = (if j = i then V2P v OR 6 OR PTE_P else pde_at m d j)"
proof -
  have "word_at (memset m (unat v) 0 PGSIZE) (unat d + 4 * j) = word_at m (unat d + 4 * j)"
    using assms by (intro page_eq_word [OF page_eq_zero]) simp_all
  moreover have "j \<noteq> i \<Longrightarrow> unat d + 4 * j + 4 \<le> unat d + 4 * i \<or> unat d + 4 * i + 4 \<le> unat d + 4 * j" by linarith
  ultimately show ?thesis by (simp add: pde_at_def new_table_def word_at_store_other)
qed

lemma new_table_other:
  assumes "unat d mod PGSIZE = 0" "unat v mod PGSIZE = 0" "unat w mod PGSIZE = 0" "w \<noteq> d" "w \<noteq> v" "i < 1024"
  shows "page_eq m (new_table d i v m) w"
  unfolding new_table_def using assms by (intro page_eq_trans [OF page_eq_zero page_eq_store]) simp_all

lemma new_table_zero:
  assumes "unat d mod PGSIZE = 0" "unat v mod PGSIZE = 0" "d \<noteq> v" "i < 1024" "k < 1024"
  shows "word_at (new_table d i v m) (unat v + 4 * k) = 0"
proof -
  have "word_at (new_table d i v m) (unat v + 4 * k) = word_at (memset m (unat v) 0 PGSIZE) (unat v + 4 * k)"
    unfolding new_table_def using assms by (intro page_eq_word [OF page_eq_store]) simp_all
  also have "\<dots> = word_at (\<lambda>_. 0) (unat v + 4 * k)"
    using assms by (intro word_at_cong) (simp add: memset_apply)
  also have "\<dots> = 0" by (simp add: word_at_def bytes_def rd32_def numeral_eq_Suc upt_rec)
  finally show ?thesis .
qed

lemma new_table_lookup:
  assumes d: "unat d mod PGSIZE = 0" and v: "unat v mod PGSIZE = 0" "d \<noteq> v" and i: "i < 1024" "\<not> present (pde_at m d i)"
    and tabs: "\<And>j. j < 1024 \<Longrightarrow> present (pde_at m d j) \<Longrightarrow>
      unat (frame (pde_at m d j)) mod PGSIZE = 0 \<and> frame (pde_at m d j) \<noteq> d \<and> frame (pde_at m d j) \<noteq> v"
  shows "lookup (new_table d i v m) d = lookup m d"
proof
  fix n
  let ?m = "new_table d i v m"
  show "lookup ?m d n = lookup m d n"
  proof (cases "n < 2 ^ 20 \<and> n div 1024 \<noteq> i")
    case True
    then have j: "n div 1024 < 1024" by auto
    have pde: "pde_at ?m d (n div 1024) = pde_at m d (n div 1024)" using new_table_pde [OF d v i(1) j] True by simp
    then have loc: "pte_loc ?m d n = pte_loc m d n" by (simp add: pte_loc_def)
    have "word_at ?m (pte_loc m d n) = word_at m (pte_loc m d n)" if "present (pde_at m d (n div 1024))"
      unfolding pte_loc_def using tabs [OF j that] d v i by (intro page_eq_word [OF new_table_other]) auto
    then show ?thesis using pde loc by (auto simp: lookup_def)
  next
    case False
    then consider "\<not> n < 2 ^ 20" | "n < 2 ^ 20" "n div 1024 = i" by blast
    then show ?thesis
    proof cases
      case 2
      have "pte_loc ?m d n = unat v + 4 * (n mod 1024)"
        using 2 new_table_pde [OF d v i(1) i(1)] entry_simps(2) [OF v(1), of 6]
        by (simp add: pte_loc_def mask_eq_exp_minus_1)
      then have "\<not> present (word_at ?m (pte_loc ?m d n))" using new_table_zero [OF d v i(1)] by (simp add: present_def)
      then show ?thesis using 2 i(2) by (simp add: lookup_def)
    qed (simp add: lookup_def)
  qed
qed

lemma walk_new:
  assumes pt: "pt_ok kend d U s (v # vs)" and p: "\<not> present (pde_at (kmemory s) d (page_no va div 1024))"
  obtains s' where "walkpgdir d va True s = (of_nat (pte_loc (kmemory s') d (page_no va)), s')" "pt_ok kend d U s' vs"
    "lookup (kmemory s') d = lookup (kmemory s) d" "present (pde_at (kmemory s') d (page_no va div 1024))"
    "\<And>u. u \<in> U \<Longrightarrow> page_eq (kmemory s) (kmemory s') u" "tables (kmemory s') d 0 = insert v (tables (kmemory s) d 0)"
proof -
  let ?i = "page_no va div 1024" and ?m = "kmemory s"
  have i: "?i < 1024" by (rule page_no_div)
  have ok: "page_ok kend d" "page_ok kend v" using pt_okD(3,8) [OF pt] by simp_all
  note al = ok [THEN page_ok_mod]
  have dv: "d \<noteq> v" using pt_okD(4) [OF pt] by auto
  define m' where "m' = new_table d ?i v ?m"
  obtain s1 where k: "kalloc s = (v, s1)" "avail kend s1 vs" "kmemory s1 = ?m"
    using avail_alloc [OF pt_okD(2) [OF pt]] by (cases "kalloc s") (auto simp: kalloc_def Let_def split: if_splits)
  define s' where "s' = s1\<lparr>kmemory := m'\<rparr>"
  have tab: "unat (frame (pde_at ?m d j)) mod PGSIZE = 0 \<and> frame (pde_at ?m d j) \<noteq> d \<and> frame (pde_at ?m d j) \<noteq> v"
    if "j < 1024" "present (pde_at ?m d j)" for j
    using pt_okD(9,10) [OF pt that] by (auto dest: page_ok_mod)
  have pde: "pde_at m' d j = (if j = ?i then V2P v OR 6 OR PTE_P else pde_at ?m d j)" if "j < 1024" for j
    unfolding m'_def by (rule new_table_pde [OF al dv i that])
  have new: "present (V2P v OR 6 OR PTE_P)" "frame (V2P v OR 6 OR PTE_P) = v"
    using entry_simps(1,2) [OF al(2), of 6] by (simp_all add: mask_eq_exp_minus_1)
  have other: "page_eq ?m m' w" if "page_ok kend w" "w \<noteq> d" "w \<noteq> v" for w
    unfolding m'_def using al i that by (intro new_table_other) (auto dest: page_ok_mod)
  have "walkpgdir d va True s = (v + 4 * PTX va, s')"
  proof -
    have "put_pte (d + 4 * PDX va) (V2P v OR PTE_P OR PTE_W OR PTE_U) (zero_page v s1) = s'"
      using k(3) by (simp add: s'_def m'_def new_table_def put_pte_def zero_page_def set_mem_def walk_pde [OF al(1)] or.assoc)
    then show ?thesis
      using p ok(2) by (subst walkpgdir_def) (simp add: Let_def walk_pde [OF al(1)] present_def page_ok_def k(1))
  qed
  moreover have "of_nat (pte_loc (kmemory s') d (page_no va)) = v + 4 * PTX va"
    using PTX_of_nat [of va] new by (simp add: s'_def pte_loc_def pde [OF i])
  ultimately have w: "walkpgdir d va True s = (of_nat (pte_loc (kmemory s') d (page_no va)), s')" by simp
  have dis: "v \<notin> set vs" using pt_okD(2) [OF pt] by (simp add: avail_def)
  have "page_eq ?m m' w" if "w \<in> set vs" for w
    using pt_okD(4) [OF pt] pt_okD(8) [OF pt, of w] that dis by (intro other) auto
  then have av: "avail kend s' vs" unfolding s'_def using avail_mem [OF k(2)] k(3) by simp
  have own: "d \<notin> set vs" "d \<notin> U" "U \<inter> set vs = {}" "v \<notin> U" using pt_okD(4-6) [OF pt] by auto
  have "pt_ok kend d U s' vs"
  proof -
    have f: "page_ok kend (frame (pde_at m' d j)) \<and> frame (pde_at m' d j) \<notin> insert d (set vs \<union> U)"
      if "j < 1024" "present (pde_at m' d j)" for j
    proof (cases "j = ?i")
      case True
      then show ?thesis using pde [OF that(1)] new ok dv dis own by simp
    next
      case False
      then show ?thesis using pde [OF that(1)] that pt_okD(9,10) [OF pt, of j] by simp
    qed
    have inj: "j = k" if "j < 1024" "k < 1024" "present (pde_at m' d j)" "present (pde_at m' d k)"
      "frame (pde_at m' d j) = frame (pde_at m' d k)" for j k
      using that pde [OF that(1)] pde [OF that(2)] new tab [of j] tab [of k] pt_okD(11) [OF pt, of j k]
      by (cases "j = ?i"; cases "k = ?i") simp_all
    have "kmemory s' = m'" by (simp add: s'_def)
    then show ?thesis using pt_okD(1,3,7) [OF pt] own av f inj unfolding pt_ok_def by blast
  qed
  moreover have "lookup (kmemory s') d = lookup ?m d"
    unfolding s'_def m'_def using new_table_lookup [OF al dv i p] tab by simp
  moreover have "present (pde_at (kmemory s') d ?i)" using pde [OF i] new by (simp add: s'_def)
  moreover have "page_eq ?m (kmemory s') u" if "u \<in> U" for u
    using other [of u] pt_okD(5-7) [OF pt] that by (auto simp: s'_def)
  moreover have "tables (kmemory s') d 0 = insert v (tables ?m d 0)"
  proof -
    have "i < 1024 \<and> present (pde_at m' d i) \<and> x = frame (pde_at m' d i) \<longleftrightarrow>
        i = ?i \<and> x = v \<or> i < 1024 \<and> present (pde_at ?m d i) \<and> x = frame (pde_at ?m d i)" for i x
      using pde [of i] new i p by (cases "i = ?i") auto
    then show ?thesis unfolding tables_def s'_def by auto
  qed
  ultimately show ?thesis using w that by blast
qed

lemma put_entry:
  fixes s s' :: "'a kmem_scheme" and w :: u32
  assumes pt: "pt_ok kend d U s vs" and n: "n < 2 ^ 20" "present (pde_at (kmemory s) d (n div 1024))"
  defines "s' \<equiv> put_pte (of_nat (pte_loc (kmemory s) d n)) w s"
  shows "pt_ok kend d U s' vs" "lookup (kmemory s') d = (lookup (kmemory s) d)(n := if present w then Some w else None)"
    "freelist s' = freelist s" "page_eq (kmemory s) (kmemory s') d"
    "\<And>u. page_ok kend u \<Longrightarrow> u \<noteq> frame (pde_at (kmemory s) d (n div 1024)) \<Longrightarrow> page_eq (kmemory s) (kmemory s') u"
proof -
  let ?m = "kmemory s" and ?i = "n div 1024"
  let ?t = "frame (pde_at ?m d ?i)"
  have i: "?i < 1024" "n mod 1024 < 1024" using n(1) by auto
  have t: "page_ok kend ?t" "?t \<notin> insert d (set vs \<union> U)" using pt_okD(9,10) [OF pt i(1) n(2)] .
  define m' where "m' = store32 ?m (unat ?t + 4 * (n mod 1024)) w"
  have s': "s' = s\<lparr>kmemory := m'\<rparr>"
    using pte_loc_word(1) [OF pt n] unfolding s'_def put_pte_def set_mem_def m'_def by (simp add: pte_loc_def)
  show "freelist s' = freelist s" by (simp add: s')
  have other: "page_eq ?m m' u" if "page_ok kend u" "u \<noteq> ?t" for u
    unfolding m'_def using t that i by (intro page_eq_store) (auto dest: page_ok_mod)
  then show "\<And>u. page_ok kend u \<Longrightarrow> u \<noteq> ?t \<Longrightarrow> page_eq ?m (kmemory s') u" by (simp add: s')
  have d: "page_eq ?m m' d" using other pt_okD(3) [OF pt] t by auto
  then show "page_eq ?m (kmemory s') d" by (simp add: s')
  have "page_eq ?m m' v" if "v \<in> set vs" for v using other [of v] pt_okD(8) [OF pt that] that t by auto
  then have av: "avail kend s' vs" unfolding s' by (rule avail_mem [OF pt_okD(2) [OF pt]])
  show "pt_ok kend d U s' vs"
    using pt_okD(4-6,7,10) [OF pt] d by (intro pt_ok_frame [OF pt av]) (auto simp: s')
  show "lookup (kmemory s') d = (lookup ?m d)(n := if present w then Some w else None)"
  proof
    fix k
    show "lookup (kmemory s') d k = ((lookup ?m d)(n := if present w then Some w else None)) k"
    proof (cases "k < 2 ^ 20")
      case True
      then have j: "k div 1024 < 1024" "k mod 1024 < 1024" by auto
      have pde: "pde_at m' d (k div 1024) = pde_at ?m d (k div 1024)" using pde_cong [OF d j(1)] .
      then have loc: "pte_loc m' d k = pte_loc ?m d k" by (simp add: pte_loc_def)
      consider "k = n" | "k \<noteq> n" "k div 1024 = ?i" | "k div 1024 \<noteq> ?i" by blast
      then show ?thesis
      proof cases
        case 1
        then have "word_at m' (pte_loc m' d k) = w" unfolding loc by (simp add: pte_loc_def m'_def)
        then show ?thesis using 1 n pde loc by (simp add: s' lookup_def)
      next
        case 2
        then have ne: "k mod 1024 \<noteq> n mod 1024" by (metis div_mult_mod_eq)
        have "word_at m' (pte_loc ?m d k) = word_at ?m (pte_loc ?m d k)"
          unfolding pte_loc_def m'_def 2(2) using ne by (intro word_at_store_other) linarith
        then show ?thesis using 2 pde loc by (simp add: s' lookup_def)
      next
        case 3
        have "word_at m' (pte_loc ?m d k) = word_at ?m (pte_loc ?m d k)" if p: "present (pde_at ?m d (k div 1024))"
        proof -
          have "frame (pde_at ?m d (k div 1024)) \<noteq> ?t" using pt_okD(11) [OF pt j(1) i(1) p n(2)] 3 by auto
          then show ?thesis unfolding pte_loc_def using other pt_okD(9) [OF pt j(1) p] j by (intro page_eq_word) auto
        qed
        then show ?thesis using 3 pde loc by (auto simp: s' lookup_def)
      qed
    qed (use n in \<open>auto simp: lookup_def\<close>)
  qed
qed

text \<open>One page mapped, or no memory left for the table it needs.\<close>

lemma walk_alloc:
  assumes pt: "pt_ok kend d U s vs"
  obtains (none) "vs = []" "walkpgdir d va True s = (0, s)"
  | (entry) s' vs' where "walkpgdir d va True s = (of_nat (pte_loc (kmemory s') d (page_no va)), s')"
      "pt_ok kend d U s' vs'" "set vs' \<subseteq> set vs \<and> length vs \<le> Suc (length vs') \<and> set vs' \<union> tables (kmemory s') d 0 = set vs \<union> tables (kmemory s) d 0"
      "lookup (kmemory s') d = lookup (kmemory s) d"
      "present (pde_at (kmemory s') d (page_no va div 1024))" "\<And>u. u \<in> U \<Longrightarrow> page_eq (kmemory s) (kmemory s') u"
proof (cases "present (pde_at (kmemory s) d (page_no va div 1024))")
  case True
  then show ?thesis using entry [OF walk_found [OF pt True] pt] by simp
next
  case False
  show ?thesis
  proof (cases vs)
    case Nil
    then show ?thesis using none walk_alloc_empty [OF _ False] pt by simp
  next
    case (Cons v vs')
    obtain s' where "walkpgdir d va True s = (of_nat (pte_loc (kmemory s') d (page_no va)), s')" "pt_ok kend d U s' vs'"
      "lookup (kmemory s') d = lookup (kmemory s) d" "present (pde_at (kmemory s') d (page_no va div 1024))"
      "\<And>u. u \<in> U \<Longrightarrow> page_eq (kmemory s) (kmemory s') u" "tables (kmemory s') d 0 = insert v (tables (kmemory s) d 0)"
      using walk_new [OF pt [unfolded Cons] False] by blast
    then show ?thesis using entry [of s' vs'] Cons by auto
  qed
qed

text \<open>The pages \<open>b, ..., b + k - 1\<close> mapped to consecutive frames from \<open>pa\<close> on.\<close>

definition map_range :: "nat \<Rightarrow> nat \<Rightarrow> u32 \<Rightarrow> u32 \<Rightarrow> (nat \<Rightarrow> u32 option) \<Rightarrow> nat \<Rightarrow> u32 option" where
  "map_range b k pa pm f n =
     (if b \<le> n \<and> n < b + k then Some (pa + 4096 * of_nat (n - b) OR pm OR PTE_P) else f n)"

lemma map_range_0 [simp]: "map_range b 0 pa pm f = f"
  by (auto simp: map_range_def fun_eq_iff)

lemma map_range_Suc:
  "map_range (Suc b) k (pa + 4096) pm (f(b := Some (pa OR pm OR PTE_P))) = map_range b (Suc k) pa pm f"
proof
  fix n
  show "map_range (Suc b) k (pa + 4096) pm (f(b := Some (pa OR pm OR PTE_P))) n = map_range b (Suc k) pa pm f n"
  proof (cases "Suc b \<le> n \<and> n < Suc b + k")
    case True
    then have "n - b = Suc (n - Suc b)" by arith
    then have "pa + 4096 + 4096 * of_nat (n - Suc b) = pa + 4096 * of_nat (n - b)" by (simp add: algebra_simps)
    then show ?thesis using True by (simp add: map_range_def)
  qed (auto simp: map_range_def)
qed

lemma present_mapped [simp]: "present (x OR pm OR PTE_P)"
  by (simp add: present_def bit_eq_iff bit_and_iff bit_or_iff bit_1_iff exI [of _ 0])

lemma page_no_next:
  assumes "unat a mod PGSIZE = 0" "Suc (page_no a) < 2 ^ 20"
  shows "page_no (a + 4096) = Suc (page_no a)" "unat (a + 4096) mod PGSIZE = 0"
proof -
  obtain k where k: "unat a = PGSIZE * k" using assms(1) by auto
  then have "unat a + 4096 < 2 ^ 32" using assms(2) by (simp add: page_no_def)
  then have "unat (a + 4096) = unat a + 4096" by (subst unat_add_lem [THEN iffD1]) simp_all
  then show "page_no (a + 4096) = Suc (page_no a)" "unat (a + 4096) mod PGSIZE = 0" using k by (simp_all add: page_no_def)
qed

definition mapped_or_full ::
  "u32 \<Rightarrow> u32 \<Rightarrow> u32 set \<Rightarrow> nat \<Rightarrow> nat \<Rightarrow> u32 \<Rightarrow> u32 \<Rightarrow> 'a kmem_scheme \<Rightarrow> u32 list \<Rightarrow> int \<Rightarrow> 'a kmem_scheme \<Rightarrow> bool" where
  "mapped_or_full kend d U b k pa pm s vs r s' \<longleftrightarrow>
     (\<forall>u. u \<in> U \<longrightarrow> page_eq (kmemory s) (kmemory s') u) \<and>
     (\<exists>vs'. pt_ok kend d U s' vs' \<and> set vs' \<subseteq> set vs \<and> length vs \<le> length vs' + k \<and>
       set vs' \<union> tables (kmemory s') d 0 = set vs \<union> tables (kmemory s) d 0 \<and>
       (r = 0 \<and> lookup (kmemory s') d = map_range b k pa pm (lookup (kmemory s) d) \<or>
        r = - 1 \<and> vs' = [] \<and> length vs < k \<and> (\<exists>j < k. lookup (kmemory s') d = map_range b j pa pm (lookup (kmemory s) d))))"

lemma mapped_step:
  assumes e: "\<And>u. u \<in> U \<Longrightarrow> page_eq (kmemory s) (kmemory s1) u" "set vs1 \<subseteq> set vs \<and> length vs \<le> Suc (length vs1) \<and> set vs1 \<union> tables (kmemory s1) d 0 = set vs \<union> tables (kmemory s) d 0"
      "lookup (kmemory s1) d = (lookup (kmemory s) d)(b := Some (pa OR pm OR PTE_P))"
    and m: "mapped_or_full kend d U (Suc b) k (pa + 4096) pm s1 vs1 r s'"
  shows "mapped_or_full kend d U b (Suc k) pa pm s vs r s'"
proof -
  obtain vs' where v: "pt_ok kend d U s' vs'" "set vs' \<subseteq> set vs1" "length vs1 \<le> length vs' + k \<and> set vs' \<union> tables (kmemory s') d 0 = set vs1 \<union> tables (kmemory s1) d 0"
      "r = 0 \<and> lookup (kmemory s') d = map_range (Suc b) k (pa + 4096) pm (lookup (kmemory s1) d) \<or>
       r = - 1 \<and> vs' = [] \<and> length vs1 < k \<and> (\<exists>j < k. lookup (kmemory s') d = map_range (Suc b) j (pa + 4096) pm (lookup (kmemory s1) d))"
    using m unfolding mapped_or_full_def by blast
  have "\<And>u. u \<in> U \<Longrightarrow> page_eq (kmemory s) (kmemory s') u"
    using m e(1) page_eq_trans unfolding mapped_or_full_def by blast
  moreover have "set vs' \<subseteq> set vs \<and> length vs \<le> length vs' + Suc k \<and>
      set vs' \<union> tables (kmemory s') d 0 = set vs \<union> tables (kmemory s) d 0" using v(2,3) e(2) by auto
  moreover have "length vs1 < k \<Longrightarrow> length vs < Suc k" using e(2) by simp
  then have "r = 0 \<and> lookup (kmemory s') d = map_range b (Suc k) pa pm (lookup (kmemory s) d) \<or>
       r = - 1 \<and> vs' = [] \<and> length vs < Suc k \<and> (\<exists>j < Suc k. lookup (kmemory s') d = map_range b j pa pm (lookup (kmemory s) d))"
    using v(4) Suc_mono unfolding e(3) map_range_Suc by blast
  ultimately show ?thesis using v(1) unfolding mapped_or_full_def by blast
qed

lemma mappages_one:
  assumes pt: "pt_ok kend d U s vs" and free: "lookup (kmemory s) d (page_no a) = None"
  obtains (none) "vs = []" "\<And>k. mappages_loop d a k pa pm s = Ok (- 1, s)"
  | (mapped) s2 vs2 where "pt_ok kend d U s2 vs2" "set vs2 \<subseteq> set vs \<and> length vs \<le> Suc (length vs2) \<and> set vs2 \<union> tables (kmemory s2) d 0 = set vs \<union> tables (kmemory s) d 0"
      "lookup (kmemory s2) d = (lookup (kmemory s) d)(page_no a := Some (pa OR pm OR PTE_P))"
      "\<And>u. u \<in> U \<Longrightarrow> page_eq (kmemory s) (kmemory s2) u"
      "\<And>k. mappages_loop d a k pa pm s =
         (case k of 0 \<Rightarrow> Ok (0, s2) | Suc k \<Rightarrow> mappages_loop d (a + 4096) k (pa + 4096) pm s2)"
  using pt
proof (cases rule: walk_alloc [where va = a])
  case none
  then have "mappages_loop d a k pa pm s = Ok (- 1, s)" for k by (subst mappages_loop.simps) simp
  then show ?thesis using none(1) that(1) by blast
next
  case (entry s1 vs1)
  let ?loc = "of_nat (pte_loc (kmemory s1) d (page_no a)) :: u32"
  let ?s2 = "put_pte ?loc (pa OR pm OR PTE_P) s1"
  note loc = pte_loc_word [OF entry(2) page_no_less entry(5)]
  note p = put_entry [OF entry(2) page_no_less entry(5), where w = "pa OR pm OR PTE_P"]
  have "lookup (kmemory s1) d (page_no a) = None" using free entry(4) by simp
  then have "\<not> present (word_at (kmemory s1) (pte_loc (kmemory s1) d (page_no a)))"
    using entry(5) page_no_less [of a] by (simp add: lookup_def split: if_splits)
  then have np: "load32 (kmemory s1) ?loc AND PTE_P = 0" using loc by (simp add: load32_word_at present_def)
  have nz: "?loc \<noteq> 0" using loc by (metis unat_eq_zero)
  have eq: "mappages_loop d a k pa pm s =
      (case k of 0 \<Rightarrow> Ok (0, ?s2) | Suc k \<Rightarrow> mappages_loop d (a + 4096) k (pa + 4096) pm ?s2)" for k
    by (subst mappages_loop.simps) (simp add: entry(1) np nz split: nat.split)
  have u: "page_eq (kmemory s) (kmemory ?s2) u" if "u \<in> U" for u
    using entry(6) [OF that] p(5) [of u] pt_okD(7) [OF entry(2) that] pt_okD(10) [OF entry(2) page_no_div entry(5)] that
    by (auto intro: page_eq_trans)
  have "lookup (kmemory ?s2) d = (lookup (kmemory s) d)(page_no a := Some (pa OR pm OR PTE_P))"
    unfolding p(2) entry(4) by simp
  moreover have "set vs1 \<subseteq> set vs \<and> length vs \<le> Suc (length vs1) \<and> set vs1 \<union> tables (kmemory ?s2) d 0 = set vs \<union> tables (kmemory s) d 0"
    using entry(3) tables_cong [OF p(4)] by simp
  ultimately show ?thesis by (intro that(2) [OF p(1) _ _ u eq])
qed

lemma mapped_none:
  "pt_ok kend d U s vs \<Longrightarrow> vs = [] \<Longrightarrow> mapped_or_full kend d U b (Suc k) pa pm s vs (- 1) s"
  unfolding mapped_or_full_def by (auto intro!: exI [of _ "[]"] exI [of _ "0 :: nat"])

lemma mappages_loop_spec:
  assumes "pt_ok kend d U s vs" "unat a mod PGSIZE = 0" "page_no a + k < 2 ^ 20"
    "\<And>j. j \<le> k \<Longrightarrow> lookup (kmemory s) d (page_no a + j) = None"
  shows "\<exists>r s'. mappages_loop d a k pa pm s = Ok (r, s') \<and> mapped_or_full kend d U (page_no a) (Suc k) pa pm s vs r s'"
  using assms
proof (induction k arbitrary: a pa s vs)
  case (0 a pa s vs)
  have free: "lookup (kmemory s) d (page_no a) = None" using 0(4) [of 0] by simp
  show ?case
    using 0(1) free
  proof (cases rule: mappages_one [where pa = pa and pm = pm])
    case none
    then show ?thesis using mapped_none 0(1) by blast
  next
    case (mapped s2 vs2)
    have "lookup (kmemory s2) d = map_range (page_no a) (Suc 0) pa pm (lookup (kmemory s) d)"
      unfolding mapped(3) by (auto simp: map_range_def fun_eq_iff)
    then show ?thesis using mapped(1,2,4) unfolding mapped(5) mapped_or_full_def by auto
  qed
next
  case (Suc k a pa s vs)
  have free: "lookup (kmemory s) d (page_no a) = None" using Suc.prems(4) [of 0] by simp
  have nx: "page_no (a + 4096) = Suc (page_no a)" "unat (a + 4096) mod PGSIZE = 0"
    using page_no_next Suc.prems(2,3) by simp_all
  show ?case
    using Suc.prems(1) free
  proof (cases rule: mappages_one [where pa = pa and pm = pm])
    case none
    then show ?thesis using mapped_none Suc.prems(1) by blast
  next
    case (mapped s2 vs2)
    have "lookup (kmemory s2) d (page_no (a + 4096) + j) = None" if "j \<le> k" for j
      using Suc.prems(4) [of "Suc j"] that unfolding mapped(3) nx(1) by simp
    from Suc.IH [OF mapped(1) nx(2) _ this, where pa = "pa + 4096"] Suc.prems(3) nx(1) obtain r s'
      where "mappages_loop d (a + 4096) k (pa + 4096) pm s2 = Ok (r, s')"
        "mapped_or_full kend d U (Suc (page_no a)) (Suc k) (pa + 4096) pm s2 vs2 r s'" by auto
    with mapped_step [OF mapped(4,2,3)] show ?thesis unfolding mapped(5) by auto
  qed
qed

section \<open>Mapping a range\<close>

lemma page_no_PGROUNDDOWN: "page_no (PGROUNDDOWN va) = page_no va" "unat (PGROUNDDOWN va) mod PGSIZE = 0"
  by (simp_all add: page_no_def unat_PGROUNDDOWN)

lemma mappages_loop_eq:
  assumes "page_no va \<le> page_no (va + sz - 1)"
  shows "mappages d va sz pa pm s = mappages_loop d (PGROUNDDOWN va) (page_no (va + sz - 1) - page_no va) pa pm s"
proof -
  let ?a = "PGROUNDDOWN va" and ?l = "PGROUNDDOWN (va + sz - 1)"
  have "unat ?a \<le> unat ?l" using assms by (simp add: unat_PGROUNDDOWN page_no_def)
  then have "unat (?l - ?a) = unat ?l - unat ?a" by (intro unat_sub) (simp add: word_le_nat_alt)
  then have "unat (?l - ?a) = (page_no (va + sz - 1) - page_no va) * PGSIZE"
    by (simp add: unat_PGROUNDDOWN page_no_def diff_mult_distrib)
  then show ?thesis by (simp add: mappages_def Let_def)
qed

lemma mappages_one_page:
  assumes "unat a mod PGSIZE = 0"
  shows "mappages d a 4096 pa pm s = mappages_loop d a 0 pa pm s"
proof -
  have a: "PGROUNDDOWN a = a" using assms by (simp add: word_unat_eq_iff unat_PGROUNDDOWN) auto
  have "unat (a + 4095) = unat a + 4095"
    using aligned_bound [OF assms] by (subst unat_add_lem [THEN iffD1]) simp_all
  moreover obtain k where "unat a = PGSIZE * k" using assms by auto
  ultimately have "page_no (a + 4095) = page_no a" by (simp add: page_no_def)
  then show ?thesis using mappages_loop_eq [of a 4096 d pa pm s] by (simp add: a add.commute)
qed

section \<open>Returning pages\<close>

lemma kfree_mem:
  assumes "kfree kend v s = Ok s'"
  shows "\<not> in_page v x \<Longrightarrow> kmemory s' x = kmemory s x"
  using assms by (auto simp: kfree_def Let_def in_page_def store32_other memset_apply split: if_splits)

lemma pt_kfree:
  assumes pt: "pt_ok kend d U s vs" and f: "f \<in> U"
  obtains s' where "kfree kend f s = Ok s'" "pt_ok kend d (U - {f}) s' (f # vs)" "lookup (kmemory s') d = lookup (kmemory s) d"
    "page_eq (kmemory s) (kmemory s') d" "\<And>u. page_ok kend u \<Longrightarrow> u \<noteq> f \<Longrightarrow> page_eq (kmemory s) (kmemory s') u"
proof -
  have ok: "page_ok kend f" and nf: "f \<notin> set vs" "f \<noteq> d" using pt_okD(5-7) [OF pt] f by auto
  obtain s' where s': "kfree kend f s = Ok s'" "avail kend s' (f # vs)" using avail_kfree [OF pt_okD(2) [OF pt] ok nf(1)] by blast
  have other: "page_eq (kmemory s) (kmemory s') u" if "page_ok kend u" "u \<noteq> f" for u
    using that ok kfree_mem [OF s'(1)] by (intro page_eq_write [of f]) (auto dest: page_ok_mod)
  then have d: "page_eq (kmemory s) (kmemory s') d" using pt_okD(3) [OF pt] nf by blast
  have tab: "page_ok kend (frame (pde_at (kmemory s) d i))" "frame (pde_at (kmemory s) d i) \<noteq> f"
    "frame (pde_at (kmemory s) d i) \<notin> set vs \<union> U"
    if "i < 1024" "present (pde_at (kmemory s) d i)" for i
    using pt_okD(9,10) [OF pt that] f by auto
  have "pt_ok kend d (U - {f}) s' (f # vs)"
    using pt_okD(4-7) [OF pt] nf tab d by (intro pt_ok_frame [OF pt s'(2)]) auto
  moreover have "lookup (kmemory s') d = lookup (kmemory s) d" using tab by (intro lookup_cong d other)
  ultimately show ?thesis using that s'(1) d other by blast
qed

text \<open>The frames of the pages \<open>lo, ..., hi - 1\<close>; a range is clean when they are different pages of \<open>U\<close>.\<close>

definition frames :: "(nat \<Rightarrow> u32 option) \<Rightarrow> nat \<Rightarrow> nat \<Rightarrow> u32 set" where
  "frames f lo hi = {frame e |n e. lo \<le> n \<and> n < hi \<and> f n = Some e}"

definition owns :: "u32 set \<Rightarrow> (nat \<Rightarrow> u32 option) \<Rightarrow> nat \<Rightarrow> nat \<Rightarrow> bool" where
  "owns U f lo hi \<longleftrightarrow> frames f lo hi \<subseteq> U \<and>
     (\<forall>n n' e e'. lo \<le> n \<longrightarrow> n < hi \<longrightarrow> lo \<le> n' \<longrightarrow> n' < hi \<longrightarrow> f n = Some e \<longrightarrow> f n' = Some e' \<longrightarrow>
        frame e = frame e' \<longrightarrow> n = n')"

definition unmap :: "nat \<Rightarrow> nat \<Rightarrow> (nat \<Rightarrow> u32 option) \<Rightarrow> nat \<Rightarrow> u32 option" where
  "unmap lo hi f n = (if lo \<le> n \<and> n < hi then None else f n)"

lemma frames_empty [simp]: "hi \<le> lo \<Longrightarrow> frames f lo hi = {}"
  by (auto simp: frames_def)

lemma unmap_empty [simp]: "hi \<le> lo \<Longrightarrow> unmap lo hi f = f"
  by (auto simp: unmap_def fun_eq_iff)

lemma skip_unmapped:
  assumes "\<And>n. lo \<le> n \<Longrightarrow> n < mid \<Longrightarrow> f n = None" "lo \<le> mid"
  shows "frames f lo hi = frames f mid hi" "unmap lo hi f = unmap mid hi f" "owns U f lo hi = owns U f mid hi"
proof -
  have m: "mid \<le> n" if "lo \<le> n" "n < hi" "f n = Some e" for n e
    using assms(1) [of n] that by (metis not_less option.distinct(1))
  then have "n \<in> {lo..<hi} \<and> f n = Some e \<longleftrightarrow> n \<in> {mid..<hi} \<and> f n = Some e" for n e using assms(2) by auto
  then show F: "frames f lo hi = frames f mid hi" unfolding frames_def by simp
  have "unmap lo hi f n = unmap mid hi f n" for n
    using m [of n] assms(2) by (cases "f n") (auto simp: unmap_def)
  then show "unmap lo hi f = unmap mid hi f" by auto
  show "owns U f lo hi = owns U f mid hi"
    unfolding owns_def F using m assms(2) by (meson order_trans)
qed

lemma split_mapped:
  assumes e: "f lo = Some e" "lo < hi" and own: "owns U f lo hi"
  shows "frame e \<in> U" "frames f lo hi = insert (frame e) (frames (f(lo := None)) (Suc lo) hi)"
    "frame e \<notin> frames (f(lo := None)) (Suc lo) hi"
    "unmap lo hi f = unmap (Suc lo) hi (f(lo := None))" "owns (U - {frame e}) (f(lo := None)) (Suc lo) hi"
proof -
  have "n \<in> {Suc lo..<hi} \<and> (f(lo := None)) n = Some e \<longleftrightarrow> n \<in> {Suc lo..<hi} \<and> f n = Some e" for n e by auto
  then have r: "frames (f(lo := None)) (Suc lo) hi = frames f (Suc lo) hi" unfolding frames_def by simp
  show "frame e \<in> U" using own e unfolding owns_def frames_def by auto
  show F: "frames f lo hi = insert (frame e) (frames (f(lo := None)) (Suc lo) hi)"
    using e unfolding r by (auto simp: frames_def Suc_le_eq) (metis le_neq_implies_less option.inject, metis less_imp_le)
  have ne: "frame e' \<noteq> frame e" if "Suc lo \<le> n" "n < hi" "f n = Some e'" for n e'
    using own e that unfolding owns_def by (metis Suc_leD not_less_eq_eq order_refl)
  then show nf: "frame e \<notin> frames (f(lo := None)) (Suc lo) hi" unfolding r by (force simp: frames_def)
  show "unmap lo hi f = unmap (Suc lo) hi (f(lo := None))" using e(2) by (auto simp: unmap_def fun_eq_iff)
  have "frames (f(lo := None)) (Suc lo) hi \<subseteq> U - {frame e}" using own F nf unfolding owns_def by auto
  then show "owns (U - {frame e}) (f(lo := None)) (Suc lo) hi"
    using own unfolding owns_def by (auto simp: Suc_le_eq)
qed

lemma of_nat_page:
  assumes "a < 2 ^ 32"
  shows "page_no (of_nat a) = a div PGSIZE" "unat (of_nat a :: u32) = a"
  using assms by (simp_all add: page_no_def unsigned_of_nat take_bit_nat_eq_self)

text \<open>\<open>released\<close>: the pages \<open>lo, ..., hi - 1\<close> are unmapped and their frames are on the free list.\<close>

definition released ::
  "u32 \<Rightarrow> u32 \<Rightarrow> u32 set \<Rightarrow> nat \<Rightarrow> nat \<Rightarrow> 'a kmem_scheme \<Rightarrow> u32 list \<Rightarrow> 'a kmem_scheme \<Rightarrow> u32 list \<Rightarrow> bool" where
  "released kend d U lo hi s vs s' vs' \<longleftrightarrow>
     pt_ok kend d (U - frames (lookup (kmemory s) d) lo hi) s' vs' \<and>
     set vs' = set vs \<union> frames (lookup (kmemory s) d) lo hi \<and>
     lookup (kmemory s') d = unmap lo hi (lookup (kmemory s) d) \<and>
     page_eq (kmemory s) (kmemory s') d \<and>
     (\<forall>u. u \<in> U - frames (lookup (kmemory s) d) lo hi \<longrightarrow> page_eq (kmemory s) (kmemory s') u)"

lemma dealloc_free_page:
  assumes pt: "pt_ok kend d U s vs" and a: "a < 2 ^ 32" "a mod PGSIZE = 0"
    and e: "lookup (kmemory s) d (a div PGSIZE) = Some e" and f: "frame e \<in> U"
  obtains s1 s2 where "kfree kend (frame e) s = Ok s1"
    "fst (walkpgdir d (of_nat a) False s) = of_nat (pte_loc (kmemory s) d (a div PGSIZE))"
    "load32 (kmemory s) (of_nat (pte_loc (kmemory s) d (a div PGSIZE))) = e"
    "of_nat (pte_loc (kmemory s) d (a div PGSIZE)) \<noteq> (0 :: u32)" "PTE_ADDR e \<noteq> 0" "present e"
    "s2 = put_pte (of_nat (pte_loc (kmemory s) d (a div PGSIZE))) 0 s1"
    "pt_ok kend d (U - {frame e}) s2 (frame e # vs)"
    "lookup (kmemory s2) d = (lookup (kmemory s) d)(a div PGSIZE := None)"
    "page_eq (kmemory s) (kmemory s2) d" "\<And>u. u \<in> U - {frame e} \<Longrightarrow> page_eq (kmemory s) (kmemory s2) u"
proof -
  let ?n = "a div PGSIZE"
  have n: "?n < 2 ^ 20" "present (pde_at (kmemory s) d (?n div 1024))" "present e" "word_at (kmemory s) (pte_loc (kmemory s) d ?n) = e"
    using e by (auto simp: lookup_def split: if_splits)
  note loc = pte_loc_word [OF pt n(1,2)]
  note pn = of_nat_page [OF a(1)]
  obtain s1 where s1: "kfree kend (frame e) s = Ok s1" "pt_ok kend d (U - {frame e}) s1 (frame e # vs)"
    "lookup (kmemory s1) d = lookup (kmemory s) d" "page_eq (kmemory s) (kmemory s1) d"
    "\<And>u. page_ok kend u \<Longrightarrow> u \<noteq> frame e \<Longrightarrow> page_eq (kmemory s) (kmemory s1) u"
    using pt_kfree [OF pt f] by blast
  have i: "?n div 1024 < 1024" using n(1) by simp
  have pde: "pde_at (kmemory s1) d (?n div 1024) = pde_at (kmemory s) d (?n div 1024)" using pde_cong [OF s1(4) i] .
  then have l1: "pte_loc (kmemory s1) d ?n = pte_loc (kmemory s) d ?n" by (simp add: pte_loc_def)
  have n1: "present (pde_at (kmemory s1) d (?n div 1024))" using n(2) pde by simp
  define s2 where "s2 = put_pte (of_nat (pte_loc (kmemory s) d ?n)) 0 s1"
  note p = put_entry [OF s1(2) n(1) n1, where w = 0, unfolded l1, folded s2_def]
  have t: "frame (pde_at (kmemory s1) d (?n div 1024)) \<notin> U" using pt_okD(10) [OF pt i n(2)] unfolding pde by blast
  have "page_eq (kmemory s) (kmemory s2) u" if u: "u \<in> U - {frame e}" for u
  proof -
    have ok: "page_ok kend u" using pt_okD(7) [OF pt] u by blast
    have "u \<noteq> frame (pde_at (kmemory s1) d (?n div 1024))" using t u by auto
    then show ?thesis using page_eq_trans [OF s1(5) [OF ok] p(5) [OF ok]] u by blast
  qed
  moreover have "walkpgdir d (of_nat a) False s = (of_nat (pte_loc (kmemory s) d ?n), s)"
    using walk_found [OF pt, of "of_nat a" False] n(2) unfolding pn by simp
  moreover have "PTE_ADDR e \<noteq> 0"
    using pt_okD(1) [OF pt] pt_okD(7) [OF pt f] by (auto simp: frame_def P2V_def page_ok_def)
  moreover have "lookup (kmemory s2) d = (lookup (kmemory s) d)(?n := None)" using p(2) s1(3) by (simp add: present_def)
  ultimately show ?thesis
    using that [OF s1(1) _ _ _ _ n(3) s2_def p(1)] loc n(4) page_eq_trans [OF s1(4) p(4)]
    by (metis fst_conv load32_word_at unat_eq_zero)
qed

lemma released_step:
  assumes e: "lookup (kmemory s) d lo = Some e" "lo < hi" and own: "owns U (lookup (kmemory s) d) lo hi"
    and s2: "lookup (kmemory s2) d = (lookup (kmemory s) d)(lo := None)" "page_eq (kmemory s) (kmemory s2) d"
      "\<And>u. u \<in> U - {frame e} \<Longrightarrow> page_eq (kmemory s) (kmemory s2) u"
    and r: "released kend d (U - {frame e}) (Suc lo) hi s2 (frame e # vs) s' vs'"
  shows "released kend d U lo hi s vs s' vs'"
proof -
  note sp = split_mapped [OF e own]
  have F: "frames (lookup (kmemory s) d) lo hi = insert (frame e) (frames (lookup (kmemory s2) d) (Suc lo) hi)"
    using sp(2) s2(1) by simp
  have "U - frames (lookup (kmemory s) d) lo hi = U - {frame e} - frames (lookup (kmemory s2) d) (Suc lo) hi"
    unfolding F by blast
  then show ?thesis
    using r sp(4) s2(1) page_eq_trans [OF s2(2)] page_eq_trans [OF s2(3)] unfolding released_def F by auto
qed

lemma page_count: "a mod PGSIZE = 0 \<Longrightarrow> a < sz \<longleftrightarrow> a div PGSIZE < (sz + 4095) div PGSIZE"
  for a sz :: nat
proof -
  assume "a mod PGSIZE = 0"
  then obtain k where "a = PGSIZE * k" by auto
  then show ?thesis by (simp add: less_eq_div_iff_mult_less_eq Suc_le_eq [symmetric] add.commute) arith
qed

lemma next_table:
  assumes "a mod PGSIZE = 0"
  defines "b \<equiv> (a div 2 ^ 22 + 1) * 2 ^ 22"
  shows "b mod PGSIZE = 0" "a < b" "a div PGSIZE \<le> b div PGSIZE" "\<And>n. a div PGSIZE \<le> n \<Longrightarrow> n < b div PGSIZE \<Longrightarrow> n div 1024 = a div PGSIZE div 1024"
proof -
  have b: "b = PGSIZE * (1024 * (a div 2 ^ 22 + 1))" by (simp add: b_def)
  show "b mod PGSIZE = 0" unfolding b by simp
  show lt: "a < b" unfolding b_def by (rule next_pde_above)
  then show "a div PGSIZE \<le> b div PGSIZE" by (intro div_le_mono) simp
  have q: "a div PGSIZE div 1024 = a div 2 ^ 22" by (simp add: div_mult2_eq [symmetric])
  have bd: "b div PGSIZE = 1024 * (a div 2 ^ 22 + 1)" unfolding b by simp
  fix n
  assume n: "a div PGSIZE \<le> n" "n < b div PGSIZE"
  have "a div PGSIZE div 1024 \<le> n div 1024" using n(1) by (rule div_le_mono)
  moreover have "n div 1024 < a div 2 ^ 22 + 1" using n(2) unfolding bd by (simp add: div_less_iff_less_mult mult.commute)
  ultimately show "n div 1024 = a div PGSIZE div 1024" unfolding q by simp
qed

text \<open>The loop of \<open>deallocuvm\<close> unmaps the pages from \<open>a\<close> to \<open>oldsz\<close> and frees their frames.\<close>

lemma deallocuvm_loop_spec:
  assumes "pt_ok kend d U s vs" "a mod PGSIZE = 0" "oldsz \<le> 2 ^ 31"
    "owns U (lookup (kmemory s) d) (a div PGSIZE) ((oldsz + 4095) div PGSIZE)"
  shows "\<exists>s' vs'. deallocuvm_loop kend d a oldsz s = Ok s' \<and>
    released kend d U (a div PGSIZE) ((oldsz + 4095) div PGSIZE) s vs s' vs'"
  using assms
proof (induction "oldsz - a" arbitrary: a s vs U rule: less_induct)
  case (less a s vs U)
  let ?N = "(oldsz + 4095) div PGSIZE" and ?n = "a div PGSIZE" and ?f = "lookup (kmemory s) d"
  note pt = less.prems(1)
  have d: "unat d mod PGSIZE = 0" using pt_okD(3) [OF pt] by (rule page_ok_mod)
  show ?case
  proof (cases "a < oldsz")
    case False
    then have "?N \<le> ?n" using page_count [OF less.prems(2), of oldsz] by simp
    then show ?thesis using False pt by (subst deallocuvm_loop.simps) (auto simp: released_def)
  next
    case True
    then have a: "a < 2 ^ 32" and N: "?n < ?N" using less.prems(3) page_count [OF less.prems(2), of oldsz] by simp_all
    note pn = of_nat_page [OF a]
    show ?thesis
    proof (cases "present (pde_at (kmemory s) d (?n div 1024))")
      case False
      let ?b = "(a div 2 ^ 22 + 1) * 2 ^ 22"
      note nt = next_table [OF less.prems(2)]
      have eq: "deallocuvm_loop kend d a oldsz s = deallocuvm_loop kend d ?b oldsz s"
        using True walk_missing [OF d, of s "of_nat a"] False
        by (subst deallocuvm_loop.simps) (simp add: pn Let_def)
      have "?f n = None" if "?n \<le> n" "n < ?b div PGSIZE" for n
        using nt(4) [OF that] False by (simp add: lookup_def)
      from this nt(3) have sk: "frames ?f ?n ?N = frames ?f (?b div PGSIZE) ?N" "unmap ?n ?N ?f = unmap (?b div PGSIZE) ?N ?f"
        "owns U ?f ?n ?N = owns U ?f (?b div PGSIZE) ?N" by (rule skip_unmapped; blast)+
      have "oldsz - ?b < oldsz - a" using True nt(2) by (rule diff_less_mono2 [rotated])
      from less.hyps [OF this pt nt(1) less.prems(3) less.prems(4) [unfolded sk(3)]] show ?thesis
        unfolding eq by (simp only: released_def sk)
    next
      case present: True
      show ?thesis
      proof (cases "?f ?n")
        case None
        have walk: "walkpgdir d (of_nat a) False s = (of_nat (pte_loc (kmemory s) d ?n), s)"
          using walk_found [OF pt, of "of_nat a" False] present unfolding pn by simp
        have n20: "?n < 2 ^ 20" using a by (simp add: div_less_iff_less_mult)
        note loc = pte_loc_word [OF pt n20 present]
        have "\<not> Paging.present (word_at (kmemory s) (pte_loc (kmemory s) d ?n))"
          using None present n20 by (simp add: lookup_def split: if_splits)
        moreover have "of_nat (pte_loc (kmemory s) d ?n) \<noteq> (0 :: u32)" using loc by (metis unat_eq_zero)
        ultimately have eq: "deallocuvm_loop kend d a oldsz s = deallocuvm_loop kend d (a + PGSIZE) oldsz s"
          using True walk loc by (subst deallocuvm_loop.simps) (simp add: Let_def load32_word_at present_def)
        have "?f n = None" if "?n \<le> n" "n < Suc ?n" for n using None that by (metis le_neq_implies_less not_less_eq)
        from this le_SucI [OF order_refl] have sk: "frames ?f ?n ?N = frames ?f (Suc ?n) ?N" "unmap ?n ?N ?f = unmap (Suc ?n) ?N ?f"
          "owns U ?f ?n ?N = owns U ?f (Suc ?n) ?N" by (rule skip_unmapped; blast)+
        have a': "oldsz - (a + PGSIZE) < oldsz - a" "(a + PGSIZE) mod PGSIZE = 0" "(a + PGSIZE) div PGSIZE = Suc ?n"
          using True less.prems(2) by simp_all
        from less.hyps [OF a'(1) pt a'(2) less.prems(3)] less.prems(4) show ?thesis
          unfolding eq a'(3) by (simp only: released_def sk)
      next
        case (Some e)
        have "frame e \<in> U" using split_mapped(1) [OF Some N less.prems(4)] .
        then obtain s1 s2 where fp: "kfree kend (frame e) s = Ok s1"
            "fst (walkpgdir d (of_nat a) False s) = of_nat (pte_loc (kmemory s) d ?n)"
            "load32 (kmemory s) (of_nat (pte_loc (kmemory s) d ?n)) = e"
            "of_nat (pte_loc (kmemory s) d ?n) \<noteq> (0 :: u32)" "PTE_ADDR e \<noteq> 0" "Paging.present e"
            "s2 = put_pte (of_nat (pte_loc (kmemory s) d ?n)) 0 s1"
            "pt_ok kend d (U - {frame e}) s2 (frame e # vs)" "lookup (kmemory s2) d = ?f(?n := None)"
            "page_eq (kmemory s) (kmemory s2) d" "\<And>u. u \<in> U - {frame e} \<Longrightarrow> page_eq (kmemory s) (kmemory s2) u"
          using dealloc_free_page [OF pt a less.prems(2) Some] by metis
        have eq: "deallocuvm_loop kend d a oldsz s = deallocuvm_loop kend d (a + PGSIZE) oldsz s2"
          using True fp(1-6) by (subst deallocuvm_loop.simps) (simp add: Let_def present_def frame_def fp(7))
        have own: "owns (U - {frame e}) (lookup (kmemory s2) d) (Suc ?n) ?N"
          using split_mapped(5) [OF Some N less.prems(4)] fp(9) by simp
        have "oldsz - (a + PGSIZE) < oldsz - a" using True by simp
        from less.hyps [OF this fp(8) _ less.prems(3)] less.prems(2) own
        obtain s' vs' where "deallocuvm_loop kend d (a + PGSIZE) oldsz s2 = Ok s'"
          "released kend d (U - {frame e}) (Suc ?n) ?N s2 (frame e # vs) s' vs'" by auto
        with released_step [OF Some N less.prems(4) fp(9-11)] show ?thesis unfolding eq by blast
      qed
    qed
  qed
qed

section \<open>Growing\<close>

definition npages :: "u32 \<Rightarrow> nat" where
  "npages sz = (unat sz + 4095) div PGSIZE"

lemma npages_PGROUNDUP: "unat sz \<le> 2 ^ 31 \<Longrightarrow> unat (PGROUNDUP sz) = npages sz * PGSIZE"
  by (subst unat_PGROUNDUP) (simp_all add: npages_def)

lemma npages_mono: "sz \<le> sz' \<Longrightarrow> npages sz \<le> npages sz'"
  by (simp add: npages_def word_le_nat_alt div_le_mono)

lemma deallocuvm_spec:
  assumes pt: "pt_ok kend d U s vs" and sz: "newsz \<le> oldsz" "unat oldsz \<le> 2 ^ 31"
    and own: "owns U (lookup (kmemory s) d) (npages newsz) (npages oldsz)"
  shows "\<exists>s' vs'. deallocuvm kend d oldsz newsz s = Ok (newsz, s') \<and>
    released kend d U (npages newsz) (npages oldsz) s vs s' vs'"
proof (cases "oldsz = newsz")
  case True
  then show ?thesis using pt by (auto simp: deallocuvm_def released_def)
next
  case False
  then have n: "\<not> oldsz \<le> newsz" using sz(1) by simp
  have "unat newsz \<le> 2 ^ 31" using sz by (simp add: word_le_nat_alt)
  then have up: "unat (PGROUNDUP newsz) = npages newsz * PGSIZE" by (rule npages_PGROUNDUP)
  from deallocuvm_loop_spec [OF pt, of "npages newsz * PGSIZE" "unat oldsz"] own sz(2) n show ?thesis
    by (auto simp: deallocuvm_def up npages_def)
qed

text \<open>A page taken from the free list, with any contents.\<close>

lemma pt_take:
  assumes pt: "pt_ok kend d U s vs" and k: "kalloc s = (v, s1)" "v \<noteq> 0"
    and m': "\<And>x. \<not> in_page v x \<Longrightarrow> m' x = kmemory s x"
  obtains vs1 where "vs = v # vs1" "pt_ok kend d (insert v U) (s1\<lparr>kmemory := m'\<rparr>) vs1" "v \<notin> U" "page_ok kend v"
    "lookup m' d = lookup (kmemory s) d" "page_eq (kmemory s) m' d" "\<And>u. u \<in> U \<Longrightarrow> page_eq (kmemory s) m' u"
proof -
  obtain vs1 where vs: "vs = v # vs1" "avail kend s1 vs1" "kmemory s1 = kmemory s"
    using pt_okD(2) [OF pt] k by (cases vs) (auto simp: avail_def kalloc_def Let_def)
  have v: "page_ok kend v" "v \<notin> set vs1" "v \<notin> U" "v \<noteq> d"
    using pt_okD(2,4,6) [OF pt] unfolding vs(1) avail_def by auto
  have other: "page_eq (kmemory s) m' u" if "page_ok kend u" "u \<noteq> v" for u
    using that v(1) m' by (intro page_eq_write [of v]) (auto dest: page_ok_mod)
  have "page_eq (kmemory s) m' u" if "u \<in> set vs1" for u
    using that v(2) pt_okD(8) [OF pt, of u] vs(1) by (intro other) auto
  then have av: "avail kend (s1\<lparr>kmemory := m'\<rparr>) vs1" using avail_mem [OF vs(2)] vs(3) by simp
  have d: "page_eq (kmemory s) m' d" using other pt_okD(3) [OF pt] v by blast
  have tab: "page_ok kend (frame (pde_at (kmemory s) d i))" "frame (pde_at (kmemory s) d i) \<noteq> v"
    "frame (pde_at (kmemory s) d i) \<notin> set vs1 \<union> U"
    if "i < 1024" "present (pde_at (kmemory s) d i)" for i
    using pt_okD(9,10) [OF pt that] vs(1) by auto
  have "lookup m' d = lookup (kmemory s) d" using tab by (intro lookup_cong d other)
  moreover have "pt_ok kend d (insert v U) (s1\<lparr>kmemory := m'\<rparr>) vs1"
    using pt_okD(4-7) [OF pt] v tab d vs(1) by (intro pt_ok_frame [OF pt av]) auto
  moreover have "page_eq (kmemory s) m' u" if "u \<in> U" for u using other pt_okD(7) [OF pt that] that v(3) by blast
  ultimately show ?thesis using that vs(1) v d by blast
qed

lemma kalloc_none:
  assumes "pt_ok kend d U s vs" "kalloc s = (0, s1)"
  shows "vs = [] \<and> s1 = s"
  using pt_okD(2) [OF assms(1)] assms(2) by (cases vs) (auto simp: avail_def kalloc_def Let_def split: if_splits)

text \<open>The pages \<open>lo, ..., hi - 1\<close> have been mapped to fresh frames \<open>g n\<close>, with flags \<open>fl n\<close> and the bytes \<open>c n\<close>.\<close>

definition filled_by ::
  "(nat \<Rightarrow> u32) \<Rightarrow> (nat \<Rightarrow> nat \<Rightarrow> u8) \<Rightarrow> (nat \<Rightarrow> u32) \<Rightarrow> u32 list \<Rightarrow> u32 \<Rightarrow> u32 \<Rightarrow> u32 set \<Rightarrow> nat \<Rightarrow> nat \<Rightarrow>
   'a kmem_scheme \<Rightarrow> u32 list \<Rightarrow> 'a kmem_scheme \<Rightarrow> bool" where
  "filled_by fl c g vs' kend d U lo hi s vs s' \<longleftrightarrow>
     inj_on g {lo..<hi} \<and> g ` {lo..<hi} \<subseteq> set vs \<and> set vs' \<subseteq> set vs \<and> pt_ok kend d (U \<union> g ` {lo..<hi}) s' vs' \<and>
     set vs' \<union> g ` {lo..<hi} \<union> tables (kmemory s') d 0 = set vs \<union> tables (kmemory s) d 0 \<and>
     (\<forall>n. lookup (kmemory s') d n =
        (if lo \<le> n \<and> n < hi then Some (V2P (g n) OR fl n OR PTE_P) else lookup (kmemory s) d n)) \<and>
     (\<forall>n x. lo \<le> n \<and> n < hi \<and> in_page (g n) x \<longrightarrow> kmemory s' x = c n (x - unat (g n))) \<and>
     (\<forall>u. u \<in> U \<longrightarrow> page_eq (kmemory s) (kmemory s') u)"

definition filled ::
  "(nat \<Rightarrow> u32) \<Rightarrow> (nat \<Rightarrow> nat \<Rightarrow> u8) \<Rightarrow> u32 \<Rightarrow> u32 \<Rightarrow> u32 set \<Rightarrow> nat \<Rightarrow> nat \<Rightarrow>
   'a kmem_scheme \<Rightarrow> u32 list \<Rightarrow> 'a kmem_scheme \<Rightarrow> bool" where
  "filled fl c kend d U lo hi s vs s' \<longleftrightarrow> (\<exists>g vs'. filled_by fl c g vs' kend d U lo hi s vs s')"

text \<open>The pages a growth adds are writable by the user and full of zeros.\<close>

definition grown :: "u32 \<Rightarrow> u32 \<Rightarrow> u32 set \<Rightarrow> nat \<Rightarrow> nat \<Rightarrow> 'a kmem_scheme \<Rightarrow> u32 list \<Rightarrow> 'a kmem_scheme \<Rightarrow> bool" where
  "grown = filled (\<lambda>_. PTE_W OR PTE_U) (\<lambda>_ _. 0)"

text \<open>The pages \<open>lo, ..., hi - 1\<close> are unmapped, their frames given back.\<close>

definition shrunk :: "u32 \<Rightarrow> u32 \<Rightarrow> u32 set \<Rightarrow> nat \<Rightarrow> nat \<Rightarrow> 'a kmem_scheme \<Rightarrow> u32 list \<Rightarrow> 'a kmem_scheme \<Rightarrow> bool" where
  "shrunk kend d U lo hi s vs s' \<longleftrightarrow> (\<exists>vs'.
     pt_ok kend d (U - frames (lookup (kmemory s) d) lo hi) s' vs' \<and>
     set vs' \<subseteq> set vs \<union> frames (lookup (kmemory s) d) lo hi \<and>
     set vs' \<union> tables (kmemory s') d 0 = set vs \<union> frames (lookup (kmemory s) d) lo hi \<union> tables (kmemory s) d 0 \<and>
     lookup (kmemory s') d = unmap lo hi (lookup (kmemory s) d) \<and>
     (\<forall>u. u \<in> U - frames (lookup (kmemory s) d) lo hi \<longrightarrow> page_eq (kmemory s) (kmemory s') u))"

lemma filled_refl: "pt_ok kend d U s vs \<Longrightarrow> hi \<le> lo \<Longrightarrow> filled fl c kend d U lo hi s vs s"
  unfolding filled_def filled_by_def by (auto intro!: exI [of _ "\<lambda>_. 0"])

lemma filled_byD:
  assumes "filled_by fl c g vs' kend d U lo hi s vs s'"
  shows "inj_on g {lo..<hi}" "g ` {lo..<hi} \<subseteq> set vs" "set vs' \<subseteq> set vs" "pt_ok kend d (U \<union> g ` {lo..<hi}) s' vs'"
    "set vs' \<union> g ` {lo..<hi} \<union> tables (kmemory s') d 0 = set vs \<union> tables (kmemory s) d 0"
    "\<forall>n. lookup (kmemory s') d n = (if lo \<le> n \<and> n < hi then Some (V2P (g n) OR fl n OR PTE_P) else lookup (kmemory s) d n)"
    "\<forall>n x. lo \<le> n \<and> n < hi \<and> in_page (g n) x \<longrightarrow> kmemory s' x = c n (x - unat (g n))"
    "\<forall>u. u \<in> U \<longrightarrow> page_eq (kmemory s) (kmemory s') u"
  by (insert assms, unfold filled_by_def, (elim conjE, assumption)+)

lemma filled_step:
  assumes vs: "vs = v # vs1" "v \<notin> set vs1" and l: "lo < hi"
    and sub: "set vs2 \<subseteq> set vs1 \<and> set vs2 \<union> tables (kmemory s2) d 0 = set vs1 \<union> tables (kmemory s) d 0"
    and s2: "lookup (kmemory s2) d = (lookup (kmemory s) d)(lo := Some (V2P v OR fl lo OR PTE_P))"
      "\<And>x. in_page v x \<Longrightarrow> kmemory s2 x = c lo (x - unat v)" "\<And>u. u \<in> U \<Longrightarrow> page_eq (kmemory s) (kmemory s2) u"
    and gr: "filled fl c kend d (insert v U) (Suc lo) hi s2 vs2 s'"
  shows "filled fl c kend d U lo hi s vs s'"
proof -
  obtain g vs' where g: "filled_by fl c g vs' kend d (insert v U) (Suc lo) hi s2 vs2 s'"
    using gr unfolding filled_def by blast
  note g = filled_byD [OF g]
  let ?g = "g(lo := v)"
  have r: "{lo..<hi} = insert lo {Suc lo..<hi}" using l by auto
  have im: "?g ` {lo..<hi} = insert v (g ` {Suc lo..<hi})" unfolding r by auto
  have gsub: "g ` {Suc lo..<hi} \<subseteq> set vs2" "set vs' \<subseteq> set vs2" using g(2,3) .
  have "v \<notin> g ` {Suc lo..<hi}" using gsub vs(2) sub by blast
  then have 1: "inj_on ?g {lo..<hi}" unfolding r using g(1) by (simp add: inj_on_fun_updI)
  have 2: "?g ` {lo..<hi} \<subseteq> set vs" "set vs' \<subseteq> set vs" using gsub sub vs(1) unfolding im by auto
  have "set vs' \<union> g ` {Suc lo..<hi} \<union> tables (kmemory s') d 0 = set vs2 \<union> tables (kmemory s2) d 0" by (rule g(5))
  then have 7: "set vs' \<union> ?g ` {lo..<hi} \<union> tables (kmemory s') d 0 = set vs \<union> tables (kmemory s) d 0"
    using sub vs(1) unfolding im by auto
  have "insert v U \<union> g ` {Suc lo..<hi} = U \<union> ?g ` {lo..<hi}" unfolding im by simp
  then have 3: "pt_ok kend d (U \<union> ?g ` {lo..<hi}) s' vs'" using g(4) by simp
  have "lookup (kmemory s') d n = (if Suc lo \<le> n \<and> n < hi then Some (V2P (g n) OR fl n OR PTE_P) else lookup (kmemory s2) d n)" for n
    using spec [OF g(6)] .
  then have 4: "lookup (kmemory s') d n =
      (if lo \<le> n \<and> n < hi then Some (V2P (?g n) OR fl n OR PTE_P) else lookup (kmemory s) d n)" for n
    using l unfolding s2(1) by (simp add: Suc_le_eq)
  have eq: "page_eq (kmemory s2) (kmemory s') u" if "u \<in> insert v U" for u using g(8) that by blast
  have 5: "kmemory s' x = c n (x - unat (?g n))" if "lo \<le> n \<and> n < hi \<and> in_page (?g n) x" for n x
  proof (cases "n = lo")
    case True
    then show ?thesis using that s2(2) eq [of v] by (simp add: page_eq_def)
  next
    case False
    then have "Suc lo \<le> n \<and> n < hi \<and> in_page (g n) x" using that by simp
    then have "kmemory s' x = c n (x - unat (g n))" using g(7) by blast
    then show ?thesis using False by simp
  qed
  have 6: "page_eq (kmemory s) (kmemory s') u" if "u \<in> U" for u using page_eq_trans [OF s2(3) [OF that] eq] that by blast
  have "filled_by fl c ?g vs' kend d U lo hi s vs s'" unfolding filled_by_def
    by (intro conjI allI impI 1 2 3 4 5 6 7) auto
  then show ?thesis unfolding filled_def by blast
qed

lemma owns_extend:
  assumes "owns U f lo hi" "\<And>n. hi \<le> n \<Longrightarrow> n < hi' \<Longrightarrow> f n = None" "hi \<le> hi'"
  shows "owns U f lo hi'" "frames f lo hi' = frames f lo hi"
proof -
  have m: "n < hi" if "n < hi'" "f n = Some e" for n e
    using assms(2) [of n] that by (metis not_less option.distinct(1))
  then have "lo \<le> n \<and> n < hi' \<and> f n = Some e \<longleftrightarrow> lo \<le> n \<and> n < hi \<and> f n = Some e" for n e using assms(3) by auto
  then show F: "frames f lo hi' = frames f lo hi" unfolding frames_def by simp
  show "owns U f lo hi'" using assms(1) m unfolding owns_def F by blast
qed

lemma owns_new:
  assumes own: "owns U f lo hi" and v: "frame e = v" "v \<notin> U" "lo \<le> hi"
  shows "owns (insert v U) (f(hi := Some e)) lo (Suc hi)" "frames (f(hi := Some e)) lo (Suc hi) = insert v (frames f lo hi)"
proof -
  have c: "lo \<le> n \<and> n < Suc hi \<and> (f(hi := Some e)) n = Some e' \<longleftrightarrow> n = hi \<and> e' = e \<or> lo \<le> n \<and> n < hi \<and> f n = Some e'" for n e'
    using v(3) by auto
  show F: "frames (f(hi := Some e)) lo (Suc hi) = insert v (frames f lo hi)"
    unfolding frames_def c using v(1) by blast
  have fu: "frame e' \<noteq> v" if "lo \<le> n" "n < hi" "f n = Some e'" for n e'
    using own v(2) that unfolding owns_def frames_def by blast
  have "n = n'" if "lo \<le> n \<and> n < Suc hi \<and> (f(hi := Some e)) n = Some e1" "lo \<le> n' \<and> n' < Suc hi \<and> (f(hi := Some e)) n' = Some e2"
    "frame e1 = frame e2" for n n' e1 e2
    using that own fu v(1) unfolding c owns_def by metis
  then show "owns (insert v U) (f(hi := Some e)) lo (Suc hi)"
    using own unfolding owns_def F by blast
qed

lemma released_shrunk:
  "released kend d U lo hi s vs s' vs' \<Longrightarrow> shrunk kend d U lo hi s vs s'"
  using tables_cong [of "kmemory s" "kmemory s'" d 0] unfolding released_def shrunk_def by blast

text \<open>Undoing a growth that has not found enough memory.\<close>

lemma shrunk_undo:
  assumes v: "v \<notin> U" "vs = v # vs1" and sub: "set vs2 \<subseteq> set vs1 \<and> set vs2 \<union> tables (kmemory s2) d 0 = set vs1 \<union> tables (kmemory s) d 0"
    and F: "frames (lookup (kmemory s) d) lo hi \<subseteq> U" "frames (lookup (kmemory s2) d) lo hi = insert v (frames (lookup (kmemory s) d) lo hi)"
      "unmap lo hi (lookup (kmemory s2) d) = unmap lo hi (lookup (kmemory s) d)"
    and eq: "\<And>u. u \<in> U \<Longrightarrow> page_eq (kmemory s) (kmemory s2) u"
    and sh: "shrunk kend d (insert v U) lo hi s2 vs2 s'"
  shows "shrunk kend d U lo hi s vs s'"
proof -
  have U: "insert v U - frames (lookup (kmemory s2) d) lo hi = U - frames (lookup (kmemory s) d) lo hi"
    unfolding F(2) using v(1) by blast
  obtain vs' where vs': "pt_ok kend d (U - frames (lookup (kmemory s) d) lo hi) s' vs'"
      "set vs' \<subseteq> set vs2 \<union> insert v (frames (lookup (kmemory s) d) lo hi) \<and>
       set vs' \<union> tables (kmemory s') d 0 = set vs2 \<union> insert v (frames (lookup (kmemory s) d) lo hi) \<union> tables (kmemory s2) d 0"
      "lookup (kmemory s') d = unmap lo hi (lookup (kmemory s) d)"
      "\<And>u. u \<in> U - frames (lookup (kmemory s) d) lo hi \<Longrightarrow> page_eq (kmemory s2) (kmemory s') u"
    using sh unfolding shrunk_def U F(3) unfolding F(2) by blast
  have "page_eq (kmemory s) (kmemory s') u" if "u \<in> U - frames (lookup (kmemory s) d) lo hi" for u
    using page_eq_trans [OF eq vs'(4) [OF that]] that by blast
  moreover have "set vs' \<subseteq> set vs \<union> frames (lookup (kmemory s) d) lo hi" using vs'(2) v(2) sub by auto
  moreover have "set vs' \<union> tables (kmemory s') d 0 = set vs \<union> frames (lookup (kmemory s) d) lo hi \<union> tables (kmemory s) d 0"
    using vs'(2) v(2) sub by auto
  ultimately show ?thesis using vs'(1,3) unfolding shrunk_def by blast
qed

lemma alloc_map_page:
  assumes pt: "pt_ok kend d U s vs" and k: "kalloc s = (v, s1)" "v \<noteq> 0" and a: "a < 2 ^ 32" "a mod PGSIZE = 0"
    and free: "lookup (kmemory s) d (a div PGSIZE) = None" and m1: "\<forall>x. \<not> in_page v x \<longrightarrow> m1 x = kmemory s x"
  obtains r s2 vs1 vs2 where "mappages d (of_nat a) 4096 (V2P v) pm (set_mem m1 s1) = Ok (r, s2)"
    "vs = v # vs1" "v \<notin> set vs1" "v \<notin> U" "page_ok kend v" "pt_ok kend d (insert v U) s2 vs2"
    "set vs2 \<subseteq> set vs1 \<and> set vs2 \<union> tables (kmemory s2) d 0 = set vs1 \<union> tables (kmemory s) d 0"
    "r = 0 \<and> length vs \<le> length vs2 + 2 \<and> lookup (kmemory s2) d = (lookup (kmemory s) d)(a div PGSIZE := Some (V2P v OR pm OR PTE_P)) \<or>
     r = - 1 \<and> vs2 = [] \<and> length vs < 2 \<and> lookup (kmemory s2) d = lookup (kmemory s) d"
    "\<And>x. in_page v x \<Longrightarrow> kmemory s2 x = m1 x" "\<And>u. u \<in> U \<Longrightarrow> page_eq (kmemory s) (kmemory s2) u"
proof -
  note pn = of_nat_page [OF a(1)]
  obtain vs1 where t: "vs = v # vs1" "pt_ok kend d (insert v U) (s1\<lparr>kmemory := m1\<rparr>) vs1" "v \<notin> U" "page_ok kend v"
      "lookup m1 d = lookup (kmemory s) d" "\<And>u. u \<in> U \<Longrightarrow> page_eq (kmemory s) m1 u" "page_eq (kmemory s) m1 d"
    using pt_take [OF pt k, of m1] m1 by blast
  have nv: "v \<notin> set vs1" using pt_okD(2) [OF pt] t(1) by (simp add: avail_def)
  have "unat (of_nat a :: u32) mod PGSIZE = 0" using pn a(2) by simp
  note al = this mappages_one_page [OF this]
  have "lookup (kmemory (s1\<lparr>kmemory := m1\<rparr>)) d (page_no (of_nat a) + j) = None" if "j \<le> 0" for j :: nat
    using free that t(5) pn by simp
  from mappages_loop_spec [OF t(2) al(1) _ this, where k = 0 and pa = "V2P v" and pm = pm] page_no_less [of "of_nat a"]
  obtain r s2 where m: "mappages d (of_nat a) 4096 (V2P v) pm (s1\<lparr>kmemory := m1\<rparr>) = Ok (r, s2)"
      "mapped_or_full kend d (insert v U) (a div PGSIZE) (Suc 0) (V2P v) pm (s1\<lparr>kmemory := m1\<rparr>) vs1 r s2"
    unfolding al(2) pn by auto
  have one: "map_range (a div PGSIZE) (Suc 0) (V2P v) pm g = g(a div PGSIZE := Some (V2P v OR pm OR PTE_P))" for g
    by (auto simp: map_range_def fun_eq_iff)
  obtain vs2 where "pt_ok kend d (insert v U) s2 vs2"
      "set vs2 \<subseteq> set vs1 \<and> set vs2 \<union> tables (kmemory s2) d 0 = set vs1 \<union> tables (kmemory s) d 0"
      "r = 0 \<and> length vs \<le> length vs2 + 2 \<and> lookup (kmemory s2) d = (lookup m1 d)(a div PGSIZE := Some (V2P v OR pm OR PTE_P)) \<or>
       r = - 1 \<and> vs2 = [] \<and> length vs < 2 \<and> lookup (kmemory s2) d = lookup m1 d"
    using m(2) tables_cong [OF t(7)] unfolding mapped_or_full_def one t(1) by auto
  moreover have eq: "page_eq m1 (kmemory s2) u" if "u \<in> insert v U" for u
    using m(2) that unfolding mapped_or_full_def by auto
  moreover have "kmemory s2 x = m1 x" if "in_page v x" for x using eq [of v] that by (simp add: page_eq_def)
  moreover have "page_eq (kmemory s) (kmemory s2) u" if "u \<in> U" for u using page_eq_trans [OF t(6) [OF that] eq] that by blast
  ultimately show ?thesis using that [OF _ t(1) nv t(3,4)] m(1) t(5) unfolding set_mem_def by metis
qed

text \<open>The page \<open>v\<close> has been allocated but its table has not: the growth is undone and \<open>v\<close> freed.\<close>

lemma undo_page:
  assumes pt: "pt_ok kend d (insert v U) s2 vs2" and v: "v \<notin> U" "vs = v # vs1" "set vs2 \<subseteq> set vs1 \<and> set vs2 \<union> tables (kmemory s2) d 0 = set vs1 \<union> tables (kmemory s) d 0"
    and sz: "oldsz \<le> newsz" "unat newsz \<le> 2 ^ 31"
    and f: "lookup (kmemory s2) d = lookup (kmemory s) d" and own: "owns U (lookup (kmemory s) d) (npages oldsz) (npages newsz)"
    and eq: "\<And>u. u \<in> U \<Longrightarrow> page_eq (kmemory s) (kmemory s2) u"
  shows "\<exists>s3 s4. deallocuvm kend d newsz oldsz s2 = Ok (oldsz, s3) \<and> kfree kend v s3 = Ok s4 \<and>
    shrunk kend d U (npages oldsz) (npages newsz) s vs s4"
proof -
  let ?N = "npages newsz" and ?lo = "npages oldsz" and ?f = "lookup (kmemory s) d"
  let ?F = "frames ?f ?lo ?N"
  have own2: "owns (insert v U) (lookup (kmemory s2) d) ?lo ?N" using own unfolding f owns_def by blast
  obtain s3 vs3 where d: "deallocuvm kend d newsz oldsz s2 = Ok (oldsz, s3)" "released kend d (insert v U) ?lo ?N s2 vs2 s3 vs3"
    using deallocuvm_spec [OF pt sz own2] by blast
  have vF: "v \<notin> ?F" using own v(1) unfolding owns_def by blast
  have rel: "pt_ok kend d (insert v U - ?F) s3 vs3" "set vs3 = set vs2 \<union> ?F" "lookup (kmemory s3) d = unmap ?lo ?N ?f"
    "\<And>u. u \<in> insert v U - ?F \<Longrightarrow> page_eq (kmemory s2) (kmemory s3) u" "page_eq (kmemory s2) (kmemory s3) d"
    using d(2) unfolding released_def f by blast+
  obtain s4 where s4: "kfree kend v s3 = Ok s4" "pt_ok kend d (insert v U - ?F - {v}) s4 (v # vs3)"
    "lookup (kmemory s4) d = lookup (kmemory s3) d" "page_eq (kmemory s3) (kmemory s4) d"
    "\<And>u. page_ok kend u \<Longrightarrow> u \<noteq> v \<Longrightarrow> page_eq (kmemory s3) (kmemory s4) u"
    by (rule pt_kfree [OF rel(1) DiffI [OF insertI1 vF]]) blast
  have U: "insert v U - ?F - {v} = U - ?F" using v(1) by blast
  have "page_eq (kmemory s) (kmemory s4) u" if "u \<in> U - ?F" for u
  proof -
    have u: "u \<in> U" "u \<in> insert v U - ?F" "u \<noteq> v" using that v(1) by auto
    have "page_ok kend u" using pt_okD(7) [OF pt] u(1) by blast
    then show ?thesis by (rule page_eq_trans [OF eq [OF u(1)] page_eq_trans [OF rel(4) [OF u(2)] s4(5) [OF _ u(3)]]])
  qed
  moreover have "set (v # vs3) \<subseteq> set vs \<union> ?F" using rel(2) v(2,3) by auto
  moreover have "tables (kmemory s4) d 0 = tables (kmemory s2) d 0" using tables_cong [OF page_eq_trans [OF rel(5) s4(4)]] .
  then have "set (v # vs3) \<union> tables (kmemory s4) d 0 = set vs \<union> ?F \<union> tables (kmemory s) d 0" using rel(2) v(2,3) by auto
  moreover have "lookup (kmemory s4) d = unmap ?lo ?N ?f" using s4(3) rel(3) by simp
  ultimately have "shrunk kend d U ?lo ?N s vs s4" using s4(2) unfolding shrunk_def U by blast
  then show ?thesis using d(1) s4(1) by blast
qed

text \<open>The page \<open>v\<close> is mapped at \<open>i\<close>, and the growth goes on.\<close>

lemma map_page_then:
  assumes own: "owns U (lookup (kmemory s) d) lo i" and none: "\<And>n. i \<le> n \<Longrightarrow> n < N \<Longrightarrow> lookup (kmemory s) d n = None"
    and i: "lo \<le> i" "i < N" and v: "page_ok kend v" "v \<notin> U" "vs = v # vs1" "v \<notin> set vs1"
      "set vs2 \<subseteq> set vs1 \<and> set vs2 \<union> tables (kmemory s2) d 0 = set vs1 \<union> tables (kmemory s) d 0"
    and f: "lookup (kmemory s2) d = (lookup (kmemory s) d)(i := Some (V2P v OR (PTE_W OR PTE_U) OR PTE_P))"
    and zero: "\<And>x. in_page v x \<Longrightarrow> kmemory s2 x = 0" and eq: "\<And>u. u \<in> U \<Longrightarrow> page_eq (kmemory s) (kmemory s2) u"
  shows "owns (insert v U) (lookup (kmemory s2) d) lo (Suc i)"
    "grown kend d (insert v U) (Suc i) N s2 vs2 s' \<Longrightarrow> grown kend d U i N s vs s'"
    "shrunk kend d (insert v U) lo N s2 vs2 s' \<Longrightarrow> shrunk kend d U lo N s vs s'"
proof -
  let ?f = "lookup (kmemory s) d" and ?f2 = "lookup (kmemory s2) d"
  have "frame (V2P v OR (PTE_W OR PTE_U) OR PTE_P) = v"
    using entry_simps(2) [OF page_ok_mod [OF v(1)], of "PTE_W OR PTE_U"] by (simp add: mask_eq_exp_minus_1)
  note new = owns_new [OF own this v(2) i(1)]
  show own2: "owns (insert v U) ?f2 lo (Suc i)" using new(1) f by simp
  have ext: "owns U ?f lo N" "frames ?f lo N = frames ?f lo i" using owns_extend [OF own] none less_imp_le [OF i(2)] by blast+
  have "?f2 n = None" if "Suc i \<le> n" "n < N" for n using none [of n] that f by simp
  then have "frames ?f2 lo N = frames ?f2 lo (Suc i)" using owns_extend(2) [OF own2] Suc_leI [OF i(2)] by blast
  also have "\<dots> = insert v (frames ?f lo i)" unfolding f by (rule new(2))
  finally have F: "frames ?f2 lo N = insert v (frames ?f lo N)" unfolding ext(2) .
  have un: "unmap lo N ?f2 = unmap lo N ?f" using f i by (auto simp: unmap_def fun_eq_iff)
  have sub: "frames ?f lo N \<subseteq> U" using ext(1) unfolding owns_def by blast
  show "grown kend d U i N s vs s'" if "grown kend d (insert v U) (Suc i) N s2 vs2 s'"
    unfolding grown_def by (rule filled_step [OF v(3,4) i(2) v(5) f _ _ that [unfolded grown_def]]; fact zero eq)
  show "shrunk kend d U lo N s vs s'" if "shrunk kend d (insert v U) lo N s2 vs2 s'"
    by (rule shrunk_undo [OF v(2,3,5) sub F un _ that]; fact eq)
qed

lemma allocuvm_loop_spec:
  assumes "pt_ok kend d U s vs" "a mod PGSIZE = 0" "oldsz \<le> newsz" "unat newsz \<le> 2 ^ 31"
    "npages oldsz \<le> a div PGSIZE" "owns U (lookup (kmemory s) d) (npages oldsz) (a div PGSIZE)"
    "\<And>n. a div PGSIZE \<le> n \<Longrightarrow> n < npages newsz \<Longrightarrow> lookup (kmemory s) d n = None"
  shows "\<exists>r s'. allocuvm_loop kend d oldsz a newsz s = Ok (r, s') \<and>
     (r = newsz \<and> grown kend d U (a div PGSIZE) (npages newsz) s vs s' \<or>
      r = 0 \<and> length vs < 2 * (npages newsz - a div PGSIZE) \<and> shrunk kend d U (npages oldsz) (npages newsz) s vs s')"
  using assms
proof (induction "unat newsz - a" arbitrary: a s vs U rule: less_induct)
  case (less a s vs U)
  let ?N = "npages newsz" and ?i = "a div PGSIZE" and ?lo = "npages oldsz" and ?f = "lookup (kmemory s) d"
  note pt = less.prems(1)
  note count = page_count [OF less.prems(2), of "unat newsz", folded npages_def]
  consider (finished) "\<not> a < unat newsz" | (full) s1 where "a < unat newsz" "kalloc s = (0, s1)"
    | (page) v s1 where "a < unat newsz" "kalloc s = (v, s1)" "v \<noteq> 0" by (cases "kalloc s") blast
  then show ?case
  proof cases
    case finished
    then have "?N \<le> ?i" using count by simp
    then show ?thesis using finished filled_refl [OF pt] by (subst allocuvm_loop.simps) (auto simp: grown_def)
  next
    case (full s1)
    have N: "?i \<le> ?N" using full(1) count by simp
    have own: "owns U ?f ?lo ?N" using owns_extend(1) [OF less.prems(6)] less.prems(7) N by blast
    obtain s' vs' where "deallocuvm kend d newsz oldsz s = Ok (oldsz, s')" "released kend d U ?lo ?N s vs s' vs'"
      using deallocuvm_spec [OF pt less.prems(3,4) own] by blast
    moreover have "s1 = s" "length vs < 2 * (?N - ?i)" using kalloc_none [OF pt full(2)] full(1) count by auto
    ultimately show ?thesis using full by (subst allocuvm_loop.simps) (auto dest: released_shrunk)
  next
    case (page v s1)
    let ?m1 = "memset (kmemory s) (unat v) 0 PGSIZE"
    have N: "?i < ?N" and a: "a < 2 ^ 32" using page(1) count less.prems(4) by simp_all
    have free: "?f ?i = None" using less.prems(7) N by simp
    have m1: "\<forall>x. \<not> in_page v x \<longrightarrow> ?m1 x = kmemory s x" by (auto simp: in_page_def memset_apply)
    have own: "owns U ?f ?lo ?N" using owns_extend(1) [OF less.prems(6)] less.prems(7) less_imp_le [OF N] by blast
    show ?thesis
    proof (cases rule: alloc_map_page [OF pt page(2,3) a less.prems(2) free m1, where pm = "PTE_W OR PTE_U"])
      case m: (1 r s2 vs1 vs2)
      have z: "zero_page v s1 = set_mem ?m1 s1"
        using page(2) by (auto simp: zero_page_def set_mem_def kalloc_def Let_def split: if_splits)
      have eq: "allocuvm_loop kend d oldsz a newsz s =
          (if r < 0 then kbind (deallocuvm kend d newsz oldsz s2) (\<lambda>(_, s). kbind (kfree kend v s) (\<lambda>s. Ok (0, s)))
           else allocuvm_loop kend d oldsz (a + PGSIZE) newsz s2)"
        using page m(1) z by (subst allocuvm_loop.simps) simp
      from m(8) show ?thesis
      proof
        assume r: "r = - 1 \<and> vs2 = [] \<and> length vs < 2 \<and> lookup (kmemory s2) d = ?f"
        from undo_page [OF m(6,4,2,7) less.prems(3,4) conjunct2 [OF conjunct2 [OF conjunct2 [OF r]]] own] m(10) eq r N show ?thesis by auto
      next
        assume r: "r = 0 \<and> length vs \<le> length vs2 + 2 \<and> lookup (kmemory s2) d = ?f(?i := Some (V2P v OR (PTE_W OR PTE_U) OR PTE_P))"
        have zero: "kmemory s2 x = 0" if "in_page v x" for x using m(9) [OF that] that by (simp add: memset_apply in_page_def)
        have a': "unat newsz - (a + PGSIZE) < unat newsz - a" "(a + PGSIZE) mod PGSIZE = 0" "(a + PGSIZE) div PGSIZE = Suc ?i"
          using page(1) less.prems(2) by simp_all
        have "lookup (kmemory s2) d n = None" if "Suc ?i \<le> n" "n < ?N" for n using less.prems(7) [of n] that r by simp
        with less.hyps [OF a'(1) m(6) a'(2) less.prems(3,4), unfolded a'(3), OF le_SucI [OF less.prems(5)]]
          map_page_then(1) [OF less.prems(6,7,5) N m(5,4,2,3,7) conjunct2 [OF conjunct2 [OF r]] zero m(10)]
        obtain r' s' where IH: "allocuvm_loop kend d oldsz (a + PGSIZE) newsz s2 = Ok (r', s')"
          "r' = newsz \<and> grown kend d (insert v U) (Suc ?i) ?N s2 vs2 s' \<or>
           r' = 0 \<and> length vs2 < 2 * (?N - Suc ?i) \<and> shrunk kend d (insert v U) ?lo ?N s2 vs2 s'"
          by blast
        then show ?thesis
          using map_page_then(2,3) [OF less.prems(6,7,5) N m(5,4,2,3,7) conjunct2 [OF conjunct2 [OF r]] zero m(10)] eq r by auto
      qed
    qed
  qed
qed

section \<open>The properties of growing and shrinking\<close>

lemma mappages_remap:
  assumes pt: "pt_ok kend d U s vs" and m: "lookup (kmemory s) d (page_no va) \<noteq> None"
    and r: "page_no va \<le> page_no (va + sz - 1)"
  shows "mappages d va sz pa pm s = Panic ''remap''"
proof -
  let ?a = "PGROUNDDOWN va"
  have p: "page_no ?a = page_no va" by (rule page_no_PGROUNDDOWN)
  have e: "present (pde_at (kmemory s) d (page_no va div 1024))" "present (word_at (kmemory s) (pte_loc (kmemory s) d (page_no va)))"
    using m by (auto simp: lookup_def split: if_splits)
  have "walkpgdir d ?a True s = (of_nat (pte_loc (kmemory s) d (page_no va)), s)"
    using walk_found [OF pt, of ?a True] e(1) p by simp
  moreover note loc = pte_loc_word [OF pt page_no_less e(1)]
  moreover have "of_nat (pte_loc (kmemory s) d (page_no va)) \<noteq> (0 :: u32)" using loc by (metis unat_eq_zero)
  ultimately show ?thesis
    unfolding mappages_loop_eq [OF r] using e(2)
    by (subst mappages_loop.simps) (simp add: load32_word_at present_def)
qed

lemma mappages_spec:
  assumes "pt_ok kend d U s vs" and "page_no va \<le> page_no (va + sz - 1)"
    and free: "\<forall>n. page_no va \<le> n \<and> n \<le> page_no (va + sz - 1) \<longrightarrow> lookup (kmemory s) d n = None"
  shows "\<exists>r s'. mappages d va sz pa pm s = Ok (r, s') \<and>
    mapped_or_full kend d U (page_no va) (page_no (va + sz - 1) - page_no va + 1) pa pm s vs r s'"
proof -
  let ?k = "page_no (va + sz - 1) - page_no va"
  have "lookup (kmemory s) d (page_no (PGROUNDDOWN va) + j) = None" if "j \<le> ?k" for j
    using that assms(2) free by (simp add: page_no_PGROUNDDOWN)
  moreover have "page_no (PGROUNDDOWN va) + ?k < 2 ^ 20"
    using assms(2) page_no_less [of "va + sz - 1"] by (simp add: page_no_PGROUNDDOWN)
  ultimately show ?thesis
    using mappages_loop_spec [OF assms(1) page_no_PGROUNDDOWN(2), of va ?k pa pm]
    unfolding mappages_loop_eq [OF assms(2)] page_no_PGROUNDDOWN(1) by auto
qed

text \<open>An empty page table and two free pages.\<close>

definition pt_demo :: kmem where
  "pt_demo = \<lparr>use_lock = True, freelist = 0x80402000, kmemory = store32 (\<lambda>_. 0) 0x80402000 0x80403000\<rparr>"

lemma word_at_zero [simp]: "word_at (\<lambda>_. 0) a = 0"
  by (simp add: word_at_def bytes_def rd32_def numeral_eq_Suc upt_rec)

lemma pt_demo_pde: "i < 1024 \<Longrightarrow> pde_at (kmemory pt_demo) 0x80400000 i = 0"
  by (simp add: pde_at_def pt_demo_def word_at_store_other)

lemma pt_demo_ok: "pt_ok 0x80100001 0x80400000 {} pt_demo [0x80402000, 0x80403000]"
proof -
  have "run_next (store32 (\<lambda>_. 0) 0x80402000 0x80403000) 0x80402000 = 0x80403000"
    using run_next_store32 [of "\<lambda>_. 0" "0x80402000" "0x80403000"] by simp
  moreover have "run_next (store32 (\<lambda>_. 0) 0x80402000 0x80403000) 0x80403000 = 0"
    using word_at_store_other [of "0x80403000" "0x80402000" "\<lambda>_. 0" "0x80403000"] by (simp add: run_next_def word_at_def [symmetric])
  ultimately show ?thesis
    by (simp add: pt_ok_def pt_demo_pde) (simp add: avail_def pt_demo_def page_ok_def V2P_def present_def)
qed

lemma pt_demo_lookup: "lookup (kmemory pt_demo) 0x80400000 n = None"
  by (simp add: lookup_def pt_demo_pde present_def)

text \<open>C28. \<open>mappages\<close> on a range none of whose pages is mapped never panics. Either it returns 0 and the page
  table maps exactly the pages of the range anew, each to its frame with the permissions asked for, and every
  other page as before; or the allocator has run out of pages, it returns \<open>-1\<close>, no page is free any more and a proper
  prefix of the range has been mapped; this takes fewer free pages than there are pages to map.
  The page table stays well-formed, takes pages only from the free list, and no page of anybody else is written.
  On a range whose first page is mapped already it panics.\<close>

theorem mappages_refines:
  assumes "pt_ok kend d U s vs" and "page_no va \<le> page_no (va + sz - 1)"
  shows "((\<forall>n. page_no va \<le> n \<and> n \<le> page_no (va + sz - 1) \<longrightarrow> lookup (kmemory s) d n = None) \<longrightarrow>
      (\<exists>r s'. mappages d va sz pa pm s = Ok (r, s') \<and>
         mapped_or_full kend d U (page_no va) (page_no (va + sz - 1) - page_no va + 1) pa pm s vs r s')) \<and>
    (lookup (kmemory s) d (page_no va) \<noteq> None \<longrightarrow> mappages d va sz pa pm s = Panic ''remap'')"
  using mappages_spec [OF assms] mappages_remap [OF assms(1) _ assms(2)] by blast

theorem mappages_refines_witness:
  "pt_ok 0x80100001 0x80400000 {} pt_demo [0x80402000, 0x80403000] \<and>
   (\<exists>r s'. mappages 0x80400000 0x1000 0x2000 0x500000 2 pt_demo = Ok (r, s') \<and>
      mapped_or_full 0x80100001 0x80400000 {} 1 2 0x500000 2 pt_demo [0x80402000, 0x80403000] r s')"
proof -
  have p: "page_no 0x1000 = 1" "page_no (0x1000 + 0x2000 - 1) = 2" by (simp_all add: page_no_def)
  show ?thesis
    using mappages_refines [OF pt_demo_ok, of "0x1000" "0x2000" "0x500000" 2] unfolding p by (simp add: pt_demo_ok pt_demo_lookup numeral_2_eq_2)
qed

lemma allocuvm_spec:
  assumes pt: "pt_ok kend d U s vs" and sz: "newsz < KERNBASE" "oldsz \<le> newsz"
    and free: "\<forall>n. npages oldsz \<le> n \<and> n < npages newsz \<longrightarrow> lookup (kmemory s) d n = None"
  shows "\<exists>r s'. allocuvm kend d oldsz newsz s = Ok (r, s') \<and>
        (r = newsz \<and> grown kend d U (npages oldsz) (npages newsz) s vs s' \<or>
         r = 0 \<and> length vs < 2 * (npages newsz - npages oldsz) \<and>
           lookup (kmemory s') d = lookup (kmemory s) d \<and> (\<exists>vs'. pt_ok kend d U s' vs' \<and> set vs' \<subseteq> set vs \<and>
             set vs' \<union> tables (kmemory s') d 0 = set vs \<union> tables (kmemory s) d 0) \<and>
           (\<forall>u. u \<in> U \<longrightarrow> page_eq (kmemory s) (kmemory s') u))"
proof -
  have b: "unat newsz \<le> 2 ^ 31" "unat oldsz \<le> 2 ^ 31" using sz by (simp_all add: word_less_nat_alt word_le_nat_alt)
  let ?a = "npages oldsz * PGSIZE"
  have eq: "allocuvm kend d oldsz newsz s = allocuvm_loop kend d oldsz ?a newsz s"
    using sz npages_PGROUNDUP [OF b(2)] by (auto simp: allocuvm_def dest: leD)
  have none: "frames (lookup (kmemory s) d) (npages oldsz) (npages newsz) = {}"
    "unmap (npages oldsz) (npages newsz) (lookup (kmemory s) d) = lookup (kmemory s) d"
    using free by (auto simp: frames_def unmap_def fun_eq_iff)
  have own: "owns U (lookup (kmemory s) d) (npages oldsz) (npages oldsz)" by (simp add: owns_def)
  have "\<exists>r s'. allocuvm_loop kend d oldsz ?a newsz s = Ok (r, s') \<and>
     (r = newsz \<and> grown kend d U (?a div PGSIZE) (npages newsz) s vs s' \<or>
      r = 0 \<and> length vs < 2 * (npages newsz - ?a div PGSIZE) \<and> shrunk kend d U (npages oldsz) (npages newsz) s vs s')"
    using sz own free by (intro allocuvm_loop_spec [OF pt _ _ b(1)]) simp_all
  then show ?thesis unfolding eq shrunk_def none by auto
qed

lemma allocuvm_enough:
  assumes "pt_ok kend d U s vs" "newsz < KERNBASE" "oldsz \<le> newsz"
    and "\<forall>n. npages oldsz \<le> n \<and> n < npages newsz \<longrightarrow> lookup (kmemory s) d n = None"
    and "2 * (npages newsz - npages oldsz) \<le> length vs"
  shows "\<exists>s'. allocuvm kend d oldsz newsz s = Ok (newsz, s') \<and> grown kend d U (npages oldsz) (npages newsz) s vs s'"
  using allocuvm_spec [OF assms(1-4)] assms(5) by (meson leD)

text \<open>C26. \<open>allocuvm\<close>, which grows a process from \<open>oldsz\<close> to \<open>newsz\<close> over pages not yet mapped, refuses sizes that reach the
  kernel, returns \<open>oldsz\<close> when there is nothing to do, and never panics. Otherwise it maps every new page, each to a frame of its own from
  the free list that is full of zeros, and changes nothing else; or, when memory runs out at any point, it returns 0 and
  everything is undone: the mapping is the one before the call and no page is lost, each being free again or kept as
  a second-level table of the process. Memory cannot run out while
  there are two free pages for each new one.\<close>

theorem allocuvm_all_or_nothing:
  assumes "pt_ok kend d U s vs" and "\<forall>n. npages oldsz \<le> n \<and> n < npages newsz \<longrightarrow> lookup (kmemory s) d n = None"
  shows "(KERNBASE \<le> newsz \<longrightarrow> allocuvm kend d oldsz newsz s = Ok (0, s)) \<and>
    (newsz < KERNBASE \<and> newsz < oldsz \<longrightarrow> allocuvm kend d oldsz newsz s = Ok (oldsz, s)) \<and>
    (newsz < KERNBASE \<and> oldsz \<le> newsz \<longrightarrow>
      (\<exists>r s'. allocuvm kend d oldsz newsz s = Ok (r, s') \<and>
        (r = newsz \<and> grown kend d U (npages oldsz) (npages newsz) s vs s' \<or>
         r = 0 \<and> length vs < 2 * (npages newsz - npages oldsz) \<and>
           lookup (kmemory s') d = lookup (kmemory s) d \<and> (\<exists>vs'. pt_ok kend d U s' vs' \<and> set vs' \<subseteq> set vs \<and>
             set vs' \<union> tables (kmemory s') d 0 = set vs \<union> tables (kmemory s) d 0) \<and>
           (\<forall>u. u \<in> U \<longrightarrow> page_eq (kmemory s) (kmemory s') u))))"
  using allocuvm_spec [OF assms(1) _ _ assms(2)] by (auto simp: allocuvm_def not_less)

theorem allocuvm_all_or_nothing_witness:
  "\<exists>s'. allocuvm 0x80100001 0x80400000 0 0x1000 pt_demo = Ok (0x1000, s') \<and>
     grown 0x80100001 0x80400000 {} 0 1 pt_demo [0x80402000, 0x80403000] s'"
proof -
  have p: "npages 0 = 0" "npages 0x1000 = 1" by (simp_all add: npages_def)
  show ?thesis
    using allocuvm_all_or_nothing [OF pt_demo_ok, of 0 "0x1000"] unfolding p by (auto simp: pt_demo_lookup)
qed

lemma filled_owned:
  assumes "filled_by fl c g vs' kend d U lo hi s vs s'" and fl: "\<And>n. lo \<le> n \<Longrightarrow> n < hi \<Longrightarrow> fl n AND NOT (mask 12) = 0"
  shows "owns (U \<union> g ` {lo..<hi}) (lookup (kmemory s') d) lo hi" "frames (lookup (kmemory s') d) lo hi = g ` {lo..<hi}"
proof -
  let ?e = "\<lambda>n. V2P (g n) OR fl n OR PTE_P"
  have g: "inj_on g {lo..<hi}" "pt_ok kend d (U \<union> g ` {lo..<hi}) s' vs'"
    and l: "\<And>n. lo \<le> n \<Longrightarrow> n < hi \<Longrightarrow> lookup (kmemory s') d n = Some (?e n)"
    using assms(1) unfolding filled_by_def by auto
  have fr: "frame (?e n) = g n" if "lo \<le> n" "n < hi" for n
  proof -
    have "page_ok kend (g n)" using pt_okD(7) [OF g(2), of "g n"] that by auto
    then show ?thesis using entry_simps(2) [OF page_ok_mod fl [OF that]] by blast
  qed
  show F: "frames (lookup (kmemory s') d) lo hi = g ` {lo..<hi}"
  proof (intro equalityI subsetI)
    fix x
    assume "x \<in> frames (lookup (kmemory s') d) lo hi"
    then obtain n e where n: "lo \<le> n" "n < hi" "lookup (kmemory s') d n = Some e" "x = frame e" unfolding frames_def by blast
    then have "x = g n" using l [OF n(1,2)] fr [OF n(1,2)] by simp
    then show "x \<in> g ` {lo..<hi}" using n by auto
  next
    fix x
    assume "x \<in> g ` {lo..<hi}"
    then obtain n where n: "lo \<le> n" "n < hi" "x = g n" by auto
    then show "x \<in> frames (lookup (kmemory s') d) lo hi" unfolding frames_def using l [OF n(1,2)] fr [OF n(1,2)] by force
  qed
  have "n = n'" if "lo \<le> n" "n < hi" "lo \<le> n'" "n' < hi" "lookup (kmemory s') d n = Some e" "lookup (kmemory s') d n' = Some e'"
    "frame e = frame e'" for n n' e e'
    using that l fr g(1) by (auto simp: inj_on_def)
  then show "owns (U \<union> g ` {lo..<hi}) (lookup (kmemory s') d) lo hi" unfolding owns_def F by blast
qed

lemma user_flags: "(PTE_W OR PTE_U :: u32) AND NOT (mask 12) = 0"
  by (simp add: mask_eq_exp_minus_1)

lemmas grown_owned = filled_owned [where fl = "\<lambda>_. PTE_W OR PTE_U" and c = "\<lambda>_ _. 0", OF _ user_flags]



section \<open>User memory as the process sees it\<close>

text \<open>The byte at the virtual address \<open>x\<close>, through the page table \<open>d\<close>.\<close>

definition vbyte :: "mem \<Rightarrow> u32 \<Rightarrow> nat \<Rightarrow> u8 option" where
  "vbyte m d x = map_option (\<lambda>e. m (unat (frame e) + x mod PGSIZE)) (lookup m d (x div PGSIZE))"

definition user_page :: "u32 option \<Rightarrow> bool" where
  "user_page e \<longleftrightarrow> (\<exists>w. e = Some w \<and> w AND PTE_U \<noteq> 0)"

lemma lookup_present:
  assumes "lookup m d n = Some e"
  shows "n < 2 ^ 20" "present (pde_at m d (n div 1024))" "word_at m (pte_loc m d n) = e" "present e"
  using assms by (auto simp: lookup_def split: if_splits)

lemma uva2ka_mapped:
  assumes pt: "pt_ok kend d U s vs" and e: "lookup (kmemory s) d (page_no va) = Some e"
  shows "uva2ka d va s = Ok (if e AND PTE_U = 0 then 0 else frame e)"
proof -
  note l = lookup_present [OF e]
  note loc = pte_loc_word [OF pt l(1,2)]
  have "of_nat (pte_loc (kmemory s) d (page_no va)) \<noteq> (0 :: u32)" using loc by (metis unat_eq_zero)
  then show ?thesis
    using walk_found [OF pt l(2), of False] loc l(3,4)
    by (simp add: uva2ka_def Let_def load32_word_at present_def frame_def)
qed

lemma uva2ka_missing:
  assumes "unat d mod PGSIZE = 0" "\<not> present (pde_at (kmemory s) d (page_no va div 1024))"
  shows "uva2ka d va s = Undef"
  using walk_missing [OF assms] by (simp add: uva2ka_def)

text \<open>A write inside the frame of one page is seen at that page only.\<close>

lemma pt_write_frame:
  assumes pt: "pt_ok kend d U s vs" and f: "f \<in> U" and m': "\<And>x. \<not> in_page f x \<Longrightarrow> m' x = kmemory s x"
  shows "pt_ok kend d U (s\<lparr>kmemory := m'\<rparr>) vs" "lookup m' d = lookup (kmemory s) d"
proof -
  have ok: "page_ok kend f" and nf: "f \<notin> set vs" "f \<noteq> d" using pt_okD(5-7) [OF pt] f by auto
  have other: "page_eq (kmemory s) m' u" if "page_ok kend u" "u \<noteq> f" for u
    using that ok m' by (intro page_eq_write [of f]) (auto dest: page_ok_mod)
  have tab: "page_ok kend (frame (pde_at (kmemory s) d i))" "frame (pde_at (kmemory s) d i) \<noteq> f"
    if "i < 1024" "present (pde_at (kmemory s) d i)" for i
    using pt_okD(9,10) [OF pt that] f by auto
  have d: "page_eq (kmemory s) m' d" using other pt_okD(3) [OF pt] nf by blast
  have "page_eq (kmemory s) m' v" if "v \<in> set vs" for v using that nf pt_okD(8) [OF pt that] by (intro other) auto
  then have av: "avail kend (s\<lparr>kmemory := m'\<rparr>) vs" by (rule avail_mem [OF pt_okD(2) [OF pt]])
  show "pt_ok kend d U (s\<lparr>kmemory := m'\<rparr>) vs"
    using pt_okD(4-7,10) [OF pt] d by (intro pt_ok_frame [OF pt av]) auto
  show "lookup m' d = lookup (kmemory s) d" using tab by (intro lookup_cong d other)
qed

lemma vbyte_write:
  assumes pt: "pt_ok kend d U s vs" and own: "owns U (lookup (kmemory s) d) 0 N"
    and n: "n < N" "lookup (kmemory s) d n = Some e" and o: "off + length bs \<le> PGSIZE" and x: "x < N * PGSIZE"
  defines "m' \<equiv> store_bytes (kmemory s) (unat (frame e) + off) bs"
  shows "vbyte m' d x = (if n * PGSIZE + off \<le> x \<and> x < n * PGSIZE + off + length bs then Some (bs ! (x - (n * PGSIZE + off)))
    else vbyte (kmemory s) d x)"
proof -
  let ?f = "lookup (kmemory s) d"
  have fU: "frame e \<in> U" using own n unfolding owns_def frames_def by blast
  have m': "m' y = kmemory s y" if "\<not> in_page (frame e) y" for y
    using that o unfolding m'_def store_bytes_def in_page_def by auto
  have lk: "lookup m' d = ?f" using pt_write_frame(2) [OF pt fU] m' by blast
  have xn: "x div PGSIZE < N" using x by (simp add: div_less_iff_less_mult)
  have xx: "x = x div PGSIZE * PGSIZE + x mod PGSIZE" by simp
  show ?thesis
  proof (cases "x div PGSIZE = n")
    case True
    then have "x = n * PGSIZE + x mod PGSIZE" using xx by metis
    then have r: "(n * PGSIZE + off \<le> x \<and> x < n * PGSIZE + off + length bs) \<longleftrightarrow> off \<le> x mod PGSIZE \<and> x mod PGSIZE < off + length bs"
      "x - (n * PGSIZE + off) = x mod PGSIZE - off" by linarith+
    show ?thesis unfolding r vbyte_def lk True n(2) by (auto simp: m'_def store_bytes_def)
  next
    case False
    have out: "\<not> (n * PGSIZE + off \<le> x \<and> x < n * PGSIZE + off + length bs)"
    proof
      assume "n * PGSIZE + off \<le> x \<and> x < n * PGSIZE + off + length bs"
      then have "n * PGSIZE \<le> x" "x < (n + 1) * PGSIZE" using o by simp_all
      then have "x div PGSIZE = n" by (intro div_nat_eqI) simp_all
      then show False using False by simp
    qed
    have "m' (unat (frame w) + x mod PGSIZE) = kmemory s (unat (frame w) + x mod PGSIZE)" if w: "?f (x div PGSIZE) = Some w" for w
    proof -
      have "frame w \<noteq> frame e" using own w n xn False unfolding owns_def by blast
      moreover have "frame w \<in> U" using own w xn unfolding owns_def frames_def by blast
      then have ok: "page_ok kend (frame w)" "page_ok kend (frame e)" using pt_okD(7) [OF pt] fU by blast+
      moreover have "in_page (frame w) (unat (frame w) + x mod PGSIZE)" by (simp add: in_page_def)
      ultimately have "\<not> in_page (frame e) (unat (frame w) + x mod PGSIZE)" using pages_disjoint page_ok_mod by metis
      then show ?thesis by (rule m')
    qed
    then show ?thesis unfolding if_not_P [OF out] vbyte_def lk by (cases "?f (x div PGSIZE)") auto
  qed
qed

definition write_view :: "nat \<Rightarrow> u8 list \<Rightarrow> (nat \<Rightarrow> u8 option) \<Rightarrow> nat \<Rightarrow> u8 option" where
  "write_view a bs v x = (if a \<le> x \<and> x < a + length bs then Some (bs ! (x - a)) else v x)"

lemma write_view_Nil [simp]: "write_view a [] v = v"
  by (auto simp: write_view_def fun_eq_iff)

lemma write_view_split:
  assumes "n \<le> length bs" "n < length bs \<Longrightarrow> b = a + n"
  shows "write_view b (drop n bs) (write_view a (take n bs) v) x = write_view a bs v x"
proof (cases "n < length bs")
  case True
  then have b: "b = a + n" by (rule assms(2))
  consider "x < a" | "a \<le> x" "x < a + n" | "a + n \<le> x" "x < a + length bs" | "a + length bs \<le> x" by linarith
  then show ?thesis
  proof cases
    case 3
    then have "drop n bs ! (x - (a + n)) = bs ! (x - a)" by (simp add: add.commute)
    then show ?thesis using 3 assms(1) b by (auto simp: write_view_def)
  qed (use assms(1) b in \<open>auto simp: write_view_def\<close>)
next
  case False
  then have "n = length bs" using assms(1) by simp
  then show ?thesis by simp
qed

lemma copyout_step:
  assumes pt: "pt_ok kend d U s vs" and e: "lookup (kmemory s) d (page_no va) = Some e" "e AND PTE_U \<noteq> 0"
    and f: "frame e \<in> U" and buf: "buf \<noteq> []"
  defines "off \<equiv> unat va mod PGSIZE" and "n \<equiv> min (length buf) (PGSIZE - unat va mod PGSIZE)"
  shows "copyout d va buf s = copyout d (PGROUNDDOWN va + 4096) (drop n buf)
    (s\<lparr>kmemory := store_bytes (kmemory s) (unat (frame e) + off) (take n buf)\<rparr>)"
proof -
  have ok: "page_ok kend (frame e)" using pt_okD(7) [OF pt f] .
  have "unat (frame e + (va - PGROUNDDOWN va)) = unat (frame e) + off"
  proof -
    have "off < PGSIZE" by (simp add: off_def)
    then have "unat (frame e) + unat (va - PGROUNDDOWN va) < 2 ^ 32"
      using aligned_bound [OF page_ok_mod [OF ok]] unfolding va_offset off_def by simp
    then show ?thesis unfolding off_def va_offset [symmetric] by (subst unat_add_lem [THEN iffD1]) simp_all
  qed
  moreover have "uva2ka d (PGROUNDDOWN va) s = Ok (frame e)"
    using uva2ka_mapped [OF pt, of "PGROUNDDOWN va" e] e by (simp add: page_no_PGROUNDDOWN)
  moreover have "frame e \<noteq> 0" using ok by (simp add: page_ok_def)
  ultimately show ?thesis
    using buf by (subst copyout.simps) (simp add: Let_def va_offset n_def set_mem_def)
qed

lemma copyout_spec:
  assumes "pt_ok kend d U s vs" "owns U (lookup (kmemory s) d) 0 N" "N \<le> 2 ^ 19" "unat va + length buf \<le> N * PGSIZE"
    "\<And>n. page_no va \<le> n \<Longrightarrow> n * PGSIZE < unat va + length buf \<Longrightarrow> user_page (lookup (kmemory s) d n)"
  shows "\<exists>s'. copyout d va buf s = Ok (0, s') \<and> pt_ok kend d U s' vs \<and> lookup (kmemory s') d = lookup (kmemory s) d \<and>
    (\<forall>x < N * PGSIZE. vbyte (kmemory s') d x = write_view (unat va) buf (vbyte (kmemory s) d) x)"
  using assms
proof (induction "length buf" arbitrary: va buf s rule: less_induct)
  case (less buf va s)
  show ?case
  proof (cases "buf = []")
    case True
    then show ?thesis using less.prems(1) by (subst copyout.simps) simp
  next
    case False
    note pt = less.prems(1)
    let ?p = "page_no va" and ?off = "unat va mod PGSIZE" and ?n = "min (length buf) (PGSIZE - unat va mod PGSIZE)"
    have va: "unat va = ?p * PGSIZE + ?off" by (simp add: page_no_def)
    have "0 < length buf" using False by simp
    then have lt0: "?p * PGSIZE < unat va + length buf" using va by linarith
    then have "?p * PGSIZE < N * PGSIZE" using less.prems(4) by linarith
    then have pN: "?p < N" by simp
    obtain e where e: "lookup (kmemory s) d ?p = Some e" "e AND PTE_U \<noteq> 0"
      using less.prems(5) [OF order_refl lt0] by (auto simp: user_page_def)
    have f: "frame e \<in> U" using less.prems(2) e(1) pN unfolding owns_def frames_def by blast
    let ?m1 = "store_bytes (kmemory s) (unat (frame e) + ?off) (take ?n buf)"
    let ?s1 = "s\<lparr>kmemory := ?m1\<rparr>" and ?va1 = "PGROUNDDOWN va + 4096" and ?buf1 = "drop ?n buf"
    note st = copyout_step [OF pt e f False]
    have off: "?off < PGSIZE" by simp
    have len: "?off + length (take ?n buf) \<le> PGSIZE" using off by simp
    have m1: "?m1 x = kmemory s x" if "\<not> in_page (frame e) x" for x
      using that len by (auto simp: store_bytes_def in_page_def)
    have pt1: "pt_ok kend d U ?s1 vs" and lk1: "lookup ?m1 d = lookup (kmemory s) d"
      using pt_write_frame [OF pt f, of ?m1] m1 by blast+
    have v1: "vbyte ?m1 d x = write_view (unat va) (take ?n buf) (vbyte (kmemory s) d) x" if "x < N * PGSIZE" for x
      using vbyte_write [OF pt less.prems(2) pN e(1) len that] va unfolding write_view_def by simp
    have up: "unat ?va1 = (?p + 1) * PGSIZE"
    proof -
      have "(?p + 1) * PGSIZE \<le> 2 ^ 31" using pN less.prems(3) by simp
      moreover have "unat (PGROUNDDOWN va) = ?p * PGSIZE" by (simp add: unat_PGROUNDDOWN page_no_def)
      ultimately show ?thesis by (subst unat_add_lem [THEN iffD1]) simp_all
    qed
    have nxt: "?n < length buf \<Longrightarrow> unat ?va1 = unat va + ?n" using up va off by auto
    have p1: "page_no ?va1 = ?p + 1" using up by (simp add: page_no_def)
    have lt: "length ?buf1 < length buf" using False off by simp
    have bound: "unat ?va1 + length ?buf1 \<le> N * PGSIZE"
    proof (cases "?n < length buf")
      case True
      then show ?thesis using nxt less.prems(4) by simp
    next
      case False
      then have "length ?buf1 = 0" by simp
      then show ?thesis using up pN by (metis Suc_eq_plus1 Suc_leI add.right_neutral mult_le_mono1)
    qed
    have user: "user_page (lookup (kmemory ?s1) d n)" if n: "page_no ?va1 \<le> n" "n * PGSIZE < unat ?va1 + length ?buf1" for n
    proof -
      have "?n < length buf"
      proof (rule ccontr)
        assume "\<not> ?n < length buf"
        then have "n * PGSIZE < (?p + 1) * PGSIZE" using n(2) up by simp
        then show False using n(1) p1 by simp
      qed
      then show ?thesis using less.prems(5) [of n] n nxt p1 lk1 by simp
    qed
    have own: "owns U (lookup (kmemory ?s1) d) 0 N" using less.prems(2) lk1 by simp
    have "\<exists>s'. copyout d ?va1 ?buf1 ?s1 = Ok (0, s') \<and> pt_ok kend d U s' vs \<and>
        lookup (kmemory s') d = lookup (kmemory ?s1) d \<and>
        (\<forall>x < N * PGSIZE. vbyte (kmemory s') d x = write_view (unat ?va1) ?buf1 (vbyte (kmemory ?s1) d) x)"
      by (rule less.hyps [OF lt pt1 own less.prems(3) bound user])
    then obtain s' where s': "copyout d ?va1 ?buf1 ?s1 = Ok (0, s')" "pt_ok kend d U s' vs"
      "lookup (kmemory s') d = lookup (kmemory ?s1) d"
      "\<forall>x < N * PGSIZE. vbyte (kmemory s') d x = write_view (unat ?va1) ?buf1 (vbyte (kmemory ?s1) d) x"
      by blast
    have "vbyte (kmemory s') d x = write_view (unat va) buf (vbyte (kmemory s) d) x" if x: "x < N * PGSIZE" for x
    proof -
      have "write_view (unat ?va1) ?buf1 (vbyte (kmemory ?s1) d) x =
          write_view (unat ?va1) ?buf1 (write_view (unat va) (take ?n buf) (vbyte (kmemory s) d)) x"
        using v1 [OF x] unfolding write_view_def by simp
      also have "\<dots> = write_view (unat va) buf (vbyte (kmemory s) d) x"
        using nxt by (intro write_view_split) simp_all
      finally show ?thesis using s'(4) x by simp
    qed
    then show ?thesis using s'(1-3) lk1 st by simp
  qed
qed

lemma uva2ka_absent:
  assumes pt: "pt_ok kend d U s vs" and p: "present (pde_at (kmemory s) d (page_no va div 1024))"
    and n: "lookup (kmemory s) d (page_no va) = None"
  shows "uva2ka d va s = Ok 0"
proof -
  note loc = pte_loc_word [OF pt page_no_less p]
  have "of_nat (pte_loc (kmemory s) d (page_no va)) \<noteq> (0 :: u32)" using loc by (metis unat_eq_zero)
  moreover have "\<not> present (word_at (kmemory s) (pte_loc (kmemory s) d (page_no va)))"
    using n p page_no_less [of va] by (simp add: lookup_def split: if_splits)
  ultimately show ?thesis
    using walk_found [OF pt p, of False] loc by (simp add: uva2ka_def Let_def load32_word_at present_def)
qed

lemma copyout_refused:
  assumes pt: "pt_ok kend d U s vs" and p: "present (pde_at (kmemory s) d (page_no va div 1024))"
    and n: "\<not> user_page (lookup (kmemory s) d (page_no va))" and buf: "buf \<noteq> []"
  shows "copyout d va buf s = Ok (- 1, s)"
proof -
  let ?a = "PGROUNDDOWN va"
  have a: "page_no ?a = page_no va" by (rule page_no_PGROUNDDOWN)
  have "uva2ka d ?a s = Ok 0"
  proof (cases "lookup (kmemory s) d (page_no va)")
    case None
    then show ?thesis using uva2ka_absent [OF pt, of ?a] p a by simp
  next
    case (Some e)
    then show ?thesis using uva2ka_mapped [OF pt, of ?a e] n a by (simp add: user_page_def)
  qed
  then show ?thesis using buf by (subst copyout.simps) (simp add: Let_def)
qed

text \<open>C29. \<open>copyout\<close>, by which the kernel writes into user memory, on a process of \<open>N\<close> pages whose frames are its own. When
  the pages of the destination are mapped for the user, across any number of page boundaries, it returns 0
  and the process sees exactly the bytes of the buffer at the destination and every other byte of its memory
  as before; the mapping does not change. When the first page is not mapped for the user it returns \<open>-1\<close> and writes nothing.
  But when not even a page table exists for the address, \<open>uva2ka\<close> reads through a null pointer.\<close>

theorem copyout_writes:
  assumes "pt_ok kend d U s vs" and "owns U (lookup (kmemory s) d) 0 N" and "N \<le> 2 ^ 19"
    and "unat va + length buf \<le> N * PGSIZE"
  shows "((\<forall>n. page_no va \<le> n \<and> n * PGSIZE < unat va + length buf \<longrightarrow> user_page (lookup (kmemory s) d n)) \<longrightarrow>
      (\<exists>s'. copyout d va buf s = Ok (0, s') \<and> pt_ok kend d U s' vs \<and> lookup (kmemory s') d = lookup (kmemory s) d \<and>
        (\<forall>x < N * PGSIZE. vbyte (kmemory s') d x =
           (if unat va \<le> x \<and> x < unat va + length buf then Some (buf ! (x - unat va)) else vbyte (kmemory s) d x)))) \<and>
    (buf \<noteq> [] \<and> present (pde_at (kmemory s) d (page_no va div 1024)) \<and> \<not> user_page (lookup (kmemory s) d (page_no va)) \<longrightarrow>
      copyout d va buf s = Ok (- 1, s)) \<and>
    (buf \<noteq> [] \<and> \<not> present (pde_at (kmemory s) d (page_no va div 1024)) \<longrightarrow> copyout d va buf s = Undef)"
proof (intro conjI impI)
  assume "\<forall>n. page_no va \<le> n \<and> n * PGSIZE < unat va + length buf \<longrightarrow> user_page (lookup (kmemory s) d n)"
  then have "user_page (lookup (kmemory s) d n)" if "page_no va \<le> n" "n * PGSIZE < unat va + length buf" for n using that by blast
  then show "\<exists>s'. copyout d va buf s = Ok (0, s') \<and> pt_ok kend d U s' vs \<and> lookup (kmemory s') d = lookup (kmemory s) d \<and>
        (\<forall>x < N * PGSIZE. vbyte (kmemory s') d x =
           (if unat va \<le> x \<and> x < unat va + length buf then Some (buf ! (x - unat va)) else vbyte (kmemory s) d x))"
    unfolding write_view_def [symmetric] by (rule copyout_spec [OF assms])
next
  assume b: "buf \<noteq> [] \<and> \<not> present (pde_at (kmemory s) d (page_no va div 1024))"
  then have "uva2ka d (PGROUNDDOWN va) s = Undef"
    using uva2ka_missing [OF page_ok_mod [OF pt_okD(3) [OF assms(1)]], of s "PGROUNDDOWN va"] by (simp add: page_no_PGROUNDDOWN)
  then show "copyout d va buf s = Undef" using b by (subst copyout.simps) (simp add: Let_def)
next
  assume "buf \<noteq> [] \<and> present (pde_at (kmemory s) d (page_no va div 1024)) \<and> \<not> user_page (lookup (kmemory s) d (page_no va))"
  then show "copyout d va buf s = Ok (- 1, s)" by (elim conjE) (rule copyout_refused [OF assms(1)])
qed

theorem copyout_writes_witness:
  "\<exists>s1 s2. allocuvm 0x80100001 0x80400000 0 0x1000 pt_demo = Ok (0x1000, s1) \<and>
     copyout 0x80400000 0x10 [1, 2, 3] s1 = Ok (0, s2) \<and> vbyte (kmemory s2) 0x80400000 0x11 = Some 2"
proof -
  have p: "npages 0 = 0" "npages 0x1000 = 1" by (simp_all add: npages_def)
  obtain s1 g vs' where s1: "allocuvm 0x80100001 0x80400000 0 0x1000 pt_demo = Ok (0x1000, s1)"
    "filled_by (\<lambda>_. PTE_W OR PTE_U) (\<lambda>_ _. 0) g vs' 0x80100001 0x80400000 {} 0 1 pt_demo [0x80402000, 0x80403000] s1"
    using allocuvm_enough [OF pt_demo_ok, where oldsz = 0 and newsz = "0x1000"] unfolding p grown_def filled_def by (auto simp: pt_demo_lookup)
  have g: "pt_ok 0x80100001 0x80400000 {g 0} s1 vs'" "lookup (kmemory s1) 0x80400000 0 = Some (V2P (g 0) OR (PTE_W OR PTE_U) OR PTE_P)"
    using s1(2) unfolding filled_by_def by auto
  have own: "owns {g 0} (lookup (kmemory s1) 0x80400000) 0 1" using grown_owned(1) [OF s1(2)] by simp
  have "bit (V2P (g 0) OR (PTE_W OR PTE_U) OR PTE_P) 2" by (simp add: bit_or_iff bit_numeral_rec)
  then have "bit ((V2P (g 0) OR (PTE_W OR PTE_U) OR PTE_P) AND PTE_U) 2" by (simp add: bit_and_iff bit_numeral_rec)
  then have "(V2P (g 0) OR (PTE_W OR PTE_U) OR PTE_P) AND PTE_U \<noteq> 0" by fastforce
  then have u: "user_page (lookup (kmemory s1) 0x80400000 0)" using g(2) unfolding user_page_def by blast
  have "\<forall>n. page_no 0x10 \<le> n \<and> n * PGSIZE < unat (0x10 :: u32) + length [1, 2, 3 :: u8] \<longrightarrow> user_page (lookup (kmemory s1) 0x80400000 n)"
  proof (intro allI impI)
    fix n
    assume "page_no 0x10 \<le> n \<and> n * PGSIZE < unat (0x10 :: u32) + length [1, 2, 3 :: u8]"
    then have "n = 0" by (cases n) simp_all
    then show "user_page (lookup (kmemory s1) 0x80400000 n)" using u by simp
  qed
  then obtain s2 where s2: "copyout 0x80400000 0x10 [1, 2, 3] s1 = Ok (0, s2)"
    "\<forall>x < 1 * PGSIZE. vbyte (kmemory s2) 0x80400000 x =
       (if unat (0x10 :: u32) \<le> x \<and> x < unat (0x10 :: u32) + length [1, 2, 3 :: u8]
        then Some ([1, 2, 3] ! (x - unat (0x10 :: u32))) else vbyte (kmemory s1) 0x80400000 x)"
    using mp [OF conjunct1 [OF copyout_writes [OF g(1) own, of "0x10" "[1, 2, 3]"]]] by fastforce
  have "vbyte (kmemory s2) 0x80400000 0x11 = Some 2" using s2(2) [THEN spec, of "0x11"] by simp
  then show ?thesis using s1(1) s2(1) by blast
qed

end
