(* ===== verification/Address_Space.thy ===== *)
theory Address_Space
  imports Paging
begin

text \<open>
  Whole address spaces: \<open>freevm\<close> gives back every page of a page table, \<open>setupkvm\<close> makes one that
  maps the kernel, and \<open>copyuvm\<close>, which \<open>fork\<close> uses, makes one in which the child sees what the parent
  sees, in frames of its own.
\<close>

section \<open>Freeing the tables\<close>

lemma tables_step:
  assumes "j < 1024"
  shows "tables m d j = (if present (pde_at m d j) then insert (frame (pde_at m d j)) (tables m d (Suc j)) else tables m d (Suc j))"
  unfolding tables_def using assms by (auto simp: Suc_le_eq le_less)

lemma card_tables: "card (tables m d j) \<le> 1024"
proof -
  have "tables m d j \<subseteq> (\<lambda>i. frame (pde_at m d i)) ` {..<1024}" unfolding tables_def by blast
  then show ?thesis using surj_card_le [OF finite_lessThan, of _ _ "1024 :: nat"] by (metis card_lessThan)
qed

lemma card_insert_le_Suc: "card (insert x A) \<le> Suc (card A)"
  by (cases "finite A") (auto simp: card_insert_if)

lemma pde_of_nat:
  assumes "unat d mod PGSIZE = 0" "i < 1024"
  shows "load32 m (d + 4 * of_nat i) = pde_at m d i"
proof -
  have "unat (of_nat i :: u32) = i" using assms(2) by (simp add: unsigned_of_nat take_bit_nat_eq_self)
  then show ?thesis using unat_entry [OF assms(1), of "of_nat i"] assms(2) by (simp add: load32_word_at pde_at_def)
qed

lemma free_tables:
  assumes "avail kend s vs" "page_ok kend d"
    "\<And>i. j \<le> i \<Longrightarrow> i < 1024 \<Longrightarrow> present (pde_at (kmemory s) d i) \<Longrightarrow>
       page_ok kend (frame (pde_at (kmemory s) d i)) \<and> frame (pde_at (kmemory s) d i) \<notin> insert d (set vs)"
    "\<And>i k. j \<le> i \<Longrightarrow> i < k \<Longrightarrow> k < 1024 \<Longrightarrow> present (pde_at (kmemory s) d i) \<Longrightarrow> present (pde_at (kmemory s) d k) \<Longrightarrow>
       frame (pde_at (kmemory s) d i) \<noteq> frame (pde_at (kmemory s) d k)"
  shows "\<exists>s' vs'. kfold (freevm_entry kend d) [j..<NPDENTRIES] s = Ok s' \<and> avail kend s' vs' \<and>
    set vs' = set vs \<union> tables (kmemory s) d j \<and>
    (\<forall>u. page_ok kend u \<longrightarrow> u \<notin> tables (kmemory s) d j \<longrightarrow> page_eq (kmemory s) (kmemory s') u)"
  using assms
proof (induction "1024 - j" arbitrary: j s vs)
  case 0
  then have "[j..<1024] = []" "tables (kmemory s) d j = {}" by (auto simp: tables_def)
  then show ?case using "0.prems"(1) by auto
next
  case (Suc n j s vs)
  then have j: "j < 1024" and n: "n = 1024 - Suc j" by simp_all
  have d: "unat d mod PGSIZE = 0" using page_ok_mod [OF Suc.prems(2)] .
  let ?m = "kmemory s" and ?p = "pde_at (kmemory s) d j"
  have l: "[j..<1024] = j # [Suc j..<1024]" using j by (simp add: upt_conv_Cons)
  show ?case
  proof (cases "present ?p")
    case False
    then have e: "freevm_entry kend d j s = Ok s" using pde_of_nat [OF d j] by (simp add: freevm_entry_def present_def Let_def)
    have "\<exists>s' vs'. kfold (freevm_entry kend d) [Suc j..<NPDENTRIES] s = Ok s' \<and> avail kend s' vs' \<and>
      set vs' = set vs \<union> tables ?m d (Suc j) \<and>
      (\<forall>u. page_ok kend u \<longrightarrow> u \<notin> tables ?m d (Suc j) \<longrightarrow> page_eq ?m (kmemory s') u)"
      using Suc.prems(3,4) by (intro Suc.hyps(1) [OF n Suc.prems(1,2)]) simp_all
    then show ?thesis unfolding l tables_step [OF j] using False e by simp
  next
    case True
    let ?t = "frame ?p"
    have t: "page_ok kend ?t" "?t \<noteq> d" "?t \<notin> set vs" using Suc.prems(3) [OF order_refl j True] by auto
    obtain s1 where s1: "kfree kend ?t s = Ok s1" "avail kend s1 (?t # vs)"
      using avail_kfree [OF Suc.prems(1) t(1,3)] by blast
    have other: "page_eq ?m (kmemory s1) u" if "page_ok kend u" "u \<noteq> ?t" for u
      using that t(1) kfree_mem [OF s1(1)] by (intro page_eq_write [of ?t]) (auto dest: page_ok_mod)
    have deq: "page_eq ?m (kmemory s1) d" by (rule other [OF Suc.prems(2) t(2) [symmetric]])
    have pde: "pde_at (kmemory s1) d i = pde_at ?m d i" if "i < 1024" for i using pde_cong [OF deq that] .
    have e: "freevm_entry kend d j s = Ok s1"
      unfolding freevm_entry_def pde_of_nat [OF d j] Let_def
      using True s1(1) by (simp only: present_def frame_def if_True not_False_eq_True)
    have "\<exists>s' vs'. kfold (freevm_entry kend d) [Suc j..<NPDENTRIES] s1 = Ok s' \<and> avail kend s' vs' \<and>
      set vs' = set (?t # vs) \<union> tables (kmemory s1) d (Suc j) \<and>
      (\<forall>u. page_ok kend u \<longrightarrow> u \<notin> tables (kmemory s1) d (Suc j) \<longrightarrow> page_eq (kmemory s1) (kmemory s') u)"
    proof (rule Suc.hyps(1) [OF n s1(2) Suc.prems(2)])
      fix i
      assume i: "Suc j \<le> i" "i < 1024" "present (pde_at (kmemory s1) d i)"
      then show "page_ok kend (frame (pde_at (kmemory s1) d i)) \<and> frame (pde_at (kmemory s1) d i) \<notin> insert d (set (?t # vs))"
        using Suc.prems(3) [of i] Suc.prems(4) [of j i] True unfolding pde [OF i(2)] by auto
    next
      fix i k
      assume "Suc j \<le> i" "i < k" "k < 1024" "present (pde_at (kmemory s1) d i)" "present (pde_at (kmemory s1) d k)"
      then show "frame (pde_at (kmemory s1) d i) \<noteq> frame (pde_at (kmemory s1) d k)" using Suc.prems(4) [of i k] pde by simp
    qed
    then obtain s' vs' where s': "kfold (freevm_entry kend d) [Suc j..<NPDENTRIES] s1 = Ok s'" "avail kend s' vs'"
      "set vs' = set (?t # vs) \<union> tables ?m d (Suc j)"
      "\<And>u. page_ok kend u \<Longrightarrow> u \<notin> tables ?m d (Suc j) \<Longrightarrow> page_eq (kmemory s1) (kmemory s') u"
      unfolding tables_cong [OF deq] by blast
    have "page_eq ?m (kmemory s') u" if "page_ok kend u" "u \<notin> tables ?m d j" for u
      using that page_eq_trans [OF other s'(4)] True unfolding tables_step [OF j] by auto
    moreover have "set vs' = set vs \<union> tables ?m d j" using s'(3) True unfolding tables_step [OF j] by auto
    ultimately show ?thesis unfolding l using e s'(1,2) by auto
  qed
qed

text \<open>The pages that no page table under construction uses: \<open>vs\<close> are free, \<open>U\<close> belong to others.\<close>

definition pool_ok :: "u32 \<Rightarrow> u32 set \<Rightarrow> 'a kmem_scheme \<Rightarrow> u32 list \<Rightarrow> bool" where
  "pool_ok kend U s vs \<longleftrightarrow>
     KERNBASE < kend \<and> avail kend s vs \<and> U \<inter> set vs = {} \<and> (\<forall>u. u \<in> U \<longrightarrow> page_ok kend u)"

lemma page_ok_nonzero: "KERNBASE < kend \<Longrightarrow> page_ok kend d \<Longrightarrow> d \<noteq> 0"
  by (auto simp: page_ok_def)

lemma npages_user: "npages KERNBASE = 2 ^ 19" "npages 0 = 0"
  by (simp_all add: npages_def)

lemma freevm_spec:
  assumes pt: "pt_ok kend d U s vs" and own: "owns U (lookup (kmemory s) d) 0 (2 ^ 19)"
  defines "F \<equiv> frames (lookup (kmemory s) d) 0 (2 ^ 19)"
  shows "\<exists>s' vs'. freevm kend d s = Ok s' \<and> pool_ok kend (U - F) s' vs' \<and>
    set vs' = insert d (set vs \<union> tables (kmemory s) d 0 \<union> F) \<and>
    (\<forall>u. u \<in> U - F \<longrightarrow> page_eq (kmemory s) (kmemory s') u)"
proof -
  have "owns U (lookup (kmemory s) d) (npages 0) (npages KERNBASE)" unfolding npages_user by (rule own)
  from deallocuvm_spec [OF pt _ _ this] obtain s1 vs1 where
    d1: "deallocuvm kend d KERNBASE 0 s = Ok (0, s1)" "released kend d U 0 (2 ^ 19) s vs s1 vs1"
    unfolding npages_user by auto
  have r: "pt_ok kend d (U - F) s1 vs1" "set vs1 = set vs \<union> F" "page_eq (kmemory s) (kmemory s1) d"
    "\<And>u. u \<in> U - F \<Longrightarrow> page_eq (kmemory s) (kmemory s1) u"
    using d1(2) unfolding released_def F_def by blast+
  note ok = pt_okD [OF r(1)]
  let ?T = "tables (kmemory s1) d 0"
  have "\<exists>s' vs'. kfold (freevm_entry kend d) [0..<NPDENTRIES] s1 = Ok s' \<and> avail kend s' vs' \<and>
    set vs' = set vs1 \<union> ?T \<and> (\<forall>u. page_ok kend u \<longrightarrow> u \<notin> ?T \<longrightarrow> page_eq (kmemory s1) (kmemory s') u)"
    using ok(9,10) ok(11) by (intro free_tables [OF ok(2,3)]) (blast dest: less_trans less_not_refl3)+
  then obtain s2 vs2 where s2: "kfold (freevm_entry kend d) [0..<NPDENTRIES] s1 = Ok s2" "avail kend s2 vs2"
    "set vs2 = set vs1 \<union> ?T" "\<And>u. page_ok kend u \<Longrightarrow> u \<notin> ?T \<Longrightarrow> page_eq (kmemory s1) (kmemory s2) u" by blast
  have T: "u \<notin> ?T" if "u \<in> insert d (set vs1 \<union> (U - F))" for u using ok(10) that unfolding tables_def by blast
  have "d \<notin> set vs2" using s2(3) ok(4) T [of d] by blast
  then obtain s3 where s3: "kfree kend d s2 = Ok s3" "avail kend s3 (d # vs2)" using avail_kfree [OF s2(2) ok(3)] by blast
  have "page_eq (kmemory s) (kmemory s3) u" if u: "u \<in> U - F" for u
  proof -
    have "page_ok kend u" "u \<noteq> d" using ok(5,7) u by auto
    then have "page_eq (kmemory s2) (kmemory s3) u"
      using ok(3) kfree_mem [OF s3(1)] by (intro page_eq_write [of d]) (auto dest: page_ok_mod)
    moreover have "page_eq (kmemory s1) (kmemory s2) u" using s2(4) T u \<open>page_ok kend u\<close> by blast
    ultimately show ?thesis using r(4) [OF u] page_eq_trans by blast
  qed
  moreover have "set (d # vs2) = insert d (set vs \<union> tables (kmemory s) d 0 \<union> F)"
    using s2(3) r(2) tables_cong [OF r(3), of 0] by auto
  moreover have "(U - F) \<inter> set (d # vs2) = {}" using s2(3) T ok(5,6) by auto
  then have "pool_ok kend (U - F) s3 (d # vs2)" using s3(2) ok(1,7) unfolding pool_ok_def by blast
  moreover have "freevm kend d s = Ok s3"
    using page_ok_nonzero [OF ok(1,3)] d1(1) s2(1) s3(1) by (simp add: freevm_def)
  ultimately show ?thesis by blast
qed

section \<open>A page table for the kernel\<close>

lemma new_directory:
  assumes p: "pool_ok kend U s vs" and k: "kalloc s = (d, s1)" "d \<noteq> 0"
  obtains vs1 where "vs = d # vs1" "pt_ok kend d U (zero_page d s1) vs1" "tables (kmemory (zero_page d s1)) d 0 = {}"
    "lookup (kmemory (zero_page d s1)) d = (\<lambda>_. None)" "\<And>u. u \<in> U \<Longrightarrow> page_eq (kmemory s) (kmemory (zero_page d s1)) u"
proof -
  obtain vs1 where vs: "vs = d # vs1" "avail kend s1 vs1" "kmemory s1 = kmemory s"
    using p k by (cases vs) (auto simp: pool_ok_def avail_def kalloc_def Let_def)
  have d: "page_ok kend d" "d \<notin> set vs1" "d \<notin> U" using p unfolding pool_ok_def vs(1) avail_def by auto
  let ?m = "memset (kmemory s) (unat d) 0 PGSIZE"
  have z: "zero_page d s1 = s1\<lparr>kmemory := ?m\<rparr>" using vs(3) by (simp add: zero_page_def set_mem_def)
  have other: "page_eq (kmemory s) ?m u" if "page_ok kend u" "u \<noteq> d" for u
    using that d(1) by (intro page_eq_zero) (auto dest: page_ok_mod)
  have "page_eq (kmemory s) ?m u" if "u \<in> set vs1" for u
    using that d(2) p vs(1) by (intro other) (auto simp: pool_ok_def avail_def)
  then have av: "avail kend (zero_page d s1) vs1" using avail_mem [OF vs(2)] vs(3) unfolding z by simp
  have pde: "pde_at ?m d i = 0" if "i < 1024" for i
    using that word_at_cong [of "unat d + 4 * i" ?m "\<lambda>_. 0"] by (simp add: pde_at_def memset_apply)
  have "lookup ?m d = (\<lambda>_. None)" using pde by (auto simp: lookup_def present_def fun_eq_iff)
  moreover have "tables ?m d 0 = {}" using pde by (auto simp: tables_def present_def)
  moreover have "pt_ok kend d U (zero_page d s1) vs1"
    using p av d pde unfolding pt_ok_def pool_ok_def vs(1) by (auto simp: z present_def)
  moreover have "page_eq (kmemory s) ?m u" if "u \<in> U" for u using other p d(3) that by (auto simp: pool_ok_def)
  ultimately show ?thesis using that vs(1) unfolding z by simp
qed

text \<open>The pages of a row of \<open>kmap\<close>, and the mapping that the rows make.\<close>

definition kmap_first :: "kmap \<Rightarrow> nat" where
  "kmap_first k = page_no (virt k)"

definition kmap_last :: "kmap \<Rightarrow> nat" where
  "kmap_last k = page_no (virt k + (phys_end k - phys_start k) - 1)"

primrec kmap_view :: "kmap list \<Rightarrow> (nat \<Rightarrow> u32 option) \<Rightarrow> nat \<Rightarrow> u32 option" where
  "kmap_view [] f = f"
| "kmap_view (k # ks) f =
     kmap_view ks (map_range (kmap_first k) (kmap_last k - kmap_first k + 1) (phys_start k) (perm k) f)"

text \<open>The rows follow each other above the user part.\<close>

primrec kmap_rows :: "nat \<Rightarrow> kmap list \<Rightarrow> bool" where
  "kmap_rows lo [] = True"
| "kmap_rows lo (k # ks) = (lo \<le> kmap_first k \<and> kmap_first k \<le> kmap_last k \<and> kmap_rows (Suc (kmap_last k)) ks)"

lemma no_user_frames:
  assumes "\<And>n. n < N \<Longrightarrow> f n = None"
  shows "frames f 0 N = {}" "owns U f 0 N"
  using assms by (auto simp: frames_def owns_def)

lemma setupkvm_loop_spec:
  assumes "pt_ok kend d U s vs" "kmap_rows lo ks" "2 ^ 19 \<le> lo" "\<And>n. n < 2 ^ 19 \<or> lo \<le> n \<Longrightarrow> lookup (kmemory s) d n = None"
  shows "\<exists>r s'. setupkvm_loop kend d ks s = Ok (r, s') \<and> (\<forall>u. u \<in> U \<longrightarrow> page_eq (kmemory s) (kmemory s') u) \<and>
    (r = d \<and> (\<exists>vs'. pt_ok kend d U s' vs' \<and> lookup (kmemory s') d = kmap_view ks (lookup (kmemory s) d) \<and>
       set vs' \<union> tables (kmemory s') d 0 = set vs \<union> tables (kmemory s) d 0) \<or>
     r = 0 \<and> card (set vs \<union> tables (kmemory s) d 0) \<le> 1024 \<and> (\<exists>vs'. pool_ok kend U s' vs' \<and> set vs' = insert d (set vs \<union> tables (kmemory s) d 0)))"
  using assms
proof (induction ks arbitrary: s vs lo)
  case Nil
  then show ?case by auto
next
  case (Cons k ks)
  let ?n = "kmap_last k - kmap_first k + 1" and ?f = "lookup (kmemory s) d"
  have k: "lo \<le> kmap_first k" "kmap_first k \<le> kmap_last k" "kmap_rows (Suc (kmap_last k)) ks" using Cons.prems(2) by simp_all
  have "\<forall>n. kmap_first k \<le> n \<and> n \<le> kmap_last k \<longrightarrow> ?f n = None" using Cons.prems(4) k(1) by auto
  from mappages_spec [OF Cons.prems(1) k(2) [unfolded kmap_first_def kmap_last_def] this [unfolded kmap_first_def kmap_last_def]]
  obtain r s1 where m: "mappages d (virt k) (phys_end k - phys_start k) (phys_start k) (perm k) s = Ok (r, s1)"
      "mapped_or_full kend d U (kmap_first k) ?n (phys_start k) (perm k) s vs r s1"
    unfolding kmap_first_def kmap_last_def by blast
  then obtain vs1 where v: "pt_ok kend d U s1 vs1" "set vs1 \<union> tables (kmemory s1) d 0 = set vs \<union> tables (kmemory s) d 0"
      "\<And>u. u \<in> U \<Longrightarrow> page_eq (kmemory s) (kmemory s1) u"
    and c: "r = 0 \<and> lookup (kmemory s1) d = map_range (kmap_first k) ?n (phys_start k) (perm k) ?f \<or>
      r = - 1 \<and> vs1 = [] \<and> (\<exists>j < ?n. lookup (kmemory s1) d = map_range (kmap_first k) j (phys_start k) (perm k) ?f)"
    unfolding mapped_or_full_def by blast
  have none: "map_range (kmap_first k) j pa pm ?f n = None" if "n < 2 ^ 19 \<or> Suc (kmap_last k) \<le> n" "j \<le> ?n" for n j pa pm
    using that k(1,2) Cons.prems(3,4) by (auto simp: map_range_def)
  show ?case
  proof (cases "r = 0")
    case True
    then have f: "lookup (kmemory s1) d = map_range (kmap_first k) ?n (phys_start k) (perm k) ?f" using c by auto
    have "\<exists>r s'. setupkvm_loop kend d ks s1 = Ok (r, s') \<and> (\<forall>u. u \<in> U \<longrightarrow> page_eq (kmemory s1) (kmemory s') u) \<and>
      (r = d \<and> (\<exists>vs'. pt_ok kend d U s' vs' \<and> lookup (kmemory s') d = kmap_view ks (lookup (kmemory s1) d) \<and>
         set vs' \<union> tables (kmemory s') d 0 = set vs1 \<union> tables (kmemory s1) d 0) \<or>
       r = 0 \<and> card (set vs1 \<union> tables (kmemory s1) d 0) \<le> 1024 \<and> (\<exists>vs'. pool_ok kend U s' vs' \<and> set vs' = insert d (set vs1 \<union> tables (kmemory s1) d 0)))"
      using Cons.prems(3) k(1,2) none by (intro Cons.IH [OF v(1) k(3)]) (auto simp: f)
    then obtain r' s' where "setupkvm_loop kend d ks s1 = Ok (r', s')" "\<And>u. u \<in> U \<Longrightarrow> page_eq (kmemory s1) (kmemory s') u"
      "r' = d \<and> (\<exists>vs'. pt_ok kend d U s' vs' \<and> lookup (kmemory s') d = kmap_view ks (lookup (kmemory s1) d) \<and>
         set vs' \<union> tables (kmemory s') d 0 = set vs1 \<union> tables (kmemory s1) d 0) \<or>
       r' = 0 \<and> card (set vs1 \<union> tables (kmemory s1) d 0) \<le> 1024 \<and> (\<exists>vs'. pool_ok kend U s' vs' \<and> set vs' = insert d (set vs1 \<union> tables (kmemory s1) d 0))" by blast
    then show ?thesis
      unfolding v(2) f using m(1) True page_eq_trans [OF v(3)] by auto
  next
    case False
    then obtain j where j: "r = - 1 \<and> vs1 = []" "j < ?n" "lookup (kmemory s1) d = map_range (kmap_first k) j (phys_start k) (perm k) ?f"
      using c by auto
    have u: "lookup (kmemory s1) d n = None" if "n < 2 ^ 19" for n using none that j(2) unfolding j(3) by simp
    have e: "frames (lookup (kmemory s1) d) 0 (2 ^ 19) = {}" "owns U (lookup (kmemory s1) d) 0 (2 ^ 19)"
      by (rule no_user_frames; fact u)+
    from freevm_spec [OF v(1) e(2)] obtain s2 vs2 where "freevm kend d s1 = Ok s2" "pool_ok kend U s2 vs2"
      "set vs2 = insert d (set vs \<union> tables (kmemory s) d 0)" "\<And>u. u \<in> U \<Longrightarrow> page_eq (kmemory s1) (kmemory s2) u"
      unfolding e(1) v(2) [symmetric] by auto
    moreover have "card (set vs \<union> tables (kmemory s) d 0) \<le> 1024" using v(2) j(1) card_tables [of "kmemory s1" d 0] by simp
    ultimately show ?thesis using m(1) j(1) page_eq_trans [OF v(3)] by auto
  qed
qed

text \<open>What the kernel's rows map: its own part of memory to itself, shifted down by \<open>KERNBASE\<close> and writable except for the
  kernel's text and read-only data, and the devices at the top. \<open>kdata\<close> is the linker symbol \<open>data\<close>, which
  \<open>kernel.ld\<close> puts on a page boundary.\<close>

definition kdata_ok :: "u32 \<Rightarrow> bool" where
  "kdata_ok kdata \<longleftrightarrow> unat kdata mod PGSIZE = 0 \<and> KERNLINK < kdata \<and> kdata < P2V PHYSTOP"

definition kernel_map :: "u32 \<Rightarrow> nat \<Rightarrow> u32 option" where
  "kernel_map kdata n =
     (if 0x80000 \<le> n \<and> n < 0x8E000 then
        Some (V2P (of_nat (n * PGSIZE)) OR (if 0x80100 \<le> n \<and> n < page_no kdata then 0 else PTE_W) OR PTE_P)
      else if 0xFE000 \<le> n \<and> n < 0x100000 then Some (of_nat (n * PGSIZE) OR PTE_W OR PTE_P)
      else None)"

lemma kdata_page:
  assumes "kdata_ok kdata"
  shows "0x80100 < page_no kdata" "page_no kdata < 0x8E000" "page_no (kdata - 1) = page_no kdata - 1"
    "kdata = of_nat (page_no kdata * PGSIZE)"
proof -
  have k: "unat kdata mod 4096 = 0" "0x80100000 < unat kdata" "unat kdata < 0x8E000000"
    using assms by (simp_all add: kdata_ok_def word_less_nat_alt P2V_def)
  then show "0x80100 < page_no kdata" "page_no kdata < 0x8E000" by (auto simp: page_no_def)
  have "kdata \<noteq> 0" using k by auto
  then have "unat (kdata - 1) = unat kdata - 1" by (simp add: unat_minus_one)
  moreover obtain q where "unat kdata = 4096 * q" using k(1) by blast
  moreover have "0 < q" using calculation k(2) by auto
  then have "(4096 * q - 1) div 4096 = q - 1" by (cases q) simp_all
  ultimately show "page_no (kdata - 1) = page_no kdata - 1" by (simp add: page_no_def)
  have "page_no kdata * PGSIZE = unat kdata" using k(1) by (auto simp: page_no_def)
  then show "kdata = of_nat (page_no kdata * PGSIZE)" by (simp del: of_nat_mult)
qed

lemma kmap_table_rows:
  assumes "kdata_ok kdata"
  shows "kmap_rows (2 ^ 19) (kmap_table kdata)"
proof -
  have "kdata + (PHYSTOP - V2P kdata) - 1 = 0x8DFFFFFF" "KERNLINK + (V2P kdata - V2P KERNLINK) - 1 = kdata - 1"
    by (simp_all add: V2P_def)
  then show ?thesis using kdata_page(1-3) [OF assms]
    by (simp add: kmap_table_def kmap_first_def kmap_last_def page_no_def unsigned_minus_1_eq_mask mask_eq_exp_minus_1)
qed

lemma kmap_table_view:
  assumes "kdata_ok kdata"
  shows "kmap_view (kmap_table kdata) (\<lambda>_. None) = kernel_map kdata"
proof
  fix n
  note k = kdata_page [OF assms]
  have ends: "kdata + (PHYSTOP - V2P kdata) - 1 = 0x8DFFFFFF" "KERNLINK + (V2P kdata - V2P KERNLINK) - 1 = kdata - 1"
    by (simp_all add: V2P_def)
  have up: "a + 4096 * of_nat (n - b) = (of_nat (n * PGSIZE) + c :: u32)" if "b \<le> n" "a = of_nat (b * PGSIZE) + c" for a b c
    using that by (simp add: of_nat_diff algebra_simps)
  have len: "page_no kdata - 1 - 0x80100 + 1 = page_no kdata - 0x80100" "0x8DFFF - page_no kdata + 1 = 0x8E000 - page_no kdata"
    using k(1,2) by arith+
  have rows: "kmap_view (kmap_table kdata) f = map_range 0xFE000 0x2000 DEVSPACE PTE_W
      (map_range (page_no kdata) (0x8E000 - page_no kdata) (V2P kdata) PTE_W
      (map_range 0x80100 (page_no kdata - 0x80100) (V2P KERNLINK) 0 (map_range 0x80000 0x100 0 PTE_W f)))" for f
    unfolding kmap_table_def kmap_view.simps kmap_first_def kmap_last_def kmap.simps ends k(3)
    using len by (simp add: page_no_def unsigned_minus_1_eq_mask mask_eq_exp_minus_1)
  consider "n < 0x80000" | "0x80000 \<le> n" "n < 0x80100" | "0x80100 \<le> n" "n < page_no kdata" | "page_no kdata \<le> n" "n < 0x8E000"
    | "0x8E000 \<le> n" "n < 0xFE000" | "0xFE000 \<le> n" by linarith
  then show "kmap_view (kmap_table kdata) (\<lambda>_. None) n = kernel_map kdata n"
  proof cases
    case 2
    then show ?thesis unfolding rows using k(1,2) up [of "0x80000" 0 "- KERNBASE"]
      by (simp add: map_range_def kernel_map_def V2P_def mult.commute)
  next
    case 3
    then show ?thesis unfolding rows using k(1,2) up [of "0x80100" "V2P KERNLINK" "- KERNBASE"]
      by (simp add: map_range_def kernel_map_def V2P_def mult.commute)
  next
    case 4
    then show ?thesis unfolding rows using k(1,2,4) up [of "page_no kdata" "V2P kdata" "- KERNBASE"]
      by (simp add: map_range_def kernel_map_def V2P_def mult.commute)
  next
    case 6
    then show ?thesis unfolding rows using k(1,2) up [of "0xFE000" DEVSPACE 0]
      by (simp add: map_range_def kernel_map_def mult.commute)
  qed (use k(1,2) in \<open>simp_all add: rows map_range_def kernel_map_def\<close>)
qed

lemma kalloc_none_pool: "pool_ok kend U s vs \<Longrightarrow> kalloc s = (0, s1) \<Longrightarrow> vs = [] \<and> s1 = s"
  by (cases vs) (auto simp: pool_ok_def avail_def kalloc_def Let_def split: if_splits)

lemma setupkvm_spec:
  assumes p: "pool_ok kend U s vs" and k: "kdata_ok kdata"
  shows "\<exists>r s'. setupkvm kend kdata s = Ok (r, s') \<and> (\<forall>u. u \<in> U \<longrightarrow> page_eq (kmemory s) (kmemory s') u) \<and>
    (r \<noteq> 0 \<and> (\<exists>vs'. pt_ok kend r U s' vs' \<and> lookup (kmemory s') r = kernel_map kdata \<and>
       insert r (set vs' \<union> tables (kmemory s') r 0) = set vs) \<or>
     r = 0 \<and> length vs \<le> 1025 \<and> (\<exists>vs'. pool_ok kend U s' vs' \<and> set vs' = set vs))"
proof -
  obtain d s1 where ka: "kalloc s = (d, s1)" by (cases "kalloc s")
  show ?thesis
  proof (cases "d = 0")
    case True
    then show ?thesis using p kalloc_none_pool [OF p] ka by (auto simp: setupkvm_def)
  next
    case False
    let ?s = "zero_page d s1"
    obtain vs1 where v: "vs = d # vs1" "pt_ok kend d U ?s vs1" "tables (kmemory ?s) d 0 = {}"
      "lookup (kmemory ?s) d = (\<lambda>_. None)" "\<And>u. u \<in> U \<Longrightarrow> page_eq (kmemory s) (kmemory ?s) u"
      using new_directory [OF p ka False] by blast
    have eq: "setupkvm kend kdata s = setupkvm_loop kend d (kmap_table kdata) ?s"
      using ka False by (simp add: setupkvm_def P2V_def)
    have "\<exists>r s'. setupkvm_loop kend d (kmap_table kdata) ?s = Ok (r, s') \<and> (\<forall>u. u \<in> U \<longrightarrow> page_eq (kmemory ?s) (kmemory s') u) \<and>
      (r = d \<and> (\<exists>vs'. pt_ok kend d U s' vs' \<and> lookup (kmemory s') d = kmap_view (kmap_table kdata) (lookup (kmemory ?s) d) \<and>
         set vs' \<union> tables (kmemory s') d 0 = set vs1 \<union> tables (kmemory ?s) d 0) \<or>
       r = 0 \<and> card (set vs1 \<union> tables (kmemory ?s) d 0) \<le> 1024 \<and> (\<exists>vs'. pool_ok kend U s' vs' \<and> set vs' = insert d (set vs1 \<union> tables (kmemory ?s) d 0)))"
      by (rule setupkvm_loop_spec [OF v(2) kmap_table_rows [OF k]]) (simp_all add: v(4))
    moreover have "distinct vs" using p by (simp add: pool_ok_def avail_def)
    then have "length vs = Suc (card (set vs1))" using v(1) by (simp add: distinct_card)
    ultimately show ?thesis
      unfolding eq v(3) v(4) kmap_table_view [OF k] using False v(1) page_eq_trans [OF v(5)] by auto metis
  qed
qed

section \<open>Copying an address space\<close>

text \<open>The directory \<open>p\<close>, its tables and the frames of its first \<open>N\<close> pages are among the pages \<open>U\<close> that others own,
  so that making another page table leaves what \<open>p\<close> maps as it is.\<close>

definition kept :: "u32 \<Rightarrow> u32 \<Rightarrow> nat \<Rightarrow> u32 set \<Rightarrow> 'a kmem_scheme \<Rightarrow> u32 list \<Rightarrow> bool" where
  "kept kend p N U s vs \<longleftrightarrow> pt_ok kend p {} s vs \<and> p \<in> U \<and> tables (kmemory s) p 0 \<subseteq> U \<and>
     (\<forall>n < N. \<exists>e. lookup (kmemory s) p n = Some e \<and> frame e \<in> U)"

lemma kept_lookup:
  assumes k: "kept kend p N U s vs" and eq: "\<And>u. u \<in> U \<Longrightarrow> page_eq (kmemory s) (kmemory s') u"
  shows "lookup (kmemory s') p = lookup (kmemory s) p"
  using k eq unfolding kept_def tables_def by (intro lookup_cong) blast+

lemma kept_next:
  assumes k: "kept kend p N U s vs" and eq: "\<And>u. u \<in> U \<Longrightarrow> page_eq (kmemory s) (kmemory s') u"
    and s': "avail kend s' vs'" "set vs' \<inter> U = {}" and U: "U \<subseteq> U'"
  shows "kept kend p N U' s' vs'"
proof -
  have k': "pt_ok kend p {} s vs" "p \<in> U" "tables (kmemory s) p 0 \<subseteq> U"
    "\<And>n. n < N \<Longrightarrow> \<exists>e. lookup (kmemory s) p n = Some e \<and> frame e \<in> U" using k unfolding kept_def by blast+
  have t: "frame (pde_at (kmemory s) p i) \<in> U" if "i < 1024" "present (pde_at (kmemory s) p i)" for i
    using k'(3) that unfolding tables_def by blast
  have "pt_ok kend p {} s' vs'"
    using k'(2) t s'(2) eq by (intro pt_ok_frame [OF k'(1) s'(1)]) blast+
  moreover have "tables (kmemory s') p 0 \<subseteq> U'" using tables_cong [OF eq [OF k'(2)]] k'(3) U by blast
  moreover have "lookup (kmemory s') p = lookup (kmemory s) p" by (rule kept_lookup [OF k]; fact eq)
  ultimately show ?thesis using k'(2,4) U unfolding kept_def by (metis subsetD)
qed

lemma kept_pte:
  assumes k: "kept kend p N U s vs" and n: "page_no va < N"
  obtains e where "lookup (kmemory s) p (page_no va) = Some e" "frame e \<in> U" "fst (walkpgdir p va False s) \<noteq> 0"
    "load32 (kmemory s) (fst (walkpgdir p va False s)) = e" "e AND PTE_P \<noteq> 0"
proof -
  have pt: "pt_ok kend p {} s vs" using k unfolding kept_def by blast
  obtain e where e: "lookup (kmemory s) p (page_no va) = Some e" "frame e \<in> U" using k n unfolding kept_def by blast
  have pr: "present (pde_at (kmemory s) p (page_no va div 1024))" "present e" "e = word_at (kmemory s) (pte_loc (kmemory s) p (page_no va))"
    using e(1) by (auto simp: lookup_def split: if_splits)
  have w: "walkpgdir p va False s = (of_nat (pte_loc (kmemory s) p (page_no va)), s)" by (rule walk_found [OF pt pr(1)])
  note loc = pte_loc_word [OF pt page_no_less pr(1)]
  have "of_nat (pte_loc (kmemory s) p (page_no va)) \<noteq> (0 :: u32)" using loc by (metis unat_eq_zero)
  then show ?thesis using that [OF e] w loc(1) pr(2,3) by (simp add: load32_word_at present_def)
qed

text \<open>A page table under construction is given up: \<open>freevm\<close> has freed its pages, and what others own is as it was.\<close>

definition discarded :: "u32 \<Rightarrow> u32 \<Rightarrow> u32 set \<Rightarrow> 'a kmem_scheme \<Rightarrow> u32 list \<Rightarrow> 'a kmem_scheme \<Rightarrow> bool" where
  "discarded kend d U s vs s' \<longleftrightarrow>
     (let F = frames (lookup (kmemory s) d) 0 (2 ^ 19) in
      \<exists>vs'. pool_ok kend (U - F) s' vs' \<and> set vs' = insert d (set vs \<union> tables (kmemory s) d 0 \<union> F) \<and>
        (\<forall>u. u \<in> U - F \<longrightarrow> page_eq (kmemory s) (kmemory s') u))"

lemma freevm_discards:
  "pt_ok kend d U s vs \<Longrightarrow> owns U (lookup (kmemory s) d) 0 (2 ^ 19) \<Longrightarrow>
   \<exists>s'. freevm kend d s = Ok s' \<and> discarded kend d U s vs s'"
  using freevm_spec [of kend d U s vs] unfolding discarded_def Let_def by blast

text \<open>Giving up after one more page has been taken, whether it has been mapped or not, gives that page back as well.\<close>

lemma discarded_back:
  assumes v: "v \<notin> U" "vs = v # vs1" and F: "frames (lookup (kmemory s) d) 0 (2 ^ 19) \<subseteq> U"
    and c: "frames (lookup (kmemory s2) d) 0 (2 ^ 19) = insert v (frames (lookup (kmemory s) d) 0 (2 ^ 19)) \<and> U2 = insert v U \<and> vs2 = vs3 \<or>
      frames (lookup (kmemory s2) d) 0 (2 ^ 19) = frames (lookup (kmemory s) d) 0 (2 ^ 19) \<and> U2 = U \<and> vs2 = v # vs3"
    and sub: "set vs3 \<union> tables (kmemory s2) d 0 = set vs1 \<union> tables (kmemory s) d 0"
    and eq: "\<And>u. u \<in> U \<Longrightarrow> page_eq (kmemory s) (kmemory s2) u"
    and dis: "discarded kend d U2 s2 vs2 s'"
  shows "discarded kend d U s vs s'"
proof -
  let ?F = "frames (lookup (kmemory s) d) 0 (2 ^ 19)" and ?F2 = "frames (lookup (kmemory s2) d) 0 (2 ^ 19)"
  obtain vs' where vs': "pool_ok kend (U2 - ?F2) s' vs'" "set vs' = insert d (set vs2 \<union> tables (kmemory s2) d 0 \<union> ?F2)"
      "\<And>u. u \<in> U2 - ?F2 \<Longrightarrow> page_eq (kmemory s2) (kmemory s') u"
    using dis unfolding discarded_def Let_def by blast
  have U: "U2 - ?F2 = U - ?F" using c v(1) by auto
  have "set vs2 \<union> ?F2 = insert v (set vs3 \<union> ?F)" using c by auto
  then have "set vs' = insert d (set vs \<union> tables (kmemory s) d 0 \<union> ?F)" using vs'(2) sub v(2) by auto
  moreover have "page_eq (kmemory s) (kmemory s') u" if "u \<in> U - ?F" for u
    using page_eq_trans [OF eq vs'(3)] that U by blast
  ultimately show ?thesis using vs'(1) unfolding discarded_def Let_def U by blast
qed

text \<open>One page of the copy: the new frame holds the bytes of the parent's, and either it is mapped with the parent's flags
  or everything is given up.\<close>

lemma PTE_FLAGS_low: "PTE_FLAGS e AND NOT (mask 12) = 0"
  by (simp add: PTE_FLAGS_def mask_eq_exp_minus_1 and.assoc)

lemma PTE_FLAGS_present:
  assumes "e AND PTE_P \<noteq> 0"
  shows "PTE_FLAGS e OR PTE_P = PTE_FLAGS e"
proof -
  have "bit e 0" using assms by (simp add: and_one_eq mod_2_eq_odd bit_0 split: if_splits)
  then show ?thesis unfolding PTE_FLAGS_def by (intro bit_word_eqI) (auto simp: bit_or_iff bit_and_iff bit_1_iff bit_numeral_rec bit_0)
qed

lemma copy_page:
  assumes pt: "pt_ok kend d U s vs" and kp: "kept kend p N U s vs" and k: "kalloc s = (v, s1)" "v \<noteq> 0"
    and a: "a < 2 ^ 32" "a mod PGSIZE = 0" "a div PGSIZE = i" "i < 2 ^ 19" and own: "owns U (lookup (kmemory s) d) 0 i"
    and none: "\<forall>n. i \<le> n \<and> n < 2 ^ 19 \<longrightarrow> lookup (kmemory s) d n = None"
  obtains (full) r s2 s3 s4 where "mappages d (of_nat a) 4096 (V2P v) (PTE_FLAGS e) (set_mem (memmove (kmemory s) (unat v) q PGSIZE) s1) = Ok (r, s2)"
      "r < 0" "kfree kend v s2 = Ok s3" "freevm kend d s3 = Ok s4" "discarded kend d U s vs s4"
      "card (set vs \<union> tables (kmemory s) d 0) \<le> Suc 1024"
  | (mapped) s2 vs1 vs2 where "mappages d (of_nat a) 4096 (V2P v) (PTE_FLAGS e) (set_mem (memmove (kmemory s) (unat v) q PGSIZE) s1) = Ok (0, s2)"
      "pt_ok kend d (insert v U) s2 vs2" "kept kend p N (insert v U) s2 vs2"
      "owns (insert v U) (lookup (kmemory s2) d) 0 (Suc i)" "vs = v # vs1" "v \<notin> set vs1"
      "set vs2 \<subseteq> set vs1 \<and> set vs2 \<union> tables (kmemory s2) d 0 = set vs1 \<union> tables (kmemory s) d 0"
      "lookup (kmemory s2) d = (lookup (kmemory s) d)(i := Some (V2P v OR PTE_FLAGS e OR PTE_P))"
      "\<forall>x. in_page v x \<longrightarrow> kmemory s2 x = kmemory s (q + (x - unat v))" "\<forall>u. u \<in> U \<longrightarrow> page_eq (kmemory s) (kmemory s2) u"
      "\<forall>s'. discarded kend d (insert v U) s2 vs2 s' \<longrightarrow> discarded kend d U s vs s'"
proof -
  let ?f = "lookup (kmemory s) d" and ?m1 = "memmove (kmemory s) (unat v) q PGSIZE"
  have m1: "\<forall>x. \<not> in_page v x \<longrightarrow> ?m1 x = kmemory s x" by (auto simp: memmove_apply in_page_def)
  have n: "?f n = None" if "i \<le> n" "n < 2 ^ 19" for n using none that by blast
  have ext: "owns U ?f 0 (2 ^ 19)" "frames ?f 0 (2 ^ 19) = frames ?f 0 i" using owns_extend [OF own] n less_imp_le [OF a(4)] by blast+
  have F: "frames ?f 0 (2 ^ 19) \<subseteq> U" using ext(1) unfolding owns_def by blast
  have "?f (a div PGSIZE) = None" using n a(3,4) by simp
  from alloc_map_page [OF pt k a(1,2) this m1, where pm = "PTE_FLAGS e"] obtain r s2 vs1 vs2 where
    m: "mappages d (of_nat a) 4096 (V2P v) (PTE_FLAGS e) (set_mem ?m1 s1) = Ok (r, s2)"
      "vs = v # vs1" "v \<notin> set vs1" "v \<notin> U" "page_ok kend v" "pt_ok kend d (insert v U) s2 vs2"
      "set vs2 \<subseteq> set vs1 \<and> set vs2 \<union> tables (kmemory s2) d 0 = set vs1 \<union> tables (kmemory s) d 0"
      "r = 0 \<and> length vs \<le> length vs2 + 2 \<and> lookup (kmemory s2) d = ?f(i := Some (V2P v OR PTE_FLAGS e OR PTE_P)) \<or>
       r = - 1 \<and> vs2 = [] \<and> length vs < 2 \<and> lookup (kmemory s2) d = ?f"
      "\<And>x. in_page v x \<Longrightarrow> kmemory s2 x = ?m1 x" "\<And>u. u \<in> U \<Longrightarrow> page_eq (kmemory s) (kmemory s2) u"
    unfolding a(3) by blast
  note sub = conjunct2 [OF m(7)]
  from m(8) show thesis
  proof
    assume r: "r = - 1 \<and> vs2 = [] \<and> length vs < 2 \<and> lookup (kmemory s2) d = ?f"
    obtain s3 where s3: "kfree kend v s2 = Ok s3" "pt_ok kend d (insert v U - {v}) s3 (v # vs2)" "lookup (kmemory s3) d = lookup (kmemory s2) d"
        "page_eq (kmemory s2) (kmemory s3) d" "\<And>u. page_ok kend u \<Longrightarrow> u \<noteq> v \<Longrightarrow> page_eq (kmemory s2) (kmemory s3) u"
      by (rule pt_kfree [OF m(6) insertI1]) blast
    have f: "lookup (kmemory s3) d = ?f" using s3(3) r by simp
    have U: "insert v U - {v} = U" using m(4) by blast
    obtain s4 where s4: "freevm kend d s3 = Ok s4" "discarded kend d U s3 (v # vs2) s4"
      using freevm_discards [OF s3(2) [unfolded U]] ext(1) unfolding f by blast
    have "discarded kend d U s vs s4"
    proof (rule discarded_back [OF m(4,2) F _ _ _ s4(2)])
      show "set vs2 \<union> tables (kmemory s3) d 0 = set vs1 \<union> tables (kmemory s) d 0" using sub tables_cong [OF s3(4)] by simp
      show "page_eq (kmemory s) (kmemory s3) u" if "u \<in> U" for u
        using page_eq_trans [OF m(10) [OF that] s3(5)] pt_okD(7) [OF pt that] that m(4) by blast
    qed (simp add: f)
    moreover have "set vs \<union> tables (kmemory s) d 0 = insert v (tables (kmemory s2) d 0)" using sub m(2) r by auto
    then have "card (set vs \<union> tables (kmemory s) d 0) \<le> Suc 1024"
      using card_insert_le_Suc [of v "tables (kmemory s2) d 0"] card_tables [of "kmemory s2" d 0] by simp
    ultimately show thesis using full [OF m(1) _ s3(1) s4(1)] r by simp
  next
    assume r: "r = 0 \<and> length vs \<le> length vs2 + 2 \<and> lookup (kmemory s2) d = ?f(i := Some (V2P v OR PTE_FLAGS e OR PTE_P))"
    note f = conjunct2 [OF conjunct2 [OF r]]
    note new = owns_new [OF own entry_simps(2) [OF page_ok_mod [OF m(5)] PTE_FLAGS_low, of e] m(4) le0, folded f]
    have "lookup (kmemory s2) d x = None" if "Suc i \<le> x" "x < 2 ^ 19" for x using n that unfolding f by simp
    then have F2: "frames (lookup (kmemory s2) d) 0 (2 ^ 19) = insert v (frames ?f 0 (2 ^ 19))"
      using owns_extend(2) [OF new(1)] Suc_leI [OF a(4)] new(2) ext(2) by metis
    have "discarded kend d U s vs s'" if "discarded kend d (insert v U) s2 vs2 s'" for s'
    proof (rule discarded_back [OF m(4,2) F _ sub _ that])
      show "page_eq (kmemory s) (kmemory s2) u" if "u \<in> U" for u by (rule m(10) [OF that])
    qed (use F2 in simp)
    moreover have "kept kend p N (insert v U) s2 vs2"
      using pt_okD(2,6) [OF m(6)] by (intro kept_next [OF kp]) (auto intro: m(10))
    moreover have "kmemory s2 x = kmemory s (q + (x - unat v))" if "in_page v x" for x
      using m(9) [OF that] that by (simp add: memmove_apply in_page_def)
    ultimately show thesis using mapped [OF _ m(6) _ new(1) m(2,3,7) f] m(1,10) r by blast
  qed
qed

text \<open>The bytes and flags of the parent's pages stay what they are.\<close>

lemma kept_source:
  assumes k: "kept kend p N U s vs"
    and src: "\<forall>n < N. fl n = PTE_FLAGS (the (lookup (kmemory s) p n)) \<and>
       (\<forall>i < PGSIZE. c n i = kmemory s (unat (frame (the (lookup (kmemory s) p n))) + i))"
    and eq: "\<forall>u. u \<in> U \<longrightarrow> page_eq (kmemory s) (kmemory s') u"
  shows "\<forall>n < N. fl n = PTE_FLAGS (the (lookup (kmemory s') p n)) \<and>
       (\<forall>i < PGSIZE. c n i = kmemory s' (unat (frame (the (lookup (kmemory s') p n))) + i))"
proof -
  have "lookup (kmemory s') p = lookup (kmemory s) p" using eq by (intro kept_lookup [OF k]) blast
  moreover have "kmemory s' (unat (frame (the (lookup (kmemory s) p n))) + i) = kmemory s (unat (frame (the (lookup (kmemory s) p n))) + i)"
    if n: "n < N" "i < PGSIZE" for n i
  proof -
    obtain e where "lookup (kmemory s) p n = Some e" "frame e \<in> U" using k n(1) unfolding kept_def by blast
    then show ?thesis using eq n(2) by (simp add: page_eq_def in_page_def)
  qed
  ultimately show ?thesis using src by simp
qed

lemma copyuvm_loop_spec:
  assumes "pt_ok kend d U s vs" "kept kend p N U s vs" "a mod PGSIZE = 0" "N = (sz + 4095) div PGSIZE" "sz \<le> 2 ^ 31"
    "owns U (lookup (kmemory s) d) 0 (a div PGSIZE)" "\<forall>n. a div PGSIZE \<le> n \<and> n < 2 ^ 19 \<longrightarrow> lookup (kmemory s) d n = None"
    "\<forall>n < N. fl n = PTE_FLAGS (the (lookup (kmemory s) p n)) \<and>
       (\<forall>i < PGSIZE. c n i = kmemory s (unat (frame (the (lookup (kmemory s) p n))) + i))"
  shows "\<exists>r s'. copyuvm_loop kend p d a sz s = Ok (r, s') \<and>
    (r = d \<and> filled fl c kend d U (a div PGSIZE) N s vs s' \<or> r = 0 \<and> discarded kend d U s vs s' \<and> card (set vs \<union> tables (kmemory s) d 0) \<le> 1024 + (N - a div PGSIZE))"
  using assms
proof (induction "sz - a" arbitrary: a s vs U rule: less_induct)
  case (less a s vs U)
  let ?i = "a div PGSIZE" and ?f = "lookup (kmemory s) d" and ?goal = "\<lambda>a U s vs. \<exists>r s'. copyuvm_loop kend p d a sz s = Ok (r, s') \<and>
    (r = d \<and> filled fl c kend d U (a div PGSIZE) N s vs s' \<or> r = 0 \<and> discarded kend d U s vs s' \<and> card (set vs \<union> tables (kmemory s) d 0) \<le> 1024 + (N - a div PGSIZE))"
  note pt = less.prems(1)
  note count = page_count [OF less.prems(3), of sz, folded less.prems(4)]
  show ?case
  proof (cases "a < sz")
    case False
    then have "N \<le> ?i" using count by simp
    then show ?thesis using False filled_refl [OF pt] by (subst copyuvm_loop.simps) auto
  next
    case True
    have i: "?i < N" "?i < 2 ^ 19" and a: "a < 2 ^ 32" using True count less.prems(5) by auto
    have none: "?f n = None" if "?i \<le> n" "n < 2 ^ 19" for n using less.prems(7) that by blast
    have ext: "owns U ?f 0 (2 ^ 19)" "frames ?f 0 (2 ^ 19) = frames ?f 0 ?i" using owns_extend [OF less.prems(6)] none less_imp_le [OF i(2)] by blast+
    have F: "frames ?f 0 (2 ^ 19) \<subseteq> U" using ext(1) unfolding owns_def by blast
    note pn = of_nat_page [OF a]
    obtain e where e: "lookup (kmemory s) p ?i = Some e" "frame e \<in> U" "fst (walkpgdir p (of_nat a) False s) \<noteq> 0"
      "load32 (kmemory s) (fst (walkpgdir p (of_nat a) False s)) = e" "e AND PTE_P \<noteq> 0"
      using kept_pte [OF less.prems(2), of "of_nat a"] i(1) unfolding pn(1) by blast
    obtain v s1 where ka: "kalloc s = (v, s1)" by (cases "kalloc s")
    show ?thesis
    proof (cases "v = 0")
      case v: True
      then have "s1 = s" "vs = []" using kalloc_none [OF pt] ka by blast+
      then show ?thesis using freevm_discards [OF pt ext(1)] True e(3-5) ka v by (subst copyuvm_loop.simps) (auto simp: Let_def intro: trans_le_add1 [OF card_tables])
    next
      case v: False
      have P: "P2V (PTE_ADDR e) = frame e" by (simp add: frame_def)
      have fl: "fl ?i = PTE_FLAGS e" "\<forall>j < PGSIZE. c ?i j = kmemory s (unat (frame e) + j)" using less.prems(8) i(1) e(1) by auto
      have m: "kmemory s1 = kmemory s" using ka by (auto simp: kalloc_def Let_def split: if_splits)
      let ?s = "set_mem (memmove (kmemory s) (unat v) (unat (frame e)) PGSIZE) s1"
      have eq: "copyuvm_loop kend p d a sz s = kbind (mappages d (of_nat a) 4096 (V2P v) (PTE_FLAGS e) ?s) (\<lambda>(r, s).
          if r < 0 then kbind (kfree kend v s) (\<lambda>s. kbind (freevm kend d s) (\<lambda>s. Ok (0, s))) else copyuvm_loop kend p d (a + PGSIZE) sz s)"
        using True e(3-5) ka v m by (subst copyuvm_loop.simps) (simp add: Let_def P)
      from less.prems(1,2) ka v a less.prems(3) refl i(2) less.prems(6,7) show ?thesis
      proof (cases rule: copy_page [where e = e and q = "unat (frame e)"])
        case (full r s2 s3 s4)
        moreover have "card (set vs \<union> tables (kmemory s) d 0) \<le> 1024 + (N - ?i)" using full(6) i(1) by linarith
        ultimately show ?thesis unfolding eq by simp
      next
        case c: (mapped s2 vs1 vs2)
        have a': "sz - (a + PGSIZE) < sz - a" "(a + PGSIZE) mod PGSIZE = 0" "(a + PGSIZE) div PGSIZE = Suc ?i"
          using True less.prems(3) by simp_all
        have "\<forall>n. Suc ?i \<le> n \<and> n < 2 ^ 19 \<longrightarrow> lookup (kmemory s2) d n = None" using less.prems(7) unfolding c(8) by simp
        with less.hyps [OF a'(1) c(2,3) a'(2) less.prems(4,5), unfolded a'(3), OF c(4)] kept_source [OF less.prems(2,8)] c(10)
        obtain r s' where IH: "copyuvm_loop kend p d (a + PGSIZE) sz s2 = Ok (r, s')"
          "r = d \<and> filled fl c kend d (insert v U) (Suc ?i) N s2 vs2 s' \<or> r = 0 \<and> discarded kend d (insert v U) s2 vs2 s' \<and> card (set vs2 \<union> tables (kmemory s2) d 0) \<le> 1024 + (N - Suc ?i)"
          by blast
        have "kmemory s2 x = c ?i (x - unat v)" if "in_page v x" for x
        proof -
          have "x - unat v < PGSIZE" using that by (auto simp: in_page_def)
          then have "c ?i (x - unat v) = kmemory s (unat (frame e) + (x - unat v))" using fl(2) by blast
          then show ?thesis using c(9) [rule_format, OF that] by (simp only:)
        qed
        then have "filled fl c kend d U ?i N s vs s'" if "filled fl c kend d (insert v U) (Suc ?i) N s2 vs2 s'"
          using c(10) by (intro filled_step [OF c(5,6) i(1) c(7) _ _ _ that]) (simp_all add: c(8) fl(1))
        moreover have "set vs \<union> tables (kmemory s) d 0 = insert v (set vs2 \<union> tables (kmemory s2) d 0)" using c(5,7) by auto
        then have "card (set vs \<union> tables (kmemory s) d 0) \<le> Suc (card (set vs2 \<union> tables (kmemory s2) d 0))"
          by (simp add: card_insert_le_Suc)
        ultimately show ?thesis unfolding eq using c(1,11) IH i(1) by auto
      qed
    qed
  qed
qed

text \<open>C30. \<open>setupkvm\<close> never panics. It returns a new page table that maps exactly the kernel's part of the address space, each page of
  physical memory to itself (the kernel's text and read-only data without write permission) and the devices, and that has taken
  its pages from the free list only; or, when the free pages are too few for a directory and its tables, it returns 0 and
  every page it took is free again. Nothing that others own changes.\<close>

theorem setupkvm_maps_kernel:
  assumes "pool_ok kend U s vs" and "kdata_ok kdata"
  shows "\<exists>r s'. setupkvm kend kdata s = Ok (r, s') \<and> (\<forall>u. u \<in> U \<longrightarrow> page_eq (kmemory s) (kmemory s') u) \<and>
    (r \<noteq> 0 \<and> (\<exists>vs'. pt_ok kend r U s' vs' \<and> lookup (kmemory s') r = kernel_map kdata \<and>
       insert r (set vs' \<union> tables (kmemory s') r 0) = set vs) \<or>
     r = 0 \<and> length vs \<le> 1025 \<and> (\<exists>vs'. pool_ok kend U s' vs' \<and> set vs' = set vs))"
  by (rule setupkvm_spec [OF assms])

lemma pt_demo_pool: "pool_ok 0x80100001 {} pt_demo [0x80402000, 0x80403000]"
  using pt_okD(1,2) [OF pt_demo_ok] by (simp add: pool_ok_def)

theorem setupkvm_maps_kernel_witness:
  "\<exists>r s'. setupkvm 0x80100001 0x80108000 pt_demo = Ok (r, s') \<and>
    (r \<noteq> 0 \<and> lookup (kmemory s') r = kernel_map 0x80108000 \<or>
     r = 0 \<and> (\<exists>vs'. pool_ok 0x80100001 {} s' vs' \<and> set vs' = {0x80402000, 0x80403000}))"
proof -
  have "kdata_ok 0x80108000" by (simp add: kdata_ok_def P2V_def)
  from setupkvm_maps_kernel [OF pt_demo_pool this] show ?thesis by auto
qed

text \<open>The result of a copy that succeeds: \<open>d\<close> maps the first \<open>N\<close> pages to the fresh frames \<open>G\<close>, with the flags and the bytes of
  \<open>p\<close>, and the rest as the kernel does.\<close>

definition copied :: "u32 \<Rightarrow> u32 \<Rightarrow> u32 \<Rightarrow> nat \<Rightarrow> u32 set \<Rightarrow> mem \<Rightarrow> mem \<Rightarrow> bool" where
  "copied kdata p d N G m m' \<longleftrightarrow>
     frames (lookup m' d) 0 N = G \<and> card G = N \<and>
     (\<forall>x < N * PGSIZE. vbyte m' d x = vbyte m p x) \<and>
     (\<forall>n < N. map_option PTE_FLAGS (lookup m' d n) = map_option PTE_FLAGS (lookup m p n)) \<and>
     (\<forall>n \<ge> N. lookup m' d n = kernel_map kdata n)"

lemma filled_copied:
  assumes f: "filled_by fl c g vs' kend d U 0 N s1 vs1 s'" and k: "lookup (kmemory s1) d = kernel_map kdata"
    and kp: "kept kend p N U s vs" and lk: "lookup (kmemory s1) p = lookup (kmemory s) p"
    and src: "\<forall>n < N. fl n = PTE_FLAGS (the (lookup (kmemory s) p n)) \<and>
       (\<forall>i < PGSIZE. c n i = kmemory s (unat (frame (the (lookup (kmemory s) p n))) + i))"
  shows "copied kdata p d N (g ` {..<N}) (kmemory s) (kmemory s')"
proof -
  note D = filled_byD [OF f]
  have e: "\<exists>e. lookup (kmemory s) p n = Some e \<and> fl n = PTE_FLAGS e \<and> e AND PTE_P \<noteq> 0 \<and>
      (\<forall>i < PGSIZE. c n i = kmemory s (unat (frame e) + i))" if "n < N" for n
    using kp src that unfolding kept_def by (fastforce simp: lookup_def present_def split: if_splits)
  have pg: "page_ok kend (g n)" if "n < N" for n using pt_okD(7) [OF D(4), of "g n"] that by auto
  have low: "fl n AND NOT (mask 12) = 0" if "n < N" for n using src that PTE_FLAGS_low by simp
  note new = entry_simps(2,3) [OF page_ok_mod [OF pg] low]
  have lk': "lookup (kmemory s') d n = Some (V2P (g n) OR fl n OR PTE_P)" if "n < N" for n using D(6) that by simp
  have "frames (lookup (kmemory s') d) 0 N = g ` {..<N}" using filled_owned(2) [OF f] low by (auto simp: atLeast0LessThan)
  moreover have "card (g ` {..<N}) = N" using D(1) by (simp add: card_image atLeast0LessThan)
  moreover have "map_option PTE_FLAGS (lookup (kmemory s') d n) = map_option PTE_FLAGS (lookup (kmemory s) p n)" if n: "n < N" for n
  proof -
    obtain e where e: "lookup (kmemory s) p n = Some e" "fl n = PTE_FLAGS e" "e AND PTE_P \<noteq> 0" using e [OF n] by blast
    have "PTE_FLAGS e OR PTE_P = PTE_FLAGS e" using e(3) by (rule PTE_FLAGS_present)
    then show ?thesis using lk' [OF n] new(2) [OF n n] e by simp
  qed
  moreover have "vbyte (kmemory s') d x = vbyte (kmemory s) p x" if x: "x < N * PGSIZE" for x
  proof -
    have n: "x div PGSIZE < N" using x by (simp add: div_less_iff_less_mult)
    obtain e where e: "lookup (kmemory s) p (x div PGSIZE) = Some e" "\<forall>i < PGSIZE. c (x div PGSIZE) i = kmemory s (unat (frame e) + i)"
      using e [OF n] by blast
    have "in_page (g (x div PGSIZE)) (unat (g (x div PGSIZE)) + x mod PGSIZE)" by (simp add: in_page_def)
    then have "kmemory s' (unat (g (x div PGSIZE)) + x mod PGSIZE) = c (x div PGSIZE) (x mod PGSIZE)" using D(7) n by fastforce
    then show ?thesis using lk' [OF n] new(1) [OF n n] e by (simp add: vbyte_def)
  qed
  moreover have "lookup (kmemory s') d n = kernel_map kdata n" if "N \<le> n" for n using D(6) that k by simp
  ultimately show ?thesis unfolding copied_def by blast
qed

lemma copyuvm_spec:
  assumes p: "pool_ok kend U s vs" and k: "kdata_ok kdata" and kp: "kept kend p (npages sz) U s vs" and sz: "sz \<le> KERNBASE"
  shows "\<exists>r s'. copyuvm kend kdata p sz s = Ok (r, s') \<and> (\<forall>u. u \<in> U \<longrightarrow> page_eq (kmemory s) (kmemory s') u) \<and>
    (r \<noteq> 0 \<and> (\<exists>vs' G. pt_ok kend r (U \<union> G) s' vs' \<and> copied kdata p r (npages sz) G (kmemory s) (kmemory s') \<and>
       insert r (set vs' \<union> G \<union> tables (kmemory s') r 0) = set vs) \<or>
     r = 0 \<and> length vs \<le> 1025 + npages sz \<and> (\<exists>vs'. pool_ok kend U s' vs' \<and> set vs' = set vs))"
proof -
  let ?m = "kmemory s" and ?N = "npages sz"
  obtain d s1 where s1: "setupkvm kend kdata s = Ok (d, s1)" "\<And>u. u \<in> U \<Longrightarrow> page_eq ?m (kmemory s1) u"
    and c: "d \<noteq> 0 \<and> (\<exists>vs'. pt_ok kend d U s1 vs' \<and> lookup (kmemory s1) d = kernel_map kdata \<and>
       insert d (set vs' \<union> tables (kmemory s1) d 0) = set vs) \<or>
     d = 0 \<and> length vs \<le> 1025 \<and> (\<exists>vs'. pool_ok kend U s1 vs' \<and> set vs' = set vs)"
    using setupkvm_spec [OF p k] by blast
  show ?thesis
  proof (cases "d = 0")
    case True
    then show ?thesis using s1 c by (simp add: copyuvm_def trans_le_add1)
  next
    case False
    then obtain vs1 where v: "pt_ok kend d U s1 vs1" "lookup (kmemory s1) d = kernel_map kdata"
      "insert d (set vs1 \<union> tables (kmemory s1) d 0) = set vs" using c by blast
    define fl where "fl n = PTE_FLAGS (the (lookup ?m p n))" for n
    define b where "b n i = ?m (unat (frame (the (lookup ?m p n))) + i)" for n i
    have src: "\<forall>n < ?N. fl n = PTE_FLAGS (the (lookup ?m p n)) \<and> (\<forall>i < PGSIZE. b n i = ?m (unat (frame (the (lookup ?m p n))) + i))"
      by (simp add: fl_def b_def)
    have kp1: "kept kend p ?N U s1 vs1"
      using pt_okD(2,6) [OF v(1)] s1(2) by (intro kept_next [OF kp]) auto
    have lk: "lookup (kmemory s1) p = lookup ?m p" by (rule kept_lookup [OF kp]; fact s1(2))
    have none: "kernel_map kdata n = None" if "n < 2 ^ 19" for n using that by (simp add: kernel_map_def)
    then have e: "frames (kernel_map kdata) 0 (2 ^ 19) = {}" "owns U (kernel_map kdata) 0 0"
      by (auto simp: frames_def owns_def)
    have "unat sz \<le> 2 ^ 31" using sz by (simp add: word_le_nat_alt)
    from copyuvm_loop_spec [OF v(1) kp1 _ _ this _ _ kept_source [OF kp src], where a = 0] obtain r s' where
      l: "copyuvm_loop kend p d 0 (unat sz) s1 = Ok (r, s')"
        "r = d \<and> filled fl b kend d U 0 ?N s1 vs1 s' \<or> r = 0 \<and> discarded kend d U s1 vs1 s' \<and> card (set vs1 \<union> tables (kmemory s1) d 0) \<le> 1024 + ?N"
      using e(2) none s1(2) by (auto simp: npages_def v(2))
    have eq: "copyuvm kend kdata p sz s = Ok (r, s')" using s1(1) l(1) False by (simp add: copyuvm_def)
    from l(2) show ?thesis
    proof
      assume r: "r = d \<and> filled fl b kend d U 0 ?N s1 vs1 s'"
      then obtain g vs' where f: "filled_by fl b g vs' kend d U 0 ?N s1 vs1 s'" unfolding filled_def by blast
      note D = filled_byD [OF f, unfolded atLeast0LessThan]
      have "insert d (set vs' \<union> g ` {..<?N} \<union> tables (kmemory s') d 0) = set vs" using D(5) v(3) by simp
      moreover have "page_eq ?m (kmemory s') u" if "u \<in> U" for u using page_eq_trans [OF s1(2)] D(8) that by blast
      ultimately show ?thesis using eq r False D(4) filled_copied [OF f v(2) kp lk src] by blast
    next
      assume r: "r = 0 \<and> discarded kend d U s1 vs1 s' \<and> card (set vs1 \<union> tables (kmemory s1) d 0) \<le> 1024 + ?N"
      then obtain vs' where vs': "pool_ok kend U s' vs'" "set vs' = set vs" "\<And>u. u \<in> U \<Longrightarrow> page_eq (kmemory s1) (kmemory s') u"
        unfolding discarded_def v(2) e(1) Let_def using v(3) by auto
      have "distinct vs" using p by (simp add: pool_ok_def avail_def)
      then have "length vs \<le> 1025 + ?N"
        using card_insert_le_Suc [of d "set vs1 \<union> tables (kmemory s1) d 0"] r distinct_card [of vs] unfolding v(3) by simp
      then show ?thesis using eq r vs'(1,2) page_eq_trans [OF s1(2) vs'(3)] by blast
    qed
  qed
qed

text \<open>C3. \<open>copyuvm\<close>, by which \<open>fork\<close> makes the memory of a child, never panics on a parent whose pages up to \<open>sz\<close> are all mapped.
  When it succeeds the child reads at every address of its memory the byte that the parent reads, through entries with the
  same flags, in frames taken from the free list that nobody else owns; beyond its memory it maps the kernel and nothing
  else. When free pages are too few it returns 0, and every page taken on the way is free again. In either case what the parent
  and others own is unchanged, and no page is lost: each page that was free is free, or a frame, a table or the directory of
  the child.\<close>

theorem copyuvm_copies:
  assumes "pool_ok kend U s vs" and "kdata_ok kdata" and "kept kend p (npages sz) U s vs" and "sz \<le> KERNBASE"
  shows "\<exists>r s'. copyuvm kend kdata p sz s = Ok (r, s') \<and> (\<forall>u. u \<in> U \<longrightarrow> page_eq (kmemory s) (kmemory s') u) \<and>
    (r \<noteq> 0 \<and> (\<exists>vs' G. pt_ok kend r (U \<union> G) s' vs' \<and> copied kdata p r (npages sz) G (kmemory s) (kmemory s') \<and>
       insert r (set vs' \<union> G \<union> tables (kmemory s') r 0) = set vs) \<or>
     r = 0 \<and> length vs \<le> 1025 + npages sz \<and> (\<exists>vs'. pool_ok kend U s' vs' \<and> set vs' = set vs))"
  by (rule copyuvm_spec [OF assms])

text \<open>A process whose frames are its own can be copied.\<close>

lemma pt_ok_kept:
  assumes pt: "pt_ok kend d W s vs" and m: "\<forall>n < N. \<exists>e. lookup (kmemory s) d n = Some e \<and> frame e \<in> W"
  defines "U \<equiv> insert d (W \<union> tables (kmemory s) d 0)"
  shows "pool_ok kend U s vs" "kept kend d N U s vs"
proof -
  note D = pt_okD [OF pt]
  have t: "page_ok kend u \<and> u \<notin> set vs" if "u \<in> tables (kmemory s) d 0" for u using D(9,10) that unfolding tables_def by blast
  show "pool_ok kend U s vs" unfolding pool_ok_def U_def using D(1-7) t by blast
  have "pt_ok kend d {} s vs" using D(4,10) by (intro pt_ok_frame [OF pt D(2)]) auto
  then show "kept kend d N U s vs" unfolding kept_def U_def using m by blast
qed

text \<open>Memory with as many free pages as one likes, and in it a process that owns one page.\<close>

lemma big_pool: "\<exists>(s :: kmem) vs. pool_ok 0x80115000 {} s vs \<and> length vs = 5000"
proof -
  let ?s = "\<lparr>use_lock = False, freelist = 0, kmemory = (\<lambda>_. 0)\<rparr> :: kmem"
  have "avail 0x80115000 ?s []" by (simp add: avail_def)
  from freerange_loop_avail [OF _ _ _ _ this, of "0x80115000" "0x80115000 + 5000 * 4096"]
  obtain s' :: kmem where "avail 0x80115000 s' (rev (pages_between 0x80115000 (0x80115000 + 5000 * 4096)))" by auto
  moreover have "length (pages_between 0x80115000 (0x80115000 + 5000 * 4096)) = 5000" by (simp add: pages_between_def)
  ultimately show ?thesis
    by (intro exI [of _ s'] exI [of _ "rev (pages_between 0x80115000 (0x80115000 + 5000 * 4096))"]) (simp add: pool_ok_def)
qed

lemma pages_left:
  assumes "set vs \<subseteq> set vs' \<union> A \<union> tables m d 0" "distinct vs" "finite A" "card A \<le> a"
  shows "length vs \<le> length vs' + a + 1024"
proof -
  have "finite (tables m d 0)" unfolding tables_def by simp
  then have "card (set vs) \<le> card (set vs' \<union> A \<union> tables m d 0)" using assms(1,3) by (intro card_mono) auto
  also have "\<dots> \<le> card (set vs') + card A + card (tables m d 0)" by (meson add_le_mono card_Un_le le_trans order_refl)
  also have "\<dots> \<le> length vs' + a + 1024" by (intro add_mono card_length assms(4) card_tables)
  finally show ?thesis using distinct_card [OF assms(2)] by simp
qed

lemma demo_space:
  "\<exists>(s :: kmem) d g vs. pt_ok 0x80115000 d {g} s vs \<and> 1100 < length vs \<and> owns {g} (lookup (kmemory s) d) 0 1 \<and>
     (\<forall>n < 1. \<exists>e. lookup (kmemory s) d n = Some e \<and> frame e \<in> {g})"
proof -
  obtain s :: kmem and vs where p: "pool_ok 0x80115000 {} s vs" "length vs = 5000" using big_pool by blast
  have "kdata_ok 0x80108000" by (simp add: kdata_ok_def P2V_def)
  from setupkvm_spec [OF p(1) this] obtain d vs1 and s1 :: kmem where d: "pt_ok 0x80115000 d {} s1 vs1"
    "lookup (kmemory s1) d = kernel_map 0x80108000" "insert d (set vs1 \<union> tables (kmemory s1) d 0) = set vs"
    using p(2) by auto
  have dist: "distinct vs" "distinct vs1" using p(1) pt_okD(2) [OF d(1)] by (simp_all add: pool_ok_def avail_def)
  have l1: "3975 \<le> length vs1" using pages_left [of vs vs1 "{d}" "kmemory s1" d 1] d(3) dist(1) p(2) by auto
  have n: "npages 0 = 0" "npages 0x1000 = 1" by (simp_all add: npages_def)
  have "\<forall>n. npages 0 \<le> n \<and> n < npages 0x1000 \<longrightarrow> lookup (kmemory s1) d n = None" unfolding n d(2) by (simp add: kernel_map_def)
  from allocuvm_enough [OF d(1) _ _ this] obtain s2 :: kmem where "grown 0x80115000 d {} 0 1 s1 vs1 s2" using l1 unfolding n by auto
  then obtain g vs2 where g: "filled_by (\<lambda>_. PTE_W OR PTE_U) (\<lambda>_ _. 0) g vs2 0x80115000 d {} 0 1 s1 vs1 s2"
    unfolding grown_def filled_def by blast
  note D = filled_byD [OF g] and own = grown_owned [OF g]
  have 1: "{} \<union> g ` {0..<1} = {g 0}" by auto
  have "length vs1 \<le> length vs2 + 1 + 1024" using D(5) dist(2) by (intro pages_left [of _ _ "{g 0}" "kmemory s2" d]) auto
  then have "1100 < length vs2" using l1 by simp
  moreover have "\<forall>n < 1. \<exists>e. lookup (kmemory s2) d n = Some e \<and> frame e \<in> {g 0}"
    using D(6) own(2) unfolding frames_def by auto
  ultimately show ?thesis using D(4) own(1) unfolding 1 by blast
qed

theorem copyuvm_copies_witness:
  "\<exists>(s :: kmem) p U vs. pool_ok 0x80115000 U s vs \<and> kept 0x80115000 p 1 U s vs \<and>
    (\<exists>r s' G. copyuvm 0x80115000 0x80108000 p 0x1000 s = Ok (r, s') \<and> r \<noteq> 0 \<and>
       copied 0x80108000 p r 1 G (kmemory s) (kmemory s'))"
proof -
  have n: "npages 0x1000 = 1" by (simp add: npages_def)
  obtain s :: kmem and d g vs where s: "pt_ok 0x80115000 d {g} s vs" "1100 < length vs"
      "\<forall>n < 1. \<exists>e. lookup (kmemory s) d n = Some e \<and> frame e \<in> {g}" using demo_space by blast
  obtain U where U: "pool_ok 0x80115000 U s vs" "kept 0x80115000 d 1 U s vs" using pt_ok_kept [OF s(1,3)] by blast
  have kd: "kdata_ok 0x80108000" by (simp add: kdata_ok_def P2V_def)
  have "(0x1000 :: u32) \<le> KERNBASE" by simp
  note c = copyuvm_copies [OF U(1) kd _ this, unfolded n, OF U(2)]
  have "\<not> length vs \<le> 1025 + 1" using s(2) by simp
  with c have "\<exists>r s' G. copyuvm 0x80115000 0x80108000 d 0x1000 s = Ok (r, s') \<and> r \<noteq> 0 \<and>
       copied 0x80108000 d r 1 G (kmemory s) (kmemory s')" by blast
  with U show ?thesis by blast
qed

end
