(* ===== verification/Faults.thy ===== *)
theory Faults
  imports Sched Life Address_Space
begin

text \<open>
  Behaviours of \<open>proc.c\<close> that its callers do not expect, as theorems: \<open>growproc\<close> that shrinks a process to
  nothing, and \<open>kill\<close> on pid 0.
\<close>

section \<open>Shrinking a process to nothing\<close>

lemma copyuvm_unmapped:
  assumes pt: "pt_ok kend p W s vs" and k: "kdata_ok kdata" and n: "1025 < length vs"
    and none: "lookup (kmemory s) p 0 = None" and sz: "0 < sz"
  shows "\<exists>msg. copyuvm kend kdata p sz s = Panic msg"
proof -
  define U where "U = insert p (W \<union> tables (kmemory s) p 0)"
  have "\<forall>n < 0 :: nat. \<exists>e. lookup (kmemory s) p n = Some e \<and> frame e \<in> W" by simp
  note kp = pt_ok_kept [OF pt this, folded U_def]
  obtain d s1 where s1: "setupkvm kend kdata s = Ok (d, s1)" "\<forall>u. u \<in> U \<longrightarrow> page_eq (kmemory s) (kmemory s1) u"
    and "d \<noteq> 0 \<and> (\<exists>vs'. pt_ok kend d U s1 vs')"
    using setupkvm_spec [OF kp(1) k] n by (meson leD)
  then obtain vs' where d: "d \<noteq> 0" "pt_ok kend d U s1 vs'" by blast
  have "kept kend p 0 U s1 vs'" using pt_okD(2,6) [OF d(2)] s1(2) by (intro kept_next [OF kp(2)]) auto
  then have p: "pt_ok kend p {} s1 vs'" by (simp add: kept_def)
  have "lookup (kmemory s1) p = lookup (kmemory s) p" using s1(2) by (intro kept_lookup [OF kp(2)]) blast
  then have none1: "lookup (kmemory s1) p (page_no 0) = None" using none by (simp add: page_no_def)
  have eq: "copyuvm kend kdata p sz s = copyuvm_loop kend p d 0 (unat sz) s1" using s1(1) d(1) by (simp add: copyuvm_def)
  have sz': "0 < unat sz" using sz by (simp add: word_less_nat_alt)
  show ?thesis
  proof (cases "present (pde_at (kmemory s1) p (page_no 0 div 1024))")
    case False
    then have "walkpgdir p 0 False s1 = (0, s1)" using pt_okD(3) [OF p] by (intro walk_missing) (auto dest: page_ok_mod)
    then show ?thesis unfolding eq using sz' by (subst copyuvm_loop.simps) simp
  next
    case True
    note loc = pte_loc_word [OF p page_no_less True]
    have "of_nat (pte_loc (kmemory s1) p (page_no 0)) \<noteq> (0 :: u32)" using loc by (metis unat_eq_zero)
    moreover have "\<not> present (word_at (kmemory s1) (pte_loc (kmemory s1) p (page_no 0)))"
      using none1 True page_no_less [of 0] by (simp add: lookup_def split: if_splits)
    ultimately show ?thesis unfolding eq using sz' walk_found [OF p True] loc(1)
      by (subst copyuvm_loop.simps) (simp add: load32_word_at present_def)
  qed
qed

text \<open>C31. \<open>growproc(-sz)\<close> frees every page of the process, and then takes the new size 0 that \<open>deallocuvm\<close> returns for a
  failure: it returns \<open>-1\<close> and leaves \<open>sz\<close> as it was, although nothing below it is mapped any more. The next
  \<open>fork\<close> of that process brings the kernel down: the \<open>copyuvm\<close> in it panics.\<close>

theorem growproc_to_zero:
  assumes "pt_ok (b_end B) (p_pgdir (procs s me)) U (km s) vs" and "kdata_ok (b_rodata_end B)" and "1025 < length vs"
    and "0 < p_sz (procs s me)" and "p_sz (procs s me) \<le> KERNBASE"
    and "owns U (lookup (kmemory (km s)) (p_pgdir (procs s me))) 0 (npages (p_sz (procs s me)))"
  shows "\<exists>s' msg. growproc B c me (- int (unat (p_sz (procs s me)))) s = Ok (- 1, s') \<and> procs s' = procs s \<and>
    (\<forall>n < npages (p_sz (procs s me)). lookup (kmemory (km s')) (p_pgdir (procs s me)) n = None) \<and>
    copyuvm (b_end B) (b_rodata_end B) (p_pgdir (procs s' me)) (p_sz (procs s' me)) (km s') = Panic msg"
proof -
  let ?sz = "p_sz (procs s me)" and ?d = "p_pgdir (procs s me)"
  have n0: "npages 0 = 0" and le: "0 \<le> ?sz" "unat ?sz \<le> 2 ^ 31" using assms(5) by (simp_all add: npages_def word_le_nat_alt)
  obtain m vs' where m: "deallocuvm (b_end B) ?d ?sz 0 (km s) = Ok (0, m)" "released (b_end B) ?d U 0 (npages ?sz) (km s) vs m vs'"
    using deallocuvm_spec [OF assms(1) le, unfolded n0, OF assms(6)] by blast
  let ?F = "frames (lookup (kmemory (km s)) ?d) 0 (npages ?sz)"
  have r: "pt_ok (b_end B) ?d (U - ?F) m vs'" "set vs' = set vs \<union> ?F" "lookup (kmemory m) ?d = unmap 0 (npages ?sz) (lookup (kmemory (km s)) ?d)"
    using m(2) unfolding released_def by blast+
  have none: "lookup (kmemory m) ?d n = None" if "n < npages ?sz" for n using that unfolding r(3) unmap_def by simp
  have "0 < npages ?sz" using assms(4) by (simp add: npages_def word_less_nat_alt div_greater_zero_iff)
  moreover have "distinct vs" "distinct vs'" using pt_okD(2) [OF assms(1)] pt_okD(2) [OF r(1)] by (simp_all add: avail_def)
  then have "length vs \<le> length vs'" using r(2) distinct_card [of vs] distinct_card [of vs'] by (metis card_mono finite_set sup_ge1)
  ultimately obtain msg where "copyuvm (b_end B) (b_rodata_end B) ?d ?sz m = Panic msg"
    using copyuvm_unmapped [OF r(1) assms(2) _ none assms(4)] assms(3) by (meson less_le_trans)
  moreover have neg: "- int (unat ?sz) < 0"
    using assms(4) by (simp only: word_less_nat_alt unsigned_0 neg_less_0_iff_less of_nat_0_less_iff)
  then have "growproc B c me (- int (unat ?sz)) s = Ok (- 1, s\<lparr>km := m\<rparr>)"
    using m(1) by (simp add: growproc_def with_km_def Let_def)
  ultimately show ?thesis using none by (intro exI [of _ "s\<lparr>km := m\<rparr>"]) auto
qed

theorem growproc_to_zero_witness:
  "\<exists>B s c me msg. \<exists>s'. p_sz (procs s me) = 0x1000 \<and> growproc B c me (- 4096) s = Ok (- 1, s') \<and> p_sz (procs s' me) = 0x1000 \<and>
     copyuvm (b_end B) (b_rodata_end B) (p_pgdir (procs s' me)) (p_sz (procs s' me)) (km s') = Panic msg"
proof -
  obtain m :: kmem and d g vs where m: "pt_ok 0x80115000 d {g} m vs" "1100 < length vs" "owns {g} (lookup (kmemory m) d) 0 1"
    using demo_space by blast
  let ?B = "\<lparr>b_end = 0x80115000, b_rodata_end = 0x80108000, b_initcode = [], b_forkret = 0, b_trapret = 0\<rparr>"
  let ?s = "static_kern\<lparr>procs := (\<lambda>_. zero_proc\<lparr>p_sz := 0x1000, p_pgdir := d\<rparr>), km := m\<rparr>"
  have n: "npages 0x1000 = 1" by (simp add: npages_def)
  have kd: "kdata_ok 0x80108000" by (simp add: kdata_ok_def P2V_def)
  have "\<exists>s' msg. growproc ?B 0 0 (- int (unat (p_sz (procs ?s 0)))) ?s = Ok (- 1, s') \<and> procs s' = procs ?s \<and>
    (\<forall>n < npages (p_sz (procs ?s 0)). lookup (kmemory (km s')) (p_pgdir (procs ?s 0)) n = None) \<and>
    copyuvm (b_end ?B) (b_rodata_end ?B) (p_pgdir (procs s' 0)) (p_sz (procs s' 0)) (km s') = Panic msg"
    using m kd by (intro growproc_to_zero [of ?B ?s 0 "{g}" vs]) (simp_all add: n)
  then obtain s' msg where r: "growproc ?B 0 0 (- 4096) ?s = Ok (- 1, s')" "procs s' = procs ?s"
    "copyuvm (b_end ?B) (b_rodata_end ?B) (p_pgdir (procs s' 0)) (p_sz (procs s' 0)) (km s') = Panic msg" by auto
  have "p_sz (procs ?s 0) = 0x1000" "p_sz (procs s' 0) = 0x1000" using r(2) by simp_all
  with r(1,3) show ?thesis by blast
qed

section \<open>Killing pid 0\<close>

lemma find_same:
  assumes f: "List.find P xs = Some i" and i: "Q i" and sub: "\<And>x. Q x \<Longrightarrow> P x"
  shows "List.find Q xs = Some i"
  using f by (induction xs) (auto split: if_splits dest: sub simp: i)

lemma allocproc_takes:
  assumes c: "cli_ok (\<lambda>_. False) s" and f: "List.find (\<lambda>i. p_state (procs s i) = UNUSED) [0..<NPROC] = Some i"
    and pid: "nextpid s < 2 ^ 31 - 1" and k: "fst (kalloc (km s)) \<noteq> 0"
  shows "\<exists>s'. allocproc B c s = Ok (Some i, s') \<and> p_state (procs s' i) = EMBRYO \<and> p_pid (procs s' i) = nextpid s \<and>
    p_killed (procs s' i) = p_killed (procs s i)"
proof -
  obtain s1 where s1: "lock_ptable c s = Ok s1" "cli_ok ((\<lambda>_. False)(c := True)) s1" "lock_frame s s1"
    using lock_ptable_ok [OF c, of c] by auto
  let ?s2 = "(upd_proc i (\<lambda>p. p\<lparr>p_state := EMBRYO, p_pid := nextpid s1\<rparr>) s1)\<lparr>nextpid := nextpid s1 + 1\<rparr>"
  have "cli_ok ((\<lambda>_. False)(c := True)) ?s2" using s1(2) by simp
  from unlock_ptable_ok [OF this, of c] obtain s3 where s3: "unlock_ptable c ?s2 = Ok s3" "lock_frame ?s2 s3" by auto
  obtain v m where v: "kalloc (km s) = (v, m)" "v \<noteq> 0" using k by (cases "kalloc (km s)") auto
  have eq: "procs s1 = procs s" "nextpid s1 = nextpid s" "km s1 = km s" using s1(3) by (simp_all add: lock_frame_def)
  have eq3: "procs s3 = procs ?s2" "km s3 = km ?s2" using s3(2) by (simp_all add: lock_frame_def)
  have "k_alloc s3 = (v, s3\<lparr>km := m\<rparr>)" using v eq eq3 by (simp add: k_alloc_def upd_proc_def)
  then show ?thesis
    using s1(1) s3(1) f pid v(2) eq eq3 by (simp add: allocproc_def Let_def upd_proc_def)
qed

text \<open>C32. \<open>kill(0)\<close> succeeds: it finds an unused slot, whose pid is 0, and marks it killed. \<open>allocproc\<close> does not clear the mark,
  so the process that is made in that slot next, which has nothing to do with the call, is born killed; without the call it is not.\<close>

theorem kill_pid_zero:
  assumes "cli_ok (\<lambda>_. False) s" and "pids_ok s" and "nextpid s < 2 ^ 31 - 1" and "fst (kalloc (km s)) \<noteq> 0"
    and "List.find (\<lambda>i. p_state (procs s i) = UNUSED) [0..<NPROC] = Some i" and "p_pid (procs s i) = 0" and "\<not> p_killed (procs s i)"
  shows "(\<exists>s1 s2. kill c 0 s = Ok (0, s1) \<and> allocproc B c s1 = Ok (Some i, s2) \<and> p_state (procs s2 i) = EMBRYO \<and>
      p_pid (procs s2 i) = nextpid s \<and> p_killed (procs s2 i)) \<and>
    (\<exists>s2. allocproc B c s = Ok (Some i, s2) \<and> p_pid (procs s2 i) = nextpid s \<and> \<not> p_killed (procs s2 i))"
proof
  have "p_state (procs s j) = UNUSED" if "p_pid (procs s j) = 0" for j using assms(2) that unfolding pids_ok_def by force
  then have f: "List.find (\<lambda>i. p_pid (procs s i) = 0) [0..<NPROC] = Some i"
    by (intro find_same [OF assms(5), where Q = "\<lambda>i. p_pid (procs s i) = 0"] assms(6))
  have u: "p_state (procs s i) = UNUSED" using assms(5) unfolding find_Some_iff by blast
  obtain s1 where s1: "lock_ptable c s = Ok s1" "cli_ok ((\<lambda>_. False)(c := True)) s1" "lock_frame s s1"
    using lock_ptable_ok [OF assms(1), of c] by auto
  have eq: "procs s1 = procs s" "nextpid s1 = nextpid s" "km s1 = km s" using s1(3) by (simp_all add: lock_frame_def)
  let ?s2 = "upd_proc i (\<lambda>p. p\<lparr>p_killed := True\<rparr>) s1"
  have "cli_ok ((\<lambda>_. False)(c := True)) ?s2" using s1(2) by simp
  moreover have "((\<lambda>_. False)(c := True))(c := False) = (\<lambda>_. False)" by auto
  ultimately obtain s3 where s3: "unlock_ptable c ?s2 = Ok s3" "cli_ok (\<lambda>_. False) s3" "lock_frame ?s2 s3"
    using unlock_ptable_ok [of "(\<lambda>_. False)(c := True)" ?s2 c] by (metis fun_upd_same)
  have eq3: "procs s3 = procs ?s2" "km s3 = km s" "nextpid s3 = nextpid s" using s3(3) eq by (simp_all add: lock_frame_def upd_proc_def)
  have k: "kill c 0 s = Ok (0, s3)" using s1(1) s3(1) f u eq by (simp add: kill_def Let_def upd_proc_def)
  have "(\<lambda>j. p_state (procs s3 j) = UNUSED) = (\<lambda>j. p_state (procs s j) = UNUSED)"
    unfolding eq3 using eq by (auto simp: upd_proc_def fun_eq_iff)
  then have "List.find (\<lambda>j. p_state (procs s3 j) = UNUSED) [0..<NPROC] = Some i" using assms(5) by simp
  from allocproc_takes [OF s3(2) this, where c = c and B = B] k assms(3,4) eq3 eq
  show "\<exists>s1 s2. kill c 0 s = Ok (0, s1) \<and> allocproc B c s1 = Ok (Some i, s2) \<and> p_state (procs s2 i) = EMBRYO \<and>
      p_pid (procs s2 i) = nextpid s \<and> p_killed (procs s2 i)" by (auto simp: upd_proc_def)
qed (use allocproc_takes [OF assms(1,5,3,4)] assms(7) in blast)

theorem kill_pid_zero_witness:
  "\<exists>(B :: build) s c i s1 s2. kill c 0 s = Ok (0, s1) \<and> allocproc B c s1 = Ok (Some i, s2) \<and> p_pid (procs s2 i) = 1 \<and> p_killed (procs s2 i)"
proof -
  let ?s = "static_kern\<lparr>km := pt_demo\<rparr>"
  have "cli_ok (\<lambda>_. False) ?s" by (simp add: cli_ok_def static_kern_def zero_cpu_def zero_spinlock_def)
  moreover have "pids_ok ?s" by (simp add: pids_ok_def static_kern_def zero_proc_def)
  moreover have "fst (kalloc (km ?s)) \<noteq> 0" by (simp add: kalloc_def pt_demo_def Let_def)
  moreover have "List.find (\<lambda>i. p_state (procs ?s i) = UNUSED) [0..<NPROC] = Some 0"
    by (simp add: upt_conv_Cons static_kern_def zero_proc_def)
  moreover have "nextpid ?s = 1" "p_pid (procs ?s 0) = 0" "\<not> p_killed (procs ?s 0)" by (simp_all add: static_kern_def zero_proc_def)
  ultimately show ?thesis using kill_pid_zero [of ?s 0 0 undefined] by fastforce
qed

end
