(* ===== verification/User_Access.thy ===== *)
theory User_Access
  imports Syscall Address_Space
begin

text \<open>
  What a system call reads from the memory of its process: \<open>fetchint\<close>, \<open>fetchstr\<close>, \<open>argint\<close>, \<open>argptr\<close> and
  \<open>argstr\<close> of \<open>syscall.c\<close> against the bytes that the page table of the process shows (\<open>vbyte\<close>).
\<close>

section \<open>Addresses\<close>

lemma user_addr_lookup:
  assumes pt: "pt_ok kend d U s vs"
  shows "user_addr (kmemory s) d va = map_option (\<lambda>e. frame e + (va AND 0xFFF)) (lookup (kmemory s) d (page_no va))"
proof -
  have d: "unat d mod PGSIZE = 0" using pt_okD(3) [OF pt] by (rule page_ok_mod)
  show ?thesis
  proof (cases "present (pde_at (kmemory s) d (page_no va div 1024))")
    case False
    then show ?thesis by (simp add: user_addr_def Let_def walk_pde [OF d] lookup_def present_def)
  next
    case True
    have "fst (walkpgdir d va False s) = of_nat (pte_loc (kmemory s) d (page_no va))" using walk_found [OF pt True] by simp
    then have "P2V (PTE_ADDR (pde_at (kmemory s) d (page_no va div 1024))) + 4 * PTX va = of_nat (pte_loc (kmemory s) d (page_no va))"
      using True by (simp add: walkpgdir_def Let_def walk_pde [OF d] present_def)
    note L = this
    show ?thesis
      unfolding user_addr_def Let_def walk_pde(2) [OF d] L unfolding load32_word_at pte_loc_word(1) [OF pt page_no_less True]
      using True page_no_less [of va] by (simp add: lookup_def present_def frame_def)
  qed
qed

lemma unat_low: "unat (va AND 0xFFF) = unat (va :: u32) mod PGSIZE"
proof -
  have "va AND 0xFFF = take_bit 12 va" by (simp add: take_bit_eq_mask mask_eq_exp_minus_1)
  then show ?thesis by (simp add: take_bit_eq_mod unat_mod)
qed

lemma frame_mod: "unat (frame e) mod PGSIZE = 0"
proof -
  have "PTE_ADDR e AND 0xFFF = 0" by (simp add: PTE_ADDR_def and.assoc)
  then have "unat (PTE_ADDR e) mod PGSIZE = 0" using unat_low [of "PTE_ADDR e"] by simp
  moreover have "P2V a = V2P a" for a by (simp add: P2V_def V2P_def diff_eq_eq)
  ultimately show ?thesis using V2P_aligned by (simp add: frame_def)
qed

lemma user_byte:
  assumes pt: "pt_ok kend d U s vs" and v: "vbyte (kmemory s) d (unat va) = Some b"
  shows "\<exists>a. user_addr (kmemory s) d va = Some a \<and> kmemory s (unat a) = b"
proof -
  obtain e where e: "lookup (kmemory s) d (page_no va) = Some e" "kmemory s (unat (frame e) + unat va mod PGSIZE) = b"
    using v by (auto simp: vbyte_def page_no_def)
  have "unat (frame e) + unat va mod PGSIZE < 2 ^ 32" using aligned_bound [OF frame_mod, of e] by (simp add: less_le_trans)
  then have "unat (frame e + (va AND 0xFFF)) = unat (frame e) + unat va mod PGSIZE"
    using unat_low by (subst unat_add_lem [THEN iffD1]) simp_all
  then show ?thesis using e by (simp add: user_addr_lookup [OF pt])
qed

section \<open>Reading\<close>

text \<open>The bytes of the user addresses \<open>lo, ..., hi - 1\<close>, when all of them are mapped.\<close>

definition ubytes :: "mem \<Rightarrow> u32 \<Rightarrow> nat \<Rightarrow> nat \<Rightarrow> u8 list" where
  "ubytes m d lo hi = map (\<lambda>x. the (vbyte m d x)) [lo..<hi]"

definition readable :: "mem \<Rightarrow> u32 \<Rightarrow> nat \<Rightarrow> bool" where
  "readable m d n \<longleftrightarrow> n \<le> 2 ^ 31 \<and> (\<forall>x < n. vbyte m d x \<noteq> None)"

lemma ubytes_Cons: "lo < hi \<Longrightarrow> ubytes m d lo hi = the (vbyte m d lo) # ubytes m d (Suc lo) hi"
  by (simp add: ubytes_def upt_conv_Cons)

lemma readable_step:
  assumes pt: "pt_ok kend d U s vs" and r: "readable (kmemory s) d N" and n: "unat va < N"
  obtains a where "user_addr (kmemory s) d va = Some a" "kmemory s (unat a) = the (vbyte (kmemory s) d (unat va))"
    "unat (va + 1) = Suc (unat va)"
proof -
  obtain b where b: "vbyte (kmemory s) d (unat va) = Some b" using r n unfolding readable_def by blast
  have "unat va + 1 < 2 ^ 32" using r n by (simp add: readable_def)
  then have "unat (va + 1) = Suc (unat va)" by (subst unat_add_lem [THEN iffD1]) simp_all
  then show ?thesis using user_byte [OF pt b] b that by auto
qed

lemma user_load_bytes:
  assumes pt: "pt_ok kend d U s vs" and r: "readable (kmemory s) d N"
  shows "unat va + n \<le> N \<Longrightarrow> user_load (kmemory s) d va n = Ok (ubytes (kmemory s) d (unat va) (unat va + n))"
proof (induction n arbitrary: va)
  case 0
  then show ?case by (simp add: ubytes_def)
next
  case (Suc n)
  then obtain a where a: "user_addr (kmemory s) d va = Some a" "kmemory s (unat a) = the (vbyte (kmemory s) d (unat va))"
    "unat (va + 1) = Suc (unat va)" using readable_step [OF pt r, of va] by auto
  then show ?case using Suc by (simp add: ubytes_Cons)
qed

lemma fetchstr_loop_bytes:
  assumes pt: "pt_ok kend d U s vs" and r: "readable (kmemory s) d N"
  shows "unat va + n \<le> N \<Longrightarrow> fetchstr_loop (kmemory s) d va n =
    (let bs = ubytes (kmemory s) d (unat va) (unat va + n) in
     Ok (if 0 \<in> set bs then Some (takeWhile (\<lambda>b. b \<noteq> 0) bs) else None))"
proof (induction n arbitrary: va)
  case 0
  then show ?case by (simp add: ubytes_def)
next
  case (Suc n)
  then obtain a where a: "user_addr (kmemory s) d va = Some a" "kmemory s (unat a) = the (vbyte (kmemory s) d (unat va))"
    "unat (va + 1) = Suc (unat va)" using readable_step [OF pt r, of va] by auto
  have "fetchstr_loop (kmemory s) d (va + 1) n = (let bs = ubytes (kmemory s) d (Suc (unat va)) (Suc (unat va) + n) in
      Ok (if 0 \<in> set bs then Some (takeWhile (\<lambda>b. b \<noteq> 0) bs) else None))"
    using Suc.IH [of "va + 1"] Suc.prems a(3) by simp
  then show ?case using a(1,2) by (simp add: ubytes_Cons Let_def)
qed

section \<open>The arguments of a system call\<close>

lemma fetchint_bytes:
  assumes pt: "pt_ok kend (p_pgdir (procs s me)) U (km s) vs" and r: "readable (kmemory (km s)) (p_pgdir (procs s me)) (unat (p_sz (procs s me)))"
  shows "fetchint me addr s =
    Ok (if unat addr + 4 \<le> unat (p_sz (procs s me))
        then Some (rd32 (ubytes (kmemory (km s)) (p_pgdir (procs s me)) (unat addr) (unat addr + 4))) else None)"
proof (cases "p_sz (procs s me) \<le> addr")
  case True
  then show ?thesis by (simp add: fetchint_def word_le_nat_alt)
next
  case False
  then have "unat addr + 4 < 2 ^ 32" using r by (simp add: readable_def word_le_nat_alt)
  then have "unat (addr + 4) = unat addr + 4" by (subst unat_add_lem [THEN iffD1]) simp_all
  then show ?thesis
    using False user_load_bytes [OF pt r, of addr 4] by (simp add: fetchint_def get_user_def word_less_nat_alt not_less)
qed

lemma fetchstr_bytes:
  assumes pt: "pt_ok kend (p_pgdir (procs s me)) U (km s) vs" and r: "readable (kmemory (km s)) (p_pgdir (procs s me)) (unat (p_sz (procs s me)))"
  shows "fetchstr me addr s =
    (let bs = ubytes (kmemory (km s)) (p_pgdir (procs s me)) (unat addr) (unat (p_sz (procs s me))) in
     Ok (if 0 \<in> set bs then Some (takeWhile (\<lambda>b. b \<noteq> 0) bs) else None))"
  using fetchstr_loop_bytes [OF pt r, of addr "unat (p_sz (procs s me)) - unat addr"]
  by (cases "p_sz (procs s me) \<le> addr") (simp_all add: fetchstr_def word_le_nat_alt ubytes_def not_le)

text \<open>The memory of a process, and the address of the \<open>n\<close>-th word above the saved \<open>%esp\<close>.\<close>

definition pbytes :: "nat \<Rightarrow> nat \<Rightarrow> nat \<Rightarrow> kern \<Rightarrow> u8 list" where
  "pbytes me lo hi s = ubytes (kmemory (km s)) (p_pgdir (procs s me)) lo hi"

definition psize :: "nat \<Rightarrow> kern \<Rightarrow> nat" where
  "psize me s = unat (p_sz (procs s me))"

definition arg_addr :: "nat \<Rightarrow> nat \<Rightarrow> kern \<Rightarrow> nat" where
  "arg_addr me n s = unat (tf_esp (p_tf (procs s me)) + 4 + 4 * of_nat n)"

lemma argint_bytes:
  assumes "pt_ok kend (p_pgdir (procs s me)) U (km s) vs" and "readable (kmemory (km s)) (p_pgdir (procs s me)) (psize me s)"
  shows "argint me n s = Ok (if arg_addr me n s + 4 \<le> psize me s
    then Some (rd32 (pbytes me (arg_addr me n s) (arg_addr me n s + 4) s)) else None)"
  using fetchint_bytes [of kend s me U vs] assms by (simp add: argint_def arg_addr_def psize_def pbytes_def)

lemma argptr_bounds:
  assumes sz: "psize me s \<le> 2 ^ 31" and a: "argint me n s = Ok (Some i)" and k: "- (2 ^ 31) \<le> k \<and> k < 2 ^ 31"
  shows "argptr me n k s = Ok (if 0 \<le> k \<and> unat i < psize me s \<and> unat i + nat k \<le> psize me s then Some i else None)"
proof (cases "0 \<le> k \<and> unat i < psize me s")
  case False
  then show ?thesis using a by (auto simp: argptr_def psize_def word_le_nat_alt)
next
  case True
  then have u: "unat (word_of_int k :: u32) = nat k" using k by (simp add: unsigned_of_int take_bit_int_eq_self)
  have "unat i + nat k < 2 ^ 32"
  proof -
    have "nat k < 2 ^ 31" "unat i < 2 ^ 31" using True k sz by simp_all
    then show ?thesis by simp
  qed
  then have "unat (i + word_of_int k) = unat i + nat k" using u by (subst unat_add_lem [THEN iffD1]) simp_all
  then show ?thesis using a True by (simp add: argptr_def psize_def word_le_nat_alt word_less_nat_alt not_less)
qed

text \<open>C33. A system call never reads outside the memory of its process, whatever the user stack and the arguments hold. On a process whose
  memory \<open>[0, sz)\<close> is mapped, \<open>argint\<close>, \<open>argptr\<close> and \<open>argstr\<close> neither panic nor fault. \<open>argint\<close> yields
  the word at \<open>4(%esp + n)\<close> exactly when its four bytes lie below \<open>sz\<close>; \<open>argptr\<close> accepts a pointer exactly when it
  points below \<open>sz\<close> and the whole block from it does not reach beyond \<open>sz\<close>, for every C \<open>int\<close> as block size and without
  being misled by wrap-around; \<open>argstr\<close> accepts exactly the pointers with a terminating zero below \<open>sz\<close>, and yields
  the bytes before the first one.\<close>

theorem syscall_args_in_bounds:
  assumes "pt_ok kend (p_pgdir (procs s me)) U (km s) vs" and "readable (kmemory (km s)) (p_pgdir (procs s me)) (psize me s)"
  shows "argint me n s = Ok (if arg_addr me n s + 4 \<le> psize me s
      then Some (rd32 (pbytes me (arg_addr me n s) (arg_addr me n s + 4) s)) else None) \<and>
    (\<forall>i k. argint me n s = Ok (Some i) \<and> - (2 ^ 31) \<le> k \<and> k < 2 ^ 31 \<longrightarrow>
      argptr me n k s = Ok (if 0 \<le> k \<and> unat i < psize me s \<and> unat i + nat k \<le> psize me s then Some i else None)) \<and>
    (\<forall>a. argint me n s = Ok (Some a) \<longrightarrow> argstr me n s =
      Ok (if 0 \<in> set (pbytes me (unat a) (psize me s) s)
          then Some (takeWhile (\<lambda>b. b \<noteq> 0) (pbytes me (unat a) (psize me s) s)) else None)) \<and>
    (\<forall>k. argint me n s = Ok None \<longrightarrow> argptr me n k s = Ok None \<and> argstr me n s = Ok None)"
proof (intro conjI allI impI)
  show "argint me n s = Ok (if arg_addr me n s + 4 \<le> psize me s
      then Some (rd32 (pbytes me (arg_addr me n s) (arg_addr me n s + 4) s)) else None)" by (rule argint_bytes [OF assms])
next
  fix i :: u32 and k :: int
  assume a: "argint me n s = Ok (Some i) \<and> - (2 ^ 31) \<le> k \<and> k < 2 ^ 31"
  have "psize me s \<le> 2 ^ 31" using assms(2) by (simp add: readable_def)
  from argptr_bounds [OF this conjunct1 [OF a] conjunct2 [OF a]]
  show "argptr me n k s = Ok (if 0 \<le> k \<and> unat i < psize me s \<and> unat i + nat k \<le> psize me s then Some i else None)" .
next
  fix a
  assume "argint me n s = Ok (Some a)"
  then show "argstr me n s = Ok (if 0 \<in> set (pbytes me (unat a) (psize me s) s)
      then Some (takeWhile (\<lambda>b. b \<noteq> 0) (pbytes me (unat a) (psize me s) s)) else None)"
    using fetchstr_bytes [of kend s me U vs a] assms by (simp add: argstr_def pbytes_def psize_def Let_def)
qed (simp_all add: argptr_def argstr_def)

theorem syscall_args_in_bounds_witness:
  "\<exists>s. psize 0 s = 0x1000 \<and> arg_addr 0 0 s = 0xFFC \<and> (\<exists>i. argint 0 0 s = Ok (Some i)) \<and> argint 0 1 s = Ok None"
proof -
  obtain m :: kmem and d g vs where m: "pt_ok 0x80115000 d {g} m vs" "\<forall>n < 1. \<exists>e. lookup (kmemory m) d n = Some e \<and> frame e \<in> {g}"
    using demo_space by blast
  let ?s = "static_kern\<lparr>procs := (\<lambda>_. zero_proc\<lparr>p_sz := 0x1000, p_pgdir := d, p_tf := (p_tf zero_proc)\<lparr>tf_esp := 0xFF8\<rparr>\<rparr>), km := m\<rparr>"
  have sz: "psize 0 ?s = 0x1000" by (simp add: psize_def)
  have at: "arg_addr 0 0 ?s = 0xFFC" "arg_addr 0 1 ?s = 0x1000" by (simp_all add: arg_addr_def)
  have "readable (kmemory m) d 0x1000" using m(2) by (auto simp: readable_def vbyte_def)
  then have "readable (kmemory (km ?s)) (p_pgdir (procs ?s 0)) (psize 0 ?s)" unfolding sz by simp
  moreover have "pt_ok 0x80115000 (p_pgdir (procs ?s 0)) {g} (km ?s) vs" using m(1) by simp
  ultimately have "argint 0 0 ?s = Ok (Some (rd32 (pbytes 0 0xFFC (0xFFC + 4) ?s)))" "argint 0 1 ?s = Ok None"
    using conjunct1 [OF syscall_args_in_bounds [of "0x80115000" ?s 0 "{g}" vs 0]]
      conjunct1 [OF syscall_args_in_bounds [of "0x80115000" ?s 0 "{g}" vs 1]] unfolding at sz by simp_all
  then show ?thesis using sz at(1) by blast
qed

end
