(* ===== verification/Blocks.thy ===== *)
theory Blocks
  imports Fs
begin

text \<open>
  The blocks of a transaction as the file system sees them. Reading, changing and releasing a block inside a transaction are specified over the
  contents \<open>bview\<close> that the cache shows, with the buffers the process holds kept as a set, and \<open>balloc\<close> and \<open>bfree\<close> over the bitmap in these contents.
  An operation either has the result its specification states or panics because a resource is used up: buffers, log space or disk blocks.
\<close>

section \<open>Outcomes\<close>

definition resource_panics :: "string list" where
  "resource_panics = [''bget: no buffers'', ''too big a transaction'', ''balloc: out of blocks'', ''iget: no inodes'']"

definition returns :: "('b \<Rightarrow> bool) \<Rightarrow> 'b res \<Rightarrow> bool" where
  "returns Q r \<longleftrightarrow> (case r of Ok x \<Rightarrow> Q x | Panic e \<Rightarrow> e \<in> set resource_panics | _ \<Rightarrow> False)"

lemma returns_simps [simp]:
  "returns Q (Ok x) = Q x" "returns Q (Panic e) \<longleftrightarrow> e \<in> set resource_panics" "\<not> returns Q Sleeps" "\<not> returns Q Undef"
  by (simp_all add: returns_def)

lemma returns_kbind:
  "returns P m \<Longrightarrow> (\<And>x. P x \<Longrightarrow> returns Q (f x)) \<Longrightarrow> returns Q (kbind m f)"
  by (cases m) simp_all

lemma returns_mono: "returns P m \<Longrightarrow> (\<And>x. P x \<Longrightarrow> Q x) \<Longrightarrow> returns Q m"
  by (cases m) simp_all

lemma returns_cases:
  assumes "returns Q m"
  obtains x where "m = Ok x" "Q x" | e where "m = Panic e" "e \<in> set resource_panics"
  using assms by (cases m) auto

section \<open>The state of a transaction\<close>

text \<open>The process holds the buffers \<open>H\<close>, given with their block numbers, and nobody holds another; exactly the logged blocks are dirty.\<close>

definition holds :: "'a bio_scheme \<Rightarrow> nat \<times> u32 \<Rightarrow> bool" where
  "holds s = (\<lambda>(b, n). held_buf b n s \<and> clean_buf b s \<and> b_refcnt (bufs s b) = 1)"

text \<open>A transaction never writes to the log itself nor to the super block.\<close>

definition loggable :: "'a log_st_scheme \<Rightarrow> u32 \<Rightarrow> bool" where
  "loggable s n \<longleftrightarrow> home_blk s n \<and> n \<noteq> 1"

definition log_inv :: "'a log_st_scheme \<Rightarrow> bool" where
  "log_inv s \<longleftrightarrow> lh_ok s \<and> log_geom s \<and> l_size s \<le> int LOGSIZE \<and> lh_n s \<le> l_size s - 1 \<and> distinct (logged s) \<and>
     (\<forall>b \<in> set (logged s). loggable s b) \<and> (\<forall>m. bdirty s m \<longleftrightarrow> m \<in> set (logged s))"

definition tx :: "(nat \<times> u32) set \<Rightarrow> 'a log_st_scheme \<Rightarrow> bool" where
  "tx H s \<longleftrightarrow> bio_ok s \<and> log_inv s \<and> (\<forall>h \<in> H. holds s h) \<and> (\<forall>j < NBUF. j \<notin> fst ` H \<longrightarrow> idle_buf (bufs s j))"

text \<open>What an operation inside a transaction leaves alone: the disk, the geometry of the log and all state above the log.\<close>

definition keeps :: "'a log_st_scheme \<Rightarrow> 'a log_st_scheme \<Rightarrow> bool" where
  "keeps s s' \<longleftrightarrow> disksize s' = disksize s \<and> curpid s' = curpid s \<and> dblocks s' = dblocks s \<and> dwrites s' = dwrites s \<and>
     l_start s' = l_start s \<and> l_size s' = l_size s \<and> l_outstanding s' = l_outstanding s \<and> l_committing s' = l_committing s \<and>
     l_dev s' = l_dev s \<and> log_st.more s' = log_st.more s"

lemma keeps_refl [simp]: "keeps s s"
  by (simp add: keeps_def)

lemma keeps_trans: "keeps s s' \<Longrightarrow> keeps s' s'' \<Longrightarrow> keeps s s''"
  by (simp add: keeps_def)

lemma keepsI: "same_disk s s' \<Longrightarrow> keeps s s'"
  using log_frame [of s' s] by (simp add: keeps_def same_disk_def)

lemma keeps_log:
  assumes "keeps s s'"
  shows "disksize s' = disksize s" "l_outstanding s' = l_outstanding s" "loggable s' = loggable s" "l_start s' = l_start s"
    "l_size s' = l_size s" "curpid s' = curpid s"
  using assms by (simp_all add: keeps_def loggable_def home_blk_def fun_eq_iff)

lemma keeps_fs:
  assumes "keeps s s'"
  shows "sb s' = sb s" "inodes s' = inodes s" "fs.more s' = fs.more s"
  using assms by (cases s; cases s'; simp add: keeps_def)+

lemma log_inv_same:
  assumes "log_inv s" "same_disk s s'" "bdirty s' = bdirty s"
  shows "log_inv s'"
  using assms log_frame [of s' s] by (simp add: log_inv_def same_disk_def lh_ok_def log_geom_def logged_def loggable_def home_blk_def)

lemma held_data: "bio_ok s \<Longrightarrow> held_buf b n s \<Longrightarrow> b_data (bufs s b) = bview s n"
  using bview_cached [OF bio_okD(1), of s b n] by (simp add: held_buf_def)

lemma tx_data: "tx H s \<Longrightarrow> (b, n) \<in> H \<Longrightarrow> b_data (bufs s b) = bview s n"
  by (auto simp: tx_def holds_def intro: held_data)

lemma tx_view_length: "tx H s \<Longrightarrow> unat n < disksize s \<Longrightarrow> length (bview s n) = BSIZE"
  using bview_length by (auto simp: tx_def)

lemma bread_outcome:
  assumes ok: "bio_ok s" and n: "unat n < disksize s"
    and unlocked: "\<And>i. i < NBUF \<Longrightarrow> buf_match 1 n (bufs s i) \<Longrightarrow> slocked (b_lock (bufs s i)) = 0"
  shows "(\<exists>i s'. bread 1 n s = Ok (i, s')) \<or> bread 1 n s = Panic ''bget: no buffers''"
proof (cases "\<exists>i<NBUF. buf_match 1 n (bufs s i) \<or> buf_unused (bufs s i)")
  case True
  then show ?thesis using bread_returns [OF ok n unlocked] by blast
next
  case False
  obtain "is" where m: "mru (bufs s) is" using bio_okD(3) [OF ok] by blast
  then have "List.find (\<lambda>j. buf_match 1 n (bufs s j)) is = None" "List.find (\<lambda>j. buf_unused (bufs s j)) (rev is) = None"
    using False by (auto simp: find_None_iff mru_def)
  then show ?thesis using m by (simp add: bread_def bget_def bget_pick_list)
qed

lemma bread_tx:
  assumes t: "tx H s" and n: "unat n < disksize s" "n \<notin> snd ` H"
  shows "returns (\<lambda>(b, s'). tx (insert (b, n) H) s' \<and> b \<notin> fst ` H \<and> b_data (bufs s' b) = bview s n \<and> bview s' = bview s \<and> keeps s s')
    (bread 1 n s)"
proof -
  have ok: "bio_ok s" "log_inv s" using t by (simp_all add: tx_def)
  have free: "i \<notin> fst ` H" if i: "i < NBUF" "buf_match 1 n (bufs s i)" for i
  proof
    assume "i \<in> fst ` H"
    then obtain m where m: "(i, m) \<in> H" by auto
    then have "buf_match 1 m (bufs s i)" using t by (auto simp: tx_def holds_def held_buf_def)
    then have "m = n" using i by (simp add: buf_match_def)
    then show False using m n by force
  qed
  then have "slocked (b_lock (bufs s i)) = 0" if "i < NBUF" "buf_match 1 n (bufs s i)" for i
    using that t by (auto simp: tx_def idle_buf_def)
  from bread_outcome [OF ok(1) n(1) this] show ?thesis
  proof
    assume "\<exists>i s'. bread 1 n s = Ok (i, s')"
    then obtain b s' where r: "bread 1 n s = Ok (b, s')" by blast
    note R = bread_spec [OF ok(1) r]
    have b: "b < NBUF" "b \<notin> fst ` H" using R t free by (auto simp: held_buf_def tx_def holds_def holdingsleep_def)
    have oth: "bufs s' j = bufs s j" if "j \<noteq> b" for j using R that by simp
    have "holds s' h" if h: "h \<in> H" for h
    proof -
      have "fst h \<noteq> b" using h b(2) by auto
      then show ?thesis using t h oth [of "fst h"] R
        by (auto simp: tx_def holds_def held_buf_def clean_buf_def same_disk_def)
    qed
    moreover have "holds s' (b, n)" using R b t by (auto simp: holds_def tx_def idle_buf_def)
    moreover have "idle_buf (bufs s' j)" if "j < NBUF" "j \<noteq> b" "j \<notin> fst ` H" for j using that t oth by (simp add: tx_def)
    ultimately have "tx (insert (b, n) H) s'" using R log_inv_same [OF ok(2)] by (simp add: tx_def)
    then show ?thesis using r b R keepsI [of s s'] by simp
  next
    assume "bread 1 n s = Panic ''bget: no buffers''"
    then show ?thesis by (simp add: resource_panics_def)
  qed
qed

lemma log_write_outcome: "1 \<le> l_outstanding s \<Longrightarrow> (\<exists>s'. log_write b s = Ok s') \<or> log_write b s = Panic ''too big a transaction''"
  by (simp add: log_write_def Let_def)

lemma log_write_limit: "log_write b s = Ok s' \<Longrightarrow> lh_ok s \<Longrightarrow> lh_n s' \<le> l_size s - 1"
  using log_write_guards(2) [of b s s'] by (auto simp: log_write_def split: if_splits)

text \<open>A held buffer is given new contents and logged.\<close>

lemma log_write_tx:
  assumes t: "tx H s" "(b, n) \<in> H" and d: "length d = BSIZE" and l: "1 \<le> l_outstanding s" and n: "loggable s n"
  shows "returns (\<lambda>s'. tx H s' \<and> bview s' = (bview s)(n := d) \<and> keeps s s') (log_write b (set_data b d s))"
proof -
  have ok: "bio_ok s" "held_buf b n s" "log_inv s" using t by (auto simp: tx_def holds_def)
  define s1 where "s1 = set_data b d s"
  note D = set_data_spec [OF ok(1,2) d, folded s1_def]
  have s1: "bio_ok s1" "held_buf b n s1" "log_inv s1" "keeps s s1"
    using D log_inv_same [OF ok(3)] keepsI [of s s1] by auto
  have lh: "lh_ok s1" using s1(3) by (simp add: log_inv_def)
  have "1 \<le> l_outstanding s1" using l keeps_log [OF s1(4)] by simp
  from log_write_outcome [OF this, of b] show ?thesis
  proof
    assume "\<exists>s'. log_write b s1 = Ok s'"
    then obtain s' where r: "log_write b s1 = Ok s'" by blast
    note L0 = log_write_spec [OF s1(1,2) lh r]
    then have L: "bio_ok s'" "held_buf b n s'" "clean_buf b s'" "bview s' = bview s1" "bdirty s' = (bdirty s1)(n := True)" "lh_ok s'"
      "logged s' = (if n \<in> set (logged s1) then logged s1 else logged s1 @ [n])" "dblocks s' = dblocks s1" "disksize s' = disksize s1"
      "dwrites s' = dwrites s1" "curpid s' = curpid s1" "bufs s' = (bufs s1)(b := (bufs s1 b)\<lparr>b_dirty := True\<rparr>)" by blast+
    have m: "bio.more s' = bio.more (s1\<lparr>lh_n := lh_n s', lh_block := lh_block s'\<rparr>)" using L0 by blast
    have L': "log_st.more s' = log_st.more s1" "l_start s' = l_start s1" "l_size s' = l_size s1" "l_outstanding s' = l_outstanding s1"
      "l_committing s' = l_committing s1" "l_dev s' = l_dev s1"
      using log_frame [OF m] by simp_all
    have k: "keeps s s'" using L L' s1(4) by (simp add: keeps_def)
    have k1: "loggable s' = loggable s1" "loggable s1 n" using L(9) L'(2,3) n keeps_log [OF s1(4)] by (simp_all add: loggable_def home_blk_def fun_eq_iff)
    have lim: "lh_n s' \<le> l_size s1 - 1" by (rule log_write_limit [OF r lh])
    have "log_inv s'"
      using s1(3) k1 lim L(5-7,9) L'(2,3,6) by (auto simp: log_inv_def log_geom_def)
    moreover have "holds s' h" if h: "h \<in> H" for h
    proof (cases "fst h = b")
      case True
      then have "h = (b, n)" using t(1) h ok(2) by (cases h) (auto simp: tx_def holds_def held_buf_def buf_match_def)
      moreover have "b_refcnt (bufs s' b) = 1" using t L(12) by (auto simp: holds_def tx_def s1_def set_data_def)
      ultimately show ?thesis using L(2,3) by (simp add: holds_def)
    next
      case False
      then have e: "bufs s' (fst h) = bufs s (fst h)" using L(12) by (simp add: s1_def set_data_def)
      have "dblocks s' = dblocks s" "curpid s' = curpid s" using k by (simp_all add: keeps_def)
      then show ?thesis using t(1) h e by (auto simp: tx_def holds_def held_buf_def clean_buf_def)
    qed
    moreover have "idle_buf (bufs s' j)" if "j < NBUF" "j \<notin> fst ` H" for j
    proof -
      have "j \<noteq> b" using that(2) t(2) by force
      then show ?thesis using t(1) that L(12) by (simp add: tx_def s1_def set_data_def)
    qed
    ultimately have "tx H s'" using L(1) by (simp add: tx_def)
    then show ?thesis using r k L(4) D by (simp add: s1_def)
  qed (simp add: s1_def resource_panics_def)
qed

lemma brelse_tx:
  assumes t: "tx (insert (b, n) H) s" "b \<notin> fst ` H"
  shows "returns (\<lambda>s'. tx H s' \<and> bview s' = bview s \<and> keeps s s') (brelse b s)"
proof -
  have ok: "bio_ok s" "held_buf b n s" "clean_buf b s" "b_refcnt (bufs s b) = 1" "log_inv s" using t by (auto simp: tx_def holds_def)
  obtain s' where r: "brelse b s = Ok s'" "bio_ok s'" "bview s' = bview s" "bdirty s' = bdirty s"
      "same_disk s s'" "idle_buf (bufs s' b)" "\<And>j. j \<noteq> b \<Longrightarrow> same_buf (bufs s j) (bufs s' j)"
    using release_one [OF ok(1-4)] by blast
  have "holds s' h" if h: "h \<in> H" for h
  proof -
    have "fst h \<noteq> b" using h t(2) by auto
    then have "same_buf (bufs s (fst h)) (bufs s' (fst h))" by (rule r(7))
    then show ?thesis using t(1) h r(5) held_same [of s "fst h" s'] by (auto simp: tx_def holds_def same_buf_iff same_disk_def)
  qed
  moreover have "idle_buf (bufs s' j)" if "j < NBUF" "j \<notin> fst ` H" for j
    using t(1) that r(6) idle_same [OF r(7), of j] by (cases "j = b") (auto simp: tx_def)
  ultimately show ?thesis using r log_inv_same [OF ok(5)] keepsI [of s s'] by (simp add: tx_def)
qed

text \<open>The three together: read, change, log, release; and read and release.\<close>

lemma change_block:
  assumes t: "tx H s" and n: "loggable s n" "n \<notin> snd ` H" and d: "length (f (bview s n)) = BSIZE" and l: "1 \<le> l_outstanding s"
  shows "returns (\<lambda>s'. tx H s' \<and> bview s' = (bview s)(n := f (bview s n)) \<and> keeps s s')
    (kbind (bread 1 n s) (\<lambda>(b, s). kbind (log_write b (set_data b (f (b_data (bufs s b))) s)) (\<lambda>s. brelse b s)))"
proof (rule returns_kbind [OF bread_tx [OF t _ n(2)]])
  show "unat n < disksize s" using n by (simp add: loggable_def home_blk_def)
  fix x assume X: "case x of (b, s') \<Rightarrow> tx (insert (b, n) H) s' \<and> b \<notin> fst ` H \<and> b_data (bufs s' b) = bview s n \<and> bview s' = bview s \<and> keeps s s'"
  obtain b s1 where x: "x = (b, s1)" by (cases x)
  then have b: "tx (insert (b, n) H) s1" "b \<notin> fst ` H" "b_data (bufs s1 b) = bview s n" "bview s1 = bview s" "keeps s s1" using X by simp_all
  have "returns (\<lambda>s'. tx (insert (b, n) H) s' \<and> bview s' = (bview s1)(n := f (bview s n)) \<and> keeps s1 s')
      (log_write b (set_data b (f (bview s n)) s1))"
    by (rule log_write_tx [OF b(1)]) (use d l n keeps_log [OF b(5)] in simp_all)
  then have "returns (\<lambda>s'. tx H s' \<and> bview s' = (bview s)(n := f (bview s n)) \<and> keeps s s')
      (kbind (log_write b (set_data b (f (bview s n)) s1)) (brelse b))"
  proof (rule returns_kbind)
    fix s2 assume A: "tx (insert (b, n) H) s2 \<and> bview s2 = (bview s1)(n := f (bview s n)) \<and> keeps s1 s2"
    then have "keeps s s2" using b(5) keeps_trans by blast
    then show "returns (\<lambda>s'. tx H s' \<and> bview s' = (bview s)(n := f (bview s n)) \<and> keeps s s') (brelse b s2)"
      using A b by (auto intro!: returns_mono [OF brelse_tx [of b n H s2]] intro: keeps_trans)
  qed
  then show "returns (\<lambda>s'. tx H s' \<and> bview s' = (bview s)(n := f (bview s n)) \<and> keeps s s')
      (case x of (b, s) \<Rightarrow> kbind (log_write b (set_data b (f (b_data (bufs s b))) s)) (brelse b))"
    by (simp add: x b(3))
qed

section \<open>The bitmap\<close>

definition marked :: "(u32 \<Rightarrow> block) \<Rightarrow> superblock \<Rightarrow> u32 \<Rightarrow> bool" where
  "marked v p b \<longleftrightarrow> \<not> bit_clear (v (BBLOCK b p)) (unat b mod BPB)"

definition bitmap_blocks :: "superblock \<Rightarrow> u32 set" where
  "bitmap_blocks p = (\<lambda>b. BBLOCK b p) ` {b. b < sb_size p}"

definition inode_blocks :: "superblock \<Rightarrow> u32 set" where
  "inode_blocks p = (\<lambda>i. IBLOCK i p) ` {i. i < sb_ninodes p}"

text \<open>The blocks that never belong to a file: the boot and the super block, the log, the bitmap, the inodes, and what lies behind the end of the disk.\<close>

definition reserved :: "'a fs_scheme \<Rightarrow> u32 \<Rightarrow> bool" where
  "reserved s n \<longleftrightarrow> n = 0 \<or> \<not> loggable s n \<or> n \<in> bitmap_blocks (sb s) \<or> n \<in> inode_blocks (sb s)"

definition fs_geom :: "'a fs_scheme \<Rightarrow> bool" where
  "fs_geom s \<longleftrightarrow> (\<forall>n \<in> bitmap_blocks (sb s) \<union> inode_blocks (sb s). loggable s n) \<and> bitmap_blocks (sb s) \<inter> inode_blocks (sb s) = {}"

definition bitmap_ok :: "'a fs_scheme \<Rightarrow> (u32 \<Rightarrow> block) \<Rightarrow> bool" where
  "bitmap_ok s v \<longleftrightarrow> (\<forall>b. b < sb_size (sb s) \<and> reserved s b \<longrightarrow> marked v (sb s) b) \<and> (\<forall>n. loggable s n \<longrightarrow> length (v n) = BSIZE)"

lemma bit_clear_iff: "bit_clear d bi \<longleftrightarrow> \<not> bit (d ! (bi div 8)) (bi mod 8)"
  by (simp add: bit_clear_def bit_mask_def bit_iff_and_push_bit_not_eq_0)

lemma bit_mask_iff: "bit (bit_mask bi) j \<longleftrightarrow> j = bi mod 8"
proof -
  have "bi mod 8 < 8" by simp
  then show ?thesis by (auto simp: bit_mask_def bit_push_bit_iff bit_exp_iff)
qed

lemma bit_clear_set:
  assumes "bi < BPB" "length d = BSIZE"
  shows "bit_clear (d[bi div 8 := d ! (bi div 8) OR bit_mask bi]) bj \<longleftrightarrow> bj \<noteq> bi \<and> bit_clear d bj"
proof (cases "bj div 8 = bi div 8")
  case True
  then have "bj mod 8 = bi mod 8 \<longleftrightarrow> bj = bi" by (metis div_mult_mod_eq)
  then show ?thesis using True assms by (auto simp: bit_clear_iff bit_or_iff bit_mask_iff)
qed (auto simp: bit_clear_iff)

lemma bit_clear_unset:
  assumes "bi < BPB" "length d = BSIZE"
  shows "bit_clear (d[bi div 8 := d ! (bi div 8) AND NOT (bit_mask bi)]) bj \<longleftrightarrow> bj = bi \<or> bit_clear d bj"
proof (cases "bj div 8 = bi div 8")
  case True
  then have "bj mod 8 = bi mod 8 \<longleftrightarrow> bj = bi" by (metis div_mult_mod_eq)
  then show ?thesis using True assms by (auto simp: bit_clear_iff bit_and_iff bit_not_iff bit_mask_iff)
qed (auto simp: bit_clear_iff)

text \<open>The contents after the block \<open>a\<close> has been allocated, and after it has been freed.\<close>

definition alloc :: "superblock \<Rightarrow> u32 \<Rightarrow> (u32 \<Rightarrow> block) \<Rightarrow> u32 \<Rightarrow> block" where
  "alloc p a v = (let n = BBLOCK a p; bi = unat a mod BPB in
     (v(n := (v n)[bi div 8 := v n ! (bi div 8) OR bit_mask bi]))(a := replicate BSIZE 0))"

definition dealloc :: "superblock \<Rightarrow> u32 \<Rightarrow> (u32 \<Rightarrow> block) \<Rightarrow> u32 \<Rightarrow> block" where
  "dealloc p a v = (let n = BBLOCK a p; bi = unat a mod BPB in v(n := (v n)[bi div 8 := v n ! (bi div 8) AND NOT (bit_mask bi)]))"

lemma BBLOCK_inj: "BBLOCK a p = BBLOCK b p \<Longrightarrow> unat a mod BPB = unat b mod BPB \<Longrightarrow> a = b"
proof -
  assume "BBLOCK a p = BBLOCK b p" "unat a mod BPB = unat b mod BPB"
  moreover from this have "unat (a div 4096) = unat (b div 4096)" by (simp add: BBLOCK_def)
  then have "unat a div BPB = unat b div BPB" by (simp add: unat_div)
  ultimately show ?thesis by (metis div_mult_mod_eq word_unat_eq_iff)
qed

lemma marked_alloc:
  assumes "a \<notin> bitmap_blocks p" "b < sb_size p" "length (v (BBLOCK a p)) = BSIZE"
  shows "marked (alloc p a v) p b \<longleftrightarrow> b = a \<or> marked v p b"
proof -
  have ne: "BBLOCK b p \<noteq> a" using assms by (auto simp: bitmap_blocks_def)
  show ?thesis
  proof (cases "BBLOCK b p = BBLOCK a p")
    case True
    then show ?thesis using assms ne BBLOCK_inj [of a p b]
      by (auto simp: marked_def alloc_def Let_def bit_clear_set)
  next
    case False
    then show ?thesis using ne by (auto simp: marked_def alloc_def Let_def)
  qed
qed

lemma marked_dealloc:
  assumes "length (v (BBLOCK a p)) = BSIZE"
  shows "marked (dealloc p a v) p b \<longleftrightarrow> b \<noteq> a \<and> marked v p b"
  using assms BBLOCK_inj [of a p b] by (cases "BBLOCK b p = BBLOCK a p") (auto simp: marked_def dealloc_def Let_def bit_clear_unset)

lemma alloc_other: "n \<noteq> a \<Longrightarrow> n \<notin> bitmap_blocks p \<Longrightarrow> a < sb_size p \<Longrightarrow> alloc p a v n = v n"
  by (auto simp: alloc_def Let_def bitmap_blocks_def)

lemma dealloc_other: "n \<notin> bitmap_blocks p \<Longrightarrow> a < sb_size p \<Longrightarrow> dealloc p a v n = v n"
  by (auto simp: dealloc_def Let_def bitmap_blocks_def)

lemma alloc_same [simp]: "alloc p a v a = replicate BSIZE 0"
  by (simp add: alloc_def Let_def)

lemma keeps_geom:
  assumes "keeps s s'"
  shows "reserved s' = reserved s" "fs_geom s' = fs_geom s" "bitmap_ok s' = bitmap_ok s"
  using keeps_fs(1) [OF assms] keeps_log(3) [OF assms] by (simp_all add: reserved_def fs_geom_def bitmap_ok_def fun_eq_iff)

lemma unat_first_block:
  assumes "b mod BPB = 0" "bi < BPB" "b + bi < unat (z :: u32)"
  shows "unat (of_nat (b + bi) :: u32) = b + bi" "BBLOCK (of_nat b) p = BBLOCK (of_nat (b + bi)) p" "(b + bi) mod BPB = bi"
proof -
  have l: "b + bi < 2 ^ 32" using assms(3) unsigned_less [where 'a = nat, of z] by simp
  then show u: "unat (of_nat (b + bi) :: u32) = b + bi" by (simp only: unat_of_nat) simp
  have "b div BPB = (b + bi) div BPB" using assms(1,2) by (auto elim!: dvdE simp flip: dvd_eq_mod_eq_0)
  moreover have "unat (of_nat b :: u32) = b" using l by (simp only: unat_of_nat) simp
  ultimately have "(of_nat b :: u32) div 4096 = of_nat (b + bi) div 4096" using u by (simp add: word_unat_eq_iff unat_div)
  then show "BBLOCK (of_nat b) p = BBLOCK (of_nat (b + bi)) p" by (simp add: BBLOCK_def)
  show "(b + bi) mod BPB = bi" using assms(1,2) by (simp add: mod_add_eq [symmetric, of b])
qed

lemma bzero_tx:
  assumes "tx H s" "loggable s n" "n \<notin> snd ` H" "1 \<le> l_outstanding s"
  shows "returns (\<lambda>s'. tx H s' \<and> bview s' = (bview s)(n := replicate BSIZE 0) \<and> keeps s s') (bzero 1 n s)"
  unfolding bzero_def using change_block [OF assms(1-3), of "\<lambda>_. replicate BSIZE 0"] assms(4) by simp

lemma balloc_scan_tx:
  assumes "tx H s" "fs_geom s" "bitmap_ok s (bview s)" "1 \<le> l_outstanding s"
    and "\<And>n. n \<in> snd ` H \<Longrightarrow> n \<notin> bitmap_blocks (sb s) \<and> (n < sb_size (sb s) \<longrightarrow> marked (bview s) (sb s) n)"
    and "\<And>b. b \<in> set bs \<Longrightarrow> b mod BPB = 0 \<and> b < unat (sb_size (sb s))"
  shows "returns (\<lambda>(a, s'). a < sb_size (sb s) \<and> \<not> marked (bview s) (sb s) a \<and> \<not> reserved s a \<and> tx H s' \<and> keeps s s' \<and>
     bview s' = alloc (sb s) a (bview s)) (balloc_scan 1 bs s)"
  using assms
proof (induction bs arbitrary: s)
  case Nil
  then show ?case by (simp add: resource_panics_def)
next
  case (Cons b bs)
  let ?n = "BBLOCK (of_nat b) (sb s)" let ?v = "bview s"
  have b: "b mod BPB = 0" "b < unat (sb_size (sb s))" using Cons.prems(6) by simp_all
  have bb: "?n \<in> bitmap_blocks (sb s)"
    using b unsigned_less [where 'a = nat, of "sb_size (sb s)"] by (auto simp: bitmap_blocks_def word_less_nat_alt unat_of_nat)
  have n: "loggable s ?n" "?n \<notin> snd ` H" using Cons.prems(2,5) bb by (auto simp: fs_geom_def)
  show ?case
    unfolding balloc_scan.simps
  proof (rule returns_kbind [OF bread_tx [OF Cons.prems(1) _ n(2)]])
    show "unat ?n < disksize s" using n by (simp add: loggable_def home_blk_def)
    fix x assume "case x of (bp, s1) \<Rightarrow> tx (insert (bp, ?n) H) s1 \<and> bp \<notin> fst ` H \<and> b_data (bufs s1 bp) = ?v ?n \<and> bview s1 = ?v \<and> keeps s s1"
    then obtain bp s1 where x: "x = (bp, s1)" "tx (insert (bp, ?n) H) s1" "bp \<notin> fst ` H" "b_data (bufs s1 bp) = ?v ?n" "bview s1 = ?v" "keeps s s1"
      by (cases x) auto
    let ?Q = "\<lambda>(a, s'). a < sb_size (sb s) \<and> \<not> marked ?v (sb s) a \<and> \<not> reserved s a \<and> tx H s' \<and> keeps s s' \<and> bview s' = alloc (sb s) a ?v"
    have f: "sb s1 = sb s" "l_outstanding s1 = l_outstanding s" "loggable s1 = loggable s" using keeps_fs [OF x(6)] keeps_log [OF x(6)] by simp_all
    show "returns ?Q (case x of (bp, s) \<Rightarrow> let d = b_data (bufs s bp) in
       case List.find (bit_clear d) [0..<min BPB (unat (sb_size (sb s)) - b)] of
         Some bi \<Rightarrow>
           kbind (log_write bp (set_data bp (d[bi div 8 := d ! (bi div 8) OR bit_mask bi]) s)) (\<lambda>s.
           kbind (brelse bp s) (\<lambda>s.
           kbind (bzero 1 (of_nat (b + bi)) s) (\<lambda>s. Ok (of_nat (b + bi), s))))
       | None \<Rightarrow> kbind (brelse bp s) (\<lambda>s. balloc_scan 1 bs s))"
    proof (cases "List.find (bit_clear (?v ?n)) [0..<min BPB (unat (sb_size (sb s)) - b)]")
      case None
      have "returns ?Q (kbind (brelse bp s1) (\<lambda>s. balloc_scan 1 bs s))"
      proof (rule returns_kbind [OF brelse_tx [OF x(2,3)]])
        fix s2 assume A: "tx H s2 \<and> bview s2 = bview s1 \<and> keeps s1 s2"
        then have k: "keeps s s2" using x(6) keeps_trans by blast
        note K = keeps_geom [OF k] keeps_fs(1) [OF k] keeps_log [OF k]
        have "returns (\<lambda>(a, s'). a < sb_size (sb s2) \<and> \<not> marked (bview s2) (sb s2) a \<and> \<not> reserved s2 a \<and> tx H s' \<and> keeps s2 s' \<and>
           bview s' = alloc (sb s2) a (bview s2)) (balloc_scan 1 bs s2)"
          by (rule Cons.IH) (use A x(5) K Cons.prems in simp_all)
        then show "returns ?Q (balloc_scan 1 bs s2)"
          by (rule returns_mono) (use A x(5) K k keeps_trans in auto)
      qed
      then show ?thesis using None by (simp add: x(1) x(4) f(1))
    next
      case (Some bi)
      then have bi: "bi < BPB" "b + bi < unat (sb_size (sb s))" "bit_clear (?v ?n) bi" by (auto dest!: find_Some_D)
      define a :: u32 where "a = of_nat (b + bi)"
      note U = unat_first_block [OF b(1) bi(1,2)]
      have a: "a < sb_size (sb s)" "?n = BBLOCK a (sb s)" "unat a mod BPB = bi" using U bi(2) by (simp_all add: a_def word_less_nat_alt)
      have free: "\<not> marked ?v (sb s) a" using bi(3) a by (simp add: marked_def)
      then have nr: "\<not> reserved s a" using Cons.prems(3) a(1) by (auto simp: bitmap_ok_def)
      have aH: "a \<notin> snd ` H" using free Cons.prems(5) a(1) by blast
      let ?d = "(?v ?n)[bi div 8 := ?v ?n ! (bi div 8) OR bit_mask bi]"
      have len: "length ?d = BSIZE" using Cons.prems(3) n(1) by (simp add: bitmap_ok_def)
      have "returns ?Q (kbind (log_write bp (set_data bp ?d s1)) (\<lambda>s. kbind (brelse bp s) (\<lambda>s. kbind (bzero 1 a s) (\<lambda>s. Ok (a, s)))))"
      proof (rule returns_kbind [OF log_write_tx [OF x(2) _ len]])
        show "(bp, ?n) \<in> insert (bp, ?n) H" "1 \<le> l_outstanding s1" "loggable s1 ?n" using f n Cons.prems(4) by simp_all
        fix s2 assume A: "tx (insert (bp, ?n) H) s2 \<and> bview s2 = (bview s1)(?n := ?d) \<and> keeps s1 s2"
        then have t2: "tx (insert (bp, ?n) H) s2" and k2: "keeps s s2" using x(6) keeps_trans by blast+
        show "returns ?Q (kbind (brelse bp s2) (\<lambda>s. kbind (bzero 1 a s) (\<lambda>s. Ok (a, s))))"
        proof (rule returns_kbind [OF brelse_tx [OF t2 x(3)]])
          fix s3 assume B: "tx H s3 \<and> bview s3 = bview s2 \<and> keeps s2 s3"
          then have t3: "tx H s3" and k3: "keeps s s3" using k2 keeps_trans by blast+
          show "returns ?Q (kbind (bzero 1 a s3) (\<lambda>s. Ok (a, s)))"
          proof (rule returns_kbind [OF bzero_tx [OF t3 _ aH]])
            show "loggable s3 a" "1 \<le> l_outstanding s3" using keeps_log [OF k3] nr Cons.prems(4) by (simp_all add: reserved_def)
            fix s4 assume C: "tx H s4 \<and> bview s4 = (bview s3)(a := replicate BSIZE 0) \<and> keeps s3 s4"
            then have "keeps s s4" using k3 keeps_trans by blast
            moreover have "bview s4 = alloc (sb s) a ?v" using A B C x(5) a by (simp add: alloc_def Let_def)
            ultimately show "returns ?Q (Ok (a, s4))" using C a(1) free nr by simp
          qed
        qed
      qed
      then show ?thesis using Some by (simp add: x(1) x(4) f(1) a_def Let_def)
    qed
  qed
qed

lemma balloc_tx:
  assumes "tx H s" "fs_geom s" "bitmap_ok s (bview s)" "1 \<le> l_outstanding s"
    and "\<And>n. n \<in> snd ` H \<Longrightarrow> n \<notin> bitmap_blocks (sb s) \<and> (n < sb_size (sb s) \<longrightarrow> marked (bview s) (sb s) n)"
  shows "returns (\<lambda>(a, s'). a < sb_size (sb s) \<and> \<not> marked (bview s) (sb s) a \<and> \<not> reserved s a \<and> tx H s' \<and> keeps s s' \<and>
     bview s' = alloc (sb s) a (bview s)) (balloc 1 s)"
proof -
  have "k * BPB < m" if "k < (m + BPB - 1) div BPB" for k m :: nat
  proof -
    have "Suc k * BPB \<le> m + BPB - 1" using that by (simp only: Suc_le_eq [symmetric] less_eq_div_iff_mult_less_eq)
    then show ?thesis by simp
  qed
  then show ?thesis unfolding balloc_def by (intro balloc_scan_tx) (use assms in auto)
qed

lemma bfree_tx:
  assumes t: "tx H s" "fs_geom s" "bitmap_ok s (bview s)" "1 \<le> l_outstanding s"
    and a: "a < sb_size (sb s)" "marked (bview s) (sb s) a" and H: "\<And>n. n \<in> snd ` H \<Longrightarrow> n \<notin> bitmap_blocks (sb s)"
  shows "returns (\<lambda>s'. tx H s' \<and> keeps s s' \<and> bview s' = dealloc (sb s) a (bview s)) (bfree 1 a s)"
proof -
  let ?n = "BBLOCK a (sb s)" let ?v = "bview s" let ?bi = "unat a mod BPB"
  let ?f = "\<lambda>d. d[?bi div 8 := d ! (?bi div 8) AND NOT (bit_mask ?bi)]"
  have bb: "?n \<in> bitmap_blocks (sb s)" using a(1) by (auto simp: bitmap_blocks_def)
  have n: "loggable s ?n" "?n \<notin> snd ` H" using t(2) H bb by (auto simp: fs_geom_def)
  have len: "length (?f (?v ?n)) = BSIZE" using t(3) n(1) by (simp add: bitmap_ok_def)
  have d: "bview s' = ?v(?n := ?f (?v ?n)) \<Longrightarrow> bview s' = dealloc (sb s) a ?v" for s' :: "'a fs_scheme"
    by (simp add: dealloc_def Let_def)
  show ?thesis unfolding bfree_def
  proof (rule returns_kbind [OF bread_tx [OF t(1) _ n(2)]])
    show "unat ?n < disksize s" using n by (simp add: loggable_def home_blk_def)
    fix x assume "case x of (bp, s1) \<Rightarrow> tx (insert (bp, ?n) H) s1 \<and> bp \<notin> fst ` H \<and> b_data (bufs s1 bp) = ?v ?n \<and> bview s1 = ?v \<and> keeps s s1"
    then obtain bp s1 where x: "x = (bp, s1)" "tx (insert (bp, ?n) H) s1" "bp \<notin> fst ` H" "b_data (bufs s1 bp) = ?v ?n" "bview s1 = ?v" "keeps s s1"
      by (cases x) auto
    have "returns (\<lambda>s'. tx H s' \<and> keeps s s' \<and> bview s' = dealloc (sb s) a ?v) (kbind (log_write bp (set_data bp (?f (?v ?n)) s1)) (brelse bp))"
    proof (rule returns_kbind [OF log_write_tx [OF x(2) _ len]])
      show "(bp, ?n) \<in> insert (bp, ?n) H" "1 \<le> l_outstanding s1" "loggable s1 ?n" using keeps_log [OF x(6)] n t(4) by simp_all
      fix s2 assume A: "tx (insert (bp, ?n) H) s2 \<and> bview s2 = (bview s1)(?n := ?f (?v ?n)) \<and> keeps s1 s2"
      then have t2: "tx (insert (bp, ?n) H) s2" and k2: "keeps s s2" using x(6) keeps_trans by blast+
      show "returns (\<lambda>s'. tx H s' \<and> keeps s s' \<and> bview s' = dealloc (sb s) a ?v) (brelse bp s2)"
        by (rule returns_mono [OF brelse_tx [OF t2 x(3)]]) (use A k2 x(5) keeps_trans d in auto)
    qed
    moreover have "\<not> bit_clear (?v ?n) ?bi" using a(2) by (simp add: marked_def)
    ultimately show "returns (\<lambda>s'. tx H s' \<and> keeps s s' \<and> bview s' = dealloc (sb s) a ?v) (case x of (bp, s') \<Rightarrow>
        let d = b_data (bufs s' bp); bi = unat a mod BPB
        in if bit_clear d bi then Panic ''freeing free block''
           else kbind (log_write bp (set_data bp (d[bi div 8 := d ! (bi div 8) AND NOT (bit_mask bi)]) s')) (brelse bp))"
      by (simp add: x(1) x(4) Let_def)
  qed
qed

text \<open>The bitmap stays well formed.\<close>

lemma bitmap_ok_alloc:
  assumes "bitmap_ok s v" "\<not> reserved s a" "fs_geom s" "a < sb_size (sb s)"
  shows "bitmap_ok s (alloc (sb s) a v)"
proof -
  have h: "loggable s (BBLOCK a (sb s))" using assms(3,4) by (auto simp: fs_geom_def bitmap_blocks_def)
  then have l: "length (v (BBLOCK a (sb s))) = BSIZE" using assms(1) by (simp add: bitmap_ok_def)
  then have "marked (alloc (sb s) a v) (sb s) b" if "b < sb_size (sb s)" "reserved s b" for b
    using that assms(1,2) marked_alloc [of a "sb s" b v] by (auto simp: bitmap_ok_def reserved_def)
  moreover have "length (alloc (sb s) a v n) = BSIZE" if "loggable s n" for n
    using that assms(1) l by (simp add: alloc_def Let_def bitmap_ok_def)
  ultimately show ?thesis by (simp add: bitmap_ok_def)
qed

lemma bitmap_ok_dealloc:
  assumes "bitmap_ok s v" "\<not> reserved s a" "fs_geom s" "a < sb_size (sb s)"
  shows "bitmap_ok s (dealloc (sb s) a v)"
proof -
  have h: "loggable s (BBLOCK a (sb s))" using assms(3,4) by (auto simp: fs_geom_def bitmap_blocks_def)
  then have l: "length (v (BBLOCK a (sb s))) = BSIZE" using assms(1) by (simp add: bitmap_ok_def)
  then have "marked (dealloc (sb s) a v) (sb s) b" if "b < sb_size (sb s)" "reserved s b" for b
    using that assms(1,2) marked_dealloc [of v a "sb s" b] by (auto simp: bitmap_ok_def)
  moreover have "length (dealloc (sb s) a v n) = BSIZE" if "loggable s n" for n
    using that assms(1) l by (simp add: dealloc_def Let_def bitmap_ok_def)
  ultimately show ?thesis by (simp add: bitmap_ok_def)
qed

lemma bitmap_ok_write:
  assumes "bitmap_ok s v" "n \<notin> bitmap_blocks (sb s)" "length d = BSIZE"
  shows "bitmap_ok s (v(n := d))"
proof -
  have "marked (v(n := d)) (sb s) b = marked v (sb s) b" if "b < sb_size (sb s)" for b
    using that assms(2) by (auto simp: marked_def bitmap_blocks_def)
  then show ?thesis using assms by (simp add: bitmap_ok_def)
qed

lemma marked_write: "n \<notin> bitmap_blocks p \<Longrightarrow> b < sb_size p \<Longrightarrow> marked (v(n := d)) p b = marked v p b"
  by (auto simp: marked_def bitmap_blocks_def)

lemma bfree_free:
  assumes t: "tx H s" "fs_geom s" and a: "a < sb_size (sb s)" "\<not> marked (bview s) (sb s) a"
    and H: "\<And>n. n \<in> snd ` H \<Longrightarrow> n \<notin> bitmap_blocks (sb s)"
  shows "bfree 1 a s = Panic ''freeing free block'' \<or> (\<exists>e \<in> set resource_panics. bfree 1 a s = Panic e)"
proof -
  let ?n = "BBLOCK a (sb s)"
  have bb: "?n \<in> bitmap_blocks (sb s)" using a(1) by (auto simp: bitmap_blocks_def)
  have n: "loggable s ?n" "?n \<notin> snd ` H" using t(2) H bb by (auto simp: fs_geom_def)
  have c: "bit_clear (bview s ?n) (unat a mod BPB)" using a(2) by (simp add: marked_def)
  have "unat ?n < disksize s" using n by (simp add: loggable_def home_blk_def)
  from bread_tx [OF t(1) this n(2)] show ?thesis
    by (cases rule: returns_cases) (use c in \<open>auto simp: bfree_def Let_def\<close>)
qed

section \<open>A small file system\<close>

text \<open>A disk with the boot and super block, a log of ten blocks from block 2, the inodes in block 12, the bitmap in block 13 and the data
  blocks 14 to 19, two of which are in use: by the file with inode 2 and by the root directory.\<close>

definition fs_boot :: "nat \<Rightarrow> (nat \<Rightarrow> block) \<Rightarrow> superblock \<Rightarrow> (nat \<Rightarrow> inode) \<Rightarrow> fs" where
  "fs_boot dsz dk p ino = binit \<lparr>dblocks = dk, disksize = dsz, dwrites = [], curpid = 0, bufs = \<lambda>_. zero_buf,
     l_start = sb_logstart p, l_size = sint (sb_nlog p), l_outstanding = 1, l_committing = False, l_dev = 1,
     lh_n = 0, lh_block = replicate LOGSIZE 0, sb = p, inodes = ino\<rparr>"

lemma fs_boot_tx:
  assumes "\<forall>n<dsz. length (dk n) = BSIZE" "1 \<le> sint (sb_nlog p)" "sint (sb_nlog p) \<le> int LOGSIZE"
    and "unat (sb_logstart p) + nat (sint (sb_nlog p)) \<le> dsz" "dsz \<le> 2 ^ 32"
  shows "tx {} (fs_boot dsz dk p ino)" "bview (fs_boot dsz dk p ino) n = dk (unat n)" "sb (fs_boot dsz dk p ino) = p"
    "inodes (fs_boot dsz dk p ino) = ino" "l_outstanding (fs_boot dsz dk p ino) = 1" "dblocks (fs_boot dsz dk p ino) = dk"
    "disksize (fs_boot dsz dk p ino) = dsz" "l_start (fs_boot dsz dk p ino) = sb_logstart p" "l_size (fs_boot dsz dk p ino) = sint (sb_nlog p)"
    "dwrites (fs_boot dsz dk p ino) = []" "lh_n (fs_boot dsz dk p ino) = 0" "l_committing (fs_boot dsz dk p ino) = False"
proof -
  define s0 :: fs where "s0 = \<lparr>dblocks = dk, disksize = dsz, dwrites = [], curpid = 0, bufs = \<lambda>_. zero_buf,
     l_start = sb_logstart p, l_size = sint (sb_nlog p), l_outstanding = 1, l_committing = False, l_dev = 1,
     lh_n = 0, lh_block = replicate LOGSIZE 0, sb = p, inodes = ino\<rparr>"
  have b: "fs_boot dsz dk p ino = binit s0" by (simp add: fs_boot_def s0_def)
  have B: "bio_ok (binit s0) \<and> bview (binit s0) n = dblocks s0 (unat n) \<and> (\<forall>m. \<not> bdirty (binit s0) m)" for n
    using assms(1) by (intro binit_ok) (auto simp: s0_def zero_buf_def)
  show f: "sb (fs_boot dsz dk p ino) = p" "inodes (fs_boot dsz dk p ino) = ino" "l_outstanding (fs_boot dsz dk p ino) = 1" "dblocks (fs_boot dsz dk p ino) = dk"
    "disksize (fs_boot dsz dk p ino) = dsz" "l_start (fs_boot dsz dk p ino) = sb_logstart p" "l_size (fs_boot dsz dk p ino) = sint (sb_nlog p)"
    "dwrites (fs_boot dsz dk p ino) = []" "lh_n (fs_boot dsz dk p ino) = 0" "l_committing (fs_boot dsz dk p ino) = False"
    by (simp_all add: b binit_def s0_def)
  show "bview (fs_boot dsz dk p ino) n = dk (unat n)" using B by (simp add: b s0_def)
  have "idle_buf (bufs (binit s0) j)" if "j < NBUF" for j
    using that by (simp add: idle_buf_def binit_def fold_binit_fields set_next_def set_prev_def s0_def zero_buf_def)
  moreover have "log_inv (binit s0)"
    using assms B by (auto simp: log_inv_def lh_ok_def log_geom_def logged_def binit_def s0_def)
  ultimately show "tx {} (fs_boot dsz dk p ino)" using B by (simp add: tx_def b)
qed

definition demo_sb :: superblock where
  "demo_sb = \<lparr>sb_size = 20, sb_nblocks = 6, sb_ninodes = 8, sb_nlog = 10, sb_logstart = 2, sb_inodestart = 12, sb_bmapstart = 13\<rparr>"

definition demo_dir :: dinode where
  "demo_dir = \<lparr>d_type = T_DIR, d_major = 0, d_minor = 0, d_nlink = 1, d_size = 32, d_addrs = 15 # replicate 12 0\<rparr>"

definition demo_file :: dinode where
  "demo_file = \<lparr>d_type = T_FILE, d_major = 0, d_minor = 0, d_nlink = 1, d_size = 3, d_addrs = 14 # replicate 12 0\<rparr>"

definition demo_disk :: "nat \<Rightarrow> block" where
  "demo_disk = (\<lambda>_. replicate 512 0)(1 := encode_sb demo_sb @ replicate 484 0,
     12 := replicate 64 0 @ encode_dinode demo_dir @ encode_dinode demo_file @ replicate 320 0,
     13 := [255, 255] @ replicate 510 0, 14 := [97, 98, 99] @ replicate 509 0,
     15 := encode_dirent \<lparr>de_inum = 1, de_name = 46 # replicate 13 0\<rparr> @
           encode_dirent \<lparr>de_inum = 2, de_name = 102 # replicate 13 0\<rparr> @ replicate 480 0)"

definition demo_inode :: "u32 \<Rightarrow> dinode \<Rightarrow> inode" where
  "demo_inode inum di = load_inode di \<lparr>i_dev = 1, i_inum = inum, i_ref = 1, i_lock = \<lparr>slocked = 1, sl_name = [], sl_pid = 0\<rparr>, i_valid = True,
     i_type = 0, i_major = 0, i_minor = 0, i_nlink = 0, i_size = 0, i_addrs = []\<rparr>"

definition free_inode :: inode where
  "free_inode = \<lparr>i_dev = 0, i_inum = 0, i_ref = 0, i_lock = \<lparr>slocked = 0, sl_name = [], sl_pid = 0\<rparr>, i_valid = False,
     i_type = 0, i_major = 0, i_minor = 0, i_nlink = 0, i_size = 0, i_addrs = replicate 13 0\<rparr>"

definition demo_fs :: fs where
  "demo_fs = fs_boot 20 demo_disk demo_sb ((\<lambda>_. free_inode)(0 := demo_inode 1 demo_dir, 1 := demo_inode 2 demo_file))"

lemma demo_disk_length: "\<forall>n<20. length (demo_disk n) = BSIZE"
  by (simp add: demo_disk_def encode_sb_def demo_dir_def demo_file_def encode_dirent_def)

lemma demo_log:
  "1 \<le> sint (sb_nlog demo_sb)" "sint (sb_nlog demo_sb) \<le> int LOGSIZE"
  "unat (sb_logstart demo_sb) + nat (sint (sb_nlog demo_sb)) \<le> 20" "(20 :: nat) \<le> 2 ^ 32"
  by (simp_all add: demo_sb_def)

lemmas demo_boot = fs_boot_tx [OF demo_disk_length demo_log,
    where ino = "(\<lambda>_. free_inode)(0 := demo_inode 1 demo_dir, 1 := demo_inode 2 demo_file)", folded demo_fs_def]

lemma demo_fs_facts:
  "tx {} demo_fs" "bview demo_fs n = demo_disk (unat n)" "sb demo_fs = demo_sb" "l_outstanding demo_fs = 1" "dblocks demo_fs = demo_disk"
  "disksize demo_fs = 20" "l_start demo_fs = 2" "l_size demo_fs = 10" "dwrites demo_fs = []" "lh_n demo_fs = 0" "l_committing demo_fs = False"
  "inodes demo_fs = (\<lambda>_. free_inode)(0 := demo_inode 1 demo_dir, 1 := demo_inode 2 demo_file)"
  using demo_boot by (simp_all add: demo_sb_def)

lemma small_div: "b < 20 \<Longrightarrow> b div 4096 = (0 :: u32)" "i < 8 \<Longrightarrow> i div 8 = (0 :: u32)"
  by (simp_all add: word_unat_eq_iff unat_div word_less_nat_alt)

lemma demo_blocks:
  "bitmap_blocks demo_sb = {13}" "inode_blocks demo_sb = {12}" "loggable demo_fs n \<longleftrightarrow> n = 0 \<or> 12 \<le> n \<and> n < 20"
proof -
  have "bitmap_blocks demo_sb = (\<lambda>b. 13) ` {b. b < (20 :: u32)}"
    unfolding bitmap_blocks_def by (rule image_cong) (simp_all add: BBLOCK_def demo_sb_def small_div)
  moreover have "(0 :: u32) \<in> {b. b < 20}" by simp
  ultimately show "bitmap_blocks demo_sb = {13}" by blast
  have "inode_blocks demo_sb = (\<lambda>b. 12) ` {i. i < (8 :: u32)}"
    unfolding inode_blocks_def by (rule image_cong) (simp_all add: IBLOCK_def demo_sb_def small_div)
  moreover have "(0 :: u32) \<in> {i. i < 8}" by simp
  ultimately show "inode_blocks demo_sb = {12}" by blast
  have "n = 0 \<or> n = 1" if "\<not> 2 \<le> unat n"
  proof -
    have "unat n = 0 \<or> unat n = 1" using that by linarith
    then show ?thesis by (auto simp: word_unat_eq_iff)
  qed
  then show "loggable demo_fs n \<longleftrightarrow> n = 0 \<or> 12 \<le> n \<and> n < 20"
    by (auto simp: loggable_def home_blk_def demo_fs_facts log_area_def word_less_nat_alt word_le_nat_alt)
qed

lemma demo_geom: "fs_geom demo_fs"
  by (simp add: fs_geom_def demo_fs_facts demo_blocks)

lemma demo_marked:
  assumes "b < 20" shows "marked (bview demo_fs) demo_sb b \<longleftrightarrow> b < 16"
proof -
  have "list_all (\<lambda>k. bit_clear (demo_disk 13) k \<longleftrightarrow> 16 \<le> k) [0..<20]" by code_simp
  then have "bit_clear (demo_disk 13) k \<longleftrightarrow> 16 \<le> k" if "k < 20" for k using that by (simp add: list_all_iff del: upt_rec_numeral)
  moreover have "unat b < 20" "BBLOCK b demo_sb = 13" using assms by (simp_all add: word_less_nat_alt BBLOCK_def demo_sb_def small_div)
  ultimately show ?thesis by (auto simp: marked_def demo_fs_facts word_less_nat_alt)
qed

lemma demo_bitmap: "bitmap_ok demo_fs (bview demo_fs)"
proof -
  have "length (bview demo_fs n) = BSIZE" if "loggable demo_fs n" for n
    using that demo_disk_length by (simp add: loggable_def home_blk_def demo_fs_facts)
  moreover have "b < 16" if "reserved demo_fs b" "b < 20" for b
    using that by (auto simp: reserved_def demo_fs_facts demo_blocks word_less_nat_alt word_le_nat_alt)
  ultimately show ?thesis using demo_marked by (auto simp: bitmap_ok_def demo_fs_facts) (simp_all add: demo_sb_def)
qed

section \<open>Property: block allocation\<close>

text \<open>C40. Block allocation. Inside a transaction, \<open>balloc\<close> either panics because the disk, the log or the cache is full, or returns a block that was free and
  belongs neither to the log nor to the inodes nor to the bitmap. The block is zeroed and marked in the bitmap, no other mark and no other block changes, and nothing
  reaches the disk. \<open>bfree\<close> then takes the mark away again, and freeing the block a second time is caught.\<close>

theorem balloc_bfree:
  assumes "tx {} s" "fs_geom s" "bitmap_ok s (bview s)" "1 \<le> l_outstanding s"
  shows "returns (\<lambda>(a, s'). a < sb_size (sb s) \<and> \<not> marked (bview s) (sb s) a \<and> \<not> reserved s a \<and>
      bview s' a = replicate BSIZE 0 \<and> (\<forall>n. n \<noteq> a \<and> n \<notin> bitmap_blocks (sb s) \<longrightarrow> bview s' n = bview s n) \<and>
      (\<forall>b < sb_size (sb s). marked (bview s') (sb s) b \<longleftrightarrow> b = a \<or> marked (bview s) (sb s) b) \<and> dblocks s' = dblocks s \<and>
      returns (\<lambda>s''. (\<forall>b < sb_size (sb s). marked (bview s'') (sb s) b \<longleftrightarrow> marked (bview s) (sb s) b) \<and>
        (bfree 1 a s'' = Panic ''freeing free block'' \<or> (\<exists>e \<in> set resource_panics. bfree 1 a s'' = Panic e))) (bfree 1 a s'))
    (balloc 1 s)"
proof (rule returns_mono [OF balloc_tx [OF assms]], simp, goal_cases)
  case (1 x)
  obtain a s' where x: "x = (a, s')" by (cases x)
  then have A: "a < sb_size (sb s)" "\<not> marked (bview s) (sb s) a" "\<not> reserved s a" "tx {} s'" "keeps s s'" "bview s' = alloc (sb s) a (bview s)"
    using 1 by simp_all
  note K = keeps_geom [OF A(5)] keeps_fs(1) [OF A(5)] keeps_log [OF A(5)]
  have nb: "a \<notin> bitmap_blocks (sb s)" using A(3) by (simp add: reserved_def)
  have "loggable s (BBLOCK a (sb s))" using assms(2) A(1) by (auto simp: fs_geom_def bitmap_blocks_def)
  then have len: "length (bview s (BBLOCK a (sb s))) = BSIZE" using assms(3) by (simp add: bitmap_ok_def)
  note m = marked_alloc [where v = "bview s", OF nb _ len]
  have ok: "bitmap_ok s' (bview s')" using bitmap_ok_alloc [OF assms(3) A(3) assms(2) A(1)] K A(6) by simp
  have len': "length (bview s' (BBLOCK a (sb s))) = BSIZE" using ok \<open>loggable s (BBLOCK a (sb s))\<close> K by (simp add: bitmap_ok_def)
  have "returns (\<lambda>s''. tx {} s'' \<and> keeps s' s'' \<and> bview s'' = dealloc (sb s) a (bview s')) (bfree 1 a s')"
    using bfree_tx [OF A(4) _ ok, of a] assms(2,4) A(1,6) K m by simp
  then have "returns (\<lambda>s''. (\<forall>b < sb_size (sb s). marked (bview s'') (sb s) b \<longleftrightarrow> marked (bview s) (sb s) b) \<and>
        (bfree 1 a s'' = Panic ''freeing free block'' \<or> (\<exists>e \<in> set resource_panics. bfree 1 a s'' = Panic e))) (bfree 1 a s')"
  proof (rule returns_mono)
    fix s'' assume B: "tx {} s'' \<and> keeps s' s'' \<and> bview s'' = dealloc (sb s) a (bview s')"
    then have k: "keeps s s''" using A(5) keeps_trans by blast
    have "\<forall>b < sb_size (sb s). marked (bview s'') (sb s) b \<longleftrightarrow> marked (bview s) (sb s) b"
      using B marked_dealloc [where v = "bview s'", OF len'] A(2,6) m by auto
    moreover have "bfree 1 a s'' = Panic ''freeing free block'' \<or> (\<exists>e \<in> set resource_panics. bfree 1 a s'' = Panic e)"
      by (rule bfree_free) (use B marked_dealloc [where v = "bview s'", OF len'] keeps_geom [OF k] keeps_fs(1) [OF k] assms(2) A(1) in auto)
    ultimately show "(\<forall>b < sb_size (sb s). marked (bview s'') (sb s) b \<longleftrightarrow> marked (bview s) (sb s) b) \<and>
        (bfree 1 a s'' = Panic ''freeing free block'' \<or> (\<exists>e \<in> set resource_panics. bfree 1 a s'' = Panic e))" by blast
  qed
  moreover have "dblocks s' = dblocks s" using A(5) by (simp add: keeps_def)
  ultimately show ?case using x A m alloc_other [OF _ _ A(1)] by simp
qed

lemma demo_balloc: "(case balloc 1 demo_fs of Ok (a, s) \<Rightarrow> Some (a, dwrites s) | _ \<Rightarrow> None) = Some (16, [])"
  by code_simp


theorem balloc_bfree_witness:
  "\<exists>s'. balloc 1 demo_fs = Ok (16, s') \<and> bview s' 16 = replicate 512 0 \<and> bview s' 14 = demo_disk 14 \<and>
     marked (bview s') demo_sb 16 \<and> \<not> marked (bview s') demo_sb 17 \<and> \<not> marked (bview demo_fs) demo_sb 16"
proof -
  obtain s' where s': "balloc 1 demo_fs = Ok (16, s')" using demo_balloc by (auto split: res.splits prod.splits)
  have z: "(16 :: u32) < sb_size demo_sb" "(17 :: u32) < sb_size demo_sb" by (simp_all add: demo_sb_def)
  have "1 \<le> l_outstanding demo_fs" by (simp add: demo_fs_facts)
  from balloc_bfree [OF demo_fs_facts(1) demo_geom demo_bitmap this] s' z show ?thesis
    by (simp add: demo_fs_facts(2,3) demo_blocks demo_marked)
qed

end
