(* ===== verification/Files.thy ===== *)
theory Files
  imports Blocks
begin

text \<open>
  The contents of files. The block map of an inode, its direct addresses and the indirect block, is described over the contents of the blocks; \<open>bmap\<close> extends it by
  fresh blocks, \<open>readi\<close> returns the bytes of the file, and \<open>writei\<close> replaces or appends bytes and leaves every other file alone.
\<close>

section \<open>The block map of a file\<close>

definition faddr :: "(u32 \<Rightarrow> block) \<Rightarrow> u32 list \<Rightarrow> nat \<Rightarrow> u32" where
  "faddr v as bn =
     (if bn < NDIRECT then as ! bn
      else if as ! NDIRECT = 0 then 0 else get32 (4 * (bn - NDIRECT)) (v (as ! NDIRECT)))"

text \<open>The blocks that belong to the file.\<close>

definition fblocks :: "(u32 \<Rightarrow> block) \<Rightarrow> u32 list \<Rightarrow> u32 set" where
  "fblocks v as = (faddr v as ` {..<MAXFILE} \<union> {as ! NDIRECT}) - {0}"

definition map_ok :: "'a fs_scheme \<Rightarrow> (u32 \<Rightarrow> block) \<Rightarrow> u32 list \<Rightarrow> bool" where
  "map_ok s v as \<longleftrightarrow> length as = 13 \<and>
     (\<forall>n \<in> fblocks v as. n < sb_size (sb s) \<and> \<not> reserved s n \<and> marked v (sb s) n) \<and>
     (\<forall>b < MAXFILE. \<forall>c < MAXFILE. faddr v as b = faddr v as c \<and> faddr v as b \<noteq> 0 \<longrightarrow> b = c) \<and>
     (\<forall>b < MAXFILE. faddr v as b \<noteq> 0 \<longrightarrow> faddr v as b \<noteq> as ! NDIRECT)"

text \<open>The contents of the file by blocks; a block that is missing reads as zeros.\<close>

definition cont :: "(u32 \<Rightarrow> block) \<Rightarrow> u32 list \<Rightarrow> nat \<Rightarrow> block" where
  "cont v as b = (if faddr v as b = 0 then replicate BSIZE 0 else v (faddr v as b))"

text \<open>One block map extends another: the blocks that were there keep their place, new ones were free, and nothing outside the file changes but the bitmap. It grows
  when the contents stay the same.\<close>

definition shape :: "'a fs_scheme \<Rightarrow> (u32 \<Rightarrow> block) \<Rightarrow> u32 list \<Rightarrow> (u32 \<Rightarrow> block) \<Rightarrow> u32 list \<Rightarrow> bool" where
  "shape s v as v' as' \<longleftrightarrow> bitmap_ok s v' \<and> map_ok s v' as' \<and> fblocks v as \<subseteq> fblocks v' as' \<and>
     (\<forall>b < MAXFILE. faddr v as b \<noteq> 0 \<longrightarrow> faddr v' as' b = faddr v as b) \<and>
     (\<forall>n \<in> fblocks v' as' - fblocks v as. \<not> marked v (sb s) n) \<and>
     (\<forall>b < sb_size (sb s). marked v' (sb s) b \<longleftrightarrow> marked v (sb s) b \<or> b \<in> fblocks v' as') \<and>
     (\<forall>n. n \<notin> bitmap_blocks (sb s) \<and> n \<notin> fblocks v' as' \<longrightarrow> v' n = v n)"

definition grows :: "'a fs_scheme \<Rightarrow> (u32 \<Rightarrow> block) \<Rightarrow> u32 list \<Rightarrow> (u32 \<Rightarrow> block) \<Rightarrow> u32 list \<Rightarrow> bool" where
  "grows s v as v' as' \<longleftrightarrow> shape s v as v' as' \<and> (\<forall>b < MAXFILE. cont v' as' b = cont v as b)"

lemma fblocksI: "b < MAXFILE \<Longrightarrow> faddr v as b \<noteq> 0 \<Longrightarrow> faddr v as b \<in> fblocks v as" "as ! NDIRECT \<noteq> 0 \<Longrightarrow> as ! NDIRECT \<in> fblocks v as"
  by (auto simp: fblocks_def)

lemma map_okD:
  assumes "map_ok s v as"
  shows "length as = 13" "n \<in> fblocks v as \<Longrightarrow> n < sb_size (sb s) \<and> \<not> reserved s n \<and> marked v (sb s) n"
    "b < MAXFILE \<Longrightarrow> c < MAXFILE \<Longrightarrow> faddr v as b = faddr v as c \<Longrightarrow> faddr v as b \<noteq> 0 \<Longrightarrow> b = c"
    "b < MAXFILE \<Longrightarrow> faddr v as b \<noteq> 0 \<Longrightarrow> faddr v as b \<noteq> as ! NDIRECT"
  using assms by (auto simp: map_ok_def)

lemma shape_refl: "bitmap_ok s v \<Longrightarrow> map_ok s v as \<Longrightarrow> shape s v as v as"
  by (auto simp: shape_def map_ok_def)

lemma shapeD:
  assumes "shape s v as v' as'"
  shows "bitmap_ok s v'" "map_ok s v' as'" "n \<in> fblocks v as \<Longrightarrow> n \<in> fblocks v' as'"
    "b < MAXFILE \<Longrightarrow> faddr v as b \<noteq> 0 \<Longrightarrow> faddr v' as' b = faddr v as b"
    "n \<in> fblocks v' as' \<Longrightarrow> n \<notin> fblocks v as \<Longrightarrow> \<not> marked v (sb s) n"
    "n < sb_size (sb s) \<Longrightarrow> marked v' (sb s) n \<longleftrightarrow> marked v (sb s) n \<or> n \<in> fblocks v' as'"
    "n \<notin> bitmap_blocks (sb s) \<Longrightarrow> n \<notin> fblocks v' as' \<Longrightarrow> v' n = v n"
  using assms by (auto simp: shape_def)

lemma shapeI:
  assumes "bitmap_ok s v'" "map_ok s v' as'" "\<And>n. n \<in> fblocks v as \<Longrightarrow> n \<in> fblocks v' as'"
    "\<And>b. b < MAXFILE \<Longrightarrow> faddr v as b \<noteq> 0 \<Longrightarrow> faddr v' as' b = faddr v as b"
    "\<And>n. n \<in> fblocks v' as' \<Longrightarrow> n \<notin> fblocks v as \<Longrightarrow> \<not> marked v (sb s) n"
    "\<And>n. n < sb_size (sb s) \<Longrightarrow> marked v' (sb s) n \<longleftrightarrow> marked v (sb s) n \<or> n \<in> fblocks v' as'"
    "\<And>n. n \<notin> bitmap_blocks (sb s) \<Longrightarrow> n \<notin> fblocks v' as' \<Longrightarrow> v' n = v n"
  shows "shape s v as v' as'"
  unfolding shape_def using assms by blast

lemma growsI:
  assumes "bitmap_ok s v'" "map_ok s v' as'" "\<And>n. n \<in> fblocks v as \<Longrightarrow> n \<in> fblocks v' as'"
    "\<And>b. b < MAXFILE \<Longrightarrow> faddr v as b \<noteq> 0 \<Longrightarrow> faddr v' as' b = faddr v as b \<and> v' (faddr v as b) = v (faddr v as b)"
    "\<And>b. b < MAXFILE \<Longrightarrow> faddr v as b = 0 \<Longrightarrow> faddr v' as' b \<noteq> 0 \<Longrightarrow> v' (faddr v' as' b) = replicate BSIZE 0"
    "\<And>n. n \<in> fblocks v' as' \<Longrightarrow> n \<notin> fblocks v as \<Longrightarrow> \<not> marked v (sb s) n"
    "\<And>n. n < sb_size (sb s) \<Longrightarrow> marked v' (sb s) n \<longleftrightarrow> marked v (sb s) n \<or> n \<in> fblocks v' as'"
    "\<And>n. n \<notin> bitmap_blocks (sb s) \<Longrightarrow> n \<notin> fblocks v' as' \<Longrightarrow> v' n = v n"
  shows "grows s v as v' as'"
proof -
  have "cont v' as' b = cont v as b" if "b < MAXFILE" for b
    using assms(4,5) [OF that] by (auto simp: cont_def)
  then show ?thesis unfolding grows_def using assms by (blast intro: shapeI)
qed

lemma shape_trans:
  assumes A: "shape s v as v1 as1" and B: "shape s v1 as1 v2 as2"
  shows "shape s v as v2 as2"
proof (rule shapeI)
  show "bitmap_ok s v2" "map_ok s v2 as2" using shapeD(1,2) [OF B] .
  show "n \<in> fblocks v2 as2" if "n \<in> fblocks v as" for n using shapeD(3) [OF B shapeD(3) [OF A that]] .
  show "faddr v2 as2 b = faddr v as b" if b: "b < MAXFILE" "faddr v as b \<noteq> 0" for b
    using shapeD(4) [OF A b] shapeD(4) [OF B b(1)] b(2) by simp
  show "\<not> marked v (sb s) n" if n: "n \<in> fblocks v2 as2" "n \<notin> fblocks v as" for n
  proof (cases "n \<in> fblocks v1 as1")
    case True
    then show ?thesis using shapeD(5) [OF A] n by simp
  next
    case False
    have "n < sb_size (sb s)" using map_okD(2) [OF shapeD(2) [OF B] n(1)] by simp
    then show ?thesis using shapeD(5) [OF B n(1) False] shapeD(6) [OF A] by simp
  qed
  show "marked v2 (sb s) n \<longleftrightarrow> marked v (sb s) n \<or> n \<in> fblocks v2 as2" if "n < sb_size (sb s)" for n
    using shapeD(6) [OF A that] shapeD(6) [OF B that] shapeD(3) [OF B, of n] by blast
  show "v2 n = v n" if "n \<notin> bitmap_blocks (sb s)" "n \<notin> fblocks v2 as2" for n
    using shapeD(7) [OF B that] shapeD(7) [OF A that(1)] shapeD(3) [OF B, of n] that(2) by auto
qed

text \<open>New contents for a block of the file.\<close>

lemma shape_write:
  assumes ok: "bitmap_ok s v" "map_ok s v as" and b: "b < MAXFILE" "faddr v as b \<noteq> 0" and d: "length d = BSIZE"
  defines "v' \<equiv> v(faddr v as b := d)"
  shows "shape s v as v' as" "c < MAXFILE \<Longrightarrow> faddr v' as c = faddr v as c" "c < MAXFILE \<Longrightarrow> cont v' as c = (if c = b then d else cont v as c)"
proof -
  have n: "faddr v as b \<in> fblocks v as" "faddr v as b \<noteq> as ! NDIRECT" using fblocksI(1) [OF b] map_okD(4) [OF ok(2) b] by auto
  then have nb: "faddr v as b \<notin> bitmap_blocks (sb s)" using map_okD(2) [OF ok(2) n(1)] by (auto simp: reserved_def)
  show F: "faddr v' as c = faddr v as c" if "c < MAXFILE" for c using n(2) by (simp add: faddr_def v'_def)
  show "cont v' as c = (if c = b then d else cont v as c)" if "c < MAXFILE" for c
    using F [OF that] that b map_okD(3) [OF ok(2), of c b] by (auto simp: cont_def v'_def)
  have fb: "fblocks v' as = fblocks v as" using F by (auto simp: fblocks_def)
  have "marked v' (sb s) n = marked v (sb s) n" if "n < sb_size (sb s)" for n unfolding v'_def by (rule marked_write [OF nb that])
  then show "shape s v as v' as"
    using bitmap_ok_write [OF ok(1) nb d] ok(2) F fb map_okD(2) [OF ok(2)] n(1)
    by (intro shapeI) (auto simp: map_ok_def v'_def)
qed

text \<open>A free block becomes part of the map: if one entry, or none, of the map changes to it.\<close>

lemma grows_attach:
  assumes ok: "bitmap_ok s v" "map_ok s v as" "fs_geom s"
    and a: "a < sb_size (sb s)" "\<not> marked v (sb s) a" "\<not> reserved s a"
    and len: "length as' = 13" "as' ! NDIRECT \<noteq> 0 \<Longrightarrow> length (v' (as' ! NDIRECT)) = BSIZE"
    and ind: "as ! NDIRECT \<noteq> 0 \<Longrightarrow> as' ! NDIRECT = as ! NDIRECT" "as' ! NDIRECT = as ! NDIRECT \<or> as' ! NDIRECT = a"
    and v': "\<And>n. n \<noteq> as' ! NDIRECT \<or> n = a \<or> n = 0 \<Longrightarrow> v' n = alloc (sb s) a v n"
    and f: "\<And>b. b < MAXFILE \<Longrightarrow> faddr v' as' b = faddr v as b \<or> b = bn \<and> faddr v as b = 0 \<and> faddr v' as' b = a \<and> as' ! NDIRECT \<noteq> a"
    and new: "a \<in> fblocks v' as'"
  shows "grows s v as v' as'"
proof -
  have nb: "a \<notin> bitmap_blocks (sb s)" "a \<noteq> 0" using a(3) by (simp_all add: reserved_def)
  have old: "n \<noteq> a" "n \<notin> bitmap_blocks (sb s)" if "n \<in> fblocks v as" for n
    using map_okD(2) [OF ok(2) that] a(2) by (auto simp: reserved_def)
  have keep: "alloc (sb s) a v n = v n" if "n \<noteq> a" "n \<notin> bitmap_blocks (sb s)" for n using alloc_other [OF that a(1)] .
  have addr: "faddr v' as' b = faddr v as b" if "b < MAXFILE" "faddr v as b \<noteq> 0" for b using f [OF that(1)] that(2) by auto
  have sub: "fblocks v' as' \<subseteq> insert a (fblocks v as)" using f ind(2) unfolding fblocks_def by fastforce
  have sup: "n \<in> fblocks v' as'" if "n \<in> fblocks v as" for n
    using that addr ind(1) unfolding fblocks_def by force
  then have eq: "fblocks v' as' = insert a (fblocks v as)" using sub new by blast
  have I: "as' ! NDIRECT = 0 \<or> as' ! NDIRECT \<notin> bitmap_blocks (sb s)"
    using ind(2) nb old(2) fblocksI(2) [of as v] by metis
  have mark: "marked v' (sb s) n \<longleftrightarrow> n = a \<or> marked v (sb s) n" if n: "n < sb_size (sb s)" for n
  proof -
    have "BBLOCK n (sb s) \<in> bitmap_blocks (sb s)" "BBLOCK a (sb s) \<in> bitmap_blocks (sb s)" using n a(1) by (auto simp: bitmap_blocks_def)
    then have "v' (BBLOCK n (sb s)) = alloc (sb s) a v (BBLOCK n (sb s))" "length (v (BBLOCK a (sb s))) = BSIZE"
      using I v' ok(1,3) by (metis, auto simp: fs_geom_def bitmap_ok_def)
    then show ?thesis using marked_alloc [OF nb(1) n, of v] by (simp add: marked_def)
  qed
  have M: "map_ok s v' as'" unfolding map_ok_def
  proof (intro conjI allI impI ballI)
    show "length as' = 13" by fact
    fix n assume "n \<in> fblocks v' as'"
    then show "n < sb_size (sb s)" "\<not> reserved s n" "marked v' (sb s) n" using eq a map_okD(2) [OF ok(2), of n] mark by auto
  next
    fix b c assume "b < MAXFILE" "c < MAXFILE" "faddr v' as' b = faddr v' as' c \<and> faddr v' as' b \<noteq> 0"
    then show "b = c"
      using f [of b] f [of c] map_okD(3) [OF ok(2), of b c] old(1) fblocksI(1) [of b v as] fblocksI(1) [of c v as] by metis
  next
    fix b assume "b < MAXFILE" "faddr v' as' b \<noteq> 0"
    then show "faddr v' as' b \<noteq> as' ! NDIRECT"
      using f [of b] map_okD(4) [OF ok(2), of b] ind(2) old(1) fblocksI(1) [of b v as] by metis
  qed
  have B: "bitmap_ok s v'"
  proof -
    have "bitmap_ok s (alloc (sb s) a v)" by (rule bitmap_ok_alloc [OF ok(1) a(3) ok(3) a(1)])
    then have "length (v' n) = BSIZE" if "loggable s n" for n
      using that v' [of n] len(2) unfolding bitmap_ok_def by (cases "n = as' ! NDIRECT \<and> n \<noteq> 0") auto
    then show ?thesis using mark ok(1) by (simp add: bitmap_ok_def)
  qed
  show ?thesis
  proof (rule growsI [OF B M])
    show "faddr v' as' b = faddr v as b \<and> v' (faddr v as b) = v (faddr v as b)" if b: "b < MAXFILE" "faddr v as b \<noteq> 0" for b
    proof -
      have n: "faddr v as b \<in> fblocks v as" using fblocksI(1) [OF b] .
      then have "faddr v as b \<noteq> as' ! NDIRECT" using map_okD(4) [OF ok(2) b] ind(2) old(1) by auto
      then show ?thesis using addr [OF b] v' keep old [OF n] by simp
    qed
    show "v' (faddr v' as' b) = replicate BSIZE 0" if b: "b < MAXFILE" "faddr v as b = 0" "faddr v' as' b \<noteq> 0" for b
      using f [OF b(1)] b(2,3) v' [of a] by auto
    show "\<not> marked v (sb s) n" if "n \<in> fblocks v' as'" "n \<notin> fblocks v as" for n using that eq a(2) by auto
    show "marked v' (sb s) n \<longleftrightarrow> marked v (sb s) n \<or> n \<in> fblocks v' as'" if "n < sb_size (sb s)" for n
      using mark [OF that] eq map_okD(2) [OF ok(2), of n] by auto
    show "v' n = v n" if n: "n \<notin> bitmap_blocks (sb s)" "n \<notin> fblocks v' as'" for n
    proof -
      have "n \<noteq> a" using n(2) new by auto
      moreover have "n \<noteq> as' ! NDIRECT \<or> n = 0" using n(2) fblocksI(2) [of as' v'] by auto
      ultimately show ?thesis using v' [of n] keep n(1) by auto
    qed
  qed (rule sup)
qed

lemma attach_direct:
  assumes ok: "bitmap_ok s v" "map_ok s v as" "fs_geom s" and a: "a < sb_size (sb s)" "\<not> marked v (sb s) a" "\<not> reserved s a"
    and bn: "bn < NDIRECT" "as ! bn = 0"
  shows "grows s v as (alloc (sb s) a v) (as[bn := a])" "faddr (alloc (sb s) a v) (as[bn := a]) b = (if b = bn then a else faddr v as b)"
proof -
  have l: "length as = 13" using map_okD(1) [OF ok(2)] .
  have I: "alloc (sb s) a v (as ! NDIRECT) = v (as ! NDIRECT)" "as ! NDIRECT \<noteq> a" "length (v (as ! NDIRECT)) = BSIZE" if "as ! NDIRECT \<noteq> 0"
    using map_okD(2) [OF ok(2) fblocksI(2) [OF that]] a ok(1) alloc_other [of "as ! NDIRECT" a "sb s" v] by (auto simp: reserved_def bitmap_ok_def)
  show F: "faddr (alloc (sb s) a v) (as[bn := a]) b = (if b = bn then a else faddr v as b)" for b
    using bn l I(1) by (simp add: faddr_def)
  have "a \<noteq> 0" using a(3) by (simp add: reserved_def)
  then have "a \<in> fblocks (alloc (sb s) a v) (as[bn := a])" using fblocksI(1) [of bn "alloc (sb s) a v" "as[bn := a]"] F bn by simp
  moreover have "as ! NDIRECT \<noteq> a" using I(2) \<open>a \<noteq> 0\<close> by metis
  ultimately show "grows s v as (alloc (sb s) a v) (as[bn := a])"
    by (intro grows_attach [OF ok a, where bn = bn]) (use F bn l I in \<open>auto simp: faddr_def\<close>)
qed

lemma attach_indirect:
  assumes ok: "bitmap_ok s v" "map_ok s v as" "fs_geom s" and a: "a < sb_size (sb s)" "\<not> marked v (sb s) a" "\<not> reserved s a"
    and z: "as ! NDIRECT = 0"
  shows "grows s v as (alloc (sb s) a v) (as[NDIRECT := a])" "b < MAXFILE \<Longrightarrow> faddr (alloc (sb s) a v) (as[NDIRECT := a]) b = faddr v as b"
proof -
  have l: "length as = 13" using map_okD(1) [OF ok(2)] .
  show F: "faddr (alloc (sb s) a v) (as[NDIRECT := a]) b = faddr v as b" if "b < MAXFILE" for b
    using that l z by (simp add: faddr_def)
  have "a \<noteq> 0" using a(3) by (simp add: reserved_def)
  then have "a \<in> fblocks (alloc (sb s) a v) (as[NDIRECT := a])" using fblocksI(2) [of "as[NDIRECT := a]"] l by simp
  then show "grows s v as (alloc (sb s) a v) (as[NDIRECT := a])"
    by (intro grows_attach [OF ok a]) (use F z l in auto)
qed

lemma attach_entry:
  assumes ok: "bitmap_ok s v" "map_ok s v as" "fs_geom s" and a: "a < sb_size (sb s)" "\<not> marked v (sb s) a" "\<not> reserved s a"
    and bn: "NDIRECT \<le> bn" "bn < MAXFILE" "faddr v as bn = 0" "as ! NDIRECT \<noteq> 0"
  defines "v' \<equiv> (alloc (sb s) a v)(as ! NDIRECT := put32 (4 * (bn - NDIRECT)) a (v (as ! NDIRECT)))"
  shows "grows s v as v' as" "b < MAXFILE \<Longrightarrow> faddr v' as b = (if b = bn then a else faddr v as b)"
proof -
  have l: "length as = 13" using map_okD(1) [OF ok(2)] .
  have I: "as ! NDIRECT \<noteq> a" "length (v (as ! NDIRECT)) = BSIZE"
    using map_okD(2) [OF ok(2) fblocksI(2) [OF bn(4)]] a ok(1) by (auto simp: reserved_def bitmap_ok_def)
  show F: "faddr v' as b = (if b = bn then a else faddr v as b)" if "b < MAXFILE" for b
  proof (cases "b < NDIRECT \<or> b = bn")
    case True
    then show ?thesis using bn I(2) by (auto simp: faddr_def v'_def)
  next
    case False
    then have "4 * (b - NDIRECT) + 4 \<le> 4 * (bn - NDIRECT) \<or> 4 * (bn - NDIRECT) + 4 \<le> 4 * (b - NDIRECT)" using bn(1) by linarith
    then show ?thesis using False bn that I(2) by (simp add: faddr_def v'_def get32_put32_other)
  qed
  have "a \<noteq> 0" using a(3) by (simp add: reserved_def)
  then have "a \<in> fblocks v' as" using fblocksI(1) [of bn v' as] F [of bn] bn by simp
  then show "grows s v as v' as"
    by (intro grows_attach [OF ok a, where bn = bn]) (use F l I bn in \<open>auto simp: v'_def\<close>)
qed

section \<open>bmap\<close>

lemma upd_inode_simps [simp]:
  "bufs (upd_inode i f s) = bufs s" "dblocks (upd_inode i f s) = dblocks s" "disksize (upd_inode i f s) = disksize s"
  "dwrites (upd_inode i f s) = dwrites s" "curpid (upd_inode i f s) = curpid s" "l_start (upd_inode i f s) = l_start s" "l_size (upd_inode i f s) = l_size s"
  "l_outstanding (upd_inode i f s) = l_outstanding s" "l_committing (upd_inode i f s) = l_committing s" "l_dev (upd_inode i f s) = l_dev s"
  "lh_n (upd_inode i f s) = lh_n s" "lh_block (upd_inode i f s) = lh_block s" "sb (upd_inode i f s) = sb s"
  "inodes (upd_inode i f s) = (inodes s)(i := f (inodes s i))" "fs.more (upd_inode i f s) = fs.more s"
  by (simp_all add: upd_inode_def)

lemma upd_inode_bio [simp]:
  "bview (upd_inode i f s) = bview s" "bdirty (upd_inode i f s) = bdirty s" "bio_ok (upd_inode i f s) = bio_ok s"
  "log_inv (upd_inode i f s) = log_inv s" "loggable (upd_inode i f s) = loggable s"
  by (auto simp: bview_def bdirty_def bio_ok_def log_inv_def lh_ok_def log_geom_def logged_def loggable_def home_blk_def fun_eq_iff cong: option.case_cong)

lemma upd_inode_tx [simp]:
  "tx H (upd_inode i f s) = tx H s" "reserved (upd_inode i f s) = reserved s" "fs_geom (upd_inode i f s) = fs_geom s"
  "bitmap_ok (upd_inode i f s) = bitmap_ok s" "map_ok (upd_inode i f s) = map_ok s" "shape (upd_inode i f s) = shape s"
  by (auto simp: tx_def holds_def held_buf_def clean_buf_def reserved_def fs_geom_def bitmap_ok_def map_ok_def shape_def fun_eq_iff)

lemma keeps_upd: "keeps s s' \<Longrightarrow> keeps (upd_inode i f s) (upd_inode i f s')"
  by (cases s; cases s') (simp add: keeps_def upd_inode_def)

lemma keeps_map: "keeps s s' \<Longrightarrow> map_ok s' = map_ok s \<and> shape s' = shape s"
  using keeps_geom [of s s'] keeps_fs(1) [of s s'] by (simp add: map_ok_def shape_def fun_eq_iff)

abbreviation (input) iaddrs :: "'a fs_scheme \<Rightarrow> nat \<Rightarrow> u32 list" where "iaddrs s i \<equiv> i_addrs (inodes s i)"

abbreviation (input) icont :: "'a fs_scheme \<Rightarrow> nat \<Rightarrow> nat \<Rightarrow> block" where "icont s i \<equiv> cont (bview s) (iaddrs s i)"

definition set_addrs :: "nat \<Rightarrow> u32 list \<Rightarrow> 'a fs_scheme \<Rightarrow> 'a fs_scheme" where
  "set_addrs i as = upd_inode i (\<lambda>ip. ip\<lparr>i_addrs := as\<rparr>)"

text \<open>The state of a file system in a transaction, and a step that extends the block map of a file.\<close>

definition fs_tx :: "'a fs_scheme \<Rightarrow> bool" where
  "fs_tx s \<longleftrightarrow> tx {} s \<and> fs_geom s \<and> bitmap_ok s (bview s)"

definition inode_ok :: "nat \<Rightarrow> 'a fs_scheme \<Rightarrow> bool" where
  "inode_ok i s \<longleftrightarrow> i_dev (inodes s i) = 1 \<and> map_ok s (bview s) (iaddrs s i)"

definition extends :: "nat \<Rightarrow> 'a fs_scheme \<Rightarrow> 'a fs_scheme \<Rightarrow> bool" where
  "extends i s s' \<longleftrightarrow> tx {} s' \<and> keeps (set_addrs i (iaddrs s' i) s) s' \<and> shape s (bview s) (iaddrs s i) (bview s') (iaddrs s' i)"

lemma set_addrs_same: "set_addrs i (iaddrs s i) s = s"
  by (cases s) (simp add: set_addrs_def upd_inode_def)

lemma set_addrs_twice: "set_addrs i as (set_addrs i as' s) = set_addrs i as s"
  by (cases s) (simp add: set_addrs_def upd_inode_def)

lemma extendsI:
  assumes "fs_tx s" "inode_ok i s" "tx {} s'" "keeps s s'" "bview s' = bview s"
  shows "extends i s s'"
  using assms keeps_fs(2) [OF assms(4)] shape_refl [of s "bview s" "iaddrs s i"] by (simp add: extends_def fs_tx_def inode_ok_def set_addrs_same)

lemma extends_keeps:
  assumes "extends i s s'"
  shows "sb s' = sb s" "reserved s' = reserved s" "fs_geom s' = fs_geom s" "bitmap_ok s' = bitmap_ok s" "map_ok s' = map_ok s" "shape s' = shape s"
    "inodes s' = (inodes s)(i := (inodes s i)\<lparr>i_addrs := iaddrs s' i\<rparr>)" "fs.more s' = fs.more s" "disksize s' = disksize s"
    "l_outstanding s' = l_outstanding s" "loggable s' = loggable s" "l_start s' = l_start s" "l_size s' = l_size s" "curpid s' = curpid s"
  using assms keeps_fs [of "set_addrs i (iaddrs s' i) s" s'] keeps_log [of "set_addrs i (iaddrs s' i) s" s']
    keeps_geom [of "set_addrs i (iaddrs s' i) s" s'] keeps_map [of "set_addrs i (iaddrs s' i) s" s'] unfolding extends_def set_addrs_def
  by auto

lemma extends_inode:
  assumes "extends i s s'"
  shows "i_dev (inodes s' i) = i_dev (inodes s i)" "i_inum (inodes s' i) = i_inum (inodes s i)" "i_type (inodes s' i) = i_type (inodes s i)"
    "i_size (inodes s' i) = i_size (inodes s i)" "i_major (inodes s' i) = i_major (inodes s i)" "i_minor (inodes s' i) = i_minor (inodes s i)"
    "i_nlink (inodes s' i) = i_nlink (inodes s i)" "j \<noteq> i \<Longrightarrow> inodes s' j = inodes s j"
proof -
  have "inodes s' i = (inodes s i)\<lparr>i_addrs := iaddrs s' i\<rparr>" using fun_cong [OF extends_keeps(7) [OF assms], of i] by simp
  then obtain as where "inodes s' i = (inodes s i)\<lparr>i_addrs := as\<rparr>" by blast
  then show "i_dev (inodes s' i) = i_dev (inodes s i)" "i_inum (inodes s' i) = i_inum (inodes s i)" "i_type (inodes s' i) = i_type (inodes s i)"
    "i_size (inodes s' i) = i_size (inodes s i)" "i_major (inodes s' i) = i_major (inodes s i)" "i_minor (inodes s' i) = i_minor (inodes s i)"
    "i_nlink (inodes s' i) = i_nlink (inodes s i)" by simp_all
  show "inodes s' j = inodes s j" if "j \<noteq> i" using fun_cong [OF extends_keeps(7) [OF assms], of j] that by simp
qed

lemma extends_ok:
  assumes "extends i s s'" "fs_tx s" "inode_ok i s"
  shows "fs_tx s'" "inode_ok i s'"
proof -
  have g: "shape s (bview s) (iaddrs s i) (bview s') (iaddrs s' i)" "tx {} s'" using assms(1) by (simp_all add: extends_def)
  show "fs_tx s'" using assms(2) shapeD(1) [OF g(1)] g(2) extends_keeps(3,4) [OF assms(1)] by (simp add: fs_tx_def)
  show "inode_ok i s'" using assms(3) shapeD(2) [OF g(1)] extends_keeps(5) [OF assms(1)] extends_inode(1) [OF assms(1)] by (simp add: inode_ok_def)
qed

lemma extends_trans: "extends i s s1 \<Longrightarrow> extends i s1 s2 \<Longrightarrow> extends i s s2"
proof -
  assume a: "extends i s s1" and b: "extends i s1 s2"
  have "keeps (set_addrs i (iaddrs s2 i) (set_addrs i (iaddrs s1 i) s)) (set_addrs i (iaddrs s2 i) s1)"
    using a by (auto simp: extends_def set_addrs_def intro: keeps_upd)
  then have "keeps (set_addrs i (iaddrs s2 i) s) s2" using b by (auto simp: extends_def set_addrs_twice intro: keeps_trans)
  moreover have "shape s (bview s) (iaddrs s i) (bview s2) (iaddrs s2 i)"
    using a b extends_keeps(6) [OF a] by (auto simp: extends_def intro: shape_trans)
  ultimately show ?thesis using b by (simp add: extends_def)
qed

lemma extends_alloc:
  assumes "keeps s s1" "tx {} s1" "bview s1 = alloc (sb s) a (bview s)" "grows s (bview s) (iaddrs s i) (bview s1) ((iaddrs s i)[k := a])"
  shows "extends i s (upd_inode i (\<lambda>ip. ip\<lparr>i_addrs := (i_addrs ip)[k := a]\<rparr>) s1)"
proof -
  have "keeps (set_addrs i ((iaddrs s i)[k := a]) s) (upd_inode i (\<lambda>ip. ip\<lparr>i_addrs := (iaddrs s i)[k := a]\<rparr>) s1)"
    unfolding set_addrs_def by (rule keeps_upd [OF assms(1)])
  moreover have "upd_inode i (\<lambda>ip. ip\<lparr>i_addrs := (i_addrs ip)[k := a]\<rparr>) s1 = upd_inode i (\<lambda>ip. ip\<lparr>i_addrs := (iaddrs s i)[k := a]\<rparr>) s1"
    using keeps_fs(2) [OF assms(1)] by (simp add: upd_inode_def)
  ultimately show ?thesis using assms(2,4) by (simp add: extends_def grows_def)
qed

definition bmapped :: "nat \<Rightarrow> nat \<Rightarrow> 'a fs_scheme \<Rightarrow> u32 \<Rightarrow> 'a fs_scheme \<Rightarrow> bool" where
  "bmapped i bn s a s' \<longleftrightarrow> extends i s s' \<and> a \<noteq> 0 \<and> faddr (bview s') (iaddrs s' i) bn = a \<and>
     (\<forall>b < MAXFILE. b \<noteq> bn \<longrightarrow> faddr (bview s') (iaddrs s' i) b = faddr (bview s) (iaddrs s i) b) \<and>
     (\<forall>b < MAXFILE. icont s' i b = icont s i b) \<and>
     (faddr (bview s) (iaddrs s i) bn \<noteq> 0 \<longrightarrow> keeps s s' \<and> bview s' = bview s)"

lemma bmap_direct:
  assumes ok: "fs_tx s" "inode_ok i s" and bn: "unat bn < NDIRECT" and l: "1 \<le> l_outstanding s \<or> faddr (bview s) (iaddrs s i) (unat bn) \<noteq> 0"
  shows "returns (\<lambda>(a, s'). bmapped i (unat bn) s a s') (bmap i bn s)"
proof (cases "iaddrs s i ! unat bn = 0")
  case True
  have T: "tx {} s" "fs_geom s" "bitmap_ok s (bview s)" "i_dev (inodes s i) = 1" "map_ok s (bview s) (iaddrs s i)" "1 \<le> l_outstanding s"
    using ok l True bn by (auto simp: fs_tx_def inode_ok_def faddr_def)
  have "returns (\<lambda>(a, s'). bmapped i (unat bn) s a s')
     (kbind (balloc 1 s) (\<lambda>(addr, s). Ok (addr, upd_inode i (\<lambda>ip. ip\<lparr>i_addrs := (i_addrs ip)[unat bn := addr]\<rparr>) s)))"
  proof (rule returns_kbind [OF balloc_tx [OF T(1-3,6)]])
    fix x assume X: "case x of (a, s') \<Rightarrow> a < sb_size (sb s) \<and> \<not> marked (bview s) (sb s) a \<and> \<not> reserved s a \<and> tx {} s' \<and> keeps s s' \<and>
        bview s' = alloc (sb s) a (bview s)"
    obtain a s1 where x: "x = (a, s1)" by (cases x)
    then have A: "a < sb_size (sb s)" "\<not> marked (bview s) (sb s) a" "\<not> reserved s a" "tx {} s1" "keeps s s1" "bview s1 = alloc (sb s) a (bview s)"
      using X by simp_all
    note D = attach_direct [OF T(3,5,2) A(1-3) bn True]
    let ?s = "upd_inode i (\<lambda>ip. ip\<lparr>i_addrs := (i_addrs ip)[unat bn := a]\<rparr>) s1"
    have "extends i s ?s" using extends_alloc [OF A(5,4,6)] D(1) A(6) by simp
    moreover have "iaddrs ?s i = (iaddrs s i)[unat bn := a]" using keeps_fs(2) [OF A(5)] by simp
    moreover have "a \<noteq> 0" using A(3) by (simp add: reserved_def)
    ultimately show "returns (\<lambda>(a, s'). bmapped i (unat bn) s a s')
        (case x of (addr, s) \<Rightarrow> Ok (addr, upd_inode i (\<lambda>ip. ip\<lparr>i_addrs := (i_addrs ip)[unat bn := addr]\<rparr>) s))"
      using D A(6) True bn by (simp add: x bmapped_def grows_def faddr_def [of "bview s"])
  qed simp
  then show ?thesis using True bn T(4) by (simp add: bmap_def)
next
  case False
  then show ?thesis using bn extendsI [OF ok] ok(1) by (simp add: bmap_def bmapped_def faddr_def fs_tx_def)
qed

lemma bmap_indirect_block:
  assumes ok: "fs_tx s" "inode_ok i s" and l: "1 \<le> l_outstanding s \<or> iaddrs s i ! NDIRECT \<noteq> 0"
  shows "returns (\<lambda>(a, s'). extends i s s' \<and> a = iaddrs s' i ! NDIRECT \<and> a \<noteq> 0 \<and> (iaddrs s i ! NDIRECT \<noteq> 0 \<longrightarrow> s' = s) \<and>
       (\<forall>b < MAXFILE. faddr (bview s') (iaddrs s' i) b = faddr (bview s) (iaddrs s i) b \<and> icont s' i b = icont s i b))
     (if iaddrs s i ! NDIRECT = 0 then
        kbind (balloc (i_dev (inodes s i)) s) (\<lambda>(addr, s). Ok (addr, upd_inode i (\<lambda>ip. ip\<lparr>i_addrs := (i_addrs ip)[NDIRECT := addr]\<rparr>) s))
      else Ok (iaddrs s i ! NDIRECT, s))"
proof (cases "iaddrs s i ! NDIRECT = 0")
  case True
  have T: "tx {} s" "fs_geom s" "bitmap_ok s (bview s)" "i_dev (inodes s i) = 1" "map_ok s (bview s) (iaddrs s i)" "1 \<le> l_outstanding s"
    using ok l True by (auto simp: fs_tx_def inode_ok_def)
  let ?Q = "\<lambda>(a, s'). extends i s s' \<and> a = iaddrs s' i ! NDIRECT \<and> a \<noteq> 0 \<and> (iaddrs s i ! NDIRECT \<noteq> 0 \<longrightarrow> s' = s) \<and>
       (\<forall>b < MAXFILE. faddr (bview s') (iaddrs s' i) b = faddr (bview s) (iaddrs s i) b \<and> icont s' i b = icont s i b)"
  have "returns ?Q (kbind (balloc 1 s) (\<lambda>(addr, s). Ok (addr, upd_inode i (\<lambda>ip. ip\<lparr>i_addrs := (i_addrs ip)[NDIRECT := addr]\<rparr>) s)))"
  proof (rule returns_kbind [OF balloc_tx [OF T(1-3,6)]])
    fix x assume X: "case x of (a, s') \<Rightarrow> a < sb_size (sb s) \<and> \<not> marked (bview s) (sb s) a \<and> \<not> reserved s a \<and> tx {} s' \<and> keeps s s' \<and>
        bview s' = alloc (sb s) a (bview s)"
    obtain a s1 where x: "x = (a, s1)" by (cases x)
    then have A: "a < sb_size (sb s)" "\<not> marked (bview s) (sb s) a" "\<not> reserved s a" "tx {} s1" "keeps s s1" "bview s1 = alloc (sb s) a (bview s)"
      using X by simp_all
    note D = attach_indirect [OF T(3,5,2) A(1-3) True]
    let ?s = "upd_inode i (\<lambda>ip. ip\<lparr>i_addrs := (i_addrs ip)[NDIRECT := a]\<rparr>) s1"
    have "extends i s ?s" using extends_alloc [OF A(5,4,6)] D(1) A(6) by simp
    moreover have "iaddrs ?s i = (iaddrs s i)[NDIRECT := a]" using keeps_fs(2) [OF A(5)] by simp
    moreover have "a \<noteq> 0" using A(3) by (simp add: reserved_def)
    moreover have "length (iaddrs s i) = 13" using map_okD(1) [OF T(5)] .
    ultimately show "returns ?Q (case x of (addr, s) \<Rightarrow> Ok (addr, upd_inode i (\<lambda>ip. ip\<lparr>i_addrs := (i_addrs ip)[NDIRECT := addr]\<rparr>) s))"
      using D A(6) True by (simp add: x grows_def)
  qed simp
  then show ?thesis using True T(4) by simp
next
  case False
  then show ?thesis using extendsI [OF ok] ok(1) by (simp add: fs_tx_def)
qed

lemma bmap_entry:
  assumes ok: "fs_tx s" "inode_ok i s" and bn: "NDIRECT \<le> bn" "bn < MAXFILE" and ind: "iaddrs s i ! NDIRECT \<noteq> 0"
    and l: "1 \<le> l_outstanding s \<or> faddr (bview s) (iaddrs s i) bn \<noteq> 0"
  shows "returns (\<lambda>(a, s'). bmapped i bn s a s')
    (kbind (bread (i_dev (inodes s i)) (iaddrs s i ! NDIRECT) s) (\<lambda>(bp, s).
          let a = get32 (4 * (bn - NDIRECT)) (b_data (bufs s bp)) in
          kbind (if a = 0 then
                   kbind (balloc (i_dev (inodes s i)) s) (\<lambda>(addr, s).
                   kbind (log_write bp (set_data bp (put32 (4 * (bn - NDIRECT)) addr (b_data (bufs s bp))) s)) (\<lambda>s.
                   Ok (addr, s)))
                 else Ok (a, s)) (\<lambda>(addr, s).
          kbind (brelse bp s) (\<lambda>s. Ok (addr, s)))))"
proof -
  have T: "tx {} s" "fs_geom s" "bitmap_ok s (bview s)" "i_dev (inodes s i) = 1" "map_ok s (bview s) (iaddrs s i)"
    using ok by (auto simp: fs_tx_def inode_ok_def)
  let ?n = "iaddrs s i ! NDIRECT" let ?v = "bview s" let ?k = "4 * (bn - NDIRECT)"
  let ?Q = "\<lambda>(a, s'). bmapped i bn s a s'"
  have n: "?n < sb_size (sb s)" "\<not> reserved s ?n" "marked ?v (sb s) ?n" using map_okD(2) [OF T(5) fblocksI(2) [OF ind]] by auto
  then have h: "loggable s ?n" "?n \<notin> bitmap_blocks (sb s)" by (auto simp: reserved_def)
  have a0: "get32 ?k (?v ?n) = faddr ?v (iaddrs s i) bn" using bn ind by (simp add: faddr_def)
  have fin: "extends i s s'" if "keeps s s'" "tx {} s'" "grows s ?v (iaddrs s i) (bview s') (iaddrs s i)" for s'
    using that keeps_fs(2) [OF that(1)] by (simp add: extends_def set_addrs_same grows_def)
  have "returns ?Q (kbind (bread 1 ?n s) (\<lambda>(bp, s).
          let a = get32 ?k (b_data (bufs s bp)) in
          kbind (if a = 0 then
                   kbind (balloc (i_dev (inodes s i)) s) (\<lambda>(addr, s).
                   kbind (log_write bp (set_data bp (put32 ?k addr (b_data (bufs s bp))) s)) (\<lambda>s.
                   Ok (addr, s)))
                 else Ok (a, s)) (\<lambda>(addr, s).
          kbind (brelse bp s) (\<lambda>s. Ok (addr, s)))))" (is "returns ?Q (kbind _ ?body)")
  proof (rule returns_kbind [OF bread_tx [OF T(1), of ?n]])
    show "unat ?n < disksize s" using h by (simp add: loggable_def home_blk_def)
    fix x assume "case x of (bp, s1) \<Rightarrow> tx (insert (bp, ?n) {}) s1 \<and> bp \<notin> fst ` {} \<and> b_data (bufs s1 bp) = ?v ?n \<and> bview s1 = ?v \<and> keeps s s1"
    then obtain bp s1 where x: "x = (bp, s1)" "tx {(bp, ?n)} s1" "b_data (bufs s1 bp) = ?v ?n" "bview s1 = ?v" "keeps s s1"
      by (cases x) auto
    note K = keeps_geom [OF x(5)] keeps_fs [OF x(5)] keeps_log [OF x(5)]
    show "returns ?Q (?body x)"
    proof (cases "faddr ?v (iaddrs s i) bn = 0")
      case False
      have "returns ?Q (kbind (brelse bp s1) (\<lambda>s2. Ok (faddr ?v (iaddrs s i) bn, s2)))"
      proof (rule returns_kbind [OF brelse_tx [OF x(2)]])
        fix s2 assume A: "tx {} s2 \<and> bview s2 = bview s1 \<and> keeps s1 s2"
        then have k: "keeps s s2" using x(5) keeps_trans by blast
        then show "returns ?Q (Ok (faddr ?v (iaddrs s i) bn, s2))"
          using extendsI [OF ok _ k] A x(4) False keeps_fs(2) [OF k] by (simp add: bmapped_def)
      qed simp
      then show ?thesis using False a0 by (simp add: x(1,3))
    next
      case True
      have "returns ?Q (kbind (kbind (balloc 1 s1) (\<lambda>(addr, s). kbind (log_write bp (set_data bp (put32 ?k addr (b_data (bufs s bp))) s)) (\<lambda>s. Ok (addr, s))))
          (\<lambda>(addr, s). kbind (brelse bp s) (\<lambda>s. Ok (addr, s))))"
        unfolding kbind_assoc
      proof (rule returns_kbind [OF balloc_tx [OF x(2)]])
        show "fs_geom s1" "bitmap_ok s1 (bview s1)" "1 \<le> l_outstanding s1" using K T x(4) l True by auto
        show "m \<notin> bitmap_blocks (sb s1) \<and> (m < sb_size (sb s1) \<longrightarrow> marked (bview s1) (sb s1) m)" if "m \<in> snd ` {(bp, ?n)}" for m
          using that h n K x(4) by simp
        fix y assume Y: "case y of (a, s') \<Rightarrow> a < sb_size (sb s1) \<and> \<not> marked (bview s1) (sb s1) a \<and> \<not> reserved s1 a \<and> tx {(bp, ?n)} s' \<and>
            keeps s1 s' \<and> bview s' = alloc (sb s1) a (bview s1)"
        obtain a s2 where y: "y = (a, s2)" by (cases y)
        then have A: "a < sb_size (sb s)" "\<not> marked ?v (sb s) a" "\<not> reserved s a" "tx {(bp, ?n)} s2" "keeps s s2" "bview s2 = alloc (sb s) a ?v"
          using Y K x(4,5) keeps_trans by auto
        have "?n \<noteq> a" using A(2) n(3) by auto
        then have d: "b_data (bufs s2 bp) = ?v ?n" using tx_data [OF A(4)] A(6) alloc_other [OF _ h(2) A(1)] by simp
        have len: "length (put32 ?k a (?v ?n)) = BSIZE" using bn T(3) h by (simp add: bitmap_ok_def)
        note E = attach_entry [OF T(3,5,2) A(1-3) bn True ind]
        have "returns ?Q (kbind (log_write bp (set_data bp (put32 ?k a (?v ?n)) s2)) (\<lambda>s. kbind (brelse bp s) (\<lambda>s. Ok (a, s))))"
        proof (rule returns_kbind [OF log_write_tx [OF A(4) _ len]])
          show "(bp, ?n) \<in> {(bp, ?n)}" "1 \<le> l_outstanding s2" "loggable s2 ?n" using keeps_log [OF A(5)] h l True by auto
          fix s3 assume B: "tx {(bp, ?n)} s3 \<and> bview s3 = (bview s2)(?n := put32 ?k a (?v ?n)) \<and> keeps s2 s3"
          then have t3: "tx {(bp, ?n)} s3" and k3: "keeps s s3" using A(5) keeps_trans by blast+
          show "returns ?Q (kbind (brelse bp s3) (\<lambda>s. Ok (a, s)))"
          proof (rule returns_kbind [OF brelse_tx [OF t3]])
            fix s4 assume C: "tx {} s4 \<and> bview s4 = bview s3 \<and> keeps s3 s4"
            then have k4: "keeps s s4" using k3 keeps_trans by blast
            have v4: "bview s4 = (alloc (sb s) a ?v)(?n := put32 ?k a (?v ?n))" using C B A(6) by simp
            have "extends i s s4" using fin [OF k4] C v4 E(1) by simp
            moreover have "a \<noteq> 0" using A(3) by (simp add: reserved_def)
            ultimately show "returns ?Q (Ok (a, s4))" using E bn v4 True keeps_fs(2) [OF k4] by (simp add: bmapped_def grows_def)
          qed simp
        qed
        then show "returns ?Q (kbind (case y of (addr, s) \<Rightarrow> kbind (log_write bp (set_data bp (put32 ?k addr (b_data (bufs s bp))) s)) (\<lambda>s. Ok (addr, s)))
            (\<lambda>(addr, s). kbind (brelse bp s) (\<lambda>s. Ok (addr, s))))"
          by (simp add: y d kbind_assoc)
      qed
      then show ?thesis using True a0 K(5) T(4) by (simp add: x(1,3))
    qed
  qed simp
  then show ?thesis using T(4) by simp
qed

lemma bmap_tx:
  assumes ok: "fs_tx s" "inode_ok i s" and bn: "unat bn < MAXFILE" and l: "1 \<le> l_outstanding s \<or> faddr (bview s) (iaddrs s i) (unat bn) \<noteq> 0"
  shows "returns (\<lambda>(a, s'). bmapped i (unat bn) s a s') (bmap i bn s)"
proof (cases "unat bn < NDIRECT")
  case True
  then show ?thesis by (rule bmap_direct [OF ok _ l])
next
  case False
  let ?Q = "\<lambda>(a, s'). bmapped i (unat bn) s a s'"
  have l': "1 \<le> l_outstanding s \<or> iaddrs s i ! NDIRECT \<noteq> 0" using l False by (auto simp: faddr_def)
  from bmap_indirect_block [OF ok l'] show ?thesis
  proof (cases rule: returns_cases)
    case (1 x)
    obtain a s1 where x: "x = (a, s1)" by (cases x)
    then have A: "extends i s s1" "a = iaddrs s1 i ! NDIRECT" "a \<noteq> 0" "iaddrs s i ! NDIRECT \<noteq> 0 \<longrightarrow> s1 = s"
       "\<forall>b < MAXFILE. faddr (bview s1) (iaddrs s1 i) b = faddr (bview s) (iaddrs s i) b \<and> icont s1 i b = icont s i b" using 1(2) by auto
    note E = extends_ok [OF A(1) ok]
    have l1: "1 \<le> l_outstanding s1 \<or> faddr (bview s1) (iaddrs s1 i) (unat bn) \<noteq> 0" using l A(5) bn extends_keeps(10) [OF A(1)] by auto
    have ne: "iaddrs s1 i ! NDIRECT \<noteq> 0" using A(2,3) by metis
    have c: "bmapped i (unat bn) s b s2" if "bmapped i (unat bn) s1 b s2" for b s2
    proof -
      have "faddr (bview s) (iaddrs s i) (unat bn) \<noteq> 0 \<Longrightarrow> s1 = s" using A(4) False by (auto simp: faddr_def)
      then show ?thesis using that A(1,5) extends_trans [OF A(1), of s2] bn by (auto simp: bmapped_def)
    qed
    note R = returns_mono [OF bmap_entry [OF E _ bn ne l1], where Q = ?Q]
    have "unat bn - NDIRECT < NINDIRECT" using bn False by simp
    then show ?thesis unfolding bmap_def
      using R False bn 1(1) x c A(2) extends_inode(1) [OF A(1)] by (simp add: Let_def split_def)
  next
    case (2 e)
    moreover have "unat bn - NDIRECT < NINDIRECT" using bn False by simp
    ultimately show ?thesis using False bn by (simp add: bmap_def Let_def)
  qed
qed

section \<open>Reading\<close>

definition fbytes :: "(nat \<Rightarrow> block) \<Rightarrow> nat \<Rightarrow> nat \<Rightarrow> u8 list" where
  "fbytes c off n = map (\<lambda>k. c (k div BSIZE) ! (k mod BSIZE)) [off..<off + n]"

definition covers :: "(u32 \<Rightarrow> block) \<Rightarrow> u32 list \<Rightarrow> nat \<Rightarrow> bool" where
  "covers v as n \<longleftrightarrow> (\<forall>b. b * BSIZE < n \<longrightarrow> b < MAXFILE \<and> faddr v as b \<noteq> 0)"

lemma length_fbytes [simp]: "length (fbytes c off n) = n"
  by (simp add: fbytes_def)

lemma fbytes_nth: "k < n \<Longrightarrow> fbytes c off n ! k = c ((off + k) div BSIZE) ! ((off + k) mod BSIZE)"
  by (simp add: fbytes_def)

lemma fbytes_split: "m \<le> n \<Longrightarrow> fbytes c off n = fbytes c off m @ fbytes c (off + m) (n - m)"
  using upt_add_eq_append [of off "off + m" "n - m"] by (simp add: fbytes_def)

lemma same_block:
  assumes "k < BSIZE - off mod BSIZE"
  shows "(off + k) div BSIZE = off div BSIZE" "(off + k) mod BSIZE = off mod BSIZE + k"
proof -
  have "off + k = off div BSIZE * BSIZE + (off mod BSIZE + k)" by simp
  moreover have "off mod BSIZE + k < BSIZE" using assms by linarith
  ultimately show "(off + k) div BSIZE = off div BSIZE" "(off + k) mod BSIZE = off mod BSIZE + k"
    by (metis div_mult_self3 add.commute div_less add.right_neutral zero_neq_numeral, metis mod_mult_self3 mod_less)
qed

lemma fbytes_chunk:
  assumes "m \<le> BSIZE - off mod BSIZE" "length (c (off div BSIZE)) = BSIZE"
  shows "fbytes c off m = slice (off mod BSIZE) m (c (off div BSIZE))"
proof (rule nth_equalityI)
  have "off mod BSIZE < BSIZE" by simp
  then have l: "off mod BSIZE + m \<le> BSIZE" using assms(1) by linarith
  then show "length (fbytes c off m) = length (slice (off mod BSIZE) m (c (off div BSIZE)))" using assms(2) by simp
  fix k assume "k < length (fbytes c off m)"
  then show "fbytes c off m ! k = slice (off mod BSIZE) m (c (off div BSIZE)) ! k"
    using assms l same_block [of k off] by (simp add: fbytes_nth slice_nth)
qed

lemma file_block_loggable:
  assumes "map_ok s v as" "b < MAXFILE" "faddr v as b \<noteq> 0"
  shows "loggable s (faddr v as b)"
  using map_okD(2) [OF assms(1) fblocksI(1) [OF assms(2,3)]] by (simp add: reserved_def)

lemma covers_block: "covers v as (off + n) \<Longrightarrow> 0 < n \<Longrightarrow> off div BSIZE < MAXFILE \<and> faddr v as (off div BSIZE) \<noteq> 0"
proof -
  assume c: "covers v as (off + n)" and n: "0 < n"
  have "off div BSIZE * BSIZE \<le> off" by simp
  then have "off div BSIZE * BSIZE < off + n" using n by linarith
  then show ?thesis using c by (simp add: covers_def)
qed

lemma readi_loop_tx:
  assumes "fs_tx s" "inode_ok i s" "covers (bview s) (iaddrs s i) (off + n)"
  shows "returns (\<lambda>(bytes, s'). bytes = fbytes (icont s i) off n \<and> tx {} s' \<and> keeps s s' \<and> bview s' = bview s) (readi_loop i off n s)"
  using assms
proof (induction n arbitrary: off s rule: less_induct)
  case (less n)
  show ?case
  proof (cases "n = 0")
    case True
    then show ?thesis using less.prems(1) by (subst readi_loop.simps) (simp add: fbytes_def fs_tx_def)
  next
    case False
    let ?b = "off div BSIZE" let ?m = "min n (BSIZE - off mod BSIZE)" let ?v = "bview s"
    let ?a = "faddr ?v (iaddrs s i) ?b"
    let ?Q = "\<lambda>(bytes, s'). bytes = fbytes (icont s i) off n \<and> tx {} s' \<and> keeps s s' \<and> bview s' = ?v"
    have ok: "map_ok s ?v (iaddrs s i)" "i_dev (inodes s i) = 1" "bitmap_ok s ?v" using less.prems(1,2) by (simp_all add: inode_ok_def fs_tx_def)
    have b: "?b < MAXFILE" "?a \<noteq> 0" using covers_block [OF less.prems(3)] False by simp_all
    have u: "unat (of_nat ?b :: u32) = ?b" using b(1) by (simp add: unat_of_nat)
    have h: "loggable s ?a" "length (?v ?a) = BSIZE" using file_block_loggable [OF ok(1) b] ok(3) by (simp_all add: bitmap_ok_def)
    have m: "?m \<le> n" "n - ?m < n" "?m \<le> BSIZE - off mod BSIZE" using False by (simp_all add: min_def)
    have bytes: "fbytes (icont s i) off n = slice (off mod BSIZE) ?m (?v ?a) @ fbytes (icont s i) (off + ?m) (n - ?m)"
      using fbytes_split [OF m(1)] fbytes_chunk [OF m(3), of "icont s i"] b h(2) by (simp add: cont_def)
    have cov: "covers ?v (iaddrs s i) (off + ?m + (n - ?m))" using less.prems(3) m(1) by simp
    have "returns ?Q (kbind (bmap i (of_nat ?b) s) (\<lambda>(addr, s).
        kbind (bread (i_dev (inodes s i)) addr s) (\<lambda>(bp, s).
        kbind (brelse bp s) (\<lambda>s'.
        kbind (readi_loop i (off + ?m) (n - ?m) s') (\<lambda>(rest, s''). Ok (slice (off mod BSIZE) ?m (b_data (bufs s bp)) @ rest, s''))))))"
    proof (rule returns_kbind [OF bmap_tx [OF less.prems(1,2)]])
      show "unat (of_nat ?b :: u32) < MAXFILE" "1 \<le> l_outstanding s \<or> faddr ?v (iaddrs s i) (unat (of_nat ?b :: u32)) \<noteq> 0" using u b by simp_all
      fix x assume X: "case x of (a, s') \<Rightarrow> bmapped i (unat (of_nat ?b :: u32)) s a s'"
      obtain a s1 where x: "x = (a, s1)" by (cases x)
      have A: "keeps s s1" "bview s1 = ?v" "tx {} s1" "a = ?a" using X b u keeps_fs(2) [of s s1] by (auto simp: x bmapped_def extends_def)
      have a1: "unat a < disksize s1" using h(1) keeps_log(1) [OF A(1)] A(4) by (simp add: loggable_def home_blk_def)
      have "returns ?Q (kbind (bread 1 a s1) (\<lambda>(bp, s).
          kbind (brelse bp s) (\<lambda>s'. kbind (readi_loop i (off + ?m) (n - ?m) s') (\<lambda>(rest, s''). Ok (slice (off mod BSIZE) ?m (b_data (bufs s bp)) @ rest, s'')))))"
      proof (rule returns_kbind [OF bread_tx [OF A(3) a1]])
        fix y assume Y: "case y of (bp, s') \<Rightarrow> tx (insert (bp, a) {}) s' \<and> bp \<notin> fst ` {} \<and> b_data (bufs s' bp) = bview s1 a \<and> bview s' = bview s1 \<and> keeps s1 s'"
        obtain bp s2 where y: "y = (bp, s2)" by (cases y)
        have B: "tx {(bp, a)} s2" "b_data (bufs s2 bp) = ?v ?a" "bview s2 = ?v" "keeps s s2" using Y A keeps_trans by (auto simp: y)
        have "returns ?Q (kbind (brelse bp s2) (\<lambda>s'. kbind (readi_loop i (off + ?m) (n - ?m) s') (\<lambda>(rest, s''). Ok (slice (off mod BSIZE) ?m (?v ?a) @ rest, s''))))"
        proof (rule returns_kbind [OF brelse_tx [OF B(1)]])
          fix s3 assume C: "tx {} s3 \<and> bview s3 = bview s2 \<and> keeps s2 s3"
          then have k: "keeps s s3" using B(4) keeps_trans by blast
          have ok3: "fs_tx s3" "inode_ok i s3" "covers (bview s3) (iaddrs s3 i) (off + ?m + (n - ?m))"
            using less.prems(1,2) C B(3) keeps_geom [OF k] keeps_map [OF k] keeps_fs [OF k] cov by (simp_all add: fs_tx_def inode_ok_def)
          show "returns ?Q (kbind (readi_loop i (off + ?m) (n - ?m) s3) (\<lambda>(rest, s''). Ok (slice (off mod BSIZE) ?m (?v ?a) @ rest, s'')))"
            by (rule returns_kbind [OF less.IH [OF m(2) ok3]])
              (use C B(3) k keeps_fs(2) [OF k] bytes keeps_trans in \<open>auto simp del: fbytes_nth\<close>)
        qed simp
        then show "returns ?Q (case y of (bp, s) \<Rightarrow> kbind (brelse bp s) (\<lambda>s'. kbind (readi_loop i (off + ?m) (n - ?m) s')
            (\<lambda>(rest, s''). Ok (slice (off mod BSIZE) ?m (b_data (bufs s bp)) @ rest, s''))))" by (simp add: y B(2))
      qed simp
      then show "returns ?Q (case x of (addr, s) \<Rightarrow> kbind (bread (i_dev (inodes s i)) addr s) (\<lambda>(bp, s).
        kbind (brelse bp s) (\<lambda>s'. kbind (readi_loop i (off + ?m) (n - ?m) s') (\<lambda>(rest, s''). Ok (slice (off mod BSIZE) ?m (b_data (bufs s bp)) @ rest, s'')))))"
        using ok(2) keeps_fs(2) [OF A(1)] by (simp add: x)
    qed
    then show ?thesis using False by (subst readi_loop.simps) (simp add: Let_def)
  qed
qed

section \<open>Writing\<close>

definition cbyte :: "(nat \<Rightarrow> block) \<Rightarrow> nat \<Rightarrow> u8" where
  "cbyte c k = c (k div BSIZE) ! (k mod BSIZE)"

definition written :: "nat \<Rightarrow> nat \<Rightarrow> u8 list \<Rightarrow> 'a fs_scheme \<Rightarrow> 'a fs_scheme \<Rightarrow> bool" where
  "written i off src s s' \<longleftrightarrow> extends i s s' \<and>
     (\<forall>k < MAXFILE * BSIZE. cbyte (icont s' i) k = (if off \<le> k \<and> k < off + length src then src ! (k - off) else cbyte (icont s i) k)) \<and>
     (\<forall>k. off \<le> k \<and> k < off + length src \<longrightarrow> faddr (bview s') (iaddrs s' i) (k div BSIZE) \<noteq> 0) \<and>
     ((\<forall>k. off \<le> k \<and> k < off + length src \<longrightarrow> faddr (bview s) (iaddrs s i) (k div BSIZE) \<noteq> 0) \<longrightarrow> iaddrs s' i = iaddrs s i)"

lemma file_byte_block: "k < MAXFILE * BSIZE \<Longrightarrow> k div BSIZE < MAXFILE"
  by (simp add: less_mult_imp_div_less)

lemma write_block:
  assumes ok: "fs_tx s" "inode_ok i s" "1 \<le> l_outstanding s" and b: "b < MAXFILE" "faddr (bview s) (iaddrs s i) b \<noteq> 0"
    and x: "lo + length xs \<le> BSIZE"
  defines "a \<equiv> faddr (bview s) (iaddrs s i) b"
  shows "returns (\<lambda>s'. extends i s s' \<and> iaddrs s' i = iaddrs s i \<and> (\<forall>c < MAXFILE. faddr (bview s') (iaddrs s' i) c = faddr (bview s) (iaddrs s i) c) \<and>
       (\<forall>c < MAXFILE. icont s' i c = (if c = b then splice lo xs (icont s i b) else icont s i c)))
     (kbind (bread 1 a s) (\<lambda>(bp, s). kbind (log_write bp (set_data bp (splice lo xs (b_data (bufs s bp))) s)) (\<lambda>s. brelse bp s)))"
proof -
  have T: "tx {} s" "map_ok s (bview s) (iaddrs s i)" "bitmap_ok s (bview s)" using ok by (simp_all add: inode_ok_def fs_tx_def)
  have h: "loggable s a" "length (bview s a) = BSIZE" using file_block_loggable [OF T(2) b] T(3) by (simp_all add: bitmap_ok_def a_def)
  have d: "length (splice lo xs (bview s a)) = BSIZE" using x h(2) by simp
  note W = shape_write [OF T(3,2) b d, folded a_def]
  show ?thesis
  proof (rule returns_mono [OF change_block [OF T(1) h(1), where f = "splice lo xs"]])
    fix s' assume A: "tx {} s' \<and> bview s' = (bview s)(a := splice lo xs (bview s a)) \<and> keeps s s'"
    then have k: "iaddrs s' i = iaddrs s i" using keeps_fs(2) [of s s'] by simp
    then have "extends i s s'" using A W(1) by (simp add: extends_def set_addrs_same)
    moreover have "icont s i b = bview s a" using b by (simp add: cont_def a_def)
    ultimately show "extends i s s' \<and> iaddrs s' i = iaddrs s i \<and> (\<forall>c < MAXFILE. faddr (bview s') (iaddrs s' i) c = faddr (bview s) (iaddrs s i) c) \<and>
       (\<forall>c < MAXFILE. icont s' i c = (if c = b then splice lo xs (icont s i b) else icont s i c))"
      using A W(2,3) k by simp
  qed (use d ok(3) in simp_all)
qed

lemma splice_cbyte:
  assumes c: "\<And>b. b < MAXFILE \<Longrightarrow> c' b = (if b = off div BSIZE then splice (off mod BSIZE) xs (c b) else c b)"
    and x: "off mod BSIZE + length xs \<le> BSIZE" and l: "length (c (off div BSIZE)) = BSIZE" and k: "k < MAXFILE * BSIZE"
  shows "cbyte c' k = (if off \<le> k \<and> k < off + length xs then xs ! (k - off) else cbyte c k)"
proof (cases "k div BSIZE = off div BSIZE")
  case True
  have o: "off = off div BSIZE * BSIZE + off mod BSIZE" "k = off div BSIZE * BSIZE + k mod BSIZE" using True by (metis div_mult_mod_eq)+
  then have "off \<le> k \<and> k < off + length xs \<longleftrightarrow> off mod BSIZE \<le> k mod BSIZE \<and> k mod BSIZE < off mod BSIZE + length xs" "k mod BSIZE - off mod BSIZE = k - off"
    by linarith+
  then show ?thesis using True c [OF file_byte_block [OF k]] x l splice_nth [of "off mod BSIZE" xs "c (off div BSIZE)" "k mod BSIZE"] by (simp add: cbyte_def)
next
  case False
  have "\<not> (off \<le> k \<and> k < off + length xs)"
  proof
    assume "off \<le> k \<and> k < off + length xs"
    then have "k - off < BSIZE - off mod BSIZE" "off + (k - off) = k" using x by linarith+
    then show False using False same_block(1) [of "k - off" off] by simp
  qed
  then show ?thesis using False c [OF file_byte_block [OF k]] by (auto simp: cbyte_def)
qed

lemma written_append:
  assumes A: "written i off (take m src) s s1" and B: "written i (off + m) (drop m src) s1 s2"
    and m: "m \<le> length src" and l: "off + length src \<le> MAXFILE * BSIZE"
  shows "written i off src s s2"
proof -
  let ?f = "\<lambda>s k. faddr (bview s) (iaddrs s i) (k div BSIZE)"
  have e: "extends i s s1" "extends i s1 s2" using A B by (simp_all add: written_def)
  have keep: "?f s1 k \<noteq> 0" if "?f s k \<noteq> 0" "k < MAXFILE * BSIZE" for k
    using shapeD(4) [of s "bview s" "iaddrs s i" "bview s1" "iaddrs s1 i"] e(1) that file_byte_block by (simp add: extends_def)
  have keep2: "?f s2 k \<noteq> 0" if "?f s1 k \<noteq> 0" "k < MAXFILE * BSIZE" for k
    using shapeD(4) [of s1 "bview s1" "iaddrs s1 i" "bview s2" "iaddrs s2 i"] e(2) that file_byte_block by (simp add: extends_def)
  have "cbyte (icont s2 i) k = (if off \<le> k \<and> k < off + length src then src ! (k - off) else cbyte (icont s i) k)" if k: "k < MAXFILE * BSIZE" for k
  proof -
    have 1: "cbyte (icont s1 i) k = (if off \<le> k \<and> k < off + m then src ! (k - off) else cbyte (icont s i) k)" using A k m by (auto simp: written_def)
    have 2: "cbyte (icont s2 i) k = (if off + m \<le> k \<and> k < off + length src then drop m src ! (k - (off + m)) else cbyte (icont s1 i) k)"
      using B k m by (simp add: written_def)
    show ?thesis
    proof (cases "off + m \<le> k \<and> k < off + length src")
      case True
      then show ?thesis using 2 m by (simp add: nth_drop)
    next
      case False
      then show ?thesis using 1 2 m by auto
    qed
  qed
  moreover have "?f s2 k \<noteq> 0" if k: "off \<le> k" "k < off + length src" for k
  proof (cases "k < off + m")
    case True
    then show ?thesis using A k keep2 [of k] m l by (simp add: written_def)
  next
    case False
    then show ?thesis using B k m by (simp add: written_def)
  qed
  moreover have "iaddrs s2 i = iaddrs s i" if "\<forall>k. off \<le> k \<and> k < off + length src \<longrightarrow> ?f s k \<noteq> 0"
  proof -
    have "iaddrs s1 i = iaddrs s i" using A that m by (simp add: written_def)
    moreover have "iaddrs s2 i = iaddrs s1 i" using B that keep m l by (simp add: written_def)
    ultimately show ?thesis by simp
  qed
  ultimately show ?thesis using extends_trans [OF e] by (simp add: written_def)
qed

lemma writei_loop_tx:
  assumes "fs_tx s" "inode_ok i s" "1 \<le> l_outstanding s" "off + length src \<le> MAXFILE * BSIZE"
  shows "returns (\<lambda>s'. written i off src s s') (writei_loop i src off s)"
  using assms
proof (induction "length src" arbitrary: src off s rule: less_induct)
  case less
  show ?case
  proof (cases "src = []")
    case True
    then show ?thesis using less.prems(1) extendsI [OF less.prems(1,2), of s] by (subst writei_loop.simps) (auto simp: written_def fs_tx_def)
  next
    case False
    let ?b = "off div BSIZE"
    define m where "m = min (length src) (BSIZE - off mod BSIZE)"
    have o512: "off mod BSIZE < BSIZE" by simp
    have "0 < length src" using False by simp
    then have b: "?b < MAXFILE" using less.prems(4) file_byte_block [of off] by linarith
    then have u: "unat (of_nat ?b :: u32) = ?b" by (simp add: unat_of_nat)
    have m: "m \<le> length src" "off mod BSIZE + length (take m src) \<le> BSIZE" "length (take m src) = m" "0 < m" "length (drop m src) < length src"
      using False o512 by (auto simp: m_def)
    have "returns (\<lambda>s'. written i off src s s') (kbind (bmap i (of_nat ?b) s) (\<lambda>(addr, s).
        kbind (kbind (bread (i_dev (inodes s i)) addr s) (\<lambda>(bp, s).
          kbind (log_write bp (set_data bp (splice (off mod BSIZE) (take m src) (b_data (bufs s bp))) s)) (\<lambda>s. brelse bp s)))
        (\<lambda>s. writei_loop i (drop m src) (off + m) s)))"
    proof (rule returns_kbind [OF bmap_tx [OF less.prems(1,2)]])
      show "unat (of_nat ?b :: u32) < MAXFILE" "1 \<le> l_outstanding s \<or> faddr (bview s) (iaddrs s i) (unat (of_nat ?b :: u32)) \<noteq> 0" using u b less.prems(3) by simp_all
      fix x assume X: "case x of (a, s') \<Rightarrow> bmapped i (unat (of_nat ?b :: u32)) s a s'"
      obtain a s1 where x: "x = (a, s1)" by (cases x)
      have A: "extends i s s1" "a \<noteq> 0" "faddr (bview s1) (iaddrs s1 i) ?b = a" "\<forall>b < MAXFILE. icont s1 i b = icont s i b"
        "\<forall>c < MAXFILE. c \<noteq> ?b \<longrightarrow> faddr (bview s1) (iaddrs s1 i) c = faddr (bview s) (iaddrs s i) c"
        "faddr (bview s) (iaddrs s i) ?b \<noteq> 0 \<longrightarrow> keeps s s1" using X u by (simp_all add: x bmapped_def)
      note ok1 = extends_ok [OF A(1) less.prems(1,2)]
      have l1: "1 \<le> l_outstanding s1" using less.prems(3) extends_keeps(10) [OF A(1)] by simp
      have d1: "i_dev (inodes s1 i) = 1" using ok1(2) by (simp add: inode_ok_def)
      have a1: "faddr (bview s1) (iaddrs s1 i) ?b \<noteq> 0" using A(2,3) by simp
      have len: "length (icont s1 i ?b) = BSIZE"
        using file_block_loggable [of s1 "bview s1" "iaddrs s1 i" ?b] ok1 b a1 by (simp add: cont_def inode_ok_def fs_tx_def bitmap_ok_def)
      have "returns (\<lambda>s'. written i off src s s') (kbind (kbind (bread 1 a s1) (\<lambda>(bp, s).
          kbind (log_write bp (set_data bp (splice (off mod BSIZE) (take m src) (b_data (bufs s bp))) s)) (\<lambda>s. brelse bp s)))
        (\<lambda>s. writei_loop i (drop m src) (off + m) s))"
      proof (rule returns_kbind [OF write_block [OF ok1 l1 b a1 m(2), unfolded A(3)]])
        fix s2 assume B: "extends i s1 s2 \<and> iaddrs s2 i = iaddrs s1 i \<and> (\<forall>c < MAXFILE. faddr (bview s2) (iaddrs s2 i) c = faddr (bview s1) (iaddrs s1 i) c) \<and>
          (\<forall>c < MAXFILE. icont s2 i c = (if c = ?b then splice (off mod BSIZE) (take m src) (icont s1 i ?b) else icont s1 i c))"
        then have e2: "extends i s s2" using extends_trans [OF A(1)] by blast
        note ok2 = extends_ok [OF e2 less.prems(1,2)]
        have l2: "1 \<le> l_outstanding s2" using less.prems(3) extends_keeps(10) [OF e2] by simp
        have by2: "cbyte (icont s2 i) k = (if off \<le> k \<and> k < off + m then src ! (k - off) else cbyte (icont s i) k)" if "k < MAXFILE * BSIZE" for k
          using splice_cbyte [of "icont s2 i" off "take m src" "icont s1 i" k, OF _ m(2) len that] B that m(3) A(4) file_byte_block [OF that]
          by (auto simp: cbyte_def)
        show "returns (\<lambda>s'. written i off src s s') (writei_loop i (drop m src) (off + m) s2)"
        proof (rule returns_mono [OF less.hyps [OF m(5) ok2 l2]])
          show "off + m + length (drop m src) \<le> MAXFILE * BSIZE" using less.prems(4) m(1) by simp
          have f2: "faddr (bview s2) (iaddrs s2 i) (k div BSIZE) \<noteq> 0" if "off \<le> k" "k < off + m" for k
          proof -
            have "k - off < BSIZE - off mod BSIZE" using that m(2,3) by linarith
            then have "k div BSIZE = ?b" using same_block(1) [of "k - off" off] that(1) by simp
            moreover have "faddr (bview s2) (iaddrs s2 i) ?b = faddr (bview s1) (iaddrs s1 i) ?b" using B b by blast
            ultimately show ?thesis using a1 by simp
          qed
          have i2: "iaddrs s2 i = iaddrs s i" if "faddr (bview s) (iaddrs s i) ?b \<noteq> 0"
            using that A(6) B keeps_fs(2) [of s s1] by simp
          have W: "written i off (take m src) s s2" unfolding written_def m(3)
          proof (intro conjI allI impI)
            show "cbyte (icont s2 i) k = (if off \<le> k \<and> k < off + m then take m src ! (k - off) else cbyte (icont s i) k)" if "k < MAXFILE * BSIZE" for k
              using by2 [OF that] by auto
            show "iaddrs s2 i = iaddrs s i" if "\<forall>k. off \<le> k \<and> k < off + m \<longrightarrow> faddr (bview s) (iaddrs s i) (k div BSIZE) \<noteq> 0"
              using that m(4) by (intro i2) simp
          qed (use e2 f2 in simp_all)
          fix s3 assume "written i (off + m) (drop m src) s2 s3"
          then show "written i off src s s3" by (rule written_append [OF W _ m(1) less.prems(4)])
        qed
      qed
      then show "returns (\<lambda>s'. written i off src s s') (case x of (addr, s) \<Rightarrow>
        kbind (kbind (bread (i_dev (inodes s i)) addr s) (\<lambda>(bp, s).
          kbind (log_write bp (set_data bp (splice (off mod BSIZE) (take m src) (b_data (bufs s bp))) s)) (\<lambda>s. brelse bp s)))
        (\<lambda>s. writei_loop i (drop m src) (off + m) s))" by (simp add: x d1)
    qed
    then show ?thesis using False by (subst writei_loop.simps) (simp add: Let_def kbind_assoc split_def m_def)
  qed
qed

section \<open>Files\<close>

text \<open>A file depends only on its own blocks.\<close>

lemma file_frame:
  assumes ok: "map_ok s v as" and same: "\<And>n. n \<in> fblocks v as \<Longrightarrow> v' n = v n \<and> marked v' (sb s) n"
  shows "b < MAXFILE \<Longrightarrow> faddr v' as b = faddr v as b" "b < MAXFILE \<Longrightarrow> cont v' as b = cont v as b" "fblocks v' as = fblocks v as" "map_ok s v' as"
proof -
  show F: "faddr v' as b = faddr v as b" if "b < MAXFILE" for b
    using same [OF fblocksI(2)] by (cases "as ! NDIRECT = 0") (auto simp: faddr_def)
  show "cont v' as b = cont v as b" if b: "b < MAXFILE" for b
    using F [OF b] same [OF fblocksI(1) [OF b]] by (auto simp: cont_def)
  show fb: "fblocks v' as = fblocks v as" using F by (auto simp: fblocks_def)
  show "map_ok s v' as" using ok F fb same by (auto simp: map_ok_def)
qed

definition synced :: "nat \<Rightarrow> 'a fs_scheme \<Rightarrow> bool" where
  "synced i s \<longleftrightarrow> (let ip = inodes s i in dinode_at (i_inum ip) (bview s (IBLOCK (i_inum ip) (sb s))) = dinode_of ip)"

text \<open>An inode in the cache that describes a file: its map is well formed and reaches over the size, and the inode on the disk is the same.\<close>

definition file_ok :: "nat \<Rightarrow> 'a fs_scheme \<Rightarrow> bool" where
  "file_ok i s \<longleftrightarrow> inode_ok i s \<and> i_inum (inodes s i) < sb_ninodes (sb s) \<and> covers (bview s) (iaddrs s i) (unat (i_size (inodes s i))) \<and> synced i s"

definition file_data :: "nat \<Rightarrow> 'a fs_scheme \<Rightarrow> u8 list" where
  "file_data i s = fbytes (icont s i) 0 (unat (i_size (inodes s i)))"

lemma covers_bytes: "covers v as n \<longleftrightarrow> (\<forall>k < n. k div BSIZE < MAXFILE \<and> faddr v as (k div BSIZE) \<noteq> 0)"
proof
  assume c: "covers v as n"
  show "\<forall>k < n. k div BSIZE < MAXFILE \<and> faddr v as (k div BSIZE) \<noteq> 0"
  proof (intro allI impI)
    fix k :: nat assume "k < n"
    moreover have "k div BSIZE * BSIZE \<le> k" by simp
    ultimately show "k div BSIZE < MAXFILE \<and> faddr v as (k div BSIZE) \<noteq> 0" using c unfolding covers_def by (meson le_less_trans)
  qed
next
  assume "\<forall>k < n. k div BSIZE < MAXFILE \<and> faddr v as (k div BSIZE) \<noteq> 0"
  then show "covers v as n" unfolding covers_def by (metis nonzero_mult_div_cancel_right zero_neq_numeral)
qed

lemma covers_limit: "covers v as n \<Longrightarrow> n \<le> MAXFILE * BSIZE"
proof (rule ccontr)
  assume c: "covers v as n" "\<not> n \<le> MAXFILE * BSIZE"
  then have "MAXFILE * BSIZE < n" by linarith
  then show False using c(1) unfolding covers_def by blast
qed

lemma file_size_limit: "file_ok i s \<Longrightarrow> unat (i_size (inodes s i)) \<le> MAXFILE * BSIZE"
  by (rule covers_limit [of "bview s" "iaddrs s i"]) (simp add: file_ok_def)

lemma file_data_nth: "k < unat (i_size (inodes s i)) \<Longrightarrow> file_data i s ! k = cbyte (icont s i) k"
  by (simp add: file_data_def fbytes_nth cbyte_def)

lemma length_file_data [simp]: "length (file_data i s) = unat (i_size (inodes s i))"
  by (simp add: file_data_def)

lemma readi_tx:
  assumes ok: "fs_tx s" "file_ok i s" and t: "i_type (inodes s i) \<noteq> T_DEV" and off: "off \<le> i_size (inodes s i)" "off \<le> off + n"
  shows "returns (\<lambda>(r, bytes, s'). r = int (length bytes) \<and> bytes = take (unat n) (drop (unat off) (file_data i s)) \<and> tx {} s' \<and> keeps s s' \<and> bview s' = bview s)
    (readi dv i off n s)"
proof -
  let ?z = "i_size (inodes s i)"
  define m where "m = (if ?z < off + n then ?z - off else n)"
  have o: "unat off \<le> unat ?z" "unat (off + n) = unat off + unat n" using off(1) iffD1 [OF unat_plus_simple off(2)] by (simp_all add: word_le_nat_alt)
  have m: "unat off + unat m \<le> unat ?z" "unat m = min (unat n) (unat ?z - unat off)"
    using o off(1) by (auto simp: m_def word_less_nat_alt unat_sub)
  have c: "covers (bview s) (iaddrs s i) (unat ?z)" "inode_ok i s" using ok(2) by (simp_all add: file_ok_def)
  then have cov: "covers (bview s) (iaddrs s i) (unat off + unat m)" using m(1) by (simp add: covers_def)
  have "unat m \<le> MAXFILE * BSIZE" using covers_limit [OF cov] by simp
  then have si: "sint m = int (unat m)" using sint_of_nat_small [of "unat m"] by simp
  have bytes: "fbytes (icont s i) (unat off) (unat m) = take (unat n) (drop (unat off) (file_data i s))"
    by (rule nth_equalityI) (use m in \<open>auto simp: fbytes_nth file_data_def\<close>)
  have "returns (\<lambda>(r, bytes, s'). r = int (length bytes) \<and> bytes = take (unat n) (drop (unat off) (file_data i s)) \<and> tx {} s' \<and> keeps s s' \<and> bview s' = bview s)
     (kbind (readi_loop i (unat off) (unat m) s) (\<lambda>(bytes, s). Ok (sint m, bytes, s)))"
    by (rule returns_kbind [OF readi_loop_tx [OF ok(1) c(2) cov]]) (use si bytes m(2) o in auto)
  moreover have "\<not> (?z < off \<or> off + n < off)" using off by auto
  ultimately show ?thesis using t by (simp add: readi_def Let_def m_def)
qed

lemma inode_slot_bound: "inode_slot inum + 64 \<le> BSIZE"
proof -
  have "unat inum mod 8 < 8" by simp
  then show ?thesis by (simp add: inode_slot_def)
qed

lemma dinode_put_same: "length d = BSIZE \<Longrightarrow> length (d_addrs di) = 13 \<Longrightarrow> dinode_at inum (put_dinode inum di d) = di"
  using inode_slot_bound [of inum] decode_encode_dinode [of di "[]"] by (simp add: dinode_at_def put_dinode_def)

lemma IBLOCK_inj: "IBLOCK a p = IBLOCK b p \<Longrightarrow> inode_slot a = inode_slot b \<Longrightarrow> a = b"
proof -
  assume "IBLOCK a p = IBLOCK b p" "inode_slot a = inode_slot b"
  then have "unat (a div 8) = unat (b div 8)" "unat a mod 8 = unat b mod 8" by (simp_all add: IBLOCK_def inode_slot_def)
  then have "unat a div 8 = unat b div 8" "unat a mod 8 = unat b mod 8" by (simp_all add: unat_div)
  then have "unat a = unat b" by (metis div_mult_mod_eq)
  then show ?thesis by (simp add: word_unat_eq_iff)
qed

lemma dinode_put_other:
  assumes "length d = BSIZE" "length (d_addrs di) = 13" "inode_slot m \<noteq> inode_slot inum"
  shows "dinode_at m (put_dinode inum di d) = dinode_at m d"
proof -
  have "inode_slot m + 64 \<le> inode_slot inum \<or> inode_slot inum + 64 \<le> inode_slot m" using assms(3) by (auto simp: inode_slot_def)
  then show ?thesis
    using inode_slot_bound [of m] inode_slot_bound [of inum] assms by (simp add: dinode_at_def put_dinode_def slice_splice_other)
qed

lemma length_put_dinode: "length d = BSIZE \<Longrightarrow> length (d_addrs di) = 13 \<Longrightarrow> length (put_dinode inum di d) = BSIZE"
  using inode_slot_bound [of inum] by (simp add: put_dinode_def)

lemma iupdate_tx:
  assumes ok: "fs_tx s" "i_dev (inodes s i) = 1" "i_inum (inodes s i) < sb_ninodes (sb s)" "length (iaddrs s i) = 13" "1 \<le> l_outstanding s"
  defines "n \<equiv> IBLOCK (i_inum (inodes s i)) (sb s)"
  shows "returns (\<lambda>s'. tx {} s' \<and> bview s' = (bview s)(n := put_dinode (i_inum (inodes s i)) (dinode_of (inodes s i)) (bview s n)) \<and> keeps s s') (iupdate i s)"
proof -
  have T: "tx {} s" "fs_geom s" "bitmap_ok s (bview s)" using ok(1) by (simp_all add: fs_tx_def)
  have h: "loggable s n" using T(2) ok(3) by (auto simp: fs_geom_def inode_blocks_def n_def)
  have "length (put_dinode (i_inum (inodes s i)) (dinode_of (inodes s i)) (bview s n)) = BSIZE"
    by (rule length_put_dinode) (use h T(3) ok(4) in \<open>simp_all add: bitmap_ok_def dinode_of_def\<close>)
  then show ?thesis using change_block [OF T(1) h, of "put_dinode (i_inum (inodes s i)) (dinode_of (inodes s i))"] ok(2,5)
    by (simp add: iupdate_def Let_def n_def)
qed

text \<open>What the other files see: nothing.\<close>

definition apart :: "nat \<Rightarrow> nat \<Rightarrow> 'a fs_scheme \<Rightarrow> bool" where
  "apart i j s \<longleftrightarrow> i_inum (inodes s i) \<noteq> i_inum (inodes s j) \<and> fblocks (bview s) (iaddrs s i) \<inter> fblocks (bview s) (iaddrs s j) = {}"

text \<open>The data blocks of a file are none of the blocks that hold inodes or the bitmap.\<close>

lemma file_blocks_plain:
  assumes "map_ok s v as" "n \<in> fblocks v as"
  shows "n \<notin> bitmap_blocks (sb s)" "n \<notin> inode_blocks (sb s)" "loggable s n" "n < sb_size (sb s)" "marked v (sb s) n"
  using map_okD(2) [OF assms] by (auto simp: reserved_def)

lemma IBLOCK_plain:
  assumes "fs_geom s" "m < sb_ninodes (sb s)"
  shows "IBLOCK m (sb s) \<notin> bitmap_blocks (sb s)" "IBLOCK m (sb s) \<in> inode_blocks (sb s)" "loggable s (IBLOCK m (sb s))"
  using assms by (auto simp: fs_geom_def inode_blocks_def)

text \<open>A write in three parts: the block map and the data, the size, the inode.\<close>

lemma extends_inode_block:
  assumes e: "extends i s s'" and g: "fs_geom s" and m: "m < sb_ninodes (sb s)"
  shows "bview s' (IBLOCK m (sb s)) = bview s (IBLOCK m (sb s))"
proof -
  have S: "shape s (bview s) (iaddrs s i) (bview s') (iaddrs s' i)" using e by (simp add: extends_def)
  show ?thesis
  proof (rule shapeD(7) [OF S IBLOCK_plain(1) [OF g m]])
    show "IBLOCK m (sb s) \<notin> fblocks (bview s') (iaddrs s' i)"
      using file_blocks_plain(2) [OF shapeD(2) [OF S], of "IBLOCK m (sb s)"] IBLOCK_plain(2) [OF g m] by blast
  qed
qed

lemma extends_other:
  assumes e: "extends i s s'" and ok: "fs_tx s" and j: "j \<noteq> i" "file_ok j s" "apart i j s"
  shows "file_ok j s'" "apart i j s'" "file_data j s' = file_data j s"
proof -
  have S: "shape s (bview s) (iaddrs s i) (bview s') (iaddrs s' i)" using e by (simp add: extends_def)
  have jj: "inodes s' j = inodes s j" using extends_inode(8) [OF e j(1)] .
  have mj: "map_ok s (bview s) (iaddrs s j)" using j(2) by (simp add: file_ok_def inode_ok_def)
  have disj: "n \<notin> fblocks (bview s) (iaddrs s i)" if "n \<in> fblocks (bview s) (iaddrs s j)" for n using j(3) that by (auto simp: apart_def)
  have out: "n \<notin> fblocks (bview s') (iaddrs s' i)" if "n \<in> fblocks (bview s) (iaddrs s j)" for n
    using shapeD(5) [OF S _ disj [OF that]] file_blocks_plain(5) [OF mj that] by blast
  have same: "bview s' n = bview s n \<and> marked (bview s') (sb s) n" if n: "n \<in> fblocks (bview s) (iaddrs s j)" for n
    using file_blocks_plain [OF mj n] shapeD(7) [OF S _ out [OF n]] shapeD(6) [OF S] by simp
  note F = file_frame [OF mj same]
  have g: "fs_geom s" using ok by (simp add: fs_tx_def)
  note ib = extends_inode_block [OF e g]
  have "covers (bview s') (iaddrs s j) (unat (i_size (inodes s j)))" using j(2) F(1) by (simp add: file_ok_def covers_def)
  moreover have "synced j s'" "i_inum (inodes s j) < sb_ninodes (sb s)" "i_dev (inodes s j) = 1"
    using j(2) jj ib [of "i_inum (inodes s j)"] extends_keeps(1) [OF e] by (simp_all add: file_ok_def synced_def Let_def inode_ok_def)
  ultimately show "file_ok j s'" using jj F(4) extends_keeps(1,5) [OF e] by (simp add: file_ok_def inode_ok_def)
  have "fblocks (bview s') (iaddrs s' i) \<inter> fblocks (bview s') (iaddrs s j) = {}" using F(3) out by blast
  then show "apart i j s'" using j(3) jj extends_inode(2) [OF e] by (simp add: apart_def)
  have lim: "unat (i_size (inodes s j)) \<le> MAXFILE * BSIZE" using file_size_limit [OF j(2)] .
  show "file_data j s' = file_data j s"
  proof (rule nth_equalityI)
    fix k assume "k < length (file_data j s')"
    then have k: "k < unat (i_size (inodes s j))" using jj by simp
    then have "k div BSIZE < MAXFILE" using lim file_byte_block [of k] by linarith
    then show "file_data j s' ! k = file_data j s ! k" using k jj F(2) by (simp add: file_data_nth cbyte_def)
  qed (use jj in simp)
qed

text \<open>\<open>iupdate\<close> writes the inode of the file and nothing of any other.\<close>

lemma iupdate_file:
  assumes ok: "fs_tx s" "inode_ok i s" "i_inum (inodes s i) < sb_ninodes (sb s)" "covers (bview s) (iaddrs s i) (unat (i_size (inodes s i)))" "1 \<le> l_outstanding s"
  shows "returns (\<lambda>s'. fs_tx s' \<and> keeps s s' \<and> file_ok i s' \<and> file_data i s' = file_data i s \<and>
      (\<forall>j. file_ok j s \<and> apart i j s \<longrightarrow> file_ok j s' \<and> apart i j s' \<and> file_data j s' = file_data j s)) (iupdate i s)"
proof -
  define n where "n = IBLOCK (i_inum (inodes s i)) (sb s)"
  let ?di = "dinode_of (inodes s i)" let ?m = "i_inum (inodes s i)"
  have T: "fs_geom s" "bitmap_ok s (bview s)" "map_ok s (bview s) (iaddrs s i)" "i_dev (inodes s i) = 1" using ok by (simp_all add: fs_tx_def inode_ok_def)
  have len: "length (d_addrs ?di) = 13" "length (iaddrs s i) = 13" using map_okD(1) [OF T(3)] by (simp_all add: dinode_of_def)
  note P = IBLOCK_plain [OF T(1) ok(3), folded n_def]
  have d: "length (bview s n) = BSIZE" using T(2) P(3) by (simp add: bitmap_ok_def)
  show ?thesis
  proof (rule returns_mono [OF iupdate_tx [OF ok(1) T(4) ok(3) len(2) ok(5), folded n_def]])
    fix s' assume A: "tx {} s' \<and> bview s' = (bview s)(n := put_dinode ?m ?di (bview s n)) \<and> keeps s s'"
    then have k: "keeps s s'" and v: "bview s' = (bview s)(n := put_dinode ?m ?di (bview s n))" by blast+
    note K = keeps_geom [OF k] keeps_fs [OF k] keeps_map [OF k]
    have b: "bitmap_ok s (bview s')" unfolding v by (rule bitmap_ok_write [OF T(2) P(1) length_put_dinode [OF d len(1)]])
    have same: "bview s' x = bview s x \<and> marked (bview s') (sb s) x" if "map_ok s (bview s) as" "x \<in> fblocks (bview s) as" for as x
      using file_blocks_plain [OF that] P(1,2) marked_write [OF P(1)] unfolding v by auto
    note F = file_frame [OF _ same]
    have fd: "file_data j s' = file_data j s" if "map_ok s (bview s) (iaddrs s j)" "unat (i_size (inodes s j)) \<le> MAXFILE * BSIZE" for j
    proof (rule nth_equalityI)
      fix x assume "x < length (file_data j s')"
      then have x: "x < unat (i_size (inodes s j))" using K(5) by simp
      then have "x div BSIZE < MAXFILE" using that(2) file_byte_block [of x] by linarith
      then show "file_data j s' ! x = file_data j s ! x" using x K(5) F(2) [OF that(1) that(1)] by (simp add: file_data_nth cbyte_def)
    qed (use K(5) in simp)
    have "synced i s'" using K(4,5) v dinode_put_same [OF d len(1)] by (simp add: synced_def Let_def n_def)
    moreover have "covers (bview s') (iaddrs s i) (unat (i_size (inodes s i)))" using ok(4) F(1) [OF T(3) T(3)] by (simp add: covers_def)
    ultimately have fi: "file_ok i s'" using K ok(3) T(4) F(4) [OF T(3) T(3)] by (simp add: file_ok_def inode_ok_def)
    have "file_ok j s' \<and> apart i j s' \<and> file_data j s' = file_data j s" if j: "file_ok j s" "apart i j s" for j
    proof -
      have mj: "map_ok s (bview s) (iaddrs s j)" "covers (bview s) (iaddrs s j) (unat (i_size (inodes s j)))" "synced j s"
        "i_inum (inodes s j) < sb_ninodes (sb s)" "i_dev (inodes s j) = 1" using j(1) by (simp_all add: file_ok_def inode_ok_def)
      have ne: "i_inum (inodes s j) \<noteq> ?m" using j(2) by (auto simp: apart_def)
      have "synced j s'"
      proof (cases "IBLOCK (i_inum (inodes s j)) (sb s) = n")
        case True
        then have "inode_slot (i_inum (inodes s j)) \<noteq> inode_slot ?m" using IBLOCK_inj ne by (metis n_def)
        then show ?thesis using True K(4,5) v dinode_put_other [OF d len(1)] mj(3) by (simp add: synced_def Let_def)
      next
        case False
        then show ?thesis using K(4,5) v mj(3) by (simp add: synced_def Let_def)
      qed
      moreover have "covers (bview s') (iaddrs s j) (unat (i_size (inodes s j)))" using mj(2) F(1) [OF mj(1) mj(1)] by (simp add: covers_def)
      ultimately have "file_ok j s'" using K mj(4,5) F(4) [OF mj(1) mj(1)] by (simp add: file_ok_def inode_ok_def)
      moreover have "apart i j s'" using j(2) K(5) F(3) [OF T(3) T(3)] F(3) [OF mj(1) mj(1)] by (simp add: apart_def)
      ultimately show ?thesis using fd [OF mj(1) file_size_limit [OF j(1)]] by simp
    qed
    moreover have "fs_tx s'" using A K T(1) b by (simp add: fs_tx_def)
    ultimately show "fs_tx s' \<and> keeps s s' \<and> file_ok i s' \<and> file_data i s' = file_data i s \<and>
      (\<forall>j. file_ok j s \<and> apart i j s \<longrightarrow> file_ok j s' \<and> apart i j s' \<and> file_data j s' = file_data j s)"
      using k fi fd [OF T(3) covers_limit [OF ok(4)]] by blast
  qed
qed

text \<open>The bytes of the file after the copy loop of \<open>writei\<close>.\<close>

lemma written_data:
  assumes w: "written i off src s s1" and ok: "file_ok i s" and off: "off \<le> unat (i_size (inodes s i))" "off + length src \<le> MAXFILE * BSIZE"
  defines "z \<equiv> max (unat (i_size (inodes s i))) (off + length src)"
  shows "fbytes (icont s1 i) 0 z = take off (file_data i s) @ src @ drop (off + length src) (file_data i s)" "covers (bview s1) (iaddrs s1 i) z"
proof -
  let ?z = "unat (i_size (inodes s i))"
  have lim: "z \<le> MAXFILE * BSIZE" using file_size_limit [OF ok] off(2) by (simp add: z_def)
  have S: "shape s (bview s) (iaddrs s i) (bview s1) (iaddrs s1 i)" using w by (simp add: written_def extends_def)
  have c: "\<forall>k < ?z. k div BSIZE < MAXFILE \<and> faddr (bview s) (iaddrs s i) (k div BSIZE) \<noteq> 0" using ok by (simp add: file_ok_def covers_bytes)
  show "covers (bview s1) (iaddrs s1 i) z" unfolding covers_bytes
  proof (intro allI impI conjI)
    fix k assume k: "k < z"
    then show b: "k div BSIZE < MAXFILE" using lim file_byte_block [of k] by linarith
    show "faddr (bview s1) (iaddrs s1 i) (k div BSIZE) \<noteq> 0"
    proof (cases "k < ?z")
      case True
      then show ?thesis using c shapeD(4) [OF S b] by simp
    next
      case False
      then have "off \<le> k" "k < off + length src" using k off(1) by (simp_all add: z_def)
      then show ?thesis using w by (simp add: written_def)
    qed
  qed
  show "fbytes (icont s1 i) 0 z = take off (file_data i s) @ src @ drop (off + length src) (file_data i s)"
  proof (rule nth_equalityI)
    show "length (fbytes (icont s1 i) 0 z) = length (take off (file_data i s) @ src @ drop (off + length src) (file_data i s))"
      using off(1) by (simp add: z_def)
    fix k assume "k < length (fbytes (icont s1 i) 0 z)"
    then have k: "k < z" "k < MAXFILE * BSIZE" using lim by simp_all
    have "fbytes (icont s1 i) 0 z ! k = cbyte (icont s1 i) k" using k by (simp add: fbytes_nth cbyte_def)
    also have "\<dots> = (if off \<le> k \<and> k < off + length src then src ! (k - off) else cbyte (icont s i) k)" using w k by (simp add: written_def)
    also have "\<dots> = (take off (file_data i s) @ src @ drop (off + length src) (file_data i s)) ! k"
      using k(1) off(1) by (auto simp: nth_append file_data_nth z_def)
    finally show "fbytes (icont s1 i) 0 z ! k = (take off (file_data i s) @ src @ drop (off + length src) (file_data i s)) ! k" .
  qed
qed

definition set_size :: "nat \<Rightarrow> u32 \<Rightarrow> 'a fs_scheme \<Rightarrow> 'a fs_scheme" where
  "set_size i z = upd_inode i (\<lambda>ip. ip\<lparr>i_size := z\<rparr>)"

lemma set_size_other:
  assumes "j \<noteq> i"
  shows "file_ok j (set_size i z s) = file_ok j s" "apart i j (set_size i z s) = apart i j s" "file_data j (set_size i z s) = file_data j s"
  using assms by (simp_all add: set_size_def file_ok_def inode_ok_def synced_def apart_def file_data_def)

definition writei_done :: "nat \<Rightarrow> u8 list \<Rightarrow> nat \<Rightarrow> 'a fs_scheme \<Rightarrow> 'a fs_scheme \<Rightarrow> bool" where
  "writei_done i src off s s' \<longleftrightarrow> fs_tx s' \<and> file_ok i s' \<and>
     file_data i s' = take off (file_data i s) @ src @ drop (off + length src) (file_data i s) \<and>
     (\<forall>j. file_ok j s \<and> apart i j s \<longrightarrow> file_ok j s' \<and> apart i j s' \<and> file_data j s' = file_data j s) \<and>
     sb s' = sb s \<and> dblocks s' = dblocks s \<and> disksize s' = disksize s \<and> dwrites s' = dwrites s \<and> l_start s' = l_start s \<and> l_size s' = l_size s \<and>
     l_outstanding s' = l_outstanding s \<and> l_committing s' = l_committing s \<and> curpid s' = curpid s \<and>
     (\<forall>j. i_inum (inodes s' j) = i_inum (inodes s j) \<and> i_type (inodes s' j) = i_type (inodes s j) \<and> (j \<noteq> i \<longrightarrow> inodes s' j = inodes s j))"

lemma extends_log:
  assumes "extends i s s'"
  shows "dblocks s' = dblocks s" "dwrites s' = dwrites s" "l_committing s' = l_committing s"
  using assms by (auto simp: extends_def keeps_def set_addrs_def)

lemma writei_tx:
  assumes ok: "fs_tx s" "file_ok i s" "1 \<le> l_outstanding s" and t: "i_type (inodes s i) \<noteq> T_DEV"
    and off: "off \<le> i_size (inodes s i)" "unat off + length src \<le> MAXFILE * BSIZE"
  shows "returns (\<lambda>(r, s'). r = int (length src) \<and> writei_done i src (unat off) s s') (writei dv i src off s)"
proof -
  define n :: u32 where "n = of_nat (length src)"
  have un: "unat n = length src" using off(2) by (simp add: n_def unat_of_nat)
  have uo: "unat (off + n) = unat off + length src" using un off(2) unat_add_lem [of off n] by simp
  have guards: "\<not> (i_size (inodes s i) < off \<or> off + n < off)" "\<not> of_nat (MAXFILE * BSIZE) < off + n"
    using off uo by (auto simp: word_less_nat_alt word_le_nat_alt)
  have si: "sint n = int (length src)" unfolding n_def using off(2) by (intro sint_of_nat_small) simp
  have o: "unat off \<le> unat (i_size (inodes s i))" using off(1) by (simp add: word_le_nat_alt)
  have io: "inode_ok i s" "i_inum (inodes s i) < sb_ninodes (sb s)" "synced i s" "fs_geom s" using ok by (simp_all add: file_ok_def fs_tx_def)
  let ?Q = "\<lambda>(r, s'). r = int (length src) \<and> writei_done i src (unat off) s s'"
  have "returns ?Q (kbind (writei_loop i src (unat off) s) (\<lambda>s.
        kbind (if 0 < n \<and> i_size (inodes s i) < off + n then iupdate i (set_size i (off + n) s) else Ok s) (\<lambda>s. Ok (sint n, s))))"
  proof (rule returns_kbind [OF writei_loop_tx [OF ok(1) io(1) ok(3) off(2)]])
    fix s1 assume w: "written i (unat off) src s s1"
    then have e: "extends i s s1" by (simp add: written_def)
    note W = written_data [OF w ok(2) o off(2)] and E = extends_ok [OF e ok(1) io(1)] and X = extends_inode [OF e] and L = extends_keeps [OF e] extends_log [OF e]
    have oth: "file_ok j s1 \<and> apart i j s1 \<and> file_data j s1 = file_data j s" "j \<noteq> i" if "file_ok j s" "apart i j s" for j
      using extends_other [OF e ok(1) _ that] that(2) by (auto simp: apart_def)
    show "returns ?Q (kbind (if 0 < n \<and> i_size (inodes s1 i) < off + n then iupdate i (set_size i (off + n) s1) else Ok s1) (\<lambda>s. Ok (sint n, s)))"
    proof (cases "0 < n \<and> i_size (inodes s1 i) < off + n")
      case True
      then have z: "max (unat (i_size (inodes s i))) (unat off + length src) = unat (off + n)" using X(4) uo by (simp add: word_less_nat_alt)
      let ?s = "set_size i (off + n) s1"
      have v: "bview ?s = bview s1" "iaddrs ?s i = iaddrs s1 i" "i_size (inodes ?s i) = off + n" "fs_tx ?s" "inode_ok i ?s"
        "i_inum (inodes ?s i) = i_inum (inodes s i)" "l_outstanding ?s = l_outstanding s" "sb ?s = sb s"
        using E X(2) L(1,10) by (simp_all add: set_size_def fs_tx_def inode_ok_def)
      have cov: "covers (bview ?s) (iaddrs ?s i) (unat (i_size (inodes ?s i)))" using W(2) v z by simp
      have fd: "file_data i ?s = take (unat off) (file_data i s) @ src @ drop (unat off + length src) (file_data i s)"
        using W(1) v z by (simp add: file_data_def)
      have pre: "i_inum (inodes ?s i) < sb_ninodes (sb ?s)" "1 \<le> l_outstanding ?s" using v io(2) ok(3) by simp_all
      have "returns ?Q (kbind (iupdate i ?s) (\<lambda>s. Ok (sint n, s)))"
      proof (rule returns_kbind [OF iupdate_file [OF v(4,5) pre(1) cov pre(2)]])
        fix s3 assume A: "fs_tx s3 \<and> keeps ?s s3 \<and> file_ok i s3 \<and> file_data i s3 = file_data i ?s \<and>
          (\<forall>j. file_ok j ?s \<and> apart i j ?s \<longrightarrow> file_ok j s3 \<and> apart i j s3 \<and> file_data j s3 = file_data j ?s)"
        then have k: "keeps ?s s3" by blast
        have "file_ok j s3 \<and> apart i j s3 \<and> file_data j s3 = file_data j s" if j: "file_ok j s" "apart i j s" for j
          using oth [OF j] set_size_other [of j i "off + n" s1] A by auto
        moreover have "sb s3 = sb s \<and> dblocks s3 = dblocks s \<and> disksize s3 = disksize s \<and> dwrites s3 = dwrites s \<and> l_start s3 = l_start s \<and> l_size s3 = l_size s \<and>
           l_outstanding s3 = l_outstanding s \<and> l_committing s3 = l_committing s \<and> curpid s3 = curpid s"
          using k keeps_fs(1) [OF k] L by (simp add: keeps_def set_size_def)
        moreover have "i_inum (inodes s3 j) = i_inum (inodes s j) \<and> i_type (inodes s3 j) = i_type (inodes s j) \<and> (j \<noteq> i \<longrightarrow> inodes s3 j = inodes s j)" for j
          using keeps_fs(2) [OF k] X by (cases "j = i") (simp_all add: set_size_def)
        ultimately show "returns ?Q (Ok (sint n, s3))" using A fd si by (simp add: writei_done_def)
      qed
      then show ?thesis using True by simp
    next
      case False
      have small: "unat off + length src \<le> unat (i_size (inodes s i)) \<or> src = []"
        using False X(4) uo un by (auto simp: word_less_nat_alt)
      then have z: "max (unat (i_size (inodes s i))) (unat off + length src) = unat (i_size (inodes s i))" using o by auto
      have "\<forall>k. unat off \<le> k \<and> k < unat off + length src \<longrightarrow> faddr (bview s) (iaddrs s i) (k div BSIZE) \<noteq> 0"
        using ok(2) small by (auto simp: file_ok_def covers_bytes)
      then have a: "iaddrs s1 i = iaddrs s i" using w unfolding written_def by blast
      then have di: "dinode_of (inodes s1 i) = dinode_of (inodes s i)" using X by (simp add: dinode_of_def)
      have "synced i s1" using io(3) extends_inode_block [OF e io(4,2)] X(2) L(1) di by (simp add: synced_def Let_def)
      then have "file_ok i s1" using E(2) W(2) z X(2,4) L(1) io(2) by (simp add: file_ok_def)
      moreover have "file_data i s1 = take (unat off) (file_data i s) @ src @ drop (unat off + length src) (file_data i s)"
        using W(1) z X(4) by (simp add: file_data_def)
      moreover have "i_inum (inodes s1 j) = i_inum (inodes s j) \<and> i_type (inodes s1 j) = i_type (inodes s j) \<and> (j \<noteq> i \<longrightarrow> inodes s1 j = inodes s j)" for j
        using X by (cases "j = i") simp_all
      ultimately have "writei_done i src (unat off) s s1" using E(1) oth(1) L by (simp add: writei_done_def)
      then show ?thesis using si by (subst if_not_P [OF False]) simp
    qed
  qed
  then show ?thesis using guards t unfolding n_def set_size_def by (simp add: writei_def Let_def)
qed

section \<open>Property: reading and writing files\<close>

text \<open>C6. \<open>writei\<close> and \<open>readi\<close> implement an array of bytes. Inside a transaction, a write that starts inside the file or at its end and stays within the largest file size
  either panics because buffers, log space or disk blocks run out, or returns the number of bytes, and then the file holds the old bytes before \<open>off\<close>, the new bytes, and
  the old bytes behind them, growing as needed, through the direct and the indirect blocks. Every other file whose blocks are its own keeps its bytes and its invariant, nothing
  has reached the disk yet, the file's block map stays well formed and its inode on the disk's view is up to date. Reading the range back gives the bytes written.\<close>

theorem writei_readi:
  assumes "fs_tx s" "file_ok i s" "1 \<le> l_outstanding s" "i_type (inodes s i) \<noteq> T_DEV"
    and "off \<le> i_size (inodes s i)" "unat off + length src \<le> MAXFILE * BSIZE"
  shows "returns (\<lambda>(r, s'). r = int (length src) \<and> fs_tx s' \<and> file_ok i s' \<and> dblocks s' = dblocks s \<and>
      file_data i s' = take (unat off) (file_data i s) @ src @ drop (unat off + length src) (file_data i s) \<and>
      (\<forall>j. file_ok j s \<and> apart i j s \<longrightarrow> file_ok j s' \<and> apart i j s' \<and> file_data j s' = file_data j s) \<and>
      returns (\<lambda>(r', bytes, s''). r' = int (length src) \<and> bytes = src) (readi dv i off (of_nat (length src)) s'))
    (writei dv i src off s)"
proof (rule returns_mono [OF writei_tx [OF assms]], simp, goal_cases)
  case (1 x)
  obtain r s' where x: "x = (r, s')" by (cases x)
  then have D: "r = int (length src)" "writei_done i src (unat off) s s'" using 1 by simp_all
  have d: "fs_tx s'" "file_ok i s'" "file_data i s' = take (unat off) (file_data i s) @ src @ drop (unat off + length src) (file_data i s)"
    "i_type (inodes s' i) \<noteq> T_DEV" using D(2) assms(4) by (simp_all add: writei_done_def)
  have o: "unat off \<le> unat (i_size (inodes s i))" using assms(5) by (simp add: word_le_nat_alt)
  have n: "unat (of_nat (length src) :: u32) = length src" using assms(6) by (simp add: unat_of_nat)
  have "length (file_data i s') = unat (i_size (inodes s' i))" by simp
  then have z: "off \<le> i_size (inodes s' i)" using d(3) o by (simp add: word_le_nat_alt)
  have p: "off \<le> off + of_nat (length src)" unfolding unat_plus_simple using n assms(6) unat_add_lem [of off "of_nat (length src)"] by simp
  have "take (length src) (drop (unat off) (file_data i s')) = src" using d(3) o by simp
  then have "returns (\<lambda>(r', bytes, s''). r' = int (length src) \<and> bytes = src) (readi dv i off (of_nat (length src)) s')"
    by (intro returns_mono [OF readi_tx [OF d(1,2,4) z p]]) (use n in auto)
  then show ?case using x D d by (simp add: writei_done_def)
qed

definition no_devices :: "fs devsw" where
  "no_devices = \<lparr>dev_read = \<lambda>_. None, dev_write = \<lambda>_. None\<rparr>"

text \<open>With room in the log a change of a block succeeds.\<close>

lemma change_block_ok:
  assumes t: "tx {} s" and n: "loggable s n" and d: "length (f (bview s n)) = BSIZE" and l: "1 \<le> l_outstanding s" "lh_n s + 1 \<le> l_size s - 1"
  shows "\<exists>s'. kbind (bread 1 n s) (\<lambda>(b, s). kbind (log_write b (set_data b (f (b_data (bufs s b))) s)) (\<lambda>s. brelse b s)) = Ok s' \<and>
     tx {} s' \<and> bview s' = (bview s)(n := f (bview s n)) \<and> keeps s s' \<and> lh_n s' \<le> lh_n s + 1"
proof -
  have ok: "bio_ok s" "log_inv s" "bio_idle s" using t by (auto simp: tx_def bio_idle_def)
  have "card {m. bdirty s m} \<le> length (logged s)" using ok(2) by (auto simp: log_inv_def card_length)
  also have "\<dots> \<le> nat (lh_n s)" by (simp add: logged_def)
  also have "\<dots> \<le> 29" using ok(2) l(2) by (auto simp: log_inv_def nat_le_iff)
  finally have sp: "spare_bufs 1 s" by (simp add: spare_bufs_def)
  have n': "unat n < disksize s" using n by (simp add: loggable_def home_blk_def)
  obtain b s1 where b: "bread 1 n s = Ok (b, s1)" using bread_idle [OF ok(1,3) sp n'] by blast
  have B: "tx {(b, n)} s1" "b_data (bufs s1 b) = bview s n" "bview s1 = bview s" "keeps s s1" using bread_tx [OF t n'] b by simp_all
  let ?s = "set_data b (f (bview s n)) s1"
  have h: "lh_n s1 = lh_n s" "lh_ok s1" using log_frame [OF bread_more [OF b]] ok(2) by (simp_all add: log_inv_def lh_ok_def)
  have e: "lh_n ?s = lh_n s" "l_size ?s = l_size s" "l_outstanding ?s = l_outstanding s" "lh_ok ?s"
    using log_frame [of ?s s1] h keeps_log [OF B(4)] by (simp_all add: lh_ok_def)
  then have "\<exists>s2. log_write b ?s = Ok s2" using l ok(2) by (simp add: log_write_def Let_def log_inv_def)
  then obtain s2 where s2: "log_write b ?s = Ok s2" by blast
  have "returns (\<lambda>s'. tx {(b, n)} s' \<and> bview s' = (bview s1)(n := f (bview s n)) \<and> keeps s1 s') (log_write b ?s)"
    by (rule log_write_tx [OF B(1)]) (use d l n keeps_log [OF B(4)] in simp_all)
  then have "held_buf b n s2" using s2 by (simp add: tx_def holds_def)
  then obtain s3 where s3: "brelse b s2 = Ok s3" using brelse_returns by blast
  have "lh_n s3 \<le> lh_n s + 1" using log_frame [OF brelse_more [OF s3]] log_write_guards(2) [OF s2 e(4)] e(1) by simp
  moreover have "returns (\<lambda>s'. tx {} s' \<and> bview s' = (bview s)(n := f (bview s n)) \<and> keeps s s')
    (kbind (bread 1 n s) (\<lambda>(b, s). kbind (log_write b (set_data b (f (b_data (bufs s b))) s)) (\<lambda>s. brelse b s)))"
    using change_block [where f = f, OF t n _ d l(1)] by simp
  ultimately show ?thesis using b B(2) s2 s3 by simp
qed

lemma one_block:
  assumes "a \<noteq> 0" "as = a # replicate 12 0"
  shows "faddr v as b = (if b = 0 then a else 0)" "fblocks v as = {a}"
proof -
  show F: "faddr v as b = (if b = 0 then a else 0)" for b using assms(2) by (simp add: faddr_def nth_Cons')
  have "faddr v as ` {..<MAXFILE} \<subseteq> {0, a}" by (auto simp: F)
  moreover have "a \<in> faddr v as ` {..<MAXFILE}" using F [of 0] by force
  ultimately show "fblocks v as = {a}" using assms by (auto simp: fblocks_def)
qed

lemma demo_addrs:
  "iaddrs demo_fs 0 = 15 # replicate 12 0" "iaddrs demo_fs (Suc 0) = 14 # replicate 12 0" "i_size (inodes demo_fs 0) = 32" "i_size (inodes demo_fs (Suc 0)) = 3"
  "i_inum (inodes demo_fs 0) = 1" "i_inum (inodes demo_fs (Suc 0)) = 2" "i_dev (inodes demo_fs 0) = 1" "i_dev (inodes demo_fs (Suc 0)) = 1"
  "i_type (inodes demo_fs 0) = T_DIR" "i_type (inodes demo_fs (Suc 0)) = T_FILE"
  by (simp_all add: demo_fs_facts demo_inode_def load_inode_def demo_dir_def demo_file_def)

lemma demo_map:
  assumes "as = a # replicate 12 0" "a = 14 \<or> a = 15"
  shows "map_ok demo_fs (bview demo_fs) as"
proof -
  have a: "a \<noteq> 0" "a < 20" "a < 16" "a \<notin> {12, 13}" "loggable demo_fs a" using assms(2) by (auto simp: demo_blocks)
  then have "a < sb_size demo_sb" "\<not> reserved demo_fs a" "marked (bview demo_fs) demo_sb a"
    using demo_marked [OF a(2)] by (auto simp: reserved_def demo_fs_facts demo_blocks) (simp add: demo_sb_def)
  then show ?thesis using one_block [OF a(1) assms(1)] assms(1) a(1) by (auto simp: map_ok_def demo_fs_facts)
qed

lemma demo_dinode: "dinode_at 1 (demo_disk 12) = demo_dir" "dinode_at 2 (demo_disk 12) = demo_file"
  using decode_encode_dinode [of demo_dir "[]"] decode_encode_dinode [of demo_file "[]"]
  by (simp_all add: dinode_at_def inode_slot_def demo_disk_def slice_def demo_dir_def demo_file_def)

lemma demo_files: "fs_tx demo_fs" "file_ok 0 demo_fs" "file_ok 1 demo_fs" "apart 1 0 demo_fs"
proof -
  show "fs_tx demo_fs" using demo_fs_facts(1) demo_geom demo_bitmap by (simp add: fs_tx_def)
  have m: "map_ok demo_fs (bview demo_fs) (iaddrs demo_fs 0)" "map_ok demo_fs (bview demo_fs) (iaddrs demo_fs 1)"
    using demo_map [OF demo_addrs(1)] demo_map [OF demo_addrs(2)] by simp_all
  have c: "covers (bview demo_fs) (iaddrs demo_fs 0) 32" "covers (bview demo_fs) (iaddrs demo_fs 1) 3"
    using one_block(1) [OF _ demo_addrs(1)] one_block(1) [OF _ demo_addrs(2)] by (auto simp: covers_def)
  have i: "IBLOCK 1 demo_sb = 12" "IBLOCK 2 demo_sb = 12" by (simp_all add: IBLOCK_def demo_sb_def small_div)
  have d: "dinode_of (inodes demo_fs 0) = demo_dir" "dinode_of (inodes demo_fs 1) = demo_file"
    by (simp_all add: demo_fs_facts dinode_of_def demo_inode_def load_inode_def)
  have z: "(1 :: u32) < sb_ninodes demo_sb" "(2 :: u32) < sb_ninodes demo_sb" by (simp_all add: demo_sb_def)
  show "file_ok 0 demo_fs" "file_ok 1 demo_fs"
    using m c d i z demo_dinode by (simp_all add: file_ok_def inode_ok_def synced_def demo_addrs demo_fs_facts(2,3))
  show "apart 1 0 demo_fs"
    using one_block(2) [OF _ demo_addrs(1)] one_block(2) [OF _ demo_addrs(2)] by (simp add: apart_def demo_addrs(5,6))
qed

lemma writei_loop_Nil: "writei_loop i [] off s = Ok s"
  by (subst writei_loop.simps) simp

lemma demo_write: "\<exists>s'. writei no_devices 1 [120, 121] 2 demo_fs = Ok (2, s')"
proof -
  let ?f = "splice 2 [120, 121 :: u8]"
  have t: "tx {} demo_fs" "loggable demo_fs 14" "length (?f (bview demo_fs 14)) = BSIZE" "1 \<le> l_outstanding demo_fs" "lh_n demo_fs + 1 \<le> l_size demo_fs - 1"
    using demo_disk_length by (simp_all add: demo_fs_facts demo_blocks)
  obtain s1 where s1: "kbind (bread 1 14 demo_fs) (\<lambda>(b, s). kbind (log_write b (set_data b (?f (b_data (bufs s b))) s)) (\<lambda>s. brelse b s)) = Ok s1"
    "tx {} s1" "bview s1 = (bview demo_fs)(14 := ?f (bview demo_fs 14))" "keeps demo_fs s1" "lh_n s1 \<le> 1"
    using change_block_ok [of demo_fs 14 ?f, OF t] by (auto simp: demo_fs_facts)
  have b: "bmap 1 0 demo_fs = Ok (14, demo_fs)" using demo_addrs(2) by (simp add: bmap_def)
  have w: "writei_loop 1 [120, 121] 2 demo_fs = Ok s1"
    using s1(1) b demo_addrs(8) by (subst writei_loop.simps) (simp add: Let_def min_def writei_loop_Nil kbind_assoc split_def)
  define s2 where "s2 = upd_inode 1 (\<lambda>ip. ip\<lparr>i_size := 4\<rparr>) s1"
  have k: "inodes s1 = inodes demo_fs" "sb s1 = demo_sb" "l_outstanding s1 = 1" "l_size s1 = 10" "loggable s1 = loggable demo_fs"
    using keeps_fs [OF s1(4)] keeps_log [OF s1(4)] by (simp_all add: demo_fs_facts)
  let ?g = "put_dinode 2 (dinode_of (inodes s2 1))"
  have i: "IBLOCK 2 demo_sb = 12" by (simp add: IBLOCK_def demo_sb_def small_div)
  have "length (d_addrs (dinode_of (inodes s2 1))) = 13" using k(1) demo_addrs(2) by (simp add: s2_def dinode_of_def)
  then have "length (?g (bview s2 12)) = BSIZE" using s1(3) demo_disk_length by (intro length_put_dinode) (simp_all add: s2_def demo_fs_facts)
  then obtain s3 where "kbind (bread 1 12 s2) (\<lambda>(b, s). kbind (log_write b (set_data b (?g (b_data (bufs s b))) s)) (\<lambda>s. brelse b s)) = Ok s3"
    using change_block_ok [of s2 12 ?g] s1(2,5) k by (auto simp: s2_def demo_blocks)
  then have "iupdate 1 s2 = Ok s3" using k demo_addrs(6,8) i by (simp add: iupdate_def Let_def s2_def)
  then show ?thesis using w k(1) demo_addrs(4,10) by (simp add: writei_def Let_def s2_def)
qed

theorem writei_readi_witness:
  "\<exists>s'. writei no_devices 1 [120, 121] 2 demo_fs = Ok (2, s') \<and> file_data 1 demo_fs = [97, 98, 99] \<and> file_data 1 s' = [97, 98, 120, 121] \<and>
     file_data 0 s' = file_data 0 demo_fs"
proof -
  obtain s' where s': "writei no_devices 1 [120, 121] 2 demo_fs = Ok (2, s')" using demo_write by blast
  have d: "file_data 1 demo_fs = [97, 98, 99]"
    using one_block(1) [OF _ demo_addrs(2)] by (simp add: file_data_def fbytes_def demo_addrs cont_def demo_fs_facts(2) demo_disk_def upt_rec)
  have "(2 :: u32) \<le> i_size (inodes demo_fs 1)" "i_type (inodes demo_fs 1) \<noteq> T_DEV" "1 \<le> l_outstanding demo_fs"
    using demo_addrs(4,10) by (simp_all add: demo_fs_facts(4))
  then show ?thesis using writei_readi [of demo_fs 1 2 "[120, 121]" no_devices] demo_files s' d by simp
qed

end
