(* ===== verification/Durable.thy ===== *)
theory Durable
  imports Files
begin

text \<open>
  Files and crashes: what a file holds on the disk, and that a call which writes to a file inside a transaction takes effect on the disk as a whole or not at all.
\<close>

section \<open>Files on the disk\<close>

text \<open>The bytes of the file with inode \<open>inum\<close>, from the contents of the blocks alone.\<close>

definition disk_file :: "(u32 \<Rightarrow> block) \<Rightarrow> superblock \<Rightarrow> u32 \<Rightarrow> u8 list" where
  "disk_file v p inum = (let di = dinode_at inum (v (IBLOCK inum p)) in fbytes (cont v (d_addrs di)) 0 (unat (d_size di)))"

lemma disk_file_view:
  assumes ok: "fs_tx s" "file_ok i s" and same: "\<And>n. home_blk s n \<Longrightarrow> v n = bview s n"
  shows "disk_file v (sb s) (i_inum (inodes s i)) = file_data i s"
proof -
  have T: "fs_geom s" "map_ok s (bview s) (iaddrs s i)" "synced i s" "i_inum (inodes s i) < sb_ninodes (sb s)"
    using ok by (simp_all add: fs_tx_def file_ok_def inode_ok_def)
  have "v (IBLOCK (i_inum (inodes s i)) (sb s)) = bview s (IBLOCK (i_inum (inodes s i)) (sb s))"
    using same IBLOCK_plain(3) [OF T(1,4)] by (simp add: loggable_def)
  then have d: "dinode_at (i_inum (inodes s i)) (v (IBLOCK (i_inum (inodes s i)) (sb s))) = dinode_of (inodes s i)" using T(3) by (simp add: synced_def Let_def)
  have "v n = bview s n \<and> marked v (sb s) n" if n: "n \<in> fblocks (bview s) (iaddrs s i)" for n
  proof -
    note P = file_blocks_plain [OF T(2) n]
    have "loggable s (BBLOCK n (sb s))" using T(1) P(4) by (auto simp: fs_geom_def bitmap_blocks_def)
    then show ?thesis using P(3,5) same by (simp add: loggable_def marked_def)
  qed
  note F = file_frame(2) [OF T(2) this]
  have "fbytes (cont v (iaddrs s i)) 0 (unat (i_size (inodes s i))) = file_data i s"
  proof (rule nth_equalityI)
    fix k assume "k < length (fbytes (cont v (iaddrs s i)) 0 (unat (i_size (inodes s i))))"
    then have k: "k < unat (i_size (inodes s i))" by simp
    then have "k div BSIZE < MAXFILE" using file_size_limit [OF ok(2)] file_byte_block [of k] by linarith
    then show "fbytes (cont v (iaddrs s i)) 0 (unat (i_size (inodes s i))) ! k = file_data i s ! k" using k F by (simp add: fbytes_nth file_data_nth cbyte_def)
  qed simp
  then show ?thesis using d by (simp add: disk_file_def dinode_of_def)
qed

lemma tx_clean: "tx {} s \<Longrightarrow> lh_n s = 0 \<Longrightarrow> bview s n = dblocks s (unat n)"
  by (rule bview_clean) (auto simp: tx_def bio_idle_def log_inv_def logged_def)

lemma tx_ready:
  assumes "tx {} s" "0 < lh_n s"
  shows "log_ready s" "1 \<notin> set (logged s)"
  using assms by (auto simp: log_ready_def tx_def bio_idle_def log_inv_def lh_ok_def loggable_def)

section \<open>The end of a transaction\<close>

text \<open>The last call leaves the transaction with \<open>end_op\<close>, which commits.\<close>

lemma closing_tx:
  "tx H (s\<lparr>l_outstanding := x, l_committing := y\<rparr>) = tx H s" "bview (s\<lparr>l_outstanding := x, l_committing := y\<rparr>) = bview s"
proof -
  have "bdirty (s\<lparr>l_outstanding := x, l_committing := y\<rparr>) = bdirty s" "bio_ok (s\<lparr>l_outstanding := x, l_committing := y\<rparr>) = bio_ok s"
    by (simp_all add: bdirty_def bio_ok_def fun_eq_iff)
  then show "tx H (s\<lparr>l_outstanding := x, l_committing := y\<rparr>) = tx H s"
    by (simp add: tx_def holds_def held_buf_def clean_buf_def log_inv_def lh_ok_def log_geom_def logged_def loggable_def home_blk_def)
  show "bview (s\<lparr>l_outstanding := x, l_committing := y\<rparr>) = bview s" by (simp add: bview_def fun_eq_iff cong: option.case_cong)
qed

lemma end_op_atomic:
  assumes t: "tx {} s" "l_outstanding s = 1" "\<not> l_committing s"
    and sb: "sb_ok (l_start s) (l_size s) (disksize s) (dblocks s)" "head_n (l_start s) (dblocks s) = 0"
  shows "\<exists>s'. end_op s = Ok s' \<and> (\<forall>k dk. (cut_recovery (disksize s))\<^sup>*\<^sup>*
         (apply_writes (take k (drop (length (dwrites s)) (dwrites s'))) (dblocks s)) dk \<longrightarrow>
       (\<exists>r. initlog 1 (log_boot (disksize s) dk) = Ok r \<and>
         (\<forall>n. home_blk s n \<longrightarrow> dblocks r (unat n) = (if k \<le> nat (lh_n s) then dblocks s (unat n) else bview s n))))"
proof -
  define s0 where "s0 = s\<lparr>l_outstanding := 0, l_committing := True\<rparr>"
  have e: "end_op s = kbind (commit s0) (\<lambda>s. Ok (s\<lparr>l_committing := False\<rparr>))"
    using t(2,3) by (simp add: end_op_def end_op_enter_def s0_def Let_def)
  have f: "tx {} s0" "bview s0 = bview s" "lh_n s0 = lh_n s" "dblocks s0 = dblocks s" "dwrites s0 = dwrites s" "disksize s0 = disksize s"
    "l_start s0 = l_start s" "l_size s0 = l_size s"
    using t(1) by (simp_all add: s0_def closing_tx)
  show ?thesis
  proof (cases "0 < lh_n s")
    case True
    then obtain s1 where s1: "commit s0 = Ok s1" "\<forall>k dk. (cut_recovery (disksize s))\<^sup>*\<^sup>*
         (apply_writes (take k (drop (length (dwrites s)) (dwrites s1))) (dblocks s)) dk \<longrightarrow>
       (\<exists>r. initlog 1 (log_boot (disksize s) dk) = Ok r \<and>
         (\<forall>m<disksize s. m \<notin> log_area (l_start s) (l_size s) \<longrightarrow>
            dblocks r m = (if k \<le> nat (lh_n s) then dblocks s m else bview s (of_nat m))))"
      using commit_atomic [of s0, unfolded f(2-8)] tx_ready [OF f(1), unfolded f(3)] sb by blast
    moreover have "dwrites (s1\<lparr>l_committing := False\<rparr>) = dwrites s1" by simp
    ultimately show ?thesis using e by (fastforce simp: home_blk_def)
  next
    case False
    then have z: "lh_n s = 0" using t(1) by (simp add: tx_def log_inv_def lh_ok_def)
    then have "end_op s = Ok (s0\<lparr>l_committing := False\<rparr>)" using e f(3) by (simp add: commit_def)
    moreover have "\<exists>r. initlog 1 (log_boot (disksize s) dk) = Ok r \<and> (\<forall>n. home_blk s n \<longrightarrow> dblocks r (unat n) = dblocks s (unat n))"
      if "(cut_recovery (disksize s))\<^sup>*\<^sup>* (dblocks s) dk" for dk
      using idle_atomic [OF sb that] by (auto simp: home_blk_def)
    ultimately show ?thesis using tx_clean [OF t(1) z] z f(5) by simp blast
  qed
qed

section \<open>Property: durable writes\<close>

text \<open>C5. A write to a file is atomic over crashes. A call that is alone in its transaction writes to a file with \<open>writei\<close> and leaves with \<open>end_op\<close>. If \<open>writei\<close> has not panicked for
  lack of resources, \<open>end_op\<close> returns, and whichever of its block writes is the last to reach the disk, and however often the recovery after it is itself cut short, the next boot
  succeeds, and the file then holds on the disk either all of its old bytes or all of its new bytes, data, size and block map together: the old ones if the log header
  had not been written, the new ones otherwise. Every other file holds what it held.\<close>

theorem writei_durable:
  assumes "fs_tx s" "file_ok i s" "lh_n s = 0" "l_outstanding s = 1" "\<not> l_committing s" "i_type (inodes s i) \<noteq> T_DEV"
    and "off \<le> i_size (inodes s i)" "unat off + length src \<le> MAXFILE * BSIZE"
    and "sb_ok (l_start s) (l_size s) (disksize s) (dblocks s)" "head_n (l_start s) (dblocks s) = 0"
  shows "returns (\<lambda>(r, s'). r = int (length src) \<and> (\<exists>s''. end_op s' = Ok s'' \<and>
      (\<forall>k dk. (cut_recovery (disksize s))\<^sup>*\<^sup>* (apply_writes (take k (drop (length (dwrites s)) (dwrites s''))) (dblocks s)) dk \<longrightarrow>
        (\<exists>b. initlog 1 (log_boot (disksize s) dk) = Ok b \<and>
           disk_file (\<lambda>n. dblocks b (unat n)) (sb s) (i_inum (inodes s i)) =
             (if k \<le> nat (lh_n s') then file_data i s
              else take (unat off) (file_data i s) @ src @ drop (unat off + length src) (file_data i s)) \<and>
           (\<forall>j. file_ok j s \<and> apart i j s \<longrightarrow> disk_file (\<lambda>n. dblocks b (unat n)) (sb s) (i_inum (inodes s j)) = file_data j s)))))
    (writei dv i src off s)"
proof (rule returns_mono [OF writei_tx], goal_cases)
  case (7 x)
  obtain r s' where x: "x = (r, s')" by (cases x)
  then have D: "r = int (length src)" "writei_done i src (unat off) s s'" using 7 by simp_all
  note W = D(2) [unfolded writei_done_def]
  have t: "tx {} s'" "tx {} s" "fs_tx s'" "file_ok i s'" "l_outstanding s' = 1" "\<not> l_committing s'" "sb s' = sb s" using W assms(1,4,5) by (simp_all add: fs_tx_def)
  have c: "bview s n = dblocks s (unat n)" for n using tx_clean [OF t(2) assms(3)] .
  have sb: "sb_ok (l_start s') (l_size s') (disksize s') (dblocks s')" "head_n (l_start s') (dblocks s') = 0" using W assms(9,10) by simp_all
  have h: "home_blk s' = home_blk s" using W by (simp add: home_blk_def fun_eq_iff)
  have E: "dblocks s' = dblocks s" "disksize s' = disksize s" "dwrites s' = dwrites s" using W by simp_all
  obtain s'' where s'': "end_op s' = Ok s''" "\<forall>k dk. (cut_recovery (disksize s))\<^sup>*\<^sup>*
         (apply_writes (take k (drop (length (dwrites s)) (dwrites s''))) (dblocks s)) dk \<longrightarrow>
       (\<exists>r. initlog 1 (log_boot (disksize s) dk) = Ok r \<and>
         (\<forall>n. home_blk s n \<longrightarrow> dblocks r (unat n) = (if k \<le> nat (lh_n s') then dblocks s (unat n) else bview s' n)))"
    using end_op_atomic [OF t(1,5,6) sb, unfolded E h] by blast
  have R: "\<exists>b. initlog 1 (log_boot (disksize s) dk) = Ok b \<and>
     disk_file (\<lambda>n. dblocks b (unat n)) (sb s) (i_inum (inodes s i)) = (if k \<le> nat (lh_n s') then file_data i s else file_data i s') \<and>
     (\<forall>j. file_ok j s \<and> apart i j s \<longrightarrow> disk_file (\<lambda>n. dblocks b (unat n)) (sb s) (i_inum (inodes s j)) = file_data j s)"
    if cut: "(cut_recovery (disksize s))\<^sup>*\<^sup>* (apply_writes (take k (drop (length (dwrites s)) (dwrites s''))) (dblocks s)) dk" for k dk
  proof -
    obtain b where b: "initlog 1 (log_boot (disksize s) dk) = Ok b"
      "\<And>n. home_blk s n \<Longrightarrow> dblocks b (unat n) = (if k \<le> nat (lh_n s') then dblocks s (unat n) else bview s' n)" using s''(2) cut by blast
    let ?v = "\<lambda>n. dblocks b (unat n)"
    have old: "disk_file ?v (sb s) (i_inum (inodes s j)) = file_data j s" if "file_ok j s" "k \<le> nat (lh_n s')" for j
      by (rule disk_file_view [OF assms(1) that(1)]) (use b(2) that(2) c in simp)
    have new: "disk_file ?v (sb s) (i_inum (inodes s j)) = file_data j s'" if "file_ok j s'" "\<not> k \<le> nat (lh_n s')" for j
      using disk_file_view [OF t(3) that(1), of ?v] b(2) that(2) h W by simp
    have "disk_file ?v (sb s) (i_inum (inodes s j)) = file_data j s" if "file_ok j s" "apart i j s" for j
      using old [OF that(1)] new [of j] W that by (cases "k \<le> nat (lh_n s')") auto
    then show ?thesis using b(1) old [OF assms(2)] new [OF t(4)] by auto
  qed
  have fd: "file_data i s' = take (unat off) (file_data i s) @ src @ drop (unat off + length src) (file_data i s)" using W by blast
  show ?case unfolding x prod.case using D(1) s''(1) R [unfolded fd] by blast
qed (use assms in simp_all)

theorem writei_durable_witness:
  "\<exists>s' s'' k b b'. writei no_devices 1 [120, 121] 2 demo_fs = Ok (2, s') \<and> end_op s' = Ok s'' \<and>
     initlog 1 (log_boot 20 demo_disk) = Ok b \<and> disk_file (\<lambda>n. dblocks b (unat n)) demo_sb 2 = [97, 98, 99] \<and>
     initlog 1 (log_boot 20 (apply_writes (take k (dwrites s'')) demo_disk)) = Ok b' \<and> disk_file (\<lambda>n. dblocks b' (unat n)) demo_sb 2 = [97, 98, 120, 121]"
proof -
  obtain s' where s': "writei no_devices 1 [120, 121] 2 demo_fs = Ok (2, s')" using demo_write by blast
  have d: "file_data 1 demo_fs = [97, 98, 99]"
    using one_block(1) [OF _ demo_addrs(2)] by (simp add: file_data_def fbytes_def demo_addrs cont_def demo_fs_facts(2) demo_disk_def upt_rec)
  have sb: "sb_ok (l_start demo_fs) (l_size demo_fs) (disksize demo_fs) (dblocks demo_fs)" "head_n (l_start demo_fs) (dblocks demo_fs) = 0"
    using demo_disk_length by (simp_all add: demo_fs_facts sb_ok_def head_n_def) (simp_all add: demo_disk_def demo_sb_def)
  have "(2 :: u32) \<le> i_size (inodes demo_fs 1)" "i_type (inodes demo_fs 1) \<noteq> T_DEV" "l_outstanding demo_fs = 1" "lh_n demo_fs = 0" "\<not> l_committing demo_fs"
    "i_inum (inodes demo_fs 1) = 2" using demo_addrs(4,6,10) by (simp_all add: demo_fs_facts(4,10,11))
  note P = writei_durable [OF demo_files(1,3) this(4,3,5,2,1) _ sb, where src = "[120, 121]" and dv = no_devices, simplified s' demo_fs_facts(3,5-9) this(6), simplified]
  have new: "take (unat (2 :: u32)) (file_data 1 demo_fs) @ [120, 121] @ drop (unat (2 :: u32) + length [120, 121 :: u8]) (file_data 1 demo_fs) = [97, 98, 120, 121]"
    using d by simp
  obtain s'' where s'': "end_op s' = Ok s''" "\<And>k. \<exists>b. initlog 1 (log_boot 20 (apply_writes (take k (dwrites s'')) demo_disk)) = Ok b \<and>
      disk_file (\<lambda>n. dblocks b (unat n)) demo_sb 2 = (if k \<le> nat (lh_n s') then [97, 98, 99] else [97, 98, 120, 121])"
    using P [unfolded new, unfolded d] by blast
  show ?thesis using s' s''(1) s''(2) [of 0] s''(2) [of "Suc (nat (lh_n s'))"] by auto
qed

end
