(* ===== verification/Dirs.thy ===== *)
theory Dirs
  imports Durable
begin

text \<open>
  Directories: the entries of a directory as a list, that \<open>dirlookup\<close> finds the first entry of a name, and that \<open>dirlink\<close> adds an entry which \<open>dirlookup\<close> finds from then on.
\<close>

section \<open>Names\<close>

text \<open>What a name means: the bytes before the first zero, at most \<open>DIRSIZ\<close> of them.\<close>

definition dname :: "u8 list \<Rightarrow> u8 list" where
  "dname xs = takeWhile (\<lambda>c. c \<noteq> 0) (take DIRSIZ xs)"

lemma takeWhile_padded: "takeWhile (\<lambda>c. c \<noteq> 0) (xs @ replicate n 0) = takeWhile (\<lambda>c. c \<noteq> (0 :: u8)) xs"
  by (induction xs) (simp_all add: takeWhile_replicate)

lemma padded_bytes:
  assumes "\<And>k. k < n \<Longrightarrow> m (a + k) = (if k < length xs then xs ! k else 0)"
  shows "cstrn m a n = takeWhile (\<lambda>c. c \<noteq> 0) (take n xs)"
proof -
  have "bytes m a n = take n xs @ replicate (n - length xs) 0"
    by (rule nth_equalityI) (use assms in \<open>auto simp: nth_append\<close>)
  then show ?thesis by (simp add: cstrn_def takeWhile_padded)
qed

lemma cstrn_two_arrays:
  "cstrn (two_arrays xs ys) 0 DIRSIZ = dname xs" "cstrn (two_arrays xs ys) DIRSIZ DIRSIZ = dname ys"
  unfolding dname_def by (rule padded_bytes; simp add: two_arrays_def)+

lemma namecmp_eq: "namecmp xs ys = 0 \<longleftrightarrow> dname xs = dname ys"
  by (simp add: namecmp_def strncmp_eq_0_cstrn cstrn_two_arrays)

lemma dirent_name_eq: "dirent_name xs = dname xs @ replicate (DIRSIZ - length (dname xs)) 0"
  using strncpy_bytes [of 0 DIRSIZ DIRSIZ "two_arrays [] xs"] by (simp add: dirent_name_def disjoint_ranges_def cstrn_two_arrays)

lemma length_dname: "length (dname xs) \<le> DIRSIZ"
  using length_takeWhile_le [of "\<lambda>c. c \<noteq> 0" "take DIRSIZ xs"] by (simp add: dname_def)

lemma length_dirent_name [simp]: "length (dirent_name xs) = DIRSIZ"
  using length_dname [of xs] by (simp add: dirent_name_eq)

lemma dname_dirent [simp]: "dname (dirent_name xs) = dname xs"
proof -
  have "dname (dirent_name xs) = takeWhile (\<lambda>c. c \<noteq> 0) (dname xs)"
    unfolding dname_def [of "dirent_name xs"] using length_dirent_name [of xs] by (simp add: dirent_name_eq takeWhile_padded)
  then show ?thesis by (simp add: dname_def takeWhile_takeWhile)
qed

section \<open>Entries\<close>

definition dir_ok :: "nat \<Rightarrow> 'a fs_scheme \<Rightarrow> bool" where
  "dir_ok i s \<longleftrightarrow> file_ok i s \<and> i_type (inodes s i) = T_DIR \<and> 16 dvd unat (i_size (inodes s i))"

definition dirents :: "u8 list \<Rightarrow> dirent list" where
  "dirents d = map (\<lambda>k. decode_dirent (slice (16 * k) 16 d)) [0..<length d div 16]"

definition entry_of :: "u8 list \<Rightarrow> dirent \<Rightarrow> bool" where
  "entry_of name de \<longleftrightarrow> de_inum de \<noteq> 0 \<and> dname (de_name de) = dname name"

definition dfind :: "u8 list \<Rightarrow> dirent list \<Rightarrow> nat option" where
  "dfind name des = List.find (\<lambda>k. entry_of name (des ! k)) [0..<length des]"

lemma length_dirents [simp]: "length (dirents d) = length d div 16"
  by (simp add: dirents_def)

lemma file_keeps:
  assumes "keeps s s'" "bview s' = bview s" "tx {} s'"
  shows "file_ok i s' = file_ok i s" "file_data i s' = file_data i s" "dir_ok i s' = dir_ok i s" "fs_tx s \<Longrightarrow> fs_tx s'"
  using assms keeps_fs [OF assms(1)] keeps_geom [OF assms(1)] keeps_map [OF assms(1)]
  by (simp_all add: file_ok_def inode_ok_def synced_def file_data_def dir_ok_def fs_tx_def)

lemma dir_read:
  assumes ok: "fs_tx s" "dir_ok i s" and k: "k < length (dirents (file_data i s))"
  shows "returns (\<lambda>(r, bytes, s'). r = 16 \<and> decode_dirent bytes = dirents (file_data i s) ! k \<and> tx {} s' \<and> keeps s s' \<and> bview s' = bview s)
    (readi dv i (of_nat (16 * k)) 16 s)"
proof -
  let ?z = "unat (i_size (inodes s i))"
  have f: "file_ok i s" "i_type (inodes s i) \<noteq> T_DEV" "16 dvd ?z" using ok(2) by (simp_all add: dir_ok_def)
  have b: "16 * k + 16 \<le> ?z" using k f(3) by (auto elim!: dvdE)
  then have lim: "16 * k + 16 \<le> MAXFILE * BSIZE" using file_size_limit [OF f(1)] by linarith
  then have u: "unat (of_nat (16 * k) :: u32) = 16 * k" by (simp add: unat_of_nat take_bit_nat_eq_self del: of_nat_mult)
  have o: "(of_nat (16 * k) :: u32) \<le> i_size (inodes s i)" using u b by (simp add: word_le_nat_alt)
  have p: "(of_nat (16 * k) :: u32) \<le> of_nat (16 * k) + 16" unfolding unat_plus_simple using u lim unat_add_lem [of "of_nat (16 * k) :: u32" 16] by simp
  show ?thesis
    by (rule returns_mono [OF readi_tx [OF ok(1) f(1,2) o p]]) (use u b k in \<open>auto simp: dirents_def slice_def\<close>)
qed

section \<open>Lookup\<close>

text \<open>A step that changes no block and none of the state above the buffer cache.\<close>

definition only_read :: "'a fs_scheme \<Rightarrow> 'a fs_scheme \<Rightarrow> bool" where
  "only_read s s' \<longleftrightarrow> tx {} s' \<and> keeps s s' \<and> bview s' = bview s"

lemma only_read_trans: "only_read s s' \<Longrightarrow> only_read s' s'' \<Longrightarrow> only_read s s''"
  by (auto simp: only_read_def intro: keeps_trans)

lemma only_read_keeps:
  assumes "only_read s s'"
  shows "file_data i s' = file_data i s" "dir_ok i s' = dir_ok i s" "file_ok i s' = file_ok i s" "fs_tx s \<Longrightarrow> fs_tx s'" "inodes s' = inodes s"
    "apart i j s' = apart i j s" "l_outstanding s' = l_outstanding s"
  using assms file_keeps [of s s'] keeps_fs [of s s'] keeps_log [of s s'] by (simp_all add: only_read_def apart_def)

text \<open>The slot \<open>ip\<close> of the inode cache now holds a reference to an inode, and no other slot has changed.\<close>

definition igot :: "u32 \<Rightarrow> u32 \<Rightarrow> nat \<Rightarrow> 'a fs_scheme \<Rightarrow> 'a fs_scheme \<Rightarrow> bool" where
  "igot dev inum ip s s' \<longleftrightarrow> ip < NINODE \<and> i_dev (inodes s' ip) = dev \<and> i_inum (inodes s' ip) = inum \<and> 0 < i_ref (inodes s' ip) \<and>
     s' = upd_inode ip (\<lambda>_. inodes s' ip) s"

lemma iget_got: "returns (\<lambda>(ip, s'). igot dev inum ip s s') (iget dev inum s)"
  by (auto simp: iget_def igot_def resource_panics_def upd_inode_def find_Some_iff split: option.split)

text \<open>The result of a lookup whose first match is the entry \<open>k\<close>, if any.\<close>

definition looked :: "dirent list \<Rightarrow> nat option \<Rightarrow> 'a fs_scheme \<Rightarrow> (nat \<times> u32) option \<times> 'a fs_scheme \<Rightarrow> bool" where
  "looked des hit s = (\<lambda>(found, s'). case hit of
      None \<Rightarrow> found = None \<and> only_read s s'
    | Some k \<Rightarrow> \<exists>ip s1. found = Some (ip, of_nat (16 * k)) \<and> only_read s s1 \<and> igot 1 (ucast (de_inum (des ! k))) ip s1 s')"

lemma looked_only_read: "only_read s s1 \<Longrightarrow> looked des hit s1 x \<Longrightarrow> looked des hit s x"
  unfolding looked_def by (cases hit; cases x) (auto dest: only_read_trans)

lemma dirlookup_scan_tx:
  assumes "fs_tx s" "dir_ok dp s" "\<forall>k \<in> set ks. k < length (dirents (file_data dp s))"
  shows "returns (looked (dirents (file_data dp s)) (List.find (\<lambda>k. entry_of name (dirents (file_data dp s) ! k)) ks) s)
    (dirlookup_scan dv dp name (map (\<lambda>k. 16 * k) ks) s)"
  using assms
proof (induction ks arbitrary: s)
  case Nil
  then show ?case by (simp add: looked_def only_read_def fs_tx_def)
next
  case (Cons k ks)
  let ?des = "dirents (file_data dp s)"
  have k: "k < length ?des" using Cons.prems(3) by simp
  show ?case unfolding list.map dirlookup_scan.simps
  proof (rule returns_kbind [OF dir_read [OF Cons.prems(1,2) k]], goal_cases)
    case (1 x)
    then obtain bytes s1 where x: "x = (16, bytes, s1)" and d: "decode_dirent bytes = ?des ! k" and Q: "only_read s s1" by (cases x) (auto simp: only_read_def)
    note K = only_read_keeps [OF Q]
    have dev: "i_dev (inodes s1 dp) = 1" using Cons.prems(2) K(5) by (simp add: dir_ok_def file_ok_def inode_ok_def)
    have e: "de_inum (?des ! k) \<noteq> 0 \<and> namecmp name (de_name (?des ! k)) = 0 \<longleftrightarrow> entry_of name (?des ! k)"
      by (auto simp: entry_of_def namecmp_eq)
    have rest: "returns (looked ?des (List.find (\<lambda>k. entry_of name (?des ! k)) ks) s) (dirlookup_scan dv dp name (map (\<lambda>k. 16 * k) ks) s1)"
      using Cons.IH [of s1] Cons.prems K(1,2,4) by (auto intro: returns_mono looked_only_read [OF Q])
    have hit: "returns (looked ?des (Some k) s)
        (kbind (iget 1 (ucast (de_inum (?des ! k))) s1) (\<lambda>(ip, s). Ok (Some (ip, of_nat (16 * k)), s)))"
      by (rule returns_kbind [OF iget_got]) (use Q in \<open>auto simp: looked_def\<close>)
    show ?case using rest hit e d dev x by (simp add: Let_def)
  qed
qed

lemma dirlookup_tx:
  assumes "fs_tx s" "dir_ok dp s"
  shows "returns (looked (dirents (file_data dp s)) (dfind name (dirents (file_data dp s))) s) (dirlookup dv dp name s)"
proof -
  have "(unat (i_size (inodes s dp)) + 15) div 16 = length (dirents (file_data dp s))" using assms(2) by (auto simp: dir_ok_def elim!: dvdE)
  then show ?thesis
    using dirlookup_scan_tx [OF assms, of "[0..<length (dirents (file_data dp s))]"] assms(2) by (simp add: dirlookup_def dir_offsets_def dfind_def dir_ok_def)
qed

section \<open>Linking\<close>

lemma dirlink_scan_tx:
  assumes "fs_tx s" "dir_ok dp s" "\<forall>k \<in> set ks. k < length (dirents (file_data dp s))"
  shows "returns (\<lambda>(slot, s'). only_read s s' \<and> slot = map_option (\<lambda>k. 16 * k) (List.find (\<lambda>k. de_inum (dirents (file_data dp s) ! k) = 0) ks))
    (dirlink_scan dv dp (map (\<lambda>k. 16 * k) ks) s)"
  using assms
proof (induction ks arbitrary: s)
  case Nil
  then show ?case by (simp add: only_read_def fs_tx_def)
next
  case (Cons k ks)
  let ?des = "dirents (file_data dp s)"
  have k: "k < length ?des" using Cons.prems(3) by simp
  show ?case unfolding list.map dirlink_scan.simps
  proof (rule returns_kbind [OF dir_read [OF Cons.prems(1,2) k]], goal_cases)
    case (1 x)
    then obtain bytes s1 where x: "x = (16, bytes, s1)" and d: "decode_dirent bytes = ?des ! k" and Q: "only_read s s1" by (cases x) (auto simp: only_read_def)
    note K = only_read_keeps [OF Q]
    have "returns (\<lambda>(slot, s'). only_read s s' \<and> slot = map_option (\<lambda>k. 16 * k) (List.find (\<lambda>k. de_inum (?des ! k) = 0) ks))
      (dirlink_scan dv dp (map (\<lambda>k. 16 * k) ks) s1)"
      using Cons.IH [of s1] Cons.prems K(1,2,4) by (auto elim!: returns_mono intro: only_read_trans [OF Q])
    then show ?case using d x Q by simp
  qed
qed

text \<open>A directory as a map from names to inode numbers, and the entries after one of them is overwritten or one is appended.\<close>

definition dir_map :: "nat \<Rightarrow> 'a fs_scheme \<Rightarrow> u8 list \<Rightarrow> u16 option" where
  "dir_map dp s name = (let des = dirents (file_data dp s) in map_option (\<lambda>k. de_inum (des ! k)) (dfind name des))"

definition set_dirent :: "nat \<Rightarrow> dirent \<Rightarrow> dirent list \<Rightarrow> dirent list" where
  "set_dirent k de des = take k des @ de # drop (k + 1) des"

lemma nth_set_dirent: "k \<le> length des \<Longrightarrow> j < length (set_dirent k de des) \<Longrightarrow> set_dirent k de des ! j = (if j = k then de else des ! j)"
  by (auto simp: set_dirent_def nth_append nth_Cons' min_def)

lemma dirents_put:
  assumes k: "16 * k \<le> length d" and d: "16 dvd length d" and n: "length (de_name de) = DIRSIZ"
  shows "dirents (take (16 * k) d @ encode_dirent de @ drop (16 * k + 16) d) = set_dirent k de (dirents d)"
proof (rule nth_equalityI)
  let ?d = "take (16 * k) d @ encode_dirent de @ drop (16 * k + 16) d"
  obtain m where m: "length d = 16 * m" using d by (elim dvdE)
  then have km: "k \<le> m" using k by simp
  show l: "length (dirents ?d) = length (set_dirent k de (dirents d))" using m km n by (auto simp: set_dirent_def min_def)
  fix j assume j: "j < length (dirents ?d)"
  have "slice (16 * j) 16 ?d = slice (16 * j) 16 d" if "j < k"
  proof -
    have "16 \<le> 16 * k - 16 * j" "16 * k - 16 * j \<le> 16 * m - 16 * j" using that km by linarith+
    then show ?thesis using m km by (simp add: slice_def drop_take min_absorb1 min_absorb2)
  qed
  moreover have "slice (16 * j) 16 ?d = encode_dirent de" if "j = k" using that m km n by (simp add: slice_def)
  moreover have "slice (16 * j) 16 ?d = slice (16 * j) 16 d" if "k < j" using that m km n by (simp add: slice_def)
  ultimately have s: "slice (16 * j) 16 ?d = (if j = k then encode_dirent de else slice (16 * j) 16 d)" by (cases j k rule: linorder_cases) simp_all
  have "j < m" if "j \<noteq> k" using that j [unfolded l] m km by (auto simp: set_dirent_def)
  then have "dirents d ! j = decode_dirent (slice (16 * j) 16 d)" if "j \<noteq> k" using that m by (simp add: dirents_def)
  then show "dirents ?d ! j = set_dirent k de (dirents d) ! j"
    using s j l nth_set_dirent [of k "dirents d" j de] m km decode_encode_dirent [OF n, of "[]"] by (simp add: dirents_def)
qed

lemma dfind_Some: "dfind name des = Some k \<longleftrightarrow> k < length des \<and> entry_of name (des ! k) \<and> (\<forall>j < k. \<not> entry_of name (des ! j))"
  unfolding dfind_def find_Some_iff by auto

lemma dfind_None: "dfind name des = None \<longleftrightarrow> (\<forall>k < length des. \<not> entry_of name (des ! k))"
  unfolding dfind_def find_None_iff by auto

lemma dfind_put:
  assumes k: "k \<le> length des" "k < length des \<Longrightarrow> de_inum (des ! k) = 0"
  shows "entry_of name de \<Longrightarrow> dfind name des = None \<Longrightarrow> dfind name (set_dirent k de des) = Some k"
    and "\<not> entry_of name de \<Longrightarrow> dfind name (set_dirent k de des) = dfind name des"
proof -
  have l: "length (set_dirent k de des) = max (length des) (k + 1)" using k(1) by (auto simp: set_dirent_def max_def)
  note N = nth_set_dirent [OF k(1), where de = de, unfolded l]
  show "entry_of name de \<Longrightarrow> dfind name des = None \<Longrightarrow> dfind name (set_dirent k de des) = Some k"
    using k(1) by (auto simp: dfind_Some dfind_None l N)
  assume e: "\<not> entry_of name de"
  have o: "\<not> entry_of name (des ! k)" if "k < length des" using k(2) that by (simp add: entry_of_def)
  have "entry_of name (set_dirent k de des ! j) \<longleftrightarrow> j < length des \<and> entry_of name (des ! j)" if "j < max (length des) (k + 1)" for j
    using that e o k(1) N [OF that] by (cases "j = k") auto
  then have "dfind name (set_dirent k de des) = Some j \<longleftrightarrow> dfind name des = Some j" for j
    unfolding dfind_Some l by (auto simp: less_max_iff_disj)
  then show "dfind name (set_dirent k de des) = dfind name des" by (metis option.exhaust)
qed

lemma dirlookup_map:
  assumes "fs_tx s" "dir_ok dp s"
  shows "returns (\<lambda>(found, s'). case dir_map dp s nm of None \<Rightarrow> found = None
    | Some n \<Rightarrow> \<exists>ip off. found = Some (ip, off) \<and> i_dev (inodes s' ip) = 1 \<and> i_inum (inodes s' ip) = ucast n) (dirlookup dv dp nm s)"
  by (rule returns_mono [OF dirlookup_tx [OF assms]]) (cases "dfind nm (dirents (file_data dp s))"; auto simp: looked_def dir_map_def Let_def igot_def)

text \<open>The slot that \<open>dirlink\<close> takes: the first empty entry, or the end of the directory.\<close>

definition free_slot :: "dirent list \<Rightarrow> nat" where
  "free_slot des = (case List.find (\<lambda>k. de_inum (des ! k) = 0) [0..<length des] of Some k \<Rightarrow> k | None \<Rightarrow> length des)"

lemma free_slot_bounds: "free_slot des \<le> length des" "free_slot des < length des \<Longrightarrow> de_inum (des ! free_slot des) = 0"
  unfolding free_slot_def by (cases "List.find (\<lambda>k. de_inum (des ! k) = 0) [0..<length des]"; auto dest!: find_Some_iff [THEN iffD1])+

lemma dirlink_written:
  assumes w: "writei_done dp (encode_dirent \<lparr>de_inum = n, de_name = dirent_name name\<rparr>) (16 * free_slot (dirents (file_data dp s))) s s'"
    and ok: "dir_ok dp s" "dir_map dp s name = None" "n \<noteq> 0"
  shows "fs_tx s'" "dir_ok dp s'" "dir_map dp s' = (\<lambda>nm. if dname nm = dname name then Some n else dir_map dp s nm)"
proof -
  let ?des = "dirents (file_data dp s)" and ?de = "\<lparr>de_inum = n, de_name = dirent_name name\<rparr>"
  let ?k = "free_slot ?des"
  have d: "16 dvd length (file_data dp s)" "16 * ?k \<le> length (file_data dp s)" using ok(1) free_slot_bounds(1) [of ?des] by (auto simp: dir_ok_def)
  have e: "file_data dp s' = take (16 * ?k) (file_data dp s) @ encode_dirent ?de @ drop (16 * ?k + 16) (file_data dp s)"
    using w by (simp add: writei_done_def)
  then have des: "dirents (file_data dp s') = set_dirent ?k ?de ?des" using dirents_put [OF d(2,1), of ?de] by simp
  have "16 dvd length (file_data dp s')" using d unfolding e by (auto elim!: dvdE simp: min_def)
  then show "fs_tx s'" "dir_ok dp s'" using w ok(1) by (simp_all add: writei_done_def dir_ok_def)
  show "dir_map dp s' = (\<lambda>nm. if dname nm = dname name then Some n else dir_map dp s nm)"
  proof
    fix nm
    note P = dfind_put [OF free_slot_bounds, where name = nm and de = ?de and des = ?des]
    have en: "entry_of nm ?de \<longleftrightarrow> dname nm = dname name" using ok(3) by (auto simp: entry_of_def)
    have same: "dfind nm ?des = None" if "dname nm = dname name" using ok(2) that by (simp add: dir_map_def Let_def dfind_def entry_of_def)
    have nth: "set_dirent ?k ?de ?des ! j = ?des ! j" if "dfind nm ?des = Some j" for j
    proof -
      have j: "j < length ?des" "de_inum (?des ! j) \<noteq> 0" using that by (simp_all add: dfind_Some entry_of_def)
      then have "j \<noteq> ?k" using free_slot_bounds(2) [of ?des] by auto
      then show ?thesis using j nth_set_dirent [OF free_slot_bounds(1), where j = j and des = ?des and de = ?de] by (simp add: set_dirent_def)
    qed
    have k: "set_dirent ?k ?de ?des ! ?k = ?de" using free_slot_bounds(1) [of ?des] by (simp add: set_dirent_def nth_append)
    show "dir_map dp s' nm = (if dname nm = dname name then Some n else dir_map dp s nm)"
      unfolding dir_map_def Let_def des using P en same nth k by (cases "dfind nm ?des") auto
  qed
qed

text \<open>C7. Linking a name into a directory: for a directory that does not hold \<open>name\<close> and has room, inside a transaction, \<open>dirlink\<close> returns 0 (or stops because a
  resource ran out), the directory afterwards maps \<open>name\<close> to the new inode number and every other name to what it was before, \<open>dirlookup\<close> of any name then returns a
  reference to the inode the map gives or reports that there is none, and files that share no block with the directory keep their contents.\<close>

theorem dirlink_dirlookup:
  assumes "fs_tx s" "dir_ok dp s" "1 \<le> l_outstanding s" "dir_map dp s name = None" "(ucast inum :: u16) \<noteq> 0"
    and "unat (i_size (inodes s dp)) + 16 \<le> MAXFILE * BSIZE"
  shows "returns (\<lambda>(r, s'). r = 0 \<and> fs_tx s' \<and> dir_ok dp s' \<and>
      dir_map dp s' = (\<lambda>nm. if dname nm = dname name then Some (ucast inum) else dir_map dp s nm) \<and>
      (\<forall>nm. returns (\<lambda>(found, s''). case dir_map dp s' nm of None \<Rightarrow> found = None
         | Some n \<Rightarrow> \<exists>ip off. found = Some (ip, off) \<and> i_dev (inodes s'' ip) = 1 \<and> i_inum (inodes s'' ip) = ucast n) (dirlookup dv dp nm s')) \<and>
      (\<forall>j. file_ok j s \<and> apart dp j s \<longrightarrow> file_ok j s' \<and> file_data j s' = file_data j s))
    (dirlink dv dp name inum s)"
  unfolding dirlink_def
proof (rule returns_kbind [OF dirlookup_tx [OF assms(1,2)]], goal_cases)
  case (1 x)
  let ?de = "\<lparr>de_inum = ucast inum, de_name = dirent_name name\<rparr>"
  obtain s1 where x: "x = (None, s1)" and Q: "only_read s s1" using 1 assms(4) by (cases x) (auto simp: looked_def dir_map_def Let_def)
  note K = only_read_keeps [OF Q]
  let ?des = "dirents (file_data dp s1)"
  have ok: "fs_tx s1" "dir_ok dp s1" "file_ok dp s1" "i_type (inodes s1 dp) \<noteq> T_DEV" using assms(1,2) K by (simp_all add: dir_ok_def)
  have z: "(unat (i_size (inodes s1 dp)) + 15) div 16 = length ?des" using ok(2) by (auto simp: dir_ok_def elim!: dvdE)
  show ?case unfolding x prod.case option.case Let_def dir_offsets_def z
  proof (rule returns_kbind [OF dirlink_scan_tx [OF ok(1,2)]], simp, goal_cases)
    case (1 y)
    then obtain slot s2 where y: "y = (slot, s2)" and Q2: "only_read s1 s2" and slot: "(case slot of Some off \<Rightarrow> off | None \<Rightarrow> 16 * length ?des) = 16 * free_slot ?des"
      by (cases y; cases "List.find (\<lambda>k. de_inum (?des ! k) = 0) [0..<length ?des]") (auto simp: free_slot_def)
    note K2 = only_read_keeps [OF Q2]
    let ?k = "free_slot ?des"
    have k: "16 * ?k \<le> unat (i_size (inodes s2 dp))" using free_slot_bounds(1) [of ?des] ok(2) K2(5) by (auto simp: dir_ok_def)
    then have l: "16 * ?k + 16 \<le> MAXFILE * BSIZE" using assms(6) K(5) K2(5) by simp
    then have u: "unat (of_nat (16 * ?k) :: u32) = 16 * ?k" by (simp add: unat_of_nat take_bit_nat_eq_self del: of_nat_mult)
    have W: "returns (\<lambda>(r, s'). r = 16 \<and> writei_done dp (encode_dirent ?de) (16 * ?k) s2 s') (writei dv dp (encode_dirent ?de) (of_nat (16 * ?k)) s2)"
      using writei_tx [of s2 dp "of_nat (16 * ?k)" "encode_dirent ?de" dv, unfolded u] ok k l assms(3) K K2 u by (simp add: word_le_nat_alt del: of_nat_mult)
    show ?case unfolding y prod.case length_map length_upt diff_zero slot
    proof (rule returns_kbind [OF W], goal_cases)
      case (1 w)
      then obtain s' where w: "w = (16, s')" and d: "writei_done dp (encode_dirent ?de) (16 * free_slot (dirents (file_data dp s2))) s2 s'"
        using slot K2(1) by (cases w) auto
      have m: "dir_map dp s2 = dir_map dp s" using K(1) K2(1) by (simp add: dir_map_def fun_eq_iff)
      have D: "fs_tx s'" "dir_ok dp s'" "dir_map dp s' = (\<lambda>nm. if dname nm = dname name then Some (ucast inum) else dir_map dp s nm)"
        using dirlink_written [OF d] ok(2) K2(2) assms(4,5) unfolding m by simp_all
      show ?case using w D dirlookup_map [OF D(1,2)] d K K2 by (simp add: writei_done_def)
    qed
  qed
qed

text \<open>On the example file system nothing runs out: reading an entry of its root directory and writing one behind the last succeed.\<close>

definition demo_near :: "fs \<Rightarrow> bool" where
  "demo_near s \<longleftrightarrow> only_read demo_fs s \<and> lh_n s = 0"

lemma demo_dir_facts:
  "dir_ok 0 demo_fs" "dirents (file_data 0 demo_fs) = [\<lparr>de_inum = 1, de_name = 46 # replicate 13 0\<rparr>, \<lparr>de_inum = 2, de_name = 102 # replicate 13 0\<rparr>]"
proof -
  show "dir_ok 0 demo_fs" using demo_files demo_addrs(3,9) by (simp add: dir_ok_def)
  have "file_data 0 demo_fs = take 32 (demo_disk 15)"
    using one_block(1) [OF _ demo_addrs(1)] demo_disk_length
    by (intro nth_equalityI) (simp_all add: file_data_def fbytes_def demo_addrs cont_def demo_fs_facts(2) min_def)
  then show "dirents (file_data 0 demo_fs) = [\<lparr>de_inum = 1, de_name = 46 # replicate 13 0\<rparr>, \<lparr>de_inum = 2, de_name = 102 # replicate 13 0\<rparr>]"
    by (simp add: dirents_def demo_disk_def slice_def upt_rec decode_encode_dirent [where d = "[]", simplified])
qed

lemma read_block_ok:
  assumes t: "tx {} s" and n: "unat n < disksize s" and l: "lh_n s \<le> 29"
  shows "\<exists>b s1 s2. bread 1 n s = Ok (b, s1) \<and> brelse b s1 = Ok s2 \<and> keeps s s1 \<and> lh_n s2 = lh_n s"
proof -
  have ok: "bio_ok s" "log_inv s" "bio_idle s" using t by (auto simp: tx_def bio_idle_def)
  have "card {m. bdirty s m} \<le> length (logged s)" using ok(2) by (auto simp: log_inv_def card_length)
  also have "\<dots> \<le> nat (lh_n s)" by (simp add: logged_def)
  also have "\<dots> \<le> 29" using l by simp
  finally have sp: "spare_bufs 1 s" by (simp add: spare_bufs_def)
  obtain b s1 where b: "bread 1 n s = Ok (b, s1)" using bread_idle [OF ok(1,3) sp n] by blast
  have B: "tx {(b, n)} s1" "keeps s s1" using bread_tx [OF t n] b by simp_all
  then have "held_buf b n s1" by (simp add: tx_def holds_def)
  then obtain s2 where s2: "brelse b s1 = Ok s2" using brelse_returns by blast
  show ?thesis using b s2 B(2) log_frame [OF bread_more [OF b]] log_frame [OF brelse_more [OF s2]] by auto
qed

lemma readi_loop_0: "readi_loop i off 0 s = Ok ([], s)"
  by (subst readi_loop.simps) simp

lemma demo_dir_read:
  assumes s: "demo_near s" and k: "k < 2"
  shows "\<exists>bytes s'. readi no_devices 0 (of_nat (16 * k)) 16 s = Ok (16, bytes, s') \<and> demo_near s' \<and> decode_dirent bytes = dirents (file_data 0 demo_fs) ! k"
proof -
  have Q: "only_read demo_fs s" "lh_n s = 0" using s by (simp_all add: demo_near_def)
  note K = only_read_keeps [OF Q(1)]
  have "tx {} s \<and> disksize s = disksize demo_fs" using Q(1) unfolding only_read_def keeps_def by (elim conjE) (intro conjI)
  then have t: "tx {} s" "disksize s = 20" by (simp_all add: demo_fs_facts)
  have u: "unat (of_nat (16 * k) :: u32) = 16 * k" using k by (simp add: unat_of_nat take_bit_nat_eq_self del: of_nat_mult)
  have d: "i_dev (inodes s 0) = 1" "iaddrs s 0 = 15 # replicate 12 0" "i_size (inodes s 0) = 32" "i_type (inodes s 0) = T_DIR" using demo_addrs K(5) by simp_all
  have b: "bmap 0 0 s = Ok (15, s)" using d(2) by (simp add: bmap_def)
  obtain bp s1 s2 where r: "bread 1 15 s = Ok (bp, s1)" "brelse bp s1 = Ok s2" "keeps s s1" "lh_n s2 = lh_n s"
    using read_block_ok [OF t(1), of 15] t(2) Q(2) by auto
  have "(16 * k) div BSIZE = 0" "(16 * k) mod BSIZE = 16 * k" "16 \<le> BSIZE - 16 * k" using k by simp_all
  then have L: "\<exists>bytes. readi_loop 0 (16 * k) 16 s = Ok (bytes, s2)"
    using b r(1,2) d(1) by (subst readi_loop.simps) (simp add: Let_def min_def readi_loop_0)
  have "(of_nat (16 * k) :: u32) = 0 \<or> (of_nat (16 * k) :: u32) = 16" using less_2_cases [OF k] by auto
  then have "\<not> (32 < (of_nat (16 * k) :: u32) \<or> of_nat (16 * k) + 16 < (of_nat (16 * k) :: u32))" "\<not> 32 < (of_nat (16 * k) :: u32) + 16" by auto
  then obtain bytes where R: "readi no_devices 0 (of_nat (16 * k)) 16 s = Ok (16, bytes, s2)"
    using L unfolding readi_def Let_def d(3,4) u by auto
  have "fs_tx s" "dir_ok 0 s" "k < length (dirents (file_data 0 s))" using K demo_files(1) demo_dir_facts k by simp_all
  from dir_read [OF this, of no_devices] have "decode_dirent bytes = dirents (file_data 0 demo_fs) ! k" "only_read s s2" using R K(1) by (simp_all add: only_read_def)
  then show ?thesis using R Q r(4) only_read_trans by (auto simp: demo_near_def)
qed

lemma demo_dir_scans:
  assumes "demo_near s"
  shows "\<exists>s'. dirlookup_scan no_devices 0 [120] [0, 16] s = Ok (None, s') \<and> demo_near s'" "\<exists>s'. dirlink_scan no_devices 0 [0, 16] s = Ok (None, s') \<and> demo_near s'"
proof -
  obtain d1 s1 where r1: "readi no_devices 0 0 16 s = Ok (16, d1, s1)" "demo_near s1" "decode_dirent d1 = \<lparr>de_inum = 1, de_name = 46 # replicate 13 0\<rparr>"
    using demo_dir_read [OF assms, of 0] by (auto simp: demo_dir_facts)
  obtain d2 s2 where r2: "readi no_devices 0 16 16 s1 = Ok (16, d2, s2)" "demo_near s2" "decode_dirent d2 = \<lparr>de_inum = 2, de_name = 102 # replicate 13 0\<rparr>"
    using demo_dir_read [OF r1(2), of 1] by (auto simp: demo_dir_facts)
  have n: "namecmp [120] (46 # replicate 13 0) \<noteq> 0" "namecmp [120] (102 # replicate 13 0) \<noteq> 0" by (simp_all add: namecmp_eq dname_def)
  show "\<exists>s'. dirlookup_scan no_devices 0 [120] [0, 16] s = Ok (None, s') \<and> demo_near s'" "\<exists>s'. dirlink_scan no_devices 0 [0, 16] s = Ok (None, s') \<and> demo_near s'"
    using r1 r2 n by simp_all
qed

lemma demo_dir_write:
  assumes s: "demo_near s" and x: "length x = 16"
  shows "\<exists>s'. writei no_devices 0 x 32 s = Ok (16, s')"
proof -
  have Q: "only_read demo_fs s" "lh_n s = 0" using s by (simp_all add: demo_near_def)
  have Q': "tx {} s" "keeps demo_fs s" "bview s = bview demo_fs" using Q(1) by (simp_all add: only_read_def)
  note K = keeps_fs [OF Q'(2)] keeps_log [OF Q'(2)]
  have k0: "l_outstanding s = 1" "l_size s = 10" "loggable s = loggable demo_fs" "sb s = demo_sb" using K by (simp_all add: demo_fs_facts)
  have d: "i_dev (inodes s 0) = 1" "iaddrs s 0 = 15 # replicate 12 0" "i_size (inodes s 0) = 32" "i_type (inodes s 0) = T_DIR" "i_inum (inodes s 0) = 1"
    using demo_addrs K(2) by simp_all
  let ?f = "splice 32 x"
  have "length (?f (bview s 15)) = BSIZE" using Q'(3) demo_disk_length x by (simp add: demo_fs_facts)
  then obtain s1 where s1: "kbind (bread 1 15 s) (\<lambda>(b, s). kbind (log_write b (set_data b (?f (b_data (bufs s b))) s)) (\<lambda>s. brelse b s)) = Ok s1"
    "tx {} s1" "bview s1 = (bview s)(15 := ?f (bview s 15))" "keeps s s1" "lh_n s1 \<le> 1"
    using change_block_ok [of s 15 ?f] Q'(1) Q(2) k0 by (auto simp: demo_blocks)
  have b: "bmap 0 0 s = Ok (15, s)" using d(2) by (simp add: bmap_def)
  have w: "writei_loop 0 x 32 s = Ok s1"
    using s1(1) b d(1) x by (subst writei_loop.simps) (auto simp add: Let_def min_def writei_loop_Nil kbind_assoc split_def)
  define s2 where "s2 = upd_inode 0 (\<lambda>ip. ip\<lparr>i_size := 48\<rparr>) s1"
  have k: "inodes s1 = inodes s" "sb s1 = demo_sb" "l_outstanding s1 = 1" "l_size s1 = 10" "loggable s1 = loggable demo_fs"
    using keeps_fs [OF s1(4)] keeps_log [OF s1(4)] k0 by simp_all
  let ?g = "put_dinode 1 (dinode_of (inodes s2 0))"
  have i: "IBLOCK 1 demo_sb = 12" by (simp add: IBLOCK_def demo_sb_def small_div)
  have "length (d_addrs (dinode_of (inodes s2 0))) = 13" using k(1) d(2) by (simp add: s2_def dinode_of_def)
  then have "length (?g (bview s2 12)) = BSIZE" using s1(3) Q'(3) demo_disk_length by (intro length_put_dinode) (simp_all add: s2_def demo_fs_facts)
  then obtain s3 where "kbind (bread 1 12 s2) (\<lambda>(b, s). kbind (log_write b (set_data b (?g (b_data (bufs s b))) s)) (\<lambda>s. brelse b s)) = Ok s3"
    using change_block_ok [of s2 12 ?g] s1(2,5) k by (auto simp: s2_def demo_blocks)
  then have "iupdate 0 s2 = Ok s3" using k d(1,5) i by (simp add: iupdate_def Let_def s2_def)
  then show ?thesis using w k(1) d(3,4) x by (simp add: writei_def Let_def s2_def)
qed

lemma demo_dirlink: "\<exists>s'. dirlink no_devices 0 [120] 2 demo_fs = Ok (0, s')"
proof -
  have n: "demo_near demo_fs" by (simp add: demo_near_def only_read_def demo_fs_facts(1,10))
  obtain s1 where s1: "dirlookup_scan no_devices 0 [120] [0, 16] demo_fs = Ok (None, s1)" "demo_near s1" using demo_dir_scans(1) [OF n] by blast
  obtain s2 where s2: "dirlink_scan no_devices 0 [0, 16] s1 = Ok (None, s2)" "demo_near s2" using demo_dir_scans(2) [OF s1(2)] by blast
  have o: "dir_offsets 32 = [0, 16]" by (simp add: dir_offsets_def upt_rec)
  have z: "i_size (inodes s1 0) = 32" using s1(2) only_read_keeps(5) [of demo_fs s1] demo_addrs(3) by (simp add: demo_near_def)
  obtain s3 where "writei no_devices 0 (encode_dirent \<lparr>de_inum = ucast (2 :: u32), de_name = dirent_name [120]\<rparr>) 32 s2 = Ok (16, s3)"
    using demo_dir_write [OF s2(2) length_encode_dirent [of "\<lparr>de_inum = ucast (2 :: u32), de_name = dirent_name [120]\<rparr>"]] by auto
  then show ?thesis using s1(1) s2(1) demo_addrs(3,9) z o by (simp add: dirlink_def dirlookup_def Let_def del: dirlookup_scan.simps dirlink_scan.simps)
qed

theorem dirlink_dirlookup_witness:
  "\<exists>s'. dirlink no_devices 0 [120] 2 demo_fs = Ok (0, s') \<and> dir_map 0 demo_fs [120] = None \<and>
     dir_map 0 s' [120] = Some 2 \<and> dir_map 0 s' [102] = Some 2 \<and> dir_map 0 s' [46] = Some 1 \<and> file_data 1 s' = file_data 1 demo_fs"
proof -
  obtain s' where s': "dirlink no_devices 0 [120] 2 demo_fs = Ok (0, s')" using demo_dirlink by blast
  have m: "dir_map 0 demo_fs [120] = None" "dir_map 0 demo_fs [102] = Some 2" "dir_map 0 demo_fs [46] = Some 1"
    by (simp_all add: dir_map_def demo_dir_facts dfind_def entry_of_def dname_def upt_rec)
  have a: "apart 0 1 demo_fs" using demo_files(4) by (auto simp: apart_def)
  have l: "1 \<le> l_outstanding demo_fs" "(ucast (2 :: u32) :: u16) \<noteq> 0" "unat (i_size (inodes demo_fs 0)) + 16 \<le> MAXFILE * BSIZE"
    by (simp_all add: demo_fs_facts(4) demo_addrs(3))
  have "dir_map 0 s' = (\<lambda>nm. if dname nm = dname [120] then Some (ucast (2 :: u32)) else dir_map 0 demo_fs nm)" "file_data 1 s' = file_data 1 demo_fs"
    using dirlink_dirlookup [OF demo_files(1) demo_dir_facts(1) l(1) m(1) l(2,3), of no_devices] s' a demo_files(3) by auto
  then show ?thesis using s' m by (auto simp: dname_def)
qed

end
