(* ===== verification/Grep.thy ===== *)
theory Grep
  imports Prelude
begin

text \<open>
  \<open>grep.c\<close>: the regular expression matcher, against the language that an expression denotes, and the loop that splits the
  input into lines. A C string is the list of its bytes up to the terminating zero, and a pointer into it the rest of the
  list from there on.
\<close>

section \<open>Definitions\<close>

text \<open>\<open>*p\<close>, and a pattern's operators.\<close>

definition star_p :: "u8 list \<Rightarrow> u8" where
  "star_p xs = (case xs of [] \<Rightarrow> 0 | x # _ \<Rightarrow> x)"

abbreviation (input) CARET :: u8 where "CARET \<equiv> 94"
abbreviation (input) DOT :: u8 where "DOT \<equiv> 46"
abbreviation (input) STAR :: u8 where "STAR \<equiv> 42"
abbreviation (input) DOLLAR :: u8 where "DOLLAR \<equiv> 36"
abbreviation (input) NL :: u8 where "NL \<equiv> 10"

lemma star_p_tl: "star_p xs \<noteq> 0 \<Longrightarrow> length (tl xs) < length xs"
  by (cases xs) (auto simp: star_p_def)

function matchhere :: "u8 list \<Rightarrow> u8 list \<Rightarrow> bool" and matchstar :: "u8 \<Rightarrow> u8 list \<Rightarrow> u8 list \<Rightarrow> bool" where
  "matchhere re t =
     (if star_p re = 0 then True
      else if star_p (tl re) = STAR then matchstar (star_p re) (tl (tl re)) t
      else if star_p re = DOLLAR \<and> star_p (tl re) = 0 then star_p t = 0
      else if star_p t \<noteq> 0 \<and> (star_p re = DOT \<or> star_p re = star_p t) then matchhere (tl re) (tl t)
      else False)"
| "matchstar c re t =
     (if matchhere re t then True
      else if star_p t \<noteq> 0 \<and> (star_p t = c \<or> c = DOT) then matchstar c re (tl t)
      else False)"
  by pat_completeness auto
termination
proof (relation "measure (\<lambda>x. case x of Inl (re, t) \<Rightarrow> 2 * (length re + length t) | Inr (c, re, t) \<Rightarrow> 2 * (length re + length t) + 1)")
  fix re t :: "u8 list"
  assume a: "star_p re \<noteq> 0" "star_p (tl re) = STAR"
  then obtain x y re' where "re = x # y # re'" by (cases re; cases "tl re") (auto simp: star_p_def)
  then show "(Inr (star_p re, tl (tl re), t), Inl (re, t))
    \<in> measure (\<lambda>x. case x of Inl (re, t) \<Rightarrow> 2 * (length re + length t) | Inr (c, re, t) \<Rightarrow> 2 * (length re + length t) + 1)"
    by simp
qed (auto dest: star_p_tl)

declare matchhere.simps [simp del] matchstar.simps [simp del]

function match_loop :: "u8 list \<Rightarrow> u8 list \<Rightarrow> bool" where
  "match_loop re t =
     (if matchhere re t then True else if star_p t \<noteq> 0 then match_loop re (tl t) else False)"
  by pat_completeness auto
termination by (relation "measure (\<lambda>(re, t). length t)") (auto dest: star_p_tl)

declare match_loop.simps [simp del]

definition match :: "u8 list \<Rightarrow> u8 list \<Rightarrow> bool" where
  "match re t = (if star_p re = CARET then matchhere (tl re) t else match_loop re t)"

text \<open>The lines of a buffer: \<open>strchr(p, '\\n')\<close> finds the newline unless a zero comes first. The value is the output, what is left from
  \<open>p\<close> on, and whether \<open>p\<close> has moved.\<close>

definition nl_pos :: "u8 list \<Rightarrow> nat option" where
  "nl_pos p = (let k = length (takeWhile (\<lambda>b. b \<noteq> NL \<and> b \<noteq> 0) p) in if star_p (drop k p) = NL then Some k else None)"

lemma nl_pos_less: "nl_pos p = Some k \<Longrightarrow> k < length p"
proof -
  assume "nl_pos p = Some k"
  then have "drop k p \<noteq> []" by (auto simp: nl_pos_def Let_def star_p_def split: if_splits)
  then show ?thesis by simp
qed

function grep_lines :: "u8 list \<Rightarrow> u8 list \<Rightarrow> u8 list \<times> u8 list" where
  "grep_lines re p =
     (case nl_pos p of
        None \<Rightarrow> ([], p)
      | Some k \<Rightarrow>
          (case grep_lines re (drop (Suc k) p) of
             (out, rest) \<Rightarrow> ((if match re (take k p) then take (Suc k) p else []) @ out, rest)))"
  by pat_completeness auto
termination by (relation "measure (\<lambda>(re, p). length p)") (auto dest: nl_pos_less)

declare grep_lines.simps [simp del]

text \<open>The body of the outer loop, on the \<open>m\<close> bytes kept from before and the bytes that \<open>read\<close> returned: a buffer without a line is dropped.\<close>

definition grep_step :: "u8 list \<Rightarrow> u8 list \<Rightarrow> u8 list \<Rightarrow> u8 list \<times> u8 list" where
  "grep_step re kept chunk =
     (let b = kept @ chunk in
      case grep_lines re b of (out, rest) \<Rightarrow> (out, if length rest = length b then [] else rest))"

text \<open>\<open>grep\<close> on the results of \<open>read\<close>, up to the first that is empty or an error.\<close>

fun grep :: "u8 list \<Rightarrow> u8 list \<Rightarrow> u8 list list \<Rightarrow> u8 list" where
  "grep re kept [] = []"
| "grep re kept (chunk # chunks) = (case grep_step re kept chunk of (out, kept) \<Rightarrow> out @ grep re kept chunks)"

text \<open>\<open>grep\<close> on a file: \<open>read\<close> returns as many bytes as \<open>buf\<close> has room for, as long as there are any.\<close>

function grep_file :: "u8 list \<Rightarrow> u8 list \<Rightarrow> u8 list \<Rightarrow> u8 list" where
  "grep_file re kept data =
     (let chunk = take (1023 - length kept) data in
      if chunk = [] then []
      else case grep_step re kept chunk of (out, kept) \<Rightarrow> out @ grep_file re kept (drop (length chunk) data))"
  by pat_completeness auto
termination by (relation "measure (\<lambda>(re, kept, data). length data)") (auto simp: Let_def)

declare grep_file.simps [simp del]

section \<open>The language of an expression\<close>

datatype item = One u8 | Many u8

text \<open>The items of an expression and whether it ends in \<open>$\<close>.\<close>

fun items :: "u8 list \<Rightarrow> item list \<times> bool" where
  "items [] = ([], False)"
| "items [c] = (if c = DOLLAR then ([], True) else ([One c], False))"
| "items (c # d # re) =
     (if d = STAR then (case items re of (is, e) \<Rightarrow> (Many c # is, e))
      else case items (d # re) of (is, e) \<Rightarrow> (One c # is, e))"

definition fits :: "u8 \<Rightarrow> u8 \<Rightarrow> bool" where
  "fits c x \<longleftrightarrow> c = DOT \<or> c = x"

fun lang :: "item list \<Rightarrow> u8 list set" where
  "lang [] = {[]}"
| "lang (One c # is) = {x # w |x w. fits c x \<and> w \<in> lang is}"
| "lang (Many c # is) = {u @ w |u w. (\<forall>x \<in> set u. fits c x) \<and> w \<in> lang is}"

text \<open>A prefix of the text belongs to the language, the whole text if the expression ends in \<open>$\<close>.\<close>

definition here :: "item list \<times> bool \<Rightarrow> u8 list \<Rightarrow> bool" where
  "here r t \<longleftrightarrow> (\<exists>mid post. t = mid @ post \<and> mid \<in> lang (fst r) \<and> (snd r \<longrightarrow> post = []))"

lemma here_Nil [simp]: "here ([], e) t \<longleftrightarrow> (e \<longrightarrow> t = [])"
  by (simp add: here_def)

lemma here_One [simp]: "here (One c # is, e) t \<longleftrightarrow> t \<noteq> [] \<and> fits c (hd t) \<and> here (is, e) (tl t)"
  unfolding here_def by (cases t) (auto simp: Cons_eq_append_conv)

lemma here_Many: "here (Many c # is, e) t \<longleftrightarrow> (\<exists>u t'. t = u @ t' \<and> (\<forall>x \<in> set u. fits c x) \<and> here (is, e) t')"
proof
  assume "here (Many c # is, e) t"
  then obtain mid post where m: "t = mid @ post" "mid \<in> lang (Many c # is)" "e \<longrightarrow> post = []" unfolding here_def fst_conv snd_conv by blast
  then obtain u w where "mid = u @ w" "\<forall>x \<in> set u. fits c x" "w \<in> lang is" by auto
  then have "t = (u @ w) @ post" "\<forall>x \<in> set u. fits c x" "w \<in> lang is" "e \<longrightarrow> post = []" using m(1,3) by auto
  then have "t = u @ (w @ post) \<and> (\<forall>x \<in> set u. fits c x) \<and> here (is, e) (w @ post)" unfolding here_def by auto
  then show "\<exists>u t'. t = u @ t' \<and> (\<forall>x \<in> set u. fits c x) \<and> here (is, e) t'" by blast
next
  assume "\<exists>u t'. t = u @ t' \<and> (\<forall>x \<in> set u. fits c x) \<and> here (is, e) t'"
  then obtain u w post where w: "t = u @ w @ post" "\<forall>x \<in> set u. fits c x" "w \<in> lang is" "e \<longrightarrow> post = []" unfolding here_def by auto
  then have "t = (u @ w) @ post \<and> u @ w \<in> lang (Many c # is) \<and> (e \<longrightarrow> post = [])" by auto
  then show "here (Many c # is, e) t" unfolding here_def fst_conv snd_conv by blast
qed

lemma here_Many_step:
  "here (Many c # is, e) t \<longleftrightarrow> here (is, e) t \<or> t \<noteq> [] \<and> fits c (hd t) \<and> here (Many c # is, e) (tl t)"
proof
  assume "here (Many c # is, e) t"
  then obtain u t' where u: "t = u @ t'" "\<forall>x \<in> set u. fits c x" "here (is, e) t'" unfolding here_Many by blast
  then show "here (is, e) t \<or> t \<noteq> [] \<and> fits c (hd t) \<and> here (Many c # is, e) (tl t)"
    unfolding here_Many by (cases u) auto
next
  assume "here (is, e) t \<or> t \<noteq> [] \<and> fits c (hd t) \<and> here (Many c # is, e) (tl t)"
  then show "here (Many c # is, e) t"
  proof
    assume "here (is, e) t"
    then have "t = [] @ t \<and> (\<forall>x \<in> set []. fits c x) \<and> here (is, e) t" by simp
    then show ?thesis unfolding here_Many by blast
  next
    assume a: "t \<noteq> [] \<and> fits c (hd t) \<and> here (Many c # is, e) (tl t)"
    then obtain u t' where "tl t = u @ t'" "\<forall>x \<in> set u. fits c x" "here (is, e) t'" unfolding here_Many by blast
    then have "t = (hd t # u) @ t' \<and> (\<forall>x \<in> set (hd t # u). fits c x) \<and> here (is, e) t'" using a by (cases t) auto
    then show ?thesis unfolding here_Many by blast
  qed
qed

lemma star_p_zero: "0 \<notin> set xs \<Longrightarrow> star_p xs = 0 \<longleftrightarrow> xs = []"
  by (cases xs) (auto simp: star_p_def)

lemma matcher_correct:
  "0 \<notin> set re \<Longrightarrow> 0 \<notin> set t \<Longrightarrow> matchhere re t \<longleftrightarrow> here (items re) t"
  "0 \<notin> set re \<Longrightarrow> 0 \<notin> set t \<Longrightarrow> matchstar c re t \<longleftrightarrow> here (Many c # fst (items re), snd (items re)) t"
proof (induction re t and c re t rule: matchhere_matchstar.induct)
  case (1 re t)
  show ?case
  proof (cases re rule: items.cases)
    case 1
    then show ?thesis by (simp add: matchhere.simps star_p_def)
  next
    case (2 c)
    then show ?thesis
      using "1.prems" by (subst matchhere.simps) (cases t; auto simp: matchhere.simps [of "[]"] star_p_def fits_def)
  next
    case (3 c d re')
    have re: "star_p re = c" "star_p (tl re) = d" "c \<noteq> 0" "d \<noteq> 0" "tl (tl re) = re'" using 3 "1.prems"(1) by (auto simp: star_p_def)
    show ?thesis
    proof (cases "d = STAR")
      case True
      then have "matchhere re t = matchstar c re' t" using re by (subst matchhere.simps) simp
      then show ?thesis using "1.IH"(1) "1.prems" re 3 True by (simp split: prod.splits)
    next
      case False
      have t: "star_p t \<noteq> 0 \<longleftrightarrow> t \<noteq> []" "t \<noteq> [] \<Longrightarrow> star_p t = hd t" using "1.prems"(2) star_p_zero by (auto simp: star_p_def split: list.splits)
      have "0 \<notin> set (tl t)" using "1.prems"(2) by (cases t) auto
      moreover have "matchhere re t = (if star_p t \<noteq> 0 \<and> (c = DOT \<or> c = star_p t) then matchhere (d # re') (tl t) else False)"
        using re False 3 by (subst matchhere.simps) simp
      ultimately show ?thesis using "1.IH"(2) "1.prems" re 3 False t by (auto simp: fits_def split: prod.splits)
    qed
  qed
next
  case (2 c re t)
  have t: "star_p t \<noteq> 0 \<longleftrightarrow> t \<noteq> []" "t \<noteq> [] \<Longrightarrow> star_p t = hd t" using "2.prems"(2) star_p_zero by (auto simp: star_p_def split: list.splits)
  have "0 \<notin> set (tl t)" using "2.prems"(2) by (cases t) auto
  then show ?case
    using "2.IH" "2.prems" t by (subst matchstar.simps, subst here_Many_step) (auto simp: fits_def)
qed

section \<open>The matcher\<close>

lemma match_loop_correct:
  "0 \<notin> set re \<Longrightarrow> 0 \<notin> set t \<Longrightarrow> match_loop re t \<longleftrightarrow> (\<exists>pre suf. t = pre @ suf \<and> here (items re) suf)"
proof (induction re t rule: match_loop.induct)
  case (1 re t)
  show ?case
  proof (cases t)
    case Nil
    then show ?thesis using 1 matcher_correct(1) [of re t] by (subst match_loop.simps) (simp add: star_p_def)
  next
    case (Cons x t')
    then have "star_p t \<noteq> 0" "tl t = t'" "0 \<notin> set t'" using "1.prems"(2) by (auto simp: star_p_def)
    then have "match_loop re t \<longleftrightarrow> here (items re) t \<or> (\<exists>pre suf. t' = pre @ suf \<and> here (items re) suf)"
      using 1 matcher_correct(1) [of re t] by (subst match_loop.simps) auto
    also have "\<dots> \<longleftrightarrow> (\<exists>pre suf. t = pre @ suf \<and> here (items re) suf)" unfolding Cons Cons_eq_append_conv by auto
    finally show ?thesis .
  qed
qed

text \<open>Where an expression is found in a text: somewhere, at its start after \<open>^\<close>, up to its end before \<open>$\<close>.\<close>

definition found :: "u8 list \<Rightarrow> u8 list \<Rightarrow> bool" where
  "found re t \<longleftrightarrow>
     (\<exists>pre mid post. t = pre @ mid @ post \<and> (star_p re = CARET \<longrightarrow> pre = []) \<and>
        mid \<in> lang (fst (items (if star_p re = CARET then tl re else re))) \<and>
        (snd (items (if star_p re = CARET then tl re else re)) \<longrightarrow> post = []))"

lemma match_found:
  assumes "0 \<notin> set re" and "0 \<notin> set t"
  shows "match re t \<longleftrightarrow> found re t"
proof (cases "star_p re = CARET")
  case True
  have "0 \<notin> set (tl re)" using assms(1) by (cases re) auto
  then show ?thesis using True matcher_correct(1) [OF _ assms(2)] by (auto simp: match_def found_def here_def)
next
  case False
  then show ?thesis using match_loop_correct [OF assms] by (auto simp: match_def found_def here_def)
qed

text \<open>C34. The matcher of \<open>grep.c\<close> decides the language: for every expression of the operators \<open>^ . * $\<close> and every text, \<open>match\<close> terminates and
  returns 1 exactly when some part of the text belongs to the language that the expression denotes, a part at the start of the text if
  the expression begins with \<open>^\<close> and one at its end if it ends in \<open>$\<close>.\<close>

theorem match_decides:
  assumes "0 \<notin> set re" and "0 \<notin> set t"
  shows "match re t \<longleftrightarrow> found re t"
  by (rule match_found [OF assms])

theorem match_decides_witness:
  "0 \<notin> set [94, 97, 46, 42, 99, 36 :: u8] \<and> 0 \<notin> set [97, 98, 98, 99 :: u8] \<and> found [94, 97, 46, 42, 99, 36] [97, 98, 98, 99]"
proof -
  have "match [94, 97, 46, 42, 99, 36] [97, 98, 98, 99]"
    by (simp add: match_def matchhere.simps matchstar.simps star_p_def)
  then show ?thesis using match_decides [of "[94, 97, 46, 42, 99, 36]" "[97, 98, 98, 99]"] by simp
qed

section \<open>The lines\<close>

definition unlines :: "u8 list list \<Rightarrow> u8 list" where
  "unlines ls = concat (map (\<lambda>l. l @ [NL]) ls)"

lemma unlines_simps [simp]:
  "unlines [] = []" "unlines (l # ls) = l @ NL # unlines ls" "unlines (ls @ ls') = unlines ls @ unlines ls'"
  by (simp_all add: unlines_def)

definition is_line :: "u8 list \<Rightarrow> bool" where
  "is_line l \<longleftrightarrow> NL \<notin> set l \<and> 0 \<notin> set l"

lemma nl_pos_line: "is_line l \<Longrightarrow> nl_pos (l @ NL # xs) = Some (length l)"
proof -
  assume l: "is_line l"
  then have "takeWhile (\<lambda>b. b \<noteq> NL \<and> b \<noteq> 0) (l @ NL # xs) = l"
    by (subst takeWhile_append2) (auto simp: is_line_def)
  then show ?thesis by (simp add: nl_pos_def star_p_def)
qed

lemma nl_pos_rest: "NL \<notin> set r \<Longrightarrow> nl_pos r = None"
proof (rule ccontr)
  assume r: "NL \<notin> set r" "nl_pos r \<noteq> None"
  then obtain k where "star_p (drop k r) = NL" by (auto simp: nl_pos_def Let_def split: if_splits)
  then have "NL \<in> set (drop k r)" by (cases "drop k r") (auto simp: star_p_def)
  then show False using r(1) by (auto dest: in_set_dropD)
qed

lemma grep_lines_unlines:
  "\<forall>l \<in> set ls. is_line l \<Longrightarrow> is_line r \<Longrightarrow> grep_lines re (unlines ls @ r) = (unlines (filter (match re) ls), r)"
proof (induction ls)
  case Nil
  then show ?case by (subst grep_lines.simps) (simp add: nl_pos_rest is_line_def)
next
  case (Cons l ls)
  then show ?case by (subst grep_lines.simps) (simp add: nl_pos_line)
qed

text \<open>What the first \<open>k\<close> bytes of the lines hold.\<close>

lemma take_unlines:
  assumes "\<forall>l \<in> set ls. is_line l" "is_line rest"
  shows "\<exists>ls1 ls2 r. ls = ls1 @ ls2 \<and> take k (unlines ls @ rest) = unlines ls1 @ r \<and> is_line r \<and>
    r @ drop k (unlines ls @ rest) = unlines ls2 @ rest"
  using assms
proof (induction ls arbitrary: k)
  case Nil
  then show ?case by (auto simp: is_line_def dest: in_set_takeD)
next
  case (Cons l ls)
  show ?case
  proof (cases "k \<le> length l")
    case True
    then have "take k (unlines (l # ls) @ rest) = unlines [] @ take k l" "is_line (take k l)"
      "take k l @ drop k (unlines (l # ls) @ rest) = unlines (l # ls) @ rest"
      using Cons.prems by (auto simp: is_line_def dest: in_set_takeD)
    then show ?thesis by (metis append_Nil)
  next
    case False
    then have k: "take k (unlines (l # ls) @ rest) = l @ NL # take (k - Suc (length l)) (unlines ls @ rest)"
      "drop k (unlines (l # ls) @ rest) = drop (k - Suc (length l)) (unlines ls @ rest)"
      by (simp_all add: take_Cons' drop_Cons')
    obtain ls1 ls2 r where "ls = ls1 @ ls2" "take (k - Suc (length l)) (unlines ls @ rest) = unlines ls1 @ r" "is_line r"
      "r @ drop (k - Suc (length l)) (unlines ls @ rest) = unlines ls2 @ rest" using Cons by (metis list.set_intros(2))
    then show ?thesis unfolding k by (intro exI [of _ "l # ls1"] exI [of _ ls2] exI [of _ r]) simp
  qed
qed

lemma grep_file_lines:
  assumes "kept @ data = unlines ls @ rest" "\<forall>l \<in> set ls. is_line l \<and> length l \<le> 1022" "is_line rest" "is_line kept" "length kept \<le> 1022"
  shows "grep_file re kept data = unlines (filter (match re) ls)"
  using assms
proof (induction "length data" arbitrary: kept data ls rest rule: less_induct)
  case (less data kept ls rest)
  let ?k = "1023 - length kept" and ?all = "unlines ls @ rest"
  let ?chunk = "take ?k data"
  have b: "kept @ ?chunk = take 1023 ?all" "drop (length ?chunk) data = drop 1023 ?all"
    using less.prems(1,5) by (simp_all add: min_def flip: less.prems(1))
  show ?case
  proof (cases "data = []")
    case True
    then have "ls = []" using less.prems(1,4) by (cases ls) (auto simp: is_line_def)
    then show ?thesis using True by (subst grep_file.simps) simp
  next
    case False
    then have ne: "?chunk \<noteq> []" using less.prems(5) by (cases data) auto
    then have less: "length (drop (length ?chunk) data) < length data" by (cases data) auto
    obtain ls1 ls2 r where s: "ls = ls1 @ ls2" "take 1023 ?all = unlines ls1 @ r" "is_line r" "r @ drop 1023 ?all = unlines ls2 @ rest"
      using take_unlines [of ls rest 1023] less.prems(2,3) by blast
    have g: "grep_lines re (kept @ ?chunk) = (unlines (filter (match re) ls1), r)"
      unfolding b(1) s(2) using less.prems(2) s(1,3) by (intro grep_lines_unlines) auto
    have rec: "grep_file re kept data = unlines (filter (match re) ls1) @
        grep_file re (if length r = length (kept @ ?chunk) then [] else r) (drop (length ?chunk) data)"
      using ne g by (subst grep_file.simps) (simp add: grep_step_def Let_def)
    show ?thesis
    proof (cases "ls1 = []")
      case True
      have "ls2 = []"
      proof (cases ls2)
        case (Cons l ls')
        then have "length l \<le> 1022" "take 1023 ?all = r" using less.prems(2) s(1,2) True by auto
        moreover from this(1) have "take 1023 ?all = l @ NL # take (1022 - length l) (unlines ls' @ rest)"
          using s(1) True Cons by (simp add: take_Cons')
        ultimately show ?thesis using s(3) by (simp add: is_line_def)
      qed simp
      then have e: "ls = []" using s(1) True by simp
      then have d: "drop (length ?chunk) data = drop 1023 rest" using b(2) by (simp only: unlines_simps append_Nil)
      have "is_line (drop 1023 rest)" using less.prems(3) by (auto simp: is_line_def dest: in_set_dropD)
      then have "grep_file re [] (drop 1023 rest) = unlines (filter (match re) [])"
        by (intro less.hyps [OF less, unfolded d, of "[]" "[]" "drop 1023 rest"]) (simp_all add: is_line_def)
      moreover have "length r = length (kept @ ?chunk)" unfolding b(1) s(2) using True by simp
      ultimately show ?thesis unfolding rec d e using True by (simp only: if_True) simp
    next
      case ls1: False
      have len: "length (unlines ls1) + length r \<le> 1023" using arg_cong [OF s(2), of length] by simp
      have "0 < length (unlines ls1)" using ls1 by (cases ls1) auto
      then have r: "length r \<noteq> length (kept @ ?chunk)" "length r \<le> 1022" using len unfolding b(1) s(2) by (simp_all only: length_append)
      have "grep_file re r (drop (length ?chunk) data) = unlines (filter (match re) ls2)"
        unfolding b(2) using s(1) less.prems(2) by (intro less.hyps [OF less, unfolded b(2), of r ls2 rest] s(3,4) less.prems(3) r(2)) simp
      then show ?thesis using rec r(1) s(1) by simp
    qed
  qed
qed

text \<open>C35. On a file whose lines have at most 1022 bytes, \<open>grep\<close> prints exactly the lines that the expression is found in, in order and each with its
  newline, wherever the buffer's boundaries fall; text after the last newline is not printed.\<close>

theorem grep_prints_matches:
  assumes "\<forall>l \<in> set ls. 10 \<notin> set l \<and> 0 \<notin> set l \<and> length l \<le> 1022" and "10 \<notin> set rest \<and> 0 \<notin> set rest" and "0 \<notin> set re"
  shows "grep_file re [] (unlines ls @ rest) = unlines (filter (found re) ls)"
proof -
  have "match re l = found re l" if "l \<in> set ls" for l
    using that assms(1,3) by (intro match_found) auto
  then show ?thesis using grep_file_lines [of "[]" "unlines ls @ rest" ls rest re] assms by (simp add: is_line_def cong: filter_cong)
qed

theorem grep_prints_matches_witness:
  "grep_file [98] [] (unlines [[97, 98], [99]] @ [98]) = [97, 98, 10]"
proof -
  have "found [98] [97, 98]" "\<not> found [98] [99]"
    using match_found [of "[98]" "[97, 98]"] match_found [of "[98]" "[99]"]
    by (simp_all add: match_def match_loop.simps matchhere.simps star_p_def)
  then show ?thesis using grep_prints_matches [of "[[97, 98], [99]]" "[98]" "[98]"] by simp
qed


end
