(* ===== verification/Mp.thy ===== *)
theory Mp
  imports Kalloc
begin

text \<open>
  \<open>mp.c\<close>: finding the multiprocessor tables that the firmware leaves in memory and reading the processors from them. The
  structures of \<open>mp.h\<close> are read at their offsets from the byte memory \<open>m\<close>, by kernel addresses.
\<close>

section \<open>Definitions\<close>

definition mpsum :: "mem \<Rightarrow> nat \<Rightarrow> nat \<Rightarrow> u8" where
  "mpsum m addr len = fold (\<lambda>b s. s + b) (bytes m addr len) 0"

text \<open>\<open>sizeof(struct mp)\<close> is 16; the loop runs over every 16th address below \<open>e\<close>.\<close>

definition mpsearch1 :: "mem \<Rightarrow> u32 \<Rightarrow> nat \<Rightarrow> nat option" where
  "mpsearch1 m a len =
     List.find (\<lambda>p. bytes m p 4 = [0x5F, 0x4D, 0x50, 0x5F] \<and> mpsum m p 16 = 0)
       (map (\<lambda>i. unat (P2V a) + 16 * i) [0..<(len + 15) div 16])"

definition mpsearch :: "mem \<Rightarrow> nat option" where
  "mpsearch m =
     (let bda = unat (P2V 0x400);
          p = ((ucast (m (bda + 0x0F)) * 256 OR ucast (m (bda + 0x0E))) * 16 :: u32);
          found = (if p \<noteq> 0 then mpsearch1 m p 1024
                   else mpsearch1 m ((ucast (m (bda + 0x14)) * 256 OR ucast (m (bda + 0x13))) * 1024 - 1024) 1024)
      in case found of Some mp \<Rightarrow> Some mp | None \<Rightarrow> mpsearch1 m 0xF0000 0x10000)"

text \<open>The configuration table, with the floating pointer structure \<open>*pmp\<close> that leads to it.\<close>

definition mpconfig :: "mem \<Rightarrow> (nat \<times> nat) option" where
  "mpconfig m =
     (case mpsearch m of None \<Rightarrow> None
      | Some mp \<Rightarrow>
          let physaddr = rd32 (bytes m (mp + 4) 4) in
          if physaddr = 0 then None
          else
            let conf = unat (P2V physaddr) in
            if bytes m conf 4 \<noteq> [0x50, 0x43, 0x4D, 0x50] then None
            else if m (conf + 6) \<noteq> 1 \<and> m (conf + 6) \<noteq> 4 then None
            else if mpsum m conf (unat (rd16 (bytes m (conf + 4) 2))) \<noteq> 0 then None
            else Some (conf, mp))"

text \<open>What \<open>mpinit\<close> sets: the APIC ids of \<open>cpus[0], ..., cpus[ncpu - 1]\<close>, \<open>ioapicid\<close> and \<open>ismp\<close>.\<close>

record mpstate =
  mp_apicids :: "u8 list"
  mp_ioapicid :: u8
  mp_ismp :: bool

abbreviation (input) MPPROC :: u8 where "MPPROC \<equiv> 0"
abbreviation (input) MPBUS :: u8 where "MPBUS \<equiv> 1"
abbreviation (input) MPIOAPIC :: u8 where "MPIOAPIC \<equiv> 2"
abbreviation (input) MPIOINTR :: u8 where "MPIOINTR \<equiv> 3"
abbreviation (input) MPLINTR :: u8 where "MPLINTR \<equiv> 4"

text \<open>The loop over the entries. The \<open>break\<close> of the default case leaves the \<open>switch\<close> only: the loop goes on with the same
  \<open>p\<close>. A loop that does not end has the value \<^verbatim>\<open>None\<close>.\<close>

partial_function (option) mpinit_loop :: "mem \<Rightarrow> nat \<Rightarrow> nat \<Rightarrow> mpstate \<Rightarrow> mpstate option" where
  "mpinit_loop m p e s =
     (if p < e then
        if m p = MPPROC then
          mpinit_loop m (p + 20) e
            (if length (mp_apicids s) < NCPU then s\<lparr>mp_apicids := mp_apicids s @ [m (p + 1)]\<rparr> else s)
        else if m p = MPIOAPIC then mpinit_loop m (p + 8) e (s\<lparr>mp_ioapicid := m (p + 1)\<rparr>)
        else if m p = MPBUS \<or> m p = MPIOINTR \<or> m p = MPLINTR then mpinit_loop m (p + 8) e s
        else mpinit_loop m p e (s\<lparr>mp_ismp := False\<rparr>)
      else Some s)"

text \<open>\<open>mpinit\<close>, which starts from the zeroed variables of the program. The result has the address of the local APIC, and whether the mode register
  was programmed to mask external interrupts.\<close>

definition mpinit :: "mem \<Rightarrow> ((u32 \<times> mpstate \<times> bool) res) option" where
  "mpinit m =
     (case mpconfig m of
        None \<Rightarrow> Some (Panic ''Expect to run on an SMP'')
      | Some (conf, mp) \<Rightarrow>
          (case mpinit_loop m (conf + 44) (conf + unat (rd16 (bytes m (conf + 4) 2)))
                  \<lparr>mp_apicids = [], mp_ioapicid = 0, mp_ismp = True\<rparr> of
             None \<Rightarrow> None
           | Some s \<Rightarrow>
               if \<not> mp_ismp s then Some (Panic ''Didn't find a suitable machine'')
               else Some (Ok (rd32 (bytes m (conf + 36) 4), s, m (mp + 12) \<noteq> 0))))"

declare mpinit_loop.simps [code]

section \<open>Reading the table\<close>

definition mp_size :: "u8 \<Rightarrow> nat" where
  "mp_size t = (if t = MPPROC then 20 else 8)"

definition mp_known :: "u8 \<Rightarrow> bool" where
  "mp_known t \<longleftrightarrow> t = MPPROC \<or> t = MPBUS \<or> t = MPIOAPIC \<or> t = MPIOINTR \<or> t = MPLINTR"

text \<open>The entries of known type from \<open>p\<close> on, and where they end.\<close>

function mp_entries :: "mem \<Rightarrow> nat \<Rightarrow> nat \<Rightarrow> nat list" where
  "mp_entries m p e = (if p < e \<and> mp_known (m p) then p # mp_entries m (p + mp_size (m p)) e else [])"
  by pat_completeness auto
termination by (relation "measure (\<lambda>(m, p, e). e - p)") (auto simp: mp_size_def)

function mp_stop :: "mem \<Rightarrow> nat \<Rightarrow> nat \<Rightarrow> nat" where
  "mp_stop m p e = (if p < e \<and> mp_known (m p) then mp_stop m (p + mp_size (m p)) e else p)"
  by pat_completeness auto
termination by (relation "measure (\<lambda>(m, p, e). e - p)") (auto simp: mp_size_def)

declare mp_entries.simps [simp del] mp_stop.simps [simp del]

definition mp_enter :: "mem \<Rightarrow> nat \<Rightarrow> mpstate \<Rightarrow> mpstate" where
  "mp_enter m p s =
     (if m p = MPPROC then (if length (mp_apicids s) < NCPU then s\<lparr>mp_apicids := mp_apicids s @ [m (p + 1)]\<rparr> else s)
      else if m p = MPIOAPIC then s\<lparr>mp_ioapicid := m (p + 1)\<rparr> else s)"

lemma mpinit_loop_known:
  "p < e \<Longrightarrow> mp_known (m p) \<Longrightarrow> mpinit_loop m p e s = mpinit_loop m (p + mp_size (m p)) e (mp_enter m p s)"
  by (subst mpinit_loop.simps) (auto simp: mp_known_def mp_size_def mp_enter_def)

text \<open>The loop does not leave an entry of an unknown type.\<close>

lemma mpinit_loop_stuck:
  assumes "mpinit_loop m p e s = Some r"
  shows "\<not> (p < e \<and> \<not> mp_known (m p))"
  by (rule mpinit_loop.raw_induct [where P = "\<lambda>m p e s r. \<not> (p < e \<and> \<not> mp_known (m p))", OF _ assms])
    (auto simp: mp_known_def split: if_splits, blast)

lemma mpinit_loop_reads:
  "mpinit_loop m p e s = (if mp_stop m p e < e then None else Some (fold (mp_enter m) (mp_entries m p e) s))"
proof (induction m p e arbitrary: s rule: mp_stop.induct)
  case (1 m p e)
  consider "p < e \<and> mp_known (m p)" | "p < e \<and> \<not> mp_known (m p)" | "\<not> p < e" by blast
  then show ?case
  proof cases
    case 1
    then show ?thesis using "1.IH" mpinit_loop_known by (simp add: mp_stop.simps [of m p e] mp_entries.simps [of m p e])
  next
    case 2
    then have "mpinit_loop m p e s = None" using mpinit_loop_stuck [of m p e s] by (cases "mpinit_loop m p e s") auto
    then show ?thesis using 2 by (simp add: mp_stop.simps [of m p e])
  next
    case 3
    then show ?thesis by (simp add: mpinit_loop.simps [of m p e] mp_stop.simps [of m p e] mp_entries.simps [of m p e])
  qed
qed

lemma mp_enter_all:
  assumes "length (mp_apicids s) \<le> NCPU"
  shows "mp_apicids (fold (mp_enter m) ps s) = take NCPU (mp_apicids s @ map (\<lambda>p. m (p + 1)) (filter (\<lambda>p. m p = MPPROC) ps))"
    "mp_ioapicid (fold (mp_enter m) ps s) = last (mp_ioapicid s # map (\<lambda>p. m (p + 1)) (filter (\<lambda>p. m p = MPIOAPIC) ps))"
    "mp_ismp (fold (mp_enter m) ps s) = mp_ismp s"
  using assms by (induction ps arbitrary: s) (auto simp: mp_enter_def take_Cons')

text \<open>C37. \<open>mpinit\<close> reads the processor table to its end, and registers the processors in the order of their entries, at most \<open>NCPU\<close> of them, and the last
  I/O APIC; but an entry of a type that it does not know makes it loop forever. The panic that is meant for this case is never reached: the
  \<open>break\<close> before it leaves the \<open>switch\<close> and not the loop, which goes on with the same entry.\<close>

theorem mpinit_table:
  "mpinit m =
     (case mpconfig m of
        None \<Rightarrow> Some (Panic ''Expect to run on an SMP'')
      | Some (conf, mp) \<Rightarrow>
          let e = conf + unat (rd16 (bytes m (conf + 4) 2)); ps = mp_entries m (conf + 44) e in
          if mp_stop m (conf + 44) e < e then None
          else Some (Ok (rd32 (bytes m (conf + 36) 4),
                  \<lparr>mp_apicids = take NCPU (map (\<lambda>p. m (p + 1)) (filter (\<lambda>p. m p = MPPROC) ps)),
                   mp_ioapicid = last (0 # map (\<lambda>p. m (p + 1)) (filter (\<lambda>p. m p = MPIOAPIC) ps)), mp_ismp = True\<rparr>,
                  m (mp + 12) \<noteq> 0)))"
proof (cases "mpconfig m")
  case None
  then show ?thesis by (simp add: mpinit_def)
next
  case (Some cm)
  obtain conf mp where c: "cm = (conf, mp)" by (cases cm)
  let ?s = "\<lparr>mp_apicids = [], mp_ioapicid = 0, mp_ismp = True\<rparr>" and ?e = "conf + unat (rd16 (bytes m (conf + 4) 2))"
  let ?r = "fold (mp_enter m) (mp_entries m (conf + 44) ?e) ?s"
  have "?r = \<lparr>mp_apicids = mp_apicids ?r, mp_ioapicid = mp_ioapicid ?r, mp_ismp = mp_ismp ?r\<rparr>" by simp
  then show ?thesis
    unfolding mpinit_def mpinit_loop_reads Some c option.case prod.case Let_def
    using mp_enter_all [of ?s m "mp_entries m (conf + 44) ?e"] by (simp del: last.simps)
qed

end
