(* ===== verification/Shell.thy ===== *)
theory Shell
  imports Prelude
begin

text \<open>
  The command parser of the shell, \<open>sh.c\<close>. The line is the list of its bytes before the terminating zero; a pointer into it is
  an index, \<open>es\<close> its length. A parsed command refers to its words by the indices of their ends, as \<open>argv\<close> and \<open>eargv\<close> do, until \<open>nulterminate\<close> writes a
  zero behind each word. \<open>malloc\<close> is taken to succeed. The parsing functions call each other; their
  first argument bounds the depth of these calls, and a parser that runs out of it has the value \<^verbatim>\<open>None\<close>.
\<close>

section \<open>Tokens\<close>

definition char_at :: "u8 list \<Rightarrow> nat \<Rightarrow> u8" where
  "char_at s i = (if i < length s then s ! i else 0)"

text \<open>Blank, tab, carriage return, newline, vertical tab; and \<open><|>&;()\<close>.\<close>

definition whitespace :: "u8 list" where
  "whitespace = [32, 9, 13, 10, 11]"

definition symbols :: "u8 list" where
  "symbols = [60, 124, 62, 38, 59, 40, 41]"

abbreviation (input) LT :: u8 where "LT \<equiv> 60"
abbreviation (input) BAR :: u8 where "BAR \<equiv> 124"
abbreviation (input) GT :: u8 where "GT \<equiv> 62"
abbreviation (input) AMP :: u8 where "AMP \<equiv> 38"
abbreviation (input) SEMI :: u8 where "SEMI \<equiv> 59"
abbreviation (input) LPAR :: u8 where "LPAR \<equiv> 40"
abbreviation (input) RPAR :: u8 where "RPAR \<equiv> 41"

function skip_blanks :: "u8 list \<Rightarrow> nat \<Rightarrow> nat" where
  "skip_blanks s i = (if i < length s \<and> s ! i \<in> set whitespace then skip_blanks s (Suc i) else i)"
  by pat_completeness auto
termination by (relation "measure (\<lambda>(s, i). length s - i)") auto

function skip_word :: "u8 list \<Rightarrow> nat \<Rightarrow> nat" where
  "skip_word s i =
     (if i < length s \<and> s ! i \<notin> set whitespace \<and> s ! i \<notin> set symbols then skip_word s (Suc i) else i)"
  by pat_completeness auto
termination by (relation "measure (\<lambda>(s, i). length s - i)") auto

declare skip_blanks.simps [simp del] skip_word.simps [simp del]

text \<open>The value of \<open>gettoken\<close>: \<open>Tok c\<close> for a symbol, \<open>TWord\<close> for \<open>'a'\<close>, \<open>TAppend\<close> for \<open>'+'\<close> and \<open>TEnd\<close> for 0, with the ends of the token and the
  new \<open>*ps\<close>.\<close>

datatype token = TEnd | Tok u8 | TAppend | TWord

definition gettoken :: "u8 list \<Rightarrow> nat \<Rightarrow> token \<times> nat \<times> nat \<times> nat" where
  "gettoken s i =
     (let q = skip_blanks s i; c = char_at s q in
      case (if c = 0 then (TEnd, q)
            else if c = BAR \<or> c = LPAR \<or> c = RPAR \<or> c = SEMI \<or> c = AMP \<or> c = LT then (Tok c, Suc q)
            else if c = GT then (if char_at s (Suc q) = GT then (TAppend, q + 2) else (Tok GT, Suc q))
            else (TWord, skip_word s q)) of
        (tok, eq) \<Rightarrow> (tok, q, eq, skip_blanks s eq))"

definition peek :: "u8 list \<Rightarrow> nat \<Rightarrow> u8 list \<Rightarrow> bool \<times> nat" where
  "peek s i toks = (let j = skip_blanks s i in (char_at s j \<noteq> 0 \<and> char_at s j \<in> set toks, j))"

section \<open>Commands\<close>

text \<open>\<open>struct execcmd\<close>, \<open>redircmd\<close>, \<open>pipecmd\<close>, \<open>listcmd\<close>, \<open>backcmd\<close>.\<close>

datatype cmd =
    ExecCmd "(nat \<times> nat) list"
  | RedirCmd cmd nat nat int int
  | PipeCmd cmd cmd
  | ListCmd cmd cmd
  | BackCmd cmd

abbreviation (input) O_RDONLY :: int where "O_RDONLY \<equiv> 0"
abbreviation (input) O_WRONLY_CREATE :: int where "O_WRONLY_CREATE \<equiv> 0x201"
abbreviation (input) MAXARGS :: nat where "MAXARGS \<equiv> 10"

definition scan :: "(u8 \<Rightarrow> bool) \<Rightarrow> u8 list \<Rightarrow> nat \<Rightarrow> nat" where
  "scan P s i = i + length (takeWhile P (drop i s))"

lemma scan_bounds:
  "i \<le> scan P s i" "i \<le> length s \<Longrightarrow> scan P s i \<le> length s"
  "i \<le> j \<Longrightarrow> j < scan P s i \<Longrightarrow> j < length s \<and> P (s ! j)"
  "scan P s i < length s \<Longrightarrow> \<not> P (s ! scan P s i)"
proof -
  have l: "length (takeWhile P (drop i s)) \<le> length s - i" using length_takeWhile_le [of P "drop i s"] by simp
  show "i \<le> scan P s i" "i \<le> length s \<Longrightarrow> scan P s i \<le> length s" using l by (simp_all add: scan_def)
  show "j < length s \<and> P (s ! j)" if "i \<le> j" "j < scan P s i"
  proof -
    have j: "j - i < length (takeWhile P (drop i s))" using that by (simp add: scan_def)
    then have "P (takeWhile P (drop i s) ! (j - i))" by (metis nth_mem set_takeWhileD)
    moreover have "takeWhile P (drop i s) ! (j - i) = s ! j" using that j l by (subst takeWhile_nth) auto
    ultimately show ?thesis using j l that by auto
  qed
  show "\<not> P (s ! scan P s i)" if "scan P s i < length s"
    using nth_length_takeWhile [of P "drop i s"] that by (simp add: scan_def)
qed

lemma scan_step: "scan P s i = (if i < length s \<and> P (s ! i) then scan P s (Suc i) else i)"
  by (cases "i < length s") (simp_all add: scan_def flip: Cons_nth_drop_Suc)

lemma skip_blanks_scan: "skip_blanks s i = scan (\<lambda>c. c \<in> set whitespace) s i"
  by (induction s i rule: skip_blanks.induct) (subst skip_blanks.simps, subst scan_step, simp)

lemma skip_word_scan: "skip_word s i = scan (\<lambda>c. c \<notin> set whitespace \<and> c \<notin> set symbols) s i"
  by (induction s i rule: skip_word.induct) (subst skip_word.simps, subst scan_step, simp)

lemmas skip_blanks_bounds = scan_bounds [where P = "\<lambda>c. c \<in> set whitespace", folded skip_blanks_scan]
lemmas skip_word_bounds = scan_bounds [where P = "\<lambda>c. c \<notin> set whitespace \<and> c \<notin> set symbols", folded skip_word_scan]

lemma char_at_nonzero: "char_at s i \<noteq> 0 \<Longrightarrow> i < length s"
  by (simp add: char_at_def split: if_splits)

text \<open>A token other than the end consumes something.\<close>

lemma gettoken_progress:
  assumes g: "gettoken s i = (tok, q, eq, i')" and t: "tok \<noteq> TEnd"
  shows "i < i' \<and> i' \<le> length s"
proof -
  have q: "q = skip_blanks s i" and c: "char_at s q \<noteq> 0" using g t by (auto simp: gettoken_def Let_def split: if_splits prod.splits)
  have ql: "q < length s" "i \<le> q" using char_at_nonzero [OF c] skip_blanks_bounds(1) [of i s] q by simp_all
  have "q < eq \<and> eq \<le> length s"
  proof (cases "tok = TWord")
    case True
    then have e: "eq = skip_word s q" and sym: "char_at s q \<noteq> BAR" "char_at s q \<noteq> LPAR" "char_at s q \<noteq> RPAR" "char_at s q \<noteq> SEMI"
      "char_at s q \<noteq> AMP" "char_at s q \<noteq> LT" "char_at s q \<noteq> GT"
      using g c q by (auto simp: gettoken_def Let_def split: if_splits prod.splits)
    then have "s ! q \<notin> set symbols" using ql by (auto simp: char_at_def symbols_def)
    moreover have "s ! q \<notin> set whitespace" using skip_blanks_bounds(4) [of s i] ql q by simp
    ultimately have "skip_word s q = skip_word s (Suc q)" using ql by (subst skip_word.simps) simp
    then show ?thesis using e skip_word_bounds(1) [of "Suc q" s] skip_word_bounds(2) [of q s] ql by simp
  next
    case False
    then show ?thesis using g t q c ql char_at_nonzero [of s "Suc q"]
      by (auto simp: gettoken_def Let_def split: if_splits prod.splits)
  qed
  moreover have "i' = skip_blanks s eq" using g by (auto simp: gettoken_def Let_def split: prod.splits)
  ultimately show ?thesis using skip_blanks_bounds(1,2) [of eq s] ql(2) by simp
qed

lemma peek_bounds:
  assumes "peek s i toks = (b, j)"
  shows "i \<le> j" "i \<le> length s \<Longrightarrow> j \<le> length s" "b \<Longrightarrow> j < length s \<and> s ! j \<in> set toks \<and> s ! j \<noteq> 0"
    "skip_blanks s j = j"
proof -
  have j: "j = skip_blanks s i" and b: "b \<longleftrightarrow> char_at s j \<noteq> 0 \<and> char_at s j \<in> set toks" using assms by (auto simp: peek_def Let_def)
  show "i \<le> j" "i \<le> length s \<Longrightarrow> j \<le> length s" unfolding j by (fact skip_blanks_bounds(1,2))+
  show "b \<Longrightarrow> j < length s \<and> s ! j \<in> set toks \<and> s ! j \<noteq> 0" using b by (auto simp: char_at_def split: if_splits)
  show "skip_blanks s j = j" using skip_blanks_bounds(4) [of s i] unfolding j by (subst skip_blanks.simps) auto
qed

section \<open>Parsing\<close>

text \<open>\<open>switch(tok)\<close>; \<open>>>\<close> is opened like \<open>>\<close>.\<close>

definition redir :: "token \<Rightarrow> cmd \<Rightarrow> nat \<Rightarrow> nat \<Rightarrow> cmd" where
  "redir tok c q eq = (if tok = Tok LT then RedirCmd c q eq O_RDONLY 0 else RedirCmd c q eq O_WRONLY_CREATE 1)"

lemma peek_gettoken:
  assumes "peek s i toks = (True, i1)" "gettoken s i1 = (tok, q, eq, i2)"
  shows "i \<le> i1" "i1 < i2" "i1 < length s" "i2 \<le> length s"
proof -
  note b = peek_bounds [OF assms(1)]
  have "skip_blanks s i1 = i1" "char_at s i1 \<noteq> 0" using b(3,4) by (auto simp: char_at_def)
  then have "tok \<noteq> TEnd" using assms(2) by (auto simp: gettoken_def Let_def split: if_splits prod.splits)
  then show "i \<le> i1" "i1 < i2" "i1 < length s" "i2 \<le> length s" using gettoken_progress [OF assms(2)] b(1,3) by auto
qed

lemma redir_progress:
  assumes "peek s i toks = (True, i1)" "gettoken s i1 = (tok, q1, e1, i2)" "gettoken s i2 = (TWord, q, eq, i3)"
  shows "length s - i3 < length s - i" "i < i3" "i3 \<le> length s"
  using peek_gettoken [OF assms(1,2)] gettoken_progress [OF assms(3)] by auto

function parseredirs :: "u8 list \<Rightarrow> nat \<Rightarrow> cmd \<Rightarrow> (cmd \<times> nat) res" where
  "parseredirs s i c =
     (case peek s i [LT, GT] of (b, i1) \<Rightarrow>
        if \<not> b then Ok (c, i1)
        else case gettoken s i1 of (tok, _, _, i2) \<Rightarrow>
          case gettoken s i2 of (w, q, eq, i3) \<Rightarrow>
            if w \<noteq> TWord then Panic ''missing file for redirection''
            else parseredirs s i3 (redir tok c q eq))"
  by pat_completeness auto
termination
  by (relation "measure (\<lambda>(s, i, c). length s - i)") (auto intro: redir_progress(1) [OF sym sym sym])

declare parseredirs.simps [simp del]

lemma parseredirs_bounds:
  "parseredirs s i c = Ok (c', i') \<Longrightarrow> i \<le> i' \<and> (i \<le> length s \<longrightarrow> i' \<le> length s)"
proof (induction s i c rule: parseredirs.induct)
  case (1 s i c)
  obtain b i1 where p: "peek s i [LT, GT] = (b, i1)" by (cases "peek s i [LT, GT]")
  obtain tok q1 e1 i2 where t: "gettoken s i1 = (tok, q1, e1, i2)" by (metis prod_cases4)
  obtain w q eq i3 where w: "gettoken s i2 = (w, q, eq, i3)" by (metis prod_cases4)
  show ?case
  proof (cases b)
    case False
    then show ?thesis using "1.prems" p peek_bounds(1,2) [OF p] by (subst (asm) parseredirs.simps) auto
  next
    case True
    have W: "w = TWord" using "1.prems" p t w True by (subst (asm) parseredirs.simps) (auto split: if_splits)
    then have "parseredirs s i3 (redir tok c q eq) = Ok (c', i')" using "1.prems" p t w True by (subst (asm) parseredirs.simps) simp
    then have "i3 \<le> i' \<and> (i3 \<le> length s \<longrightarrow> i' \<le> length s)"
      using "1.IH" [OF p [symmetric] _ t [symmetric] refl refl w [symmetric] refl refl] W True by simp
    then show ?thesis using redir_progress [OF p [unfolded eqTrueI [OF True]] t w [unfolded W]] by simp
  qed
qed

text \<open>\<open>cmd\<close> in \<open>parseexec\<close> points to the innermost command of \<open>ret\<close>.\<close>

fun set_argv :: "(nat \<times> nat) list \<Rightarrow> cmd \<Rightarrow> cmd" where
  "set_argv argv (ExecCmd _) = ExecCmd argv"
| "set_argv argv (RedirCmd c q eq mode fd) = RedirCmd (set_argv argv c) q eq mode fd"
| "set_argv argv c = c"

function parseargs :: "u8 list \<Rightarrow> nat \<Rightarrow> (nat \<times> nat) list \<Rightarrow> cmd \<Rightarrow> (cmd \<times> nat) res" where
  "parseargs s i argv ret =
     (case peek s i [BAR, RPAR, AMP, SEMI] of (b, i1) \<Rightarrow>
        if b then Ok (set_argv argv ret, i1)
        else case gettoken s i1 of (tok, q, eq, i2) \<Rightarrow>
          if tok = TEnd then Ok (set_argv argv ret, i2)
          else if tok \<noteq> TWord then Panic ''syntax''
          else if MAXARGS \<le> length argv + 1 then Panic ''too many args''
          else kbind (parseredirs s i2 ret) (\<lambda>(ret, i3). parseargs s i3 (argv @ [(q, eq)]) ret))"
  by pat_completeness auto
termination
proof (relation "measure (\<lambda>(s, i, argv, ret). length s - i)", goal_cases)
  case (2 s i argv ret b i1 tok y q z eq i2 x ret' i3)
  then have "i1 < i2" "i2 \<le> length s" using gettoken_progress [of s i1 tok q eq i2] by simp_all
  moreover have "i \<le> i1" using peek_bounds(1) 2(1) by metis
  moreover have "i2 \<le> i3" using parseredirs_bounds [of s i2 ret ret' i3] 2 by simp
  ultimately show ?case by simp
qed simp

declare parseargs.simps [simp del]

text \<open>The loop of \<open>parseline\<close> over \<open>&\<close>.\<close>

function back_loop :: "u8 list \<Rightarrow> nat \<Rightarrow> cmd \<Rightarrow> cmd \<times> nat" where
  "back_loop s i c =
     (case peek s i [AMP] of (b, i1) \<Rightarrow>
        if b then case gettoken s i1 of (_, _, _, i2) \<Rightarrow> back_loop s i2 (BackCmd c) else (c, i1))"
  by pat_completeness auto
termination
proof (relation "measure (\<lambda>(s, i, c). length s - i)", goal_cases)
  case (2 s i c b i1 tok y q z eq i2)
  then show ?case using peek_gettoken [of s i "[AMP]" i1 tok q eq i2] by simp
qed simp

declare back_loop.simps [simp del]

definition obind :: "'a res option \<Rightarrow> ('a \<Rightarrow> 'b res option) \<Rightarrow> 'b res option" where
  "obind m f = (case m of None \<Rightarrow> None | Some (Ok x) \<Rightarrow> f x | Some (Panic e) \<Rightarrow> Some (Panic e) | Some Sleeps \<Rightarrow> Some Sleeps | Some Undef \<Rightarrow> Some Undef)"

fun parseline :: "nat \<Rightarrow> u8 list \<Rightarrow> nat \<Rightarrow> (cmd \<times> nat) res option"
and parsepipe :: "nat \<Rightarrow> u8 list \<Rightarrow> nat \<Rightarrow> (cmd \<times> nat) res option"
and parseexec :: "nat \<Rightarrow> u8 list \<Rightarrow> nat \<Rightarrow> (cmd \<times> nat) res option"
and parseblock :: "nat \<Rightarrow> u8 list \<Rightarrow> nat \<Rightarrow> (cmd \<times> nat) res option" where
  "parseline 0 s i = None"
| "parseline (Suc f) s i =
     obind (parsepipe f s i) (\<lambda>(c, i).
       case back_loop s i c of (c, i) \<Rightarrow>
         case peek s i [SEMI] of (b, i) \<Rightarrow>
           if b then case gettoken s i of (_, _, _, i) \<Rightarrow>
             obind (parseline f s i) (\<lambda>(d, i). Some (Ok (ListCmd c d, i)))
           else Some (Ok (c, i)))"
| "parsepipe 0 s i = None"
| "parsepipe (Suc f) s i =
     obind (parseexec f s i) (\<lambda>(c, i).
       case peek s i [BAR] of (b, i) \<Rightarrow>
         if b then case gettoken s i of (_, _, _, i) \<Rightarrow>
           obind (parsepipe f s i) (\<lambda>(d, i). Some (Ok (PipeCmd c d, i)))
         else Some (Ok (c, i)))"
| "parseexec 0 s i = None"
| "parseexec (Suc f) s i =
     (case peek s i [LPAR] of (b, i) \<Rightarrow>
        if b then parseblock f s i
        else Some (kbind (parseredirs s i (ExecCmd [])) (\<lambda>(ret, i). parseargs s i [] ret)))"
| "parseblock 0 s i = None"
| "parseblock (Suc f) s i =
     (case peek s i [LPAR] of (b, i) \<Rightarrow>
        if \<not> b then Some (Panic ''parseblock'')
        else case gettoken s i of (_, _, _, i) \<Rightarrow>
          obind (parseline f s i) (\<lambda>(c, i).
            case peek s i [RPAR] of (b, i) \<Rightarrow>
              if \<not> b then Some (Panic ''syntax - missing )'')
              else case gettoken s i of (_, _, _, i) \<Rightarrow> Some (parseredirs s i c)))"

text \<open>The zeros behind the words of a command.\<close>

fun nulterminate :: "cmd \<Rightarrow> u8 list \<Rightarrow> u8 list" where
  "nulterminate (ExecCmd argv) buf = fold (\<lambda>(q, eq) buf. buf[eq := 0]) argv buf"
| "nulterminate (RedirCmd c q eq mode fd) buf = (nulterminate c buf)[eq := 0]"
| "nulterminate (PipeCmd c d) buf = nulterminate d (nulterminate c buf)"
| "nulterminate (ListCmd c d) buf = nulterminate d (nulterminate c buf)"
| "nulterminate (BackCmd c) buf = nulterminate c buf"

text \<open>\<open>parsecmd\<close>: the command, and the buffer with the line as \<open>nulterminate\<close> leaves it. Each round through the four functions consumes a byte.\<close>

definition parsecmd :: "u8 list \<Rightarrow> (cmd \<times> u8 list) res option" where
  "parsecmd s =
     obind (parseline (4 * length s + 4) s 0) (\<lambda>(c, i).
       case peek s i [] of (_, i) \<Rightarrow>
         Some (if i \<noteq> length s then Panic ''syntax'' else Ok (c, nulterminate c (s @ [0]))))"

section \<open>What the parser returns\<close>

text \<open>The words a command refers to, and what it means to be one: a non-empty stretch of the line without blanks and symbols that cannot be extended.\<close>

fun words :: "cmd \<Rightarrow> (nat \<times> nat) list" where
  "words (ExecCmd argv) = argv"
| "words (RedirCmd c q eq mode fd) = words c @ [(q, eq)]"
| "words (PipeCmd c d) = words c @ words d"
| "words (ListCmd c d) = words c @ words d"
| "words (BackCmd c) = words c"

definition wchar :: "u8 \<Rightarrow> bool" where
  "wchar c \<longleftrightarrow> c \<notin> set whitespace \<and> c \<notin> set symbols"

definition is_word :: "u8 list \<Rightarrow> nat \<times> nat \<Rightarrow> bool" where
  "is_word s = (\<lambda>(q, eq). q < eq \<and> eq \<le> length s \<and> (\<forall>j \<in> {q..<eq}. wchar (s ! j)) \<and> (eq < length s \<longrightarrow> \<not> wchar (s ! eq)))"

text \<open>The arguments leave room in \<open>argv\<close> for the null pointer.\<close>

fun args_fit :: "cmd \<Rightarrow> bool" where
  "args_fit (ExecCmd argv) \<longleftrightarrow> length argv < MAXARGS"
| "args_fit (RedirCmd c q eq mode fd) \<longleftrightarrow> args_fit c"
| "args_fit (PipeCmd c d) \<longleftrightarrow> args_fit c \<and> args_fit d"
| "args_fit (ListCmd c d) \<longleftrightarrow> args_fit c \<and> args_fit d"
| "args_fit (BackCmd c) \<longleftrightarrow> args_fit c"

definition cmd_ok :: "u8 list \<Rightarrow> cmd \<Rightarrow> bool" where
  "cmd_ok s c \<longleftrightarrow> args_fit c \<and> (\<forall>w \<in> set (words c). is_word s w)"

definition syntax_errors :: "string list" where
  "syntax_errors = [''syntax'', ''missing file for redirection'', ''too many args'', ''syntax - missing )'']"

definition parsed :: "u8 list \<Rightarrow> nat \<Rightarrow> (cmd \<times> nat) res \<Rightarrow> bool" where
  "parsed s i r \<longleftrightarrow> (case r of Ok (c, j) \<Rightarrow> i \<le> j \<and> j \<le> length s \<and> cmd_ok s c | Panic e \<Rightarrow> e \<in> set syntax_errors | _ \<Rightarrow> False)"

lemma cmd_ok_simps [simp]:
  "cmd_ok s (ExecCmd argv) \<longleftrightarrow> length argv < MAXARGS \<and> (\<forall>w \<in> set argv. is_word s w)"
  "cmd_ok s (RedirCmd c q eq mode fd) \<longleftrightarrow> cmd_ok s c \<and> is_word s (q, eq)"
  "cmd_ok s (PipeCmd c d) \<longleftrightarrow> cmd_ok s c \<and> cmd_ok s d"
  "cmd_ok s (ListCmd c d) \<longleftrightarrow> cmd_ok s c \<and> cmd_ok s d"
  "cmd_ok s (BackCmd c) \<longleftrightarrow> cmd_ok s c"
  by (auto simp: cmd_ok_def)

lemma parsed_simps [simp]:
  "parsed s i (Ok (c, j)) \<longleftrightarrow> i \<le> j \<and> j \<le> length s \<and> cmd_ok s c"
  "parsed s i (Panic e) \<longleftrightarrow> e \<in> set syntax_errors" "\<not> parsed s i Sleeps" "\<not> parsed s i Undef"
  by (simp_all add: parsed_def)

lemma parsed_mono: "parsed s j r \<Longrightarrow> i \<le> j \<Longrightarrow> parsed s i r"
  by (cases r) auto

lemma parsed_kbind:
  assumes "parsed s i m" "\<And>c j. i \<le> j \<Longrightarrow> j \<le> length s \<Longrightarrow> cmd_ok s c \<Longrightarrow> parsed s j (f (c, j))"
  shows "parsed s i (kbind m f)"
proof (cases m)
  case (Ok r)
  obtain c j where r: "r = (c, j)" by (cases r)
  then have j: "i \<le> j" "j \<le> length s" "cmd_ok s c" using assms(1) Ok by simp_all
  show ?thesis using parsed_mono [OF assms(2) [OF j] j(1)] Ok r by simp
qed (use assms in simp_all)

lemma cmd_ok_set_argv: "cmd_ok s c \<Longrightarrow> cmd_ok s (ExecCmd argv) \<Longrightarrow> cmd_ok s (set_argv argv c)"
  by (induction argv c rule: set_argv.induct) simp_all

lemma gettoken_word:
  assumes "gettoken s i = (TWord, q, eq, j)" shows "is_word s (q, eq)"
proof -
  have q: "q = skip_blanks s i" and e: "eq = skip_word s q" and c: "char_at s q \<noteq> 0"
    and sym: "char_at s q \<noteq> BAR" "char_at s q \<noteq> LPAR" "char_at s q \<noteq> RPAR" "char_at s q \<noteq> SEMI"
      "char_at s q \<noteq> AMP" "char_at s q \<noteq> LT" "char_at s q \<noteq> GT"
    using assms by (auto simp: gettoken_def Let_def split: if_splits prod.splits)
  have l: "q < length s" using c by (rule char_at_nonzero)
  have "s ! q \<notin> set symbols" using sym l by (auto simp: char_at_def symbols_def)
  moreover have "s ! q \<notin> set whitespace" using skip_blanks_bounds(4) [of s i] l q by simp
  ultimately have "eq = skip_word s (Suc q)" unfolding e using l by (subst skip_word.simps) simp
  then have "q < eq" using skip_word_bounds(1) [of "Suc q" s] by simp
  then show ?thesis using skip_word_bounds(2) [of q s] skip_word_bounds(3) [of q _ s] skip_word_bounds(4) [of s q] l e by (auto simp: is_word_def wchar_def)
qed

lemma peek_le: "peek s i toks = (b, j) \<Longrightarrow> i \<le> length s \<Longrightarrow> i \<le> j \<and> j \<le> length s"
  using peek_bounds(1,2) by blast

lemma parseredirs_parsed: "i \<le> length s \<Longrightarrow> cmd_ok s c \<Longrightarrow> parsed s i (parseredirs s i c)"
proof (induction s i c rule: parseredirs.induct)
  case (1 s i c)
  obtain b i1 where p: "peek s i [LT, GT] = (b, i1)" by (cases "peek s i [LT, GT]")
  obtain tok q1 e1 i2 where t: "gettoken s i1 = (tok, q1, e1, i2)" by (metis prod_cases4)
  obtain w q eq i3 where w: "gettoken s i2 = (w, q, eq, i3)" by (metis prod_cases4)
  show ?case
  proof (cases "b \<and> w = TWord")
    case True
    then have w': "gettoken s i2 = (TWord, q, eq, i3)" and b: "b" and p': "peek s i [LT, GT] = (True, i1)" using w p by simp_all
    have "cmd_ok s (redir tok c q eq)" using gettoken_word [OF w'] "1.prems" by (simp add: redir_def)
    moreover have "i < i3" "i3 \<le> length s" using redir_progress [OF p' t w'] by simp_all
    ultimately have "parsed s i (parseredirs s i3 (redir tok c q eq))"
      using "1.IH" [OF p [symmetric] _ t [symmetric] refl refl w [symmetric] refl refl] True
      by (auto intro!: parsed_mono [of s i3])
    then show ?thesis using p' t w' by (subst parseredirs.simps) simp
  next
    case False
    then show ?thesis using p t w "1.prems" peek_le [OF p] by (subst parseredirs.simps) (auto simp: syntax_errors_def)
  qed
qed

lemma parseargs_parsed:
  "i \<le> length s \<Longrightarrow> cmd_ok s ret \<Longrightarrow> cmd_ok s (ExecCmd argv) \<Longrightarrow> parsed s i (parseargs s i argv ret)"
proof (induction s i argv ret rule: parseargs.induct)
  case (1 s i argv ret)
  obtain b i1 where p: "peek s i [BAR, RPAR, AMP, SEMI] = (b, i1)" by (cases "peek s i [BAR, RPAR, AMP, SEMI]")
  obtain tok q eq i2 where t: "gettoken s i1 = (tok, q, eq, i2)" by (metis prod_cases4)
  have i1: "i \<le> i1" "i1 \<le> length s" using peek_le [OF p] "1.prems" by simp_all
  consider "b" | "\<not> b" "tok = TEnd" | "\<not> b" "tok \<noteq> TEnd" "tok \<noteq> TWord \<or> MAXARGS \<le> length argv + 1"
    | "\<not> b" "tok = TWord" "length argv + 1 < MAXARGS" by fastforce
  then show ?case
  proof cases
    case 1
    then show ?thesis using p i1 "1.prems" cmd_ok_set_argv by (subst parseargs.simps) simp
  next
    case 2
    then have "i1 \<le> i2 \<and> i2 \<le> length s" using t i1 skip_blanks_bounds(1,2) [of i1 s] skip_blanks_bounds(1,2) [of "skip_blanks s i1" s]
      by (auto simp: gettoken_def Let_def split: if_splits prod.splits)
    then show ?thesis using 2 p t i1 "1.prems" cmd_ok_set_argv by (subst parseargs.simps) simp
  next
    case 3
    then show ?thesis using p t by (subst parseargs.simps) (auto simp: syntax_errors_def)
  next
    case 4
    have i2: "i1 < i2" "i2 \<le> length s" using gettoken_progress [OF t] 4 by simp_all
    have "parsed s i2 (kbind (parseredirs s i2 ret) (\<lambda>(ret, i3). parseargs s i3 (argv @ [(q, eq)]) ret))"
    proof (cases "parseredirs s i2 ret")
      case (Ok r)
      obtain ret' i3 where r: "r = (ret', i3)" by (cases r)
      have o: "i2 \<le> i3" "i3 \<le> length s" "cmd_ok s ret'" using parseredirs_parsed [of i2 s ret] i2 "1.prems" Ok r by simp_all
      have "cmd_ok s (ExecCmd (argv @ [(q, eq)]))" using "1.prems" 4 gettoken_word [of s i1 q eq i2] t by auto
      then have "parsed s i3 (parseargs s i3 (argv @ [(q, eq)]) ret')"
        using "1.IH" [OF p [symmetric] _ t [symmetric] refl refl _ _ _ Ok r [symmetric]] 4 o by simp
      then show ?thesis using Ok r parsed_mono [OF _ o(1)] by simp
    qed (use parseredirs_parsed [of i2 s ret] i2 "1.prems" in simp_all)
    then have "parsed s i (kbind (parseredirs s i2 ret) (\<lambda>(ret, i3). parseargs s i3 (argv @ [(q, eq)]) ret))"
      by (rule parsed_mono) (use i1 i2 in simp)
    then show ?thesis using p t 4 by (subst parseargs.simps) simp
  qed
qed

definition oparsed :: "u8 list \<Rightarrow> nat \<Rightarrow> (cmd \<times> nat) res option \<Rightarrow> bool" where
  "oparsed s i r \<longleftrightarrow> (case r of None \<Rightarrow> False | Some r \<Rightarrow> parsed s i r)"

lemma oparsed_Some [simp]: "oparsed s i (Some r) = parsed s i r"
  by (simp add: oparsed_def)

lemma oparsed_mono: "oparsed s j r \<Longrightarrow> i \<le> j \<Longrightarrow> oparsed s i r"
  by (cases r) (auto simp: oparsed_def intro: parsed_mono)

lemma oparsed_obind:
  assumes m: "oparsed s k m" and f: "\<And>c j. k \<le> j \<Longrightarrow> j \<le> length s \<Longrightarrow> cmd_ok s c \<Longrightarrow> oparsed s i (f (c, j))"
  shows "oparsed s i (obind m f)"
proof (cases m)
  case (Some r)
  show ?thesis
  proof (cases r)
    case (Ok x)
    obtain c j where x: "x = (c, j)" by (cases x)
    show ?thesis using f [of j c] m Some Ok x by (simp add: obind_def)
  qed (use m Some in \<open>simp_all add: obind_def\<close>)
qed (use m in \<open>simp add: oparsed_def\<close>)

lemma back_loop_ok:
  "i \<le> length s \<Longrightarrow> cmd_ok s c \<Longrightarrow> back_loop s i c = (c', j) \<Longrightarrow> i \<le> j \<and> j \<le> length s \<and> cmd_ok s c'"
proof (induction s i c rule: back_loop.induct)
  case (1 s i c)
  obtain b i1 where p: "peek s i [AMP] = (b, i1)" by (cases "peek s i [AMP]")
  obtain tok q eq i2 where t: "gettoken s i1 = (tok, q, eq, i2)" by (metis prod_cases4)
  show ?case
  proof (cases b)
    case True
    then have g: "i \<le> i1" "i1 < i2" "i2 \<le> length s" using peek_gettoken [OF _ t, of i "[AMP]"] p by simp_all
    have "back_loop s i2 (BackCmd c) = (c', j)" using "1.prems" p t True by (subst (asm) back_loop.simps) simp
    then show ?thesis using "1.IH" [OF p [symmetric] _ t [symmetric] refl refl] True g "1.prems" by simp
  next
    case False
    then show ?thesis using "1.prems" p peek_le [OF p] by (subst (asm) back_loop.simps) simp
  qed
qed

lemma peek_again: "peek s i toks = (b, j) \<Longrightarrow> peek s j toks = (b, j)"
  using peek_bounds(4) [of s i toks b j] by (auto simp: peek_def Let_def)

text \<open>A symbol that was seen ahead is consumed.\<close>

lemma oparsed_symbol:
  assumes i: "i \<le> length s"
    and t: "\<And>k. i < k \<Longrightarrow> k \<le> length s \<Longrightarrow> oparsed s l (f k)"
    and e: "\<And>j. i \<le> j \<Longrightarrow> j \<le> length s \<Longrightarrow> oparsed s l (g j)"
  shows "oparsed s l (case peek s i toks of (b, j) \<Rightarrow> if b then (case gettoken s j of (_, _, _, k) \<Rightarrow> f k) else g j)"
proof -
  obtain b j where p: "peek s i toks = (b, j)" by (cases "peek s i toks")
  obtain tok q eq k where g: "gettoken s j = (tok, q, eq, k)" by (metis prod_cases4)
  show ?thesis
  proof (cases b)
    case True
    then show ?thesis using peek_gettoken [OF _ g, of i toks] p g t [of k] by simp
  next
    case False
    then show ?thesis using peek_le [OF p i] p e [of j] by (simp add: False)
  qed
qed

lemma if_negated: "(if \<not> b then x else y) = (if b then y else x)"
  by simp

lemma parse_total:
  "i \<le> length s \<Longrightarrow> 4 * (length s - i) + 4 \<le> f \<Longrightarrow> oparsed s i (parseline f s i)"
  "i \<le> length s \<Longrightarrow> 4 * (length s - i) + 3 \<le> f \<Longrightarrow> oparsed s i (parsepipe f s i)"
  "i \<le> length s \<Longrightarrow> 4 * (length s - i) + 2 \<le> f \<Longrightarrow> oparsed s i (parseexec f s i)"
  "peek s i [LPAR] = (True, i) \<Longrightarrow> 4 * (length s - i) + 1 \<le> f \<Longrightarrow> oparsed s i (parseblock f s i)"
proof (induction f arbitrary: i)
  case (Suc f)
  show "oparsed s i (parseline (Suc f) s i)" if i: "i \<le> length s" and f: "4 * (length s - i) + 4 \<le> Suc f" for i
  proof -
    have t: "oparsed s i (obind (parseline f s k) (\<lambda>(d, i). Some (Ok (ListCmd c d, i))))" if "i < k" "k \<le> length s" "cmd_ok s c" for c k
      by (rule oparsed_obind [OF Suc.IH(1)]) (use that f in simp_all)
    have "oparsed s i (case back_loop s j c of (c, i) \<Rightarrow> case peek s i [SEMI] of (b, i) \<Rightarrow>
        if b then case gettoken s i of (_, _, _, i) \<Rightarrow> obind (parseline f s i) (\<lambda>(d, i). Some (Ok (ListCmd c d, i))) else Some (Ok (c, i)))"
      if j: "i \<le> j" "j \<le> length s" "cmd_ok s c" for c j
    proof -
      obtain c' k where b: "back_loop s j c = (c', k)" by (cases "back_loop s j c")
      show ?thesis using back_loop_ok [OF j(2,3) b] j(1) t [of _ c'] by (simp add: b) (rule oparsed_symbol, simp_all)
    qed
    then show ?thesis by simp (rule oparsed_obind [OF Suc.IH(2)], use i f in simp_all)
  qed
  show "oparsed s i (parsepipe (Suc f) s i)" if i: "i \<le> length s" and f: "4 * (length s - i) + 3 \<le> Suc f" for i
  proof -
    have t: "oparsed s i (obind (parsepipe f s k) (\<lambda>(d, i). Some (Ok (PipeCmd c d, i))))" if "i < k" "k \<le> length s" "cmd_ok s c" for c k
      by (rule oparsed_obind [OF Suc.IH(2)]) (use that f in simp_all)
    have "oparsed s i (case peek s j [BAR] of (b, i) \<Rightarrow>
        if b then case gettoken s i of (_, _, _, i) \<Rightarrow> obind (parsepipe f s i) (\<lambda>(d, i). Some (Ok (PipeCmd c d, i))) else Some (Ok (c, i)))"
      if "i \<le> j" "j \<le> length s" "cmd_ok s c" for c j
      by (rule oparsed_symbol) (use that t [of _ c] in simp_all)
    then show ?thesis by simp (rule oparsed_obind [OF Suc.IH(3)], use i f in simp_all)
  qed
  show "oparsed s i (parseexec (Suc f) s i)" if i: "i \<le> length s" and f: "4 * (length s - i) + 2 \<le> Suc f" for i
  proof -
    obtain b j where p: "peek s i [LPAR] = (b, j)" by (cases "peek s i [LPAR]")
    have j: "i \<le> j" "j \<le> length s" using peek_le [OF p i] by simp_all
    have "oparsed s j (parseblock f s j)" if b using Suc.IH(4) [of j] peek_again [OF p] that f j by simp
    moreover have "parsed s j (kbind (parseredirs s j (ExecCmd [])) (\<lambda>(ret, i). parseargs s i [] ret))"
      by (rule parsed_kbind [OF parseredirs_parsed]) (use j parseargs_parsed [where argv = "[]"] in simp_all)
    ultimately show ?thesis using p parsed_mono [OF _ j(1)] oparsed_mono [OF _ j(1)] by simp
  qed
  show "oparsed s i (parseblock (Suc f) s i)" if p: "peek s i [LPAR] = (True, i)" and f: "4 * (length s - i) + 1 \<le> Suc f" for i
  proof -
    obtain tok q eq k where g: "gettoken s i = (tok, q, eq, k)" by (metis prod_cases4)
    have k: "i < k" "k \<le> length s" using peek_gettoken [OF p g] by simp_all
    have "oparsed s i (case peek s j [RPAR] of (b, i) \<Rightarrow>
        if b then case gettoken s i of (_, _, _, i) \<Rightarrow> Some (parseredirs s i c) else Some (Panic ''syntax - missing )''))"
      if "k \<le> j" "j \<le> length s" "cmd_ok s c" for c j
    proof (rule oparsed_symbol [OF that(2)])
      show "oparsed s i (Some (parseredirs s m c))" if "j < m" "m \<le> length s" for m
        using parsed_mono [OF parseredirs_parsed, of m s c i] that k \<open>k \<le> j\<close> \<open>cmd_ok s c\<close> by simp
    qed (simp add: syntax_errors_def)
    then have "oparsed s i (obind (parseline f s k) (\<lambda>(c, i). case peek s i [RPAR] of (b, i) \<Rightarrow>
        if b then case gettoken s i of (_, _, _, i) \<Rightarrow> Some (parseredirs s i c) else Some (Panic ''syntax - missing )'')))"
      by (intro oparsed_obind [OF Suc.IH(1)]) (use k f in simp_all)
    then show ?thesis using p g by (simp add: if_negated)
  qed
qed simp_all

lemma parsecmd_cases:
  obtains e where "e \<in> set syntax_errors" "parsecmd s = Some (Panic e)"
  | c where "cmd_ok s c" "parsecmd s = Some (Ok (c, nulterminate c (s @ [0])))"
proof -
  have o: "oparsed s 0 (parseline (4 * length s + 4) s 0)" by (rule parse_total(1)) simp_all
  then obtain r where r: "parseline (4 * length s + 4) s 0 = Some r" "parsed s 0 r"
    by (cases "parseline (4 * length s + 4) s 0") (auto simp: oparsed_def)
  show ?thesis
  proof (cases r)
    case (Ok x)
    obtain c i where x: "x = (c, i)" by (cases x)
    obtain b j where "peek s i [] = (b, j)" by (cases "peek s i []")
    then show ?thesis using that r Ok x by (cases "j = length s") (auto simp: parsecmd_def obind_def syntax_errors_def)
  next
    case (Panic e)
    then show ?thesis using that(1) r by (simp add: parsecmd_def obind_def)
  qed (use r in simp_all)
qed

section \<open>The words after \<open>nulterminate\<close>\<close>

lemma update_nth: "j < length xs \<Longrightarrow> xs[i := v] ! j = (if j = i then v else xs ! j)"
  by (cases "j = i") simp_all

lemma fold_zero_nth:
  "length (fold (\<lambda>(q, eq) buf. buf[eq := 0]) ws buf) = length buf"
  "j < length buf \<Longrightarrow> fold (\<lambda>(q, eq) buf. buf[eq := (0 :: u8)]) ws buf ! j = (if j \<in> snd ` set ws then 0 else buf ! j)"
  by (induction ws arbitrary: buf) (simp_all add: case_prod_unfold update_nth)

lemma nulterminate_nth:
  "length (nulterminate c buf) = length buf"
  "j < length buf \<Longrightarrow> nulterminate c buf ! j = (if j \<in> snd ` set (words c) then 0 else buf ! j)"
  by (induction c arbitrary: buf) (simp_all add: fold_zero_nth update_nth image_Un)

text \<open>The C string that starts at an index of a buffer.\<close>

definition cstr :: "u8 list \<Rightarrow> nat \<Rightarrow> u8 list" where
  "cstr buf q = takeWhile (\<lambda>c. c \<noteq> 0) (drop q buf)"

lemma cstr_eqI:
  assumes "q \<le> e" "e < length buf" "buf ! e = 0" "\<And>j. q \<le> j \<Longrightarrow> j < e \<Longrightarrow> buf ! j = s ! j \<and> s ! j \<noteq> 0" "e \<le> length s"
  shows "cstr buf q = take (e - q) (drop q s)"
proof -
  have "takeWhile (\<lambda>c. c \<noteq> 0) (drop q buf) = take (e - q) (drop q buf)"
    by (rule takeWhile_eq_take_P_nth) (use assms in auto)
  also have "\<dots> = take (e - q) (drop q s)" by (rule nth_equalityI) (use assms in auto)
  finally show ?thesis by (simp add: cstr_def)
qed

lemma nulterminate_words:
  assumes c: "cmd_ok s c" and w: "(q, eq) \<in> set (words c)" and z: "0 \<notin> set s"
  shows "cstr (nulterminate c (s @ [0])) q = take (eq - q) (drop q s)"
proof -
  have W: "is_word s w" if "w \<in> set (words c)" for w using c that by (simp add: cmd_ok_def)
  have qe: "q < eq" "eq \<le> length s" using W [OF w] by (simp_all add: is_word_def)
  show ?thesis
  proof (rule cstr_eqI)
    show "nulterminate c (s @ [0]) ! eq = 0" using w qe by (force simp: nulterminate_nth)
    fix j assume j: "q \<le> j" "j < eq"
    have "j \<notin> snd ` set (words c)"
    proof
      assume "j \<in> snd ` set (words c)"
      then obtain q' where "(q', j) \<in> set (words c)" by auto
      then show False using W W [OF w] j qe by (fastforce simp: is_word_def)
    qed
    moreover have "s ! j \<noteq> 0" using z j qe by (metis less_le_trans nth_mem)
    ultimately show "nulterminate c (s @ [0]) ! j = s ! j \<and> s ! j \<noteq> 0" using j qe by (simp add: nulterminate_nth nth_append)
  qed (use qe in \<open>simp_all add: nulterminate_nth\<close>)
qed

text \<open>C38. The parser of the shell returns for every line: the recursion through \<open>parseline\<close>, \<open>parsepipe\<close>, \<open>parseexec\<close> and \<open>parseblock\<close> and the loops inside them end.
  Either there is a command, or the shell stops with one of the four messages about the line; \<open>panic("parseblock")\<close> is unreachable.\<close>

theorem parsecmd_returns:
  "(\<exists>c buf. parsecmd s = Some (Ok (c, buf)))
   \<or> (\<exists>e. e \<in> set [''syntax'', ''missing file for redirection'', ''too many args'', ''syntax - missing )''] \<and> parsecmd s = Some (Panic e))"
  by (rule parsecmd_cases [of s]) (auto simp: syntax_errors_def)


text \<open>The line \<open>(c d<a|w)&\<close>.\<close>

lemma demo_line:
  "parsecmd [40, 99, 32, 100, 60, 97, 124, 119, 41, 38] =
     Some (Ok (BackCmd (PipeCmd (RedirCmd (ExecCmd [(1, 2), (3, 4)]) 5 6 0 0) (ExecCmd [(7, 8)])),
               [40, 99, 0, 100, 0, 97, 0, 119, 0, 38, 0]))"
  by code_simp


end
