(* ===== verification/Spec2Isabelle.thy ===== *)
theory Spec2Isabelle
  imports Trap Faults User_Access Dirs Grep Mp Shell
begin

text \<open>
  xv6, a small Unix kernel in C, with the hooks of a homework on fair scheduling (\<^verbatim>\<open>src/xv6-public\<close>; the files
  \<^verbatim>\<open>src/proc.c\<close> and \<^verbatim>\<open>src/proc.h\<close> above it are the template of the homework).

  \<^bold>\<open>The program and its model.\<close> The kernel is a stack of components, and so is the development: a theory per
  component, each importing those it calls. A C function is a HOL function of the same name on the state it works on; a loop of
  it is a recursive function with its termination proof (\<^verbatim>\<open>f_loop\<close>), a search a \<open>List.find\<close> or a fold (\<^verbatim>\<open>f_scan\<close>), and a
  block of it that is entered by a \<^verbatim>\<open>goto\<close> or shared by several exits a function of its own (\<^verbatim>\<open>f_bad\<close>). The result type of the
  kernel is \<open>'a res\<close> of \<^verbatim>\<open>Prelude\<close>: \<open>Ok\<close> with a value, \<open>Panic\<close> with the message of the C code, \<open>Sleeps\<close> where the code
  would block, and \<open>Undef\<close> where it leaves the C language (a null dereference, signed overflow, an index out of range); \<open>kbind\<close> and
  \<open>kfold\<close> sequence them. Machine integers are words of their width where wrap-around matters and \<open>int\<close> where the code
  compares signed values. The state is built by record extension: disk, buffer cache, log and file system (\<open>fs\<close>), and
  the kernel (\<open>kern\<close>) with the process table, CPUs, open files, pipes and physical memory.

  \<^item> \<^verbatim>\<open>Prelude\<close>: machine types, results, folds, little-endian words, byte memories.
  \<^item> \<^verbatim>\<open>Strings\<close>: \<^verbatim>\<open>string.c\<close> and \<^verbatim>\<open>ulib.c\<close>. \<^verbatim>\<open>Printf\<close>: \<^verbatim>\<open>printf.c\<close> and the number printing of \<^verbatim>\<open>console.c\<close>.
  \<^item> \<^verbatim>\<open>Kalloc\<close>: \<^verbatim>\<open>kalloc.c\<close>; the free list lives in the free pages. The locale \<open>page_allocator\<close> is what clients rely on, interpreted
    on \<open>kalloc\<close> and \<open>kfree\<close>.
  \<^item> \<^verbatim>\<open>Locks\<close>: \<^verbatim>\<open>spinlock.c\<close> and \<^verbatim>\<open>sleeplock.c\<close>, with a step relation for CPUs that interleave between the atomic parts
    of \<open>acquire\<close> and \<open>release\<close>.
  \<^item> \<^verbatim>\<open>Ring\<close> and \<^verbatim>\<open>Pipe\<close>: \<^verbatim>\<open>pipe.c\<close>; the locale \<open>bounded_fifo\<close> is the contract of a ring with free-running indices, interpreted on
    the pipe's buffer.
  \<^item> \<^verbatim>\<open>Bio\<close>: \<^verbatim>\<open>memide.c\<close> and \<^verbatim>\<open>bio.c\<close>. \<^verbatim>\<open>Log\<close>: \<^verbatim>\<open>log.c\<close>. \<^verbatim>\<open>Layout\<close>: the on-disk structures of \<^verbatim>\<open>fs.h\<close>. \<^verbatim>\<open>Fs\<close>: \<^verbatim>\<open>fs.c\<close>.
    \<^verbatim>\<open>Blocks\<close>: reading, changing and releasing blocks inside a transaction, and \<open>balloc\<close> and \<open>bfree\<close> on the bitmap. \<^verbatim>\<open>Files\<close>: the block map of an inode, \<open>bmap\<close>,
    \<open>readi\<close>, \<open>writei\<close> and \<open>iupdate\<close> as operations on the bytes of files. \<^verbatim>\<open>Durable\<close>: files as they lie on the disk, and writes over crashes.
    \<^verbatim>\<open>Dirs\<close>: directories as maps from names to inode numbers, \<open>dirlookup\<close> and \<open>dirlink\<close>.
  \<^item> \<^verbatim>\<open>Vm\<close>: \<^verbatim>\<open>vm.c\<close> as operations on words of memory. \<^verbatim>\<open>Paging\<close>: what a page table means, the map \<open>lookup\<close> from page
    numbers to entries, and that \<open>mappages\<close>, \<open>allocuvm\<close>, \<open>deallocuvm\<close> and \<open>copyout\<close> implement operations on that map.
    \<^verbatim>\<open>Address_Space\<close>: \<open>freevm\<close>, \<open>setupkvm\<close> and \<open>copyuvm\<close>, with every page accounted for.
  \<^item> \<^verbatim>\<open>Console\<close>: \<^verbatim>\<open>console.c\<close>, \<^verbatim>\<open>kbd.c\<close> and the output half of \<^verbatim>\<open>uart.c\<close>.
  \<^item> \<^verbatim>\<open>Kern\<close>: the shared kernel state (\<^verbatim>\<open>proc.h\<close>, \<^verbatim>\<open>file.h\<close>). \<^verbatim>\<open>Proc\<close>: \<^verbatim>\<open>proc.c\<close>, cut where it calls \<open>swtch\<close>: what runs
    up to the switch is one definition and what runs after it another (\<^verbatim>\<open>f_resume\<close>). \<^verbatim>\<open>Life\<close>: \<open>userinit\<close>, \<open>fork\<close>, \<open>exit\<close>
    and \<^verbatim>\<open>exec.c\<close>. \<^verbatim>\<open>Sched_Tree\<close>: the red-black tree checks of \<^verbatim>\<open>proc.c\<close> and \<^verbatim>\<open>sysproc.c\<close>.
    \<^verbatim>\<open>Sched\<close>: a step relation for several CPUs over all of these.
  \<^item> \<^verbatim>\<open>File\<close>: \<^verbatim>\<open>file.c\<close>. \<^verbatim>\<open>Syscall\<close>: argument fetching of \<^verbatim>\<open>syscall.c\<close>. \<^verbatim>\<open>Sysfile\<close>: \<^verbatim>\<open>sysfile.c\<close>. \<^verbatim>\<open>Trap\<close>: \<^verbatim>\<open>sysproc.c\<close>,
    the dispatch table and \<^verbatim>\<open>trap.c\<close>. \<^verbatim>\<open>User_Access\<close>: what the checks of \<^verbatim>\<open>syscall.c\<close> guarantee. \<^verbatim>\<open>Faults\<close>: two error paths of \<^verbatim>\<open>proc.c\<close>.
  \<^item> \<^verbatim>\<open>Mp\<close>: \<^verbatim>\<open>mp.c\<close>, the tables the firmware leaves. \<^verbatim>\<open>Grep\<close>: \<^verbatim>\<open>grep.c\<close>. \<^verbatim>\<open>Shell\<close>: the parser of \<^verbatim>\<open>sh.c\<close>.

  \<^bold>\<open>What the theorems show.\<close>
  \<^item> Durability: a crash at any block write of a commit, and any number of interrupted recoveries after it, leave the old
    blocks or the new ones; the log never overflows under the reservation of one block less per call than the code makes,
    and does overflow under the one it makes.
  \<^item> Concurrency: mutual exclusion of spin locks, the buffer cache for any interleaving of its users, the pipe as a byte stream
    without lost wake-ups, and the scheduler, where a process runs on one CPU at a time and the process tree stays one.
  \<^item> Memory: the page allocator never hands out a page twice, page tables implement maps, a failed growth or copy loses no page and
    changes nothing that others own, and a forked child sees the bytes of its parent in frames of its own.
  \<^item> Input and output: the console implements a line editor on lists, never writes outside the screen, and number printing and
    \<open>atoi\<close> are inverse.
  \<^item> Files: a block is allocated once, a write changes exactly its range of bytes in its own file, and a read returns what was written. A write and the \<open>end_op\<close> after it
    take effect entirely or not at all whenever the machine stops. A name linked into a directory is found there, and no other name changes. An operation inside a transaction either
    has the result stated or panics with one of the messages of \<open>resource_panics\<close>: no buffer, no log space, no block, no inode slot; it never blocks on itself.
  \<^item> User programs and system calls: \<open>grep\<close> decides the language of its expressions and prints the matching lines, the shell's parser ends on every line and its words
    survive the termination in place, and the argument checks accept exactly what lies in the caller's memory.
  \<^item> Errors found in the code are theorems too, each about the code as it stands.

  \<^bold>\<open>Bounds and fuel.\<close> Searches through the buffer ring take \<open>NBUF + 1\<close> steps of fuel, one more than the ring has elements, and
  the ring invariant shows that they never run out. The parsing functions of the shell take four steps of fuel per byte of the line and four more, since each round through them consumes a byte; they never run out of it. Every other loop is total by its measure; the recursion
  through process pointers in \<^verbatim>\<open>Sched_Tree\<close> is a partial function whose value is \<open>None\<close> on a cyclic structure, and so is the loop of \<open>mpinit\<close>, which does not end on an unknown entry.

  \<^bold>\<open>Parameters.\<close> The addresses that the linker assigns and the embedded \<^verbatim>\<open>initcode\<close> are the fields of the record \<open>build\<close>; what
  the theorems assume of them (\<open>kdata_ok\<close>, the kernel's end above \<open>KERNBASE\<close>) is what \<^verbatim>\<open>kernel.ld\<close> arranges. The device switch is an argument
  of the file operations and instantiated with the console in \<^verbatim>\<open>Trap\<close>.

  \<^bold>\<open>Not modelled.\<close> Locks other than in \<^verbatim>\<open>Locks\<close>, \<^verbatim>\<open>Bio\<close>, \<^verbatim>\<open>Pipe\<close>, \<^verbatim>\<open>Log\<close>, \<^verbatim>\<open>Proc\<close> and \<^verbatim>\<open>Sched\<close> are held over whole functions and are
  left out there. Boot code, assembly and the programming of interrupt controllers, timers, the
  IDE controller and the serial port are effects on hardware that the C text does not determine. The fair scheduler of the
  template \<^verbatim>\<open>src/proc.c\<close> consists of empty functions, and the rest of that file repeats \<^verbatim>\<open>xv6-public/proc.c\<close>. Test programs and
  the small user programs are sequences of system calls, as are \<open>runcmd\<close> and \<open>main\<close> of the shell; \<^verbatim>\<open>umalloc.c\<close>, \<^verbatim>\<open>mkfs.c\<close> and \<^verbatim>\<open>wc.c\<close> are not modelled either.
\<close>

end
